(* ===== verification/CS_Prelude.thy ===== *)
theory CS_Prelude
  imports Main "HOL-Library.Word" "HOL-Library.Monad_Syntax"
begin

text \<open>
  Shared ground of the development: the machine types of the target, the faults a C program
  can run into, the result type of stateful C code, and the lemma collections the component
  theories feed.

  The target is the 32-bit ARM Android NDK build of \<^verbatim>\<open>src/jni\<close> (ILP32, little endian):
  \<open>int\<close>, \<open>long\<close>, \<open>size_t\<close> and pointers have 32 bits.
\<close>

unbundle bit_operations_syntax

section \<open>Machine types\<close>

type_synonym u8 = "8 word"
type_synonym u16 = "16 word"
type_synonym u32 = "32 word"

section \<open>Faults\<close>

text \<open>
  What C leaves undefined is a value of the model: every dereference, allocation access and
  buffer access of the modelled code either succeeds or ends in one of these.
\<close>

datatype fault =
    NullDeref     \<comment> \<open>a null pointer is dereferenced\<close>
  | UseAfterFree  \<comment> \<open>an address that is not allocated is read or written\<close>
  | DoubleFree    \<comment> \<open>\<open>free\<close> of an address that is not allocated\<close>
  | OutOfBounds   \<comment> \<open>an array or buffer is accessed outside its bounds\<close>
  | Uninitialised \<comment> \<open>a variable is read before it is written\<close>
  | AssertFailed  \<comment> \<open>the condition of an \<open>assert\<close> is false\<close>
  | Diverges      \<comment> \<open>a loop does not end\<close>
  | BadShift      \<comment> \<open>a shift by a negative amount, or by the width of the type or more\<close>

type_synonym 'a res = "fault + 'a"

definition rbind :: "'e + 'a \<Rightarrow> ('a \<Rightarrow> 'e + 'b) \<Rightarrow> 'e + 'b" where
  "rbind m f = (case m of Inl e \<Rightarrow> Inl e | Inr x \<Rightarrow> f x)"

lemma rbind_simps [simp]:
  "rbind (Inl e) f = Inl e"
  "rbind (Inr x) f = f x"
  by (simp_all add: rbind_def)

lemma rbind_eq_Inr_iff: "rbind m f = Inr y \<longleftrightarrow> (\<exists>x. m = Inr x \<and> f x = Inr y)"
  by (cases m) auto

text \<open>\<open>assert(b)\<close> followed by the rest of the function.\<close>

definition cassert :: "bool \<Rightarrow> 'a res \<Rightarrow> 'a res" where
  "cassert b k = (if b then k else Inl AssertFailed)"

lemma cassert_simps [simp]: "b \<Longrightarrow> cassert b k = k" "\<not> b \<Longrightarrow> cassert b k = Inl AssertFailed"
  by (simp_all add: cassert_def)

text \<open>
  Total correctness: the computation returns, without a fault, and its result satisfies \<open>Q\<close>. The
  rules compute the weakest precondition of a body from its parts.
\<close>

definition returns :: "'a res \<Rightarrow> ('a \<Rightarrow> bool) \<Rightarrow> bool" where
  "returns m Q \<longleftrightarrow> (\<exists>x. m = Inr x \<and> Q x)"

lemma returns_simps [simp]:
  "returns (Inr x) Q \<longleftrightarrow> Q x"
  "returns (Inl e) Q \<longleftrightarrow> False"
  "returns (rbind m f) Q \<longleftrightarrow> returns m (\<lambda>x. returns (f x) Q)"
  "returns (cassert b k) Q \<longleftrightarrow> b \<and> returns k Q"
  by (auto simp: returns_def rbind_eq_Inr_iff cassert_def)

lemma returns_mono: "returns m P \<Longrightarrow> (\<And>x. P x \<Longrightarrow> Q x) \<Longrightarrow> returns m Q"
  by (auto simp: returns_def)

lemma returns_bind: "returns m P \<Longrightarrow> (\<And>x. P x \<Longrightarrow> returns (f x) Q) \<Longrightarrow> returns (rbind m f) Q"
  by (auto simp: returns_def)

lemma returnsE:
  assumes "returns m Q"
  obtains x where "m = Inr x" "Q x"
  using assms by (auto simp: returns_def)

text \<open>A loop that fills an array from another one, element by element.\<close>

fun rmap :: "('a \<Rightarrow> 'b res) \<Rightarrow> 'a list \<Rightarrow> 'b list res" where
  "rmap f [] = Inr []"
| "rmap f (x # xs) = rbind (f x) (\<lambda>y. rbind (rmap f xs) (\<lambda>ys. Inr (y # ys)))"

lemma rmap_ok: "(\<And>x. x \<in> set xs \<Longrightarrow> \<exists>y. f x = Inr y \<and> P y) \<Longrightarrow> \<exists>ys. rmap f xs = Inr ys \<and> length ys = length xs \<and> list_all P ys"
proof (induction xs)
  case (Cons x xs)
  then obtain y ys where "f x = Inr y" "P y" "rmap f xs = Inr ys" "length ys = length xs" "list_all P ys"
    by fastforce
  then show ?case by simp
qed simp

lemma returns_rmap:
  "(\<And>x. x \<in> set xs \<Longrightarrow> returns (f x) P) \<Longrightarrow> returns (rmap f xs) (\<lambda>ys. length ys = length xs \<and> list_all P ys)"
  unfolding returns_def by (rule rmap_ok)

text \<open>A read of an array at an index the program computes.\<close>

definition aget :: "'a list \<Rightarrow> int \<Rightarrow> 'a res" where
  "aget xs i = (if 0 \<le> i \<and> i < int (length xs) then Inr (xs ! nat i) else Inl OutOfBounds)"

lemma returns_aget [simp]:
  "returns (aget xs i) Q \<longleftrightarrow> 0 \<le> i \<and> i < int (length xs) \<and> Q (xs ! nat i)"
  by (auto simp: returns_def aget_def)

definition aput :: "'a list \<Rightarrow> int \<Rightarrow> 'a \<Rightarrow> 'a list res" where
  "aput xs i v = (if 0 \<le> i \<and> i < int (length xs) then Inr (xs[nat i := v]) else Inl OutOfBounds)"

lemma returns_aput [simp]:
  "returns (aput xs i v) Q \<longleftrightarrow> 0 \<le> i \<and> i < int (length xs) \<and> Q (xs[nat i := v])"
  by (auto simp: returns_def aput_def)

text \<open>A buffer behind a pointer; \<open>None\<close> is the null pointer.\<close>

definition bufp :: "'a option \<Rightarrow> 'a res" where
  "bufp p = (case p of None \<Rightarrow> Inl NullDeref | Some b \<Rightarrow> Inr b)"

lemma returns_bufp [simp]: "returns (bufp p) Q \<longleftrightarrow> (\<exists>b. p = Some b \<and> Q b)"
  by (auto simp: returns_def bufp_def split: option.splits)

section \<open>Collections\<close>

text \<open>
  \<open>heap_simps\<close> rewrites accesses to the linked list of the packet filter;
  \<open>clib_simps\<close> holds the laws of the C library functions the code calls.
\<close>

named_theorems heap_simps
named_theorems clib_simps

section \<open>Lists\<close>

lemma takeWhile_dropWhile_split:
  assumes "list_all P xs" and "ys = [] \<or> \<not> P (hd ys)"
  shows "takeWhile P (xs @ ys) = xs" and "dropWhile P (xs @ ys) = ys"
  using assms by (induction xs; cases ys; auto)+

lemma filter_eq_dropWhile_sorted:
  assumes "sorted (map f xs)" and "\<And>x y. P x \<Longrightarrow> f x \<le> f y \<Longrightarrow> P y"
  shows "filter P xs = dropWhile (\<lambda>x. \<not> P x) xs"
  using assms
proof (induction xs)
  case (Cons a xs)
  show ?case
  proof (cases "P a")
    case True
    with Cons.prems have "\<forall>x\<in>set xs. P x" by auto
    then have "filter P xs = xs" by (simp add: filter_id_conv)
    with True show ?thesis by simp
  next
    case False
    with Cons show ?thesis by simp
  qed
qed simp

lemma int_le_div: "0 < d \<Longrightarrow> n * d \<le> m \<Longrightarrow> n \<le> m div (d :: int)"
  using zdiv_mono1 [of "n * d" m d] by simp

lemma int_div_less:
  fixes m n d :: int
  assumes "0 < d" "m < n * d"
  shows "m div d < n"
proof (rule ccontr)
  assume "\<not> m div d < n"
  then have "n * d \<le> (m div d) * d" using assms(1) by (intro mult_right_mono) auto
  also have "\<dots> \<le> m" using div_mult_mod_eq [of m d] pos_mod_sign [OF assms(1), of m] by linarith
  finally show False using assms(2) by simp
qed

end
