(* ===== verification/Ipq_History.thy ===== *)
theory Ipq_History
  imports CS_Prelude
begin

text \<open>
  The authorisation history of the packet filter, \<^verbatim>\<open>src/jni/ipqserver/server.c\<close>: a singly
  linked list of \<open>struct history_element\<close> with the global pointers \<open>head\<close> and \<open>curr\<close> (its last
  element). The heap is explicit, a partial map from addresses to elements: an address outside
  its domain is unallocated, so that a use after \<open>free\<close> and a null dereference are faults of the
  model. \<open>malloc\<close> is the argument \<open>m\<close> of the operations that allocate: \<open>None\<close> for a failed
  allocation, otherwise the address it returned. \<open>time\<close> is the argument \<open>now\<close>. Times are values of
  \<open>time_t\<close>, which has 32 bits on the target, so that adding \<open>TIMEVALIDITY\<close> wraps around.
\<close>

section \<open>Data\<close>

definition TIMEVALIDITY :: int where "TIMEVALIDITY = 600"
definition CLEANER_INTERVAL :: int where "CLEANER_INTERVAL = 30"

text \<open>
  \<open>timestamp + TIMEVALIDITY\<close> as the machine computes it in a 32-bit \<open>time_t\<close>. The clock is \<open>in_time\<close> as long as the sum does not
  wrap for it, which is until ten minutes before the 19th of January 2038, 03:14:08.
\<close>

definition expiry :: "int \<Rightarrow> int" where
  "expiry ts = (ts + TIMEVALIDITY + 2 ^ 31) mod 2 ^ 32 - 2 ^ 31"

definition in_time :: "int \<Rightarrow> bool" where
  "in_time now \<longleftrightarrow> 0 \<le> now \<and> now + TIMEVALIDITY < 2 ^ 31"

type_synonym addr = nat

record history_element =
  he_ip :: u32
  he_port :: u16
  he_timestamp :: int
  he_next :: "addr option"

record history =
  h_heap :: "addr \<Rightarrow> history_element option"
  h_head :: "addr option"
  h_curr :: "addr option"

definition init_history :: history where
  "init_history = \<lparr>h_heap = (\<lambda>_. None), h_head = None, h_curr = None\<rparr>"

section \<open>Pointer accesses\<close>

definition deref :: "history \<Rightarrow> addr option \<Rightarrow> history_element res" where
  "deref s p = (case p of None \<Rightarrow> Inl NullDeref
     | Some a \<Rightarrow> (case h_heap s a of None \<Rightarrow> Inl UseAfterFree | Some e \<Rightarrow> Inr e))"

text \<open>\<open>p->next = q\<close>\<close>

definition set_next :: "history \<Rightarrow> addr option \<Rightarrow> addr option \<Rightarrow> history res" where
  "set_next s p q = (case p of None \<Rightarrow> Inl NullDeref
     | Some a \<Rightarrow> (case h_heap s a of None \<Rightarrow> Inl UseAfterFree
         | Some e \<Rightarrow> Inr (s\<lparr>h_heap := (h_heap s)(a \<mapsto> e\<lparr>he_next := q\<rparr>)\<rparr>)))"

definition free_element :: "history \<Rightarrow> addr \<Rightarrow> history res" where
  "free_element s a = (case h_heap s a of None \<Rightarrow> Inl DoubleFree
     | Some _ \<Rightarrow> Inr (s\<lparr>h_heap := (h_heap s)(a := None)\<rparr>))"

section \<open>Operations\<close>

definition delete_from_list_element ::
  "addr option \<Rightarrow> addr option \<Rightarrow> history \<Rightarrow> (int \<times> history) res" where
  "delete_from_list_element del prev s =
     (case del of
        None \<Rightarrow> Inr (-1, s)
      | Some d \<Rightarrow>
          rbind (if prev \<noteq> None
                 then rbind (deref s del) (\<lambda>e. set_next s prev (he_next e))
                 else Inr s) (\<lambda>s1.
          rbind (if del = h_curr s1 then Inr (s1\<lparr>h_curr := None, h_head := None\<rparr>)
                 else if del = h_head s1
                 then rbind (deref s1 del) (\<lambda>e. Inr (s1\<lparr>h_head := he_next e\<rparr>))
                 else Inr s1) (\<lambda>s2.
          rbind (free_element s2 d) (\<lambda>s3. Inr (0, s3)))))"

text \<open>
  The loop of \<open>search_in_list\<close>. A cyclic list would never end, so the loop is a partial
  function: \<open>None\<close> is a loop that does not return.
\<close>

definition he_matches :: "u32 \<Rightarrow> u16 \<Rightarrow> int \<Rightarrow> history_element \<Rightarrow> bool" where
  "he_matches i p now e \<longleftrightarrow> he_ip e = i \<and> he_port e = p \<and> expiry (he_timestamp e) > now"

partial_function (option) search_loop ::
  "history \<Rightarrow> u32 \<Rightarrow> u16 \<Rightarrow> int \<Rightarrow> addr option \<Rightarrow> addr option
     \<Rightarrow> (addr option \<times> addr option) res option" where
  "search_loop s i p now ptr tmp =
     (case ptr of
        None \<Rightarrow> Some (Inr (None, tmp))
      | Some a \<Rightarrow>
          (case h_heap s a of
             None \<Rightarrow> Some (Inl UseAfterFree)
           | Some e \<Rightarrow>
               (if he_matches i p now e then Some (Inr (ptr, tmp))
                else search_loop s i p now (he_next e) ptr)))"

text \<open>The result is the element found and the new value of \<open>*prev\<close>.\<close>

definition search_in_list ::
  "u32 \<Rightarrow> u16 \<Rightarrow> int \<Rightarrow> addr option \<Rightarrow> history \<Rightarrow> (addr option \<times> addr option) res option" where
  "search_in_list i p now prev s =
     (case search_loop s i p now (h_head s) None of
        None \<Rightarrow> None
      | Some (Inl f) \<Rightarrow> Some (Inl f)
      | Some (Inr (ptr, tmp)) \<Rightarrow>
          (case ptr of
             None \<Rightarrow> Some (Inr (None, prev))
           | Some _ \<Rightarrow> Some (Inr (ptr, tmp))))"

definition delete_from_list ::
  "u32 \<Rightarrow> u16 \<Rightarrow> int \<Rightarrow> history \<Rightarrow> (int \<times> history) res option" where
  "delete_from_list i p now s =
     (case search_in_list i p now None s of
        None \<Rightarrow> None
      | Some (Inl f) \<Rightarrow> Some (Inl f)
      | Some (Inr (del, prev)) \<Rightarrow> Some (delete_from_list_element del prev s))"

definition create_list ::
  "addr option \<Rightarrow> u32 \<Rightarrow> u16 \<Rightarrow> int \<Rightarrow> history \<Rightarrow> addr option \<times> history" where
  "create_list m i p ts s =
     (case m of
        None \<Rightarrow> (None, s)
      | Some a \<Rightarrow>
          (m, s\<lparr>h_heap := (h_heap s)(a \<mapsto>
                  \<lparr>he_ip = i, he_port = p, he_timestamp = ts, he_next = None\<rparr>),
                h_head := m, h_curr := m\<rparr>))"

definition add_to_list ::
  "addr option \<Rightarrow> u32 \<Rightarrow> u16 \<Rightarrow> int \<Rightarrow> history \<Rightarrow> (addr option \<times> history) res" where
  "add_to_list m i p ts s =
     (if h_head s = None then Inr (create_list m i p ts s)
      else case m of
        None \<Rightarrow> Inr (None, s)
      | Some a \<Rightarrow>
          (let s1 = s\<lparr>h_heap := (h_heap s)(a \<mapsto>
                  \<lparr>he_ip = i, he_port = p, he_timestamp = ts, he_next = None\<rparr>)\<rparr>
           in rbind (set_next s1 (h_curr s1) m) (\<lambda>s2. Inr (m, s2\<lparr>h_curr := m\<rparr>))))"

text \<open>
  One pass of \<open>clean_list\<close>, its inner loop. After a deletion behind another element the code
  reads \<open>ptr->next\<close> of the element it has just freed.
\<close>

definition he_expired :: "int \<Rightarrow> history_element \<Rightarrow> bool" where
  "he_expired now e \<longleftrightarrow> expiry (he_timestamp e) < now"

partial_function (option) clean_loop ::
  "int \<Rightarrow> addr option \<Rightarrow> addr option \<Rightarrow> history \<Rightarrow> history res option" where
  "clean_loop now ptr prev s =
     (case ptr of
        None \<Rightarrow> Some (Inr s)
      | Some a \<Rightarrow>
          (case deref s ptr of
             Inl f \<Rightarrow> Some (Inl f)
           | Inr e \<Rightarrow>
               (if he_expired now e
                then (case delete_from_list_element ptr prev s of
                        Inl f \<Rightarrow> Some (Inl f)
                      | Inr (_, s') \<Rightarrow>
                          (if prev \<noteq> None
                           then (case deref s' ptr of
                                   Inl f \<Rightarrow> Some (Inl f)
                                 | Inr e' \<Rightarrow> clean_loop now (he_next e') ptr s')
                           else clean_loop now (h_head s') prev s'))
                else clean_loop now (he_next e) ptr s)))"

definition clean_list_pass :: "int \<Rightarrow> history \<Rightarrow> history res option" where
  "clean_list_pass now s = clean_loop now (h_head s) None s"

section \<open>Well-formed lists\<close>

text \<open>\<open>chain s p as q\<close>: following \<open>next\<close> from \<open>p\<close> visits the addresses \<open>as\<close> and then is at \<open>q\<close>.\<close>

primrec chain :: "(addr \<Rightarrow> history_element option) \<Rightarrow> addr option \<Rightarrow> addr list \<Rightarrow> addr option \<Rightarrow> bool" where
  "chain h p [] q \<longleftrightarrow> p = q"
| "chain h p (a # as) q \<longleftrightarrow>
     p = Some a \<and> (case h a of None \<Rightarrow> False | Some e \<Rightarrow> chain h (he_next e) as q)"

text \<open>
  The invariant: the list from \<open>head\<close> is finite, \<open>curr\<close> is its last element, and the allocated
  addresses are those of the list, each visited once, and a set \<open>X\<close> of elements that are not
  linked (one that a thread has filled in but not yet appended). With \<open>X\<close> empty nothing has leaked.
\<close>

definition wf_frame :: "addr set \<Rightarrow> history \<Rightarrow> addr list \<Rightarrow> bool" where
  "wf_frame X s ps \<longleftrightarrow>
     chain (h_heap s) (h_head s) ps None \<and> distinct ps \<and>
     dom (h_heap s) = set ps \<union> X \<and> set ps \<inter> X = {} \<and>
     h_curr s = (if ps = [] then None else Some (last ps))"

abbreviation wf_history :: "history \<Rightarrow> addr list \<Rightarrow> bool" where
  "wf_history \<equiv> wf_frame {}"

text \<open>What the list stores: the authorisations, oldest first.\<close>

type_synonym auth = "u32 \<times> u16 \<times> int"

definition auth_time :: "auth \<Rightarrow> int" where
  "auth_time x = snd (snd x)"

definition auth_of :: "history_element \<Rightarrow> auth" where
  "auth_of e = (he_ip e, he_port e, he_timestamp e)"

definition auths :: "history \<Rightarrow> addr list \<Rightarrow> auth list" where
  "auths s ps = map (\<lambda>a. auth_of (the (h_heap s a))) ps"

definition represents :: "history \<Rightarrow> auth list \<Rightarrow> bool" where
  "represents s xs \<longleftrightarrow> (\<exists>ps. wf_history s ps \<and> auths s ps = xs)"

definition auth_valid :: "u32 \<Rightarrow> u16 \<Rightarrow> int \<Rightarrow> auth \<Rightarrow> bool" where
  "auth_valid i p now x \<longleftrightarrow> fst x = i \<and> fst (snd x) = p \<and> expiry (auth_time x) > now"

definition auth_expired :: "int \<Rightarrow> auth \<Rightarrow> bool" where
  "auth_expired now x \<longleftrightarrow> expiry (auth_time x) < now"

text \<open>The authorisations expire in the order in which they are stored.\<close>

definition in_order :: "auth list \<Rightarrow> bool" where
  "in_order xs \<longleftrightarrow> sorted (map (\<lambda>x. expiry (auth_time x)) xs)"

lemma expiry_in_time: "0 \<le> ts \<Longrightarrow> ts \<le> now \<Longrightarrow> in_time now \<Longrightarrow> expiry ts = ts + TIMEVALIDITY"
  by (simp add: expiry_def in_time_def TIMEVALIDITY_def)

lemma in_time_mono: "in_time t \<Longrightarrow> 0 \<le> t' \<Longrightarrow> t' \<le> t \<Longrightarrow> in_time t'"
  by (simp add: in_time_def)

lemma in_orderI:
  assumes "sorted (map auth_time xs)" and "\<forall>x\<in>set xs. 0 \<le> auth_time x \<and> auth_time x \<le> now" and "in_time now"
  shows "in_order xs"
proof -
  have eq: "map (\<lambda>x. expiry (auth_time x)) xs = map (\<lambda>t. t + TIMEVALIDITY) (map auth_time xs)"
    using assms(2,3) by (auto simp: expiry_in_time)
  show ?thesis unfolding in_order_def eq using assms(1) by (simp add: sorted_wrt_map)
qed

definition fresh :: "addr option \<Rightarrow> history \<Rightarrow> bool" where
  "fresh m s \<longleftrightarrow> (case m of None \<Rightarrow> True | Some a \<Rightarrow> h_heap s a = None)"

section \<open>Lemmas on chains\<close>

lemma chain_upd [heap_simps]: "a \<notin> set as \<Longrightarrow> chain (h(a := v)) p as q = chain h p as q"
  by (induction as arbitrary: p) (auto split: option.splits)

lemma chain_append [heap_simps]:
  "chain h p (as @ bs) q \<longleftrightarrow> (\<exists>r. chain h p as r \<and> chain h r bs q)"
  by (induction as arbitrary: p) (auto split: option.splits)

lemma chain_in_dom: "chain h p as q \<Longrightarrow> set as \<subseteq> dom h"
  by (induction as arbitrary: p) (auto split: option.splits)

lemma chain_Nil_iff: "chain h p [] None \<longleftrightarrow> p = None"
  by simp

lemma deref_Some [heap_simps]: "h_heap s a = Some e \<Longrightarrow> deref s (Some a) = Inr e"
  by (simp add: deref_def)

lemma he_matches_auth: "he_matches i p now e \<longleftrightarrow> auth_valid i p now (auth_of e)"
  by (auto simp: he_matches_def auth_valid_def auth_of_def auth_time_def)

lemma he_expired_auth: "he_expired now e \<longleftrightarrow> auth_expired now (auth_of e)"
  by (auto simp: he_expired_def auth_expired_def auth_of_def auth_time_def)

lemma wf_frame_Cons:
  assumes "wf_frame X s (a # ps)"
  obtains e where "h_heap s a = Some e" "h_head s = Some a" "chain (h_heap s) (he_next e) ps None"
    "a \<notin> set ps" "distinct ps" "dom (h_heap s) = insert a (set ps \<union> X)" "a \<notin> X" "set ps \<inter> X = {}"
  using assms by (auto simp: wf_frame_def split: option.splits)

lemma auths_upd [heap_simps]:
  "a \<notin> set ps \<Longrightarrow> auths (s\<lparr>h_heap := (h_heap s)(a := v), h_head := x, h_curr := y\<rparr>) ps = auths s ps"
  by (auto simp: auths_def)

lemma auths_Cons [simp]: "auths s (a # ps) = auth_of (the (h_heap s a)) # auths s ps"
  by (simp add: auths_def)

lemma auths_Nil [simp]: "auths s [] = []"
  by (simp add: auths_def)

section \<open>Searching\<close>

lemma search_loop_None [simp]: "search_loop s i p now None tmp = Some (Inr (None, tmp))"
  by (simp add: search_loop.simps)

lemma search_loop_hit:
  "h_heap s a = Some e \<Longrightarrow> he_matches i p now e \<Longrightarrow>
     search_loop s i p now (Some a) tmp = Some (Inr (Some a, tmp))"
  by (simp add: search_loop.simps)

lemma search_loop_miss:
  "h_heap s a = Some e \<Longrightarrow> \<not> he_matches i p now e \<Longrightarrow>
     search_loop s i p now (Some a) tmp = search_loop s i p now (he_next e) (Some a)"
  by (subst search_loop.simps) simp

text \<open>
  On a well-formed list the loop returns, never faults, and finds the first matching element
  together with its predecessor.
\<close>

lemma search_loop_chain:
  assumes "chain (h_heap s) ptr ps None"
  shows "search_loop s i p now ptr tmp =
    Some (Inr (find (\<lambda>a. he_matches i p now (the (h_heap s a))) ps,
               let qs = takeWhile (\<lambda>a. \<not> he_matches i p now (the (h_heap s a))) ps
               in if qs = [] then tmp else Some (last qs)))"
  using assms
proof (induction ps arbitrary: ptr tmp)
  case Nil
  then show ?case by simp
next
  case (Cons a ps)
  then obtain e where e: "h_heap s a = Some e" "ptr = Some a" "chain (h_heap s) (he_next e) ps None"
    by (auto split: option.splits)
  then show ?case
    using Cons.IH [of "he_next e" "Some a"]
    by (cases "he_matches i p now e") (auto simp: search_loop_hit search_loop_miss Let_def)
qed

lemma search_in_list_wf:
  assumes "wf_history s ps"
  shows "search_in_list i p now prev s =
    Some (Inr (case find (\<lambda>a. he_matches i p now (the (h_heap s a))) ps of
        None \<Rightarrow> (None, prev)
      | Some a \<Rightarrow> (Some a, let qs = takeWhile (\<lambda>a. \<not> he_matches i p now (the (h_heap s a))) ps
                         in if qs = [] then None else Some (last qs))))"
proof -
  from assms have "chain (h_heap s) (h_head s) ps None" by (simp add: wf_frame_def)
  then show ?thesis
    by (simp add: search_in_list_def search_loop_chain split: option.split)
qed

lemma search_in_list_represents:
  assumes "represents s xs"
  obtains r q where "search_in_list i p now prev s = Some (Inr (r, q))"
    and "r \<noteq> None \<longleftrightarrow> (\<exists>x\<in>set xs. auth_valid i p now x)"
proof -
  from assms obtain ps where ps: "wf_history s ps" "auths s ps = xs"
    by (auto simp: represents_def)
  have "find (\<lambda>a. he_matches i p now (the (h_heap s a))) ps \<noteq> None \<longleftrightarrow>
        (\<exists>x\<in>set xs. auth_valid i p now x)"
    unfolding ps(2) [symmetric] auths_def
    by (auto simp: find_None_iff he_matches_auth simp del: not_None_eq)
  then show ?thesis
    using search_in_list_wf [OF ps(1), of i p now prev] that
    by (cases "find (\<lambda>a. he_matches i p now (the (h_heap s a))) ps") auto
qed

section \<open>Adding\<close>

lemma represents_init: "represents init_history []"
  by (auto simp: represents_def wf_frame_def init_history_def intro!: exI [of _ "[]"])

lemma add_to_list_fail: "add_to_list None i p ts s = Inr (None, s)"
  by (simp add: add_to_list_def create_list_def)

lemma add_to_list_Some:
  assumes wf: "wf_history s ps" and fr: "h_heap s a = None"
  obtains s' where "add_to_list (Some a) i p ts s = Inr (Some a, s')"
    and "wf_history s' (ps @ [a])" and "auths s' (ps @ [a]) = auths s ps @ [(i, p, ts)]"
proof (cases ps rule: rev_cases)
  case Nil
  with wf have "h_head s = None" "h_heap s = Map.empty" by (auto simp: wf_frame_def)
  with Nil that show ?thesis
    by (fastforce simp: add_to_list_def create_list_def wf_frame_def auth_of_def)
next
  case (snoc qs b)
  with wf obtain e r where e: "h_heap s b = Some e" "he_next e = None" "h_curr s = Some b"
      "chain (h_heap s) (h_head s) qs (Some b)" "b \<notin> set qs" "distinct qs"
      "dom (h_heap s) = insert b (set qs)"
    by (auto simp: wf_frame_def chain_append split: option.splits)
  have ne: "a \<noteq> b" "a \<notin> set qs" using fr e by auto
  have hd: "h_head s \<noteq> None" using e(4) by (cases qs) auto
  let ?new = "\<lparr>he_ip = i, he_port = p, he_timestamp = ts, he_next = None\<rparr>"
  let ?s = "s\<lparr>h_heap := (h_heap s)(a \<mapsto> ?new, b \<mapsto> e\<lparr>he_next := Some a\<rparr>), h_curr := Some a\<rparr>"
  have add: "add_to_list (Some a) i p ts s = Inr (Some a, ?s)"
    using hd e ne by (auto simp: add_to_list_def set_next_def Let_def)
  have "wf_history ?s (ps @ [a])"
    using snoc e ne by (auto simp: wf_frame_def heap_simps)
  moreover have "auths ?s (ps @ [a]) = auths s ps @ [(i, p, ts)]"
    using snoc e ne by (auto simp: auths_def auth_of_def)
  ultimately show ?thesis using add that by blast
qed

lemma add_to_list_represents:
  assumes "represents s xs" and "fresh m s"
  obtains s' where "add_to_list m i p ts s = Inr (m, s')"
    and "represents s' (if m = None then xs else xs @ [(i, p, ts)])"
proof (cases m)
  case None
  with assms that show ?thesis by (simp add: add_to_list_fail)
next
  case (Some a)
  from assms(1) obtain ps where ps: "wf_history s ps" "auths s ps = xs"
    by (auto simp: represents_def)
  from assms(2) Some have "h_heap s a = None" by (simp add: fresh_def)
  from add_to_list_Some [OF ps(1) this, of i p ts] obtain s' where
    "add_to_list (Some a) i p ts s = Inr (Some a, s')" "wf_history s' (ps @ [a])"
    "auths s' (ps @ [a]) = auths s ps @ [(i, p, ts)]" .
  with Some ps(2) that show ?thesis by (auto simp: represents_def)
qed

section \<open>Cleaning\<close>

lemma delete_head:
  assumes wf: "wf_frame X s (a # ps)"
  obtains s' where "delete_from_list_element (Some a) None s = Inr (0, s')"
    and "wf_frame X s' ps" and "auths s' ps = auths s ps" and "\<forall>x\<in>X. h_heap s' x = h_heap s x"
proof -
  from wf obtain e where e: "h_heap s a = Some e" "h_head s = Some a"
      "chain (h_heap s) (he_next e) ps None" "a \<notin> set ps" "distinct ps"
      "dom (h_heap s) = insert a (set ps \<union> X)" "a \<notin> X" "set ps \<inter> X = {}"
    by (rule wf_frame_Cons)
  let ?s = "s\<lparr>h_heap := (h_heap s)(a := None), h_head := he_next e,
              h_curr := (if ps = [] then None else Some (last ps))\<rparr>"
  have curr: "h_curr s = (if ps = [] then Some a else Some (last ps))"
    using wf by (auto simp: wf_frame_def)
  have "delete_from_list_element (Some a) None s = Inr (0, ?s)"
  proof (cases "ps = []")
    case True
    with e(3) have "he_next e = None" by simp
    with True e curr show ?thesis
      by (simp add: delete_from_list_element_def free_element_def)
  next
    case False
    then have "last ps \<in> set ps" by simp
    with e(4) have "last ps \<noteq> a" by auto
    with False e curr show ?thesis
      by (simp add: delete_from_list_element_def free_element_def heap_simps)
  qed
  moreover have "wf_frame X ?s ps"
    using e by (auto simp: wf_frame_def heap_simps)
  moreover have "auths ?s ps = auths s ps"
    using e(4) by (simp add: heap_simps)
  moreover have "\<forall>x\<in>X. h_heap ?s x = h_heap s x"
    using e(7) by auto
  ultimately show ?thesis using that by blast
qed

lemma clean_loop_None [simp]: "clean_loop now None prev s = Some (Inr s)"
  by (simp add: clean_loop.simps)

text \<open>Where nothing has expired the loop only walks.\<close>

lemma clean_loop_walk:
  assumes "chain (h_heap s) ptr ps None" and "\<forall>a\<in>set ps. \<not> he_expired now (the (h_heap s a))"
  shows "clean_loop now ptr prev s = Some (Inr s)"
  using assms
proof (induction ps arbitrary: ptr prev)
  case (Cons a ps)
  then obtain e where "h_heap s a = Some e" "ptr = Some a" "chain (h_heap s) (he_next e) ps None"
    by (auto split: option.splits)
  with Cons show ?case by (subst clean_loop.simps) (simp add: heap_simps)
qed simp

text \<open>
  With the timestamps in order, the expired elements are a prefix, each is deleted as the head
  of the list, and the pass keeps exactly the others.
\<close>

lemma clean_loop_sorted:
  assumes "wf_frame X s ps" and "in_order (auths s ps)"
  shows "\<exists>s' ps'. clean_loop now (h_head s) None s = Some (Inr s') \<and> wf_frame X s' ps' \<and>
     auths s' ps' = filter (\<lambda>x. \<not> auth_expired now x) (auths s ps) \<and>
     (\<forall>x\<in>X. h_heap s' x = h_heap s x)"
  using assms
proof (induction ps arbitrary: s)
  case Nil
  then have "h_head s = None" by (simp add: wf_frame_def)
  with Nil show ?case by (intro exI [of _ s] exI [of _ "[]"]) simp
next
  case (Cons a ps)
  from Cons.prems(1) obtain e where e: "h_heap s a = Some e" "h_head s = Some a"
      "chain (h_heap s) (he_next e) ps None"
    by (rule wf_frame_Cons)
  show ?case
  proof (cases "he_expired now e")
    case True
    obtain s1 where s1: "delete_from_list_element (Some a) None s = Inr (0, s1)"
        "wf_frame X s1 ps" "auths s1 ps = auths s ps" "\<forall>x\<in>X. h_heap s1 x = h_heap s x"
      by (rule delete_head [OF Cons.prems(1)])
    have "clean_loop now (h_head s) None s = clean_loop now (h_head s1) None s1"
      using e True s1(1) by (subst clean_loop.simps) (simp add: heap_simps)
    moreover have "in_order (auths s1 ps)" using Cons.prems(2) s1(3) by (simp add: in_order_def)
    moreover have "auth_expired now (auth_of e)" using True by (simp add: he_expired_auth)
    ultimately show ?thesis using Cons.IH [OF s1(2)] s1(3,4) e(1) by simp
  next
    case False
    have later: "\<forall>x\<in>set (auths s (a # ps)). \<not> auth_expired now x"
      using Cons.prems(2) e(1) False
      by (auto simp: he_expired_auth auth_expired_def in_order_def)
    then have "\<forall>b\<in>set (a # ps). \<not> he_expired now (the (h_heap s b))"
      by (auto simp: auths_def he_expired_auth)
    moreover have "chain (h_heap s) (h_head s) (a # ps) None"
      using Cons.prems(1) by (simp add: wf_frame_def)
    ultimately have "clean_loop now (h_head s) None s = Some (Inr s)"
      by (rule clean_loop_walk [rotated])
    moreover have "filter (\<lambda>x. \<not> auth_expired now x) (auths s (a # ps)) = auths s (a # ps)"
      using later by (simp add: filter_id_conv)
    ultimately show ?thesis using Cons.prems(1) by (metis (no_types))
  qed
qed

lemma clean_list_pass_represents:
  assumes "represents s xs" and "in_order xs"
  obtains s' where "clean_list_pass now s = Some (Inr s')"
    and "represents s' (filter (\<lambda>x. \<not> auth_expired now x) xs)"
  using assms clean_loop_sorted [of "{}" s _ now] unfolding represents_def clean_list_pass_def by blast

section \<open>The interface the packet filter uses\<close>

text \<open>
  What the threads of the server rely on: an abstraction to the list of stored authorisations,
  with one law per operation. The law of the cleaner holds while the authorisations expire in the order in which
  they are stored, which the reader thread guarantees as long as the clock does not run backwards and is \<open>in_time\<close>.
\<close>

locale auth_store =
  fixes rep :: "'s \<Rightarrow> auth list \<Rightarrow> bool"
    and ok_alloc :: "addr option \<Rightarrow> 's \<Rightarrow> bool"
    and add :: "addr option \<Rightarrow> u32 \<Rightarrow> u16 \<Rightarrow> int \<Rightarrow> 's \<Rightarrow> (addr option \<times> 's) res"
    and search :: "u32 \<Rightarrow> u16 \<Rightarrow> int \<Rightarrow> addr option \<Rightarrow> 's \<Rightarrow> (addr option \<times> addr option) res option"
    and clean :: "int \<Rightarrow> 's \<Rightarrow> 's res option"
    and start :: 's
  assumes rep_start: "rep start []"
    and rep_add: "rep s xs \<Longrightarrow> ok_alloc m s \<Longrightarrow>
      \<exists>s'. add m i p ts s = Inr (m, s') \<and> rep s' (if m = None then xs else xs @ [(i, p, ts)])"
    and rep_search: "rep s xs \<Longrightarrow>
      \<exists>r q. search i p now prev s = Some (Inr (r, q)) \<and>
        (r \<noteq> None \<longleftrightarrow> (\<exists>x\<in>set xs. auth_valid i p now x))"
    and rep_clean: "rep s xs \<Longrightarrow> in_order xs \<Longrightarrow>
      \<exists>s'. clean now s = Some (Inr s') \<and> rep s' (filter (\<lambda>x. \<not> auth_expired now x) xs)"
begin

text \<open>
  \<open>tracks now s log\<close>: the store holds every authorisation of the \<open>log\<close> that has not expired,
  in order, and nothing the log lacks. This is what every operation keeps.
\<close>

definition tracks :: "int \<Rightarrow> 's \<Rightarrow> auth list \<Rightarrow> bool" where
  "tracks now s log \<longleftrightarrow> 0 \<le> now \<and> sorted (map auth_time log) \<and> (\<forall>x\<in>set log. 0 \<le> auth_time x \<and> auth_time x \<le> now) \<and>
     (\<exists>k. rep s (drop k log) \<and> (\<forall>x\<in>set (take k log). auth_expired now x))"

lemma tracks_start: "0 \<le> now \<Longrightarrow> tracks now start []"
  by (simp add: tracks_def rep_start)

lemma tracks_tick: "tracks now s log \<Longrightarrow> now \<le> now' \<Longrightarrow> tracks now' s log"
  by (force simp: tracks_def auth_expired_def)

lemma tracks_add:
  assumes "tracks now s log" and "ok_alloc m s"
  shows "\<exists>s'. add m i p now s = Inr (m, s') \<and>
    tracks now s' (if m = None then log else log @ [(i, p, now)])"
proof -
  from assms(1) obtain k where k: "rep s (drop k log)" "\<forall>x\<in>set (take k log). auth_expired now x"
    "sorted (map auth_time log)" "\<forall>x\<in>set log. 0 \<le> auth_time x \<and> auth_time x \<le> now" "0 \<le> now"
    by (auto simp: tracks_def)
  define k' where "k' = min k (length log)"
  have k': "drop k log = drop k' log" "take k log = take k' log" "k' \<le> length log"
    by (auto simp: k'_def min_def)
  from rep_add [OF k(1) assms(2)] obtain s' where s': "add m i p now s = Inr (m, s')"
    "rep s' (if m = None then drop k log else drop k log @ [(i, p, now)])" by blast
  have "tracks now s' (if m = None then log else log @ [(i, p, now)])"
  proof (cases m)
    case None
    with s' k show ?thesis by (auto simp: tracks_def)
  next
    case (Some a)
    with s' k k' show ?thesis
      by (auto simp: tracks_def sorted_append auth_time_def intro!: exI [of _ k'])
  qed
  with s'(1) show ?thesis by blast
qed

lemma tracks_clean:
  assumes "tracks now s log" and "in_time now"
  shows "\<exists>s'. clean now s = Some (Inr s') \<and> tracks now s' log"
proof -
  from assms(1) obtain k where k: "rep s (drop k log)" "\<forall>x\<in>set (take k log). auth_expired now x"
    "sorted (map auth_time log)" "\<forall>x\<in>set log. 0 \<le> auth_time x \<and> auth_time x \<le> now" "0 \<le> now"
    by (auto simp: tracks_def)
  have ord: "in_order log" by (rule in_orderI [OF k(3,4) assms(2)])
  let ?P = "\<lambda>x. \<not> auth_expired now x"
  have srt: "in_order (drop k log)"
    using ord by (simp add: in_order_def drop_map [symmetric] sorted_wrt_drop)
  from rep_clean [OF k(1) srt] obtain s' where
    s': "clean now s = Some (Inr s')" "rep s' (filter ?P (drop k log))" by blast
  have "filter ?P (take k log) = []" using k(2) by (simp add: filter_empty_conv)
  then have "filter ?P (drop k log) = filter ?P log"
    by (metis append_Nil append_take_drop_id filter_append)
  also have "\<dots> = dropWhile (\<lambda>x. \<not> ?P x) log"
    by (rule filter_eq_dropWhile_sorted [OF ord [unfolded in_order_def]]) (auto simp: auth_expired_def)
  also have "\<dots> = drop (length (takeWhile (\<lambda>x. \<not> ?P x) log)) log"
    by (simp add: dropWhile_eq_drop)
  finally have "rep s' (drop (length (takeWhile (\<lambda>x. \<not> ?P x) log)) log)"
    using s'(2) by simp
  moreover have "\<forall>x\<in>set (take (length (takeWhile (\<lambda>x. \<not> ?P x) log)) log). auth_expired now x"
    by (simp add: takeWhile_eq_take [symmetric]) (metis set_takeWhileD)
  ultimately show ?thesis using s'(1) k by (auto simp: tracks_def)
qed

text \<open>The answer does not depend on when the cleaner ran: it is that of the whole log.\<close>

lemma tracks_search:
  assumes "tracks now s log"
  shows "\<exists>r q. search i p now prev s = Some (Inr (r, q)) \<and>
    (r \<noteq> None \<longleftrightarrow> (\<exists>x\<in>set log. auth_valid i p now x))"
proof -
  from assms obtain k where k: "rep s (drop k log)" "\<forall>x\<in>set (take k log). auth_expired now x"
    by (auto simp: tracks_def)
  have "\<forall>x\<in>set (take k log). \<not> auth_valid i p now x"
    using k(2) by (auto simp: auth_valid_def auth_expired_def)
  moreover have "set log = set (take k log) \<union> set (drop k log)"
    by (metis append_take_drop_id set_append)
  ultimately have "(\<exists>x\<in>set (drop k log). auth_valid i p now x) \<longleftrightarrow>
      (\<exists>x\<in>set log. auth_valid i p now x)" by blast
  with rep_search [OF k(1), of i p now prev] show ?thesis by simp
qed

end

interpretation hist: auth_store represents fresh add_to_list search_in_list clean_list_pass init_history
proof (unfold_locales, goal_cases)
  case 1
  show ?case by (rule represents_init)
next
  case (2 s xs m i p ts)
  then show ?case by (metis add_to_list_represents)
next
  case (3 s xs i p now prev)
  then show ?case by (metis search_in_list_represents)
next
  case (4 s xs now)
  then show ?case by (metis clean_list_pass_represents)
qed

end
