(* ===== verification/Ipq_Monitor.thy ===== *)
theory Ipq_Monitor
  imports Ipq_History
begin

text \<open>
  Runs of the authorisation history of \<^verbatim>\<open>src/jni/ipqserver/server.c\<close>: the reader thread adds,
  the cleaner thread purges, the sender thread searches, and the clock advances. Two step
  relations are given. \<open>hist_step\<close> takes each call as one step, as the mutex intends.
  \<open>thread_step\<close> splits \<open>add_to_list\<close> and \<open>clean_list\<close> where the code reads \<open>head\<close> before it takes
  the mutex.
\<close>

section \<open>Calls as steps\<close>

record monitor =
  mo_now :: int
  mo_hist :: history
  mo_log :: "auth list"  \<comment> \<open>every authorisation stored so far, in order\<close>

definition init_monitor :: "int \<Rightarrow> monitor" where
  "init_monitor t = \<lparr>mo_now = t, mo_hist = init_history, mo_log = []\<rparr>"

inductive hist_step :: "monitor \<Rightarrow> monitor \<Rightarrow> bool" where
  tick: "mo_now c \<le> t \<Longrightarrow> hist_step c (c\<lparr>mo_now := t\<rparr>)"
| add: "fresh m (mo_hist c) \<Longrightarrow> add_to_list m i p (mo_now c) (mo_hist c) = Inr (r, s') \<Longrightarrow>
     hist_step c (c\<lparr>mo_hist := s',
       mo_log := (if r = None then mo_log c else mo_log c @ [(i, p, mo_now c)])\<rparr>)"
| clean: "clean_list_pass (mo_now c) (mo_hist c) = Some (Inr s') \<Longrightarrow>
     hist_step c (c\<lparr>mo_hist := s'\<rparr>)"

inductive hist_reachable :: "int \<Rightarrow> monitor \<Rightarrow> bool" for t0 where
  start: "hist_reachable t0 (init_monitor t0)"
| step: "hist_reachable t0 c \<Longrightarrow> hist_step c c' \<Longrightarrow> hist_reachable t0 c'"

lemma hist_step_now: "hist_step c c' \<Longrightarrow> mo_now c \<le> mo_now c'"
  by (induction rule: hist_step.induct) auto

lemma hist_reachable_now: "hist_reachable t0 c \<Longrightarrow> t0 \<le> mo_now c"
  by (induction rule: hist_reachable.induct) (auto simp: init_monitor_def dest: hist_step_now)

lemma hist_step_tracks:
  assumes "hist_step c c'" and "hist.tracks (mo_now c) (mo_hist c) (mo_log c)" and "in_time (mo_now c)"
  shows "hist.tracks (mo_now c') (mo_hist c') (mo_log c')"
  using assms
proof (induction rule: hist_step.induct)
  case (tick c t)
  then show ?case by (simp add: hist.tracks_tick)
next
  case (add m c i p r s')
  then show ?case using hist.tracks_add [of "mo_now c" "mo_hist c" "mo_log c" m i p] by auto
next
  case (clean c s')
  then show ?case using hist.tracks_clean by fastforce
qed

lemma hist_reachable_tracks:
  "hist_reachable t0 c \<Longrightarrow> 0 \<le> t0 \<Longrightarrow> in_time (mo_now c) \<Longrightarrow> hist.tracks (mo_now c) (mo_hist c) (mo_log c)"
proof (induction rule: hist_reachable.induct)
  case start
  then show ?case by (simp add: init_monitor_def hist.tracks_start)
next
  case (step c c')
  have "in_time (mo_now c)"
    using step in_time_mono hist_step_now [OF step(2)] hist_reachable_now [OF step(1)] by fastforce
  then show ?case using step hist_step_tracks by blast
qed

lemma reachable_search:
  assumes "hist_reachable t0 c" and "0 \<le> t0" and "in_time (mo_now c)"
  shows "\<exists>r q. search_in_list i p (mo_now c) prev (mo_hist c) = Some (Inr (r, q)) \<and>
    (r \<noteq> None \<longleftrightarrow> (\<exists>ts. (i, p, ts) \<in> set (mo_log c) \<and> mo_now c < ts + TIMEVALIDITY))"
proof -
  note tr = hist_reachable_tracks [OF assms]
  have "expiry (auth_time x) = auth_time x + TIMEVALIDITY" if "x \<in> set (mo_log c)" for x
    using tr that assms(3) by (auto simp: hist.tracks_def intro: expiry_in_time)
  then have "(\<exists>x\<in>set (mo_log c). auth_valid i p (mo_now c) x) \<longleftrightarrow>
      (\<exists>ts. (i, p, ts) \<in> set (mo_log c) \<and> mo_now c < ts + TIMEVALIDITY)"
    by (force simp: auth_valid_def auth_time_def)
  then show ?thesis using hist.tracks_search [OF tr, of i p prev] by auto
qed

text \<open>
  C1. The decision of the packet filter. In every state reachable by adding, purging and the
  passing of time, the search for a destination returns (it neither loops nor faults) and finds
  an element exactly if the destination was authorised less than \<open>TIMEVALIDITY\<close> seconds ago. The
  cleaner never changes an answer. This holds until the 32-bit clock comes within ten minutes of its end.
\<close>

theorem search_decides_authorised:
  assumes "hist_reachable t0 c" and "0 \<le> t0" and "mo_now c + TIMEVALIDITY < 2 ^ 31"
  shows "\<exists>r q. search_in_list i p (mo_now c) prev (mo_hist c) = Some (Inr (r, q)) \<and>
    (r \<noteq> None \<longleftrightarrow> (\<exists>ts. (i, p, ts) \<in> set (mo_log c) \<and> mo_now c < ts + TIMEVALIDITY))"
  using reachable_search [OF assms(1,2), of i p prev] hist_reachable_now [OF assms(1)] assms(2,3) by (simp add: in_time_def)

text \<open>A concrete run: two destinations are authorised 500 seconds apart, time passes, a pass of
  the cleaner deletes the first.\<close>

definition demo_history :: history where
  "demo_history = \<lparr>h_heap = [8 \<mapsto> \<lparr>he_ip = 5, he_port = 443, he_timestamp = 500, he_next = None\<rparr>],
     h_head = Some 8, h_curr = Some 8\<rparr>"

definition demo_full :: history where
  "demo_full = \<lparr>h_heap = [4 \<mapsto> \<lparr>he_ip = 7, he_port = 80, he_timestamp = 0, he_next = Some 8\<rparr>,
       8 \<mapsto> \<lparr>he_ip = 5, he_port = 443, he_timestamp = 500, he_next = None\<rparr>],
     h_head = Some 4, h_curr = Some 8\<rparr>"

lemmas clean_eval = clean_loop.simps deref_def delete_from_list_element_def set_next_def
  free_element_def he_expired_def expiry_def TIMEVALIDITY_def

lemma demo_add1: "add_to_list (Some 4) 7 80 0 init_history =
    Inr (Some 4, \<lparr>h_heap = [4 \<mapsto> \<lparr>he_ip = 7, he_port = 80, he_timestamp = 0, he_next = None\<rparr>],
      h_head = Some 4, h_curr = Some 4\<rparr>)"
  by (simp add: add_to_list_def create_list_def init_history_def)

lemma demo_add2: "add_to_list (Some 8) 5 443 500
     \<lparr>h_heap = [4 \<mapsto> \<lparr>he_ip = 7, he_port = 80, he_timestamp = 0, he_next = None\<rparr>],
      h_head = Some 4, h_curr = Some 4\<rparr> = Inr (Some 8, demo_full)"
  by (simp add: add_to_list_def set_next_def demo_full_def fun_upd_twist)

lemma demo_clean: "clean_list_pass 700 demo_full = Some (Inr demo_history)"
  by (simp add: clean_list_pass_def demo_full_def demo_history_def clean_eval fun_eq_iff)

lemma demo_reachable:
  "hist_reachable 0 \<lparr>mo_now = 700, mo_hist = demo_history, mo_log = [(7, 80, 0), (5, 443, 500)]\<rparr>"
proof -
  let ?h1 = "\<lparr>h_heap = [4 \<mapsto> \<lparr>he_ip = 7, he_port = 80, he_timestamp = 0, he_next = None\<rparr>],
      h_head = Some 4, h_curr = Some 4\<rparr>"
  have "hist_reachable 0 \<lparr>mo_now = 0, mo_hist = init_history, mo_log = []\<rparr>"
    using hist_reachable.start [of 0] by (simp add: init_monitor_def)
  from hist_reachable.step [OF this hist_step.add [of "Some 4" _ 7 80 "Some 4" ?h1]] demo_add1
  have "hist_reachable 0 \<lparr>mo_now = 0, mo_hist = ?h1, mo_log = [(7, 80, 0)]\<rparr>"
    by (simp add: fresh_def init_history_def)
  from hist_reachable.step [OF this hist_step.tick [of _ 500]]
  have "hist_reachable 0 \<lparr>mo_now = 500, mo_hist = ?h1, mo_log = [(7, 80, 0)]\<rparr>" by simp
  from hist_reachable.step [OF this hist_step.add [of "Some 8" _ 5 443 "Some 8" demo_full]] demo_add2
  have "hist_reachable 0 \<lparr>mo_now = 500, mo_hist = demo_full, mo_log = [(7, 80, 0), (5, 443, 500)]\<rparr>"
    by (simp add: fresh_def)
  from hist_reachable.step [OF this hist_step.tick [of _ 700]]
  have "hist_reachable 0 \<lparr>mo_now = 700, mo_hist = demo_full, mo_log = [(7, 80, 0), (5, 443, 500)]\<rparr>"
    by simp
  from hist_reachable.step [OF this hist_step.clean [of _ demo_history]] demo_clean
  show ?thesis by simp
qed

theorem search_decides_authorised_witness:
  "\<exists>r q. search_in_list 5 443 700 None demo_history = Some (Inr (r, q)) \<and> r \<noteq> None"
  using search_decides_authorised [OF demo_reachable, of 5 443 None]
  by (simp add: TIMEVALIDITY_def)



section \<open>The cleaner on lists that are out of order\<close>

lemma delete_behind:
  assumes "h_heap s a = Some e" and "h_heap s b = Some e'" and "a \<noteq> b"
  shows "\<exists>s'. delete_from_list_element (Some a) (Some b) s = Inr (0, s') \<and> h_heap s' a = None"
  using assms
  by (cases "h_curr s = Some a"; cases "h_head s = Some a")
    (simp_all add: delete_from_list_element_def set_next_def free_element_def deref_def)

lemma clean_loop_behind:
  assumes "chain (h_heap s) ptr ps None" and "distinct ps" and "b \<notin> set ps" and "h_heap s b = Some e'"
    and "\<exists>a\<in>set ps. he_expired now (the (h_heap s a))"
  shows "clean_loop now ptr (Some b) s = Some (Inl UseAfterFree)"
  using assms
proof (induction ps arbitrary: ptr b e')
  case (Cons a ps)
  then obtain e where e: "h_heap s a = Some e" "ptr = Some a" "chain (h_heap s) (he_next e) ps None"
    by (auto split: option.splits)
  show ?case
  proof (cases "he_expired now e")
    case True
    from Cons.prems have "a \<noteq> b" by auto
    from delete_behind [OF e(1) Cons.prems(4) this] obtain s' where
      "delete_from_list_element (Some a) (Some b) s = Inr (0, s')" "h_heap s' a = None" by blast
    then show ?thesis
      using e True by (subst clean_loop.simps) (simp add: deref_def)
  next
    case False
    with Cons.prems e(1) have "clean_loop now (he_next e) (Some a) s = Some (Inl UseAfterFree)"
      using e(3) by (intro Cons.IH) auto
    then show ?thesis
      using e False by (subst clean_loop.simps) (simp add: deref_def)
  qed
qed simp

lemma clean_loop_out_of_order:
  assumes "wf_history s ps"
    and "\<exists>x\<in>set (dropWhile (auth_expired now) (auths s ps)). auth_expired now x"
  shows "clean_loop now (h_head s) None s = Some (Inl UseAfterFree)"
  using assms
proof (induction ps arbitrary: s)
  case (Cons a ps)
  from Cons.prems(1) obtain e where e: "h_heap s a = Some e" "h_head s = Some a"
      "chain (h_heap s) (he_next e) ps None" "a \<notin> set ps" "distinct ps"
    by (rule wf_frame_Cons)
  show ?case
  proof (cases "he_expired now e")
    case True
    obtain s1 where s1: "delete_from_list_element (Some a) None s = Inr (0, s1)"
        "wf_history s1 ps" "auths s1 ps = auths s ps"
      by (rule delete_head [OF Cons.prems(1)])
    have "clean_loop now (h_head s) None s = clean_loop now (h_head s1) None s1"
      using e True s1(1) by (subst clean_loop.simps) (simp add: heap_simps)
    with Cons.IH [OF s1(2)] Cons.prems(2) True e(1) s1(3) show ?thesis
      by (simp add: he_expired_auth)
  next
    case False
    with Cons.prems(2) e(1) have "\<exists>b\<in>set ps. he_expired now (the (h_heap s b))"
      by (auto simp: he_expired_auth auths_def)
    from clean_loop_behind [OF e(3,5,4,1) this]
    show ?thesis using e False by (subst clean_loop.simps) (simp add: deref_def)
  qed
qed simp

text \<open>
  What the cleaner really needs. On any well-formed list, if an expired element stands behind
  one that has not expired (the clock was set back between two authorisations, or a timestamp wraps around), the
  pass reads an element it has just freed.
\<close>

lemma clean_list_use_after_free:
  assumes "wf_history s ps" and "i < j" and "j < length ps"
    and "\<not> auth_expired now (auths s ps ! i)" and "auth_expired now (auths s ps ! j)"
  shows "clean_list_pass now s = Some (Inl UseAfterFree)"
proof -
  let ?xs = "auths s ps"
  let ?k = "length (takeWhile (auth_expired now) ?xs)"
  have "length ?xs = length ps" by (simp add: auths_def)
  moreover have "?k \<le> i"
    using assms(4) by (metis leI nth_mem set_takeWhileD takeWhile_nth)
  ultimately have "drop ?k ?xs ! (j - ?k) \<in> set (drop ?k ?xs) \<and> drop ?k ?xs ! (j - ?k) = ?xs ! j"
    using assms(2,3) by (intro conjI nth_mem) auto
  then have "?xs ! j \<in> set (dropWhile (auth_expired now) ?xs)"
    by (metis dropWhile_eq_drop)
  with assms(5) have "\<exists>x\<in>set (dropWhile (auth_expired now) ?xs). auth_expired now x" by blast
  from clean_loop_out_of_order [OF assms(1) this] show ?thesis
    by (simp add: clean_list_pass_def)
qed

text \<open>The list \<open>[(7, 80, 500), (5, 443, 0)]\<close>: the second authorisation is older than the first.\<close>

definition demo_unordered :: history where
  "demo_unordered = \<lparr>h_heap = [4 \<mapsto> \<lparr>he_ip = 7, he_port = 80, he_timestamp = 500, he_next = Some 8\<rparr>,
       8 \<mapsto> \<lparr>he_ip = 5, he_port = 443, he_timestamp = 0, he_next = None\<rparr>],
     h_head = Some 4, h_curr = Some 8\<rparr>"

lemma demo_unordered_wf: "wf_history demo_unordered [4, 8]"
  by (auto simp: wf_frame_def demo_unordered_def)

theorem clean_list_use_after_free_witness:
  "clean_list_pass 700 demo_unordered = Some (Inl UseAfterFree)"
  by (rule clean_list_use_after_free [OF demo_unordered_wf, of 0 1])
    (simp_all add: auths_def demo_unordered_def auth_of_def auth_expired_def auth_time_def
      expiry_def TIMEVALIDITY_def)

text \<open>
  At the end of the 32-bit clock no clock needs to be set back: an authorisation of the last ten minutes wraps around, counts as expired
  at once, and stands behind one that has not expired.
\<close>

definition end_history :: history where
  "end_history = \<lparr>h_heap = [4 \<mapsto> \<lparr>he_ip = 7, he_port = 80, he_timestamp = 2 ^ 31 - 650, he_next = Some 8\<rparr>,
       8 \<mapsto> \<lparr>he_ip = 5, he_port = 443, he_timestamp = 2 ^ 31 - 100, he_next = None\<rparr>],
     h_head = Some 4, h_curr = Some 8\<rparr>"

lemma clean_at_end_of_time: "clean_list_pass (2 ^ 31 - 60) end_history = Some (Inl UseAfterFree)"
proof (rule clean_list_use_after_free [of _ "[4, 8]" 0 1])
  show "wf_history end_history [4, 8]" by (auto simp: wf_frame_def end_history_def)
qed (simp_all add: auths_def end_history_def auth_of_def auth_expired_def auth_time_def expiry_def TIMEVALIDITY_def)

section \<open>Deleting one authorisation\<close>

lemma auths_next_eq:
  assumes "h_heap s b = Some e" and "a \<notin> set ps"
  shows "auths (s\<lparr>h_heap := (h_heap s)(b \<mapsto> e\<lparr>he_next := q\<rparr>, a := None)\<rparr>) ps = auths s ps"
  using assms by (auto simp: auths_def auth_of_def)

lemma delete_middle:
  assumes wf: "wf_history s (qs @ a # rs)" and rs: "rs \<noteq> []"
  shows "\<exists>s'. delete_from_list_element (Some a) (if qs = [] then None else Some (last qs)) s =
      Inr (0, s') \<and> wf_history s' (qs @ rs) \<and> auths s' (qs @ rs) = auths s qs @ auths s rs"
proof (cases qs rule: rev_cases)
  case Nil
  then show ?thesis using delete_head [of "{}" s a rs] wf by (auto simp: auths_def)
next
  case (snoc us b)
  from wf snoc obtain eb ea where e: "h_heap s b = Some eb" "h_heap s a = Some ea"
      "he_next eb = Some a" "chain (h_heap s) (h_head s) us (Some b)"
      "chain (h_heap s) (he_next ea) rs None"
      "distinct (us @ b # a # rs)" "dom (h_heap s) = set (us @ b # a # rs)"
      "h_curr s = Some (last rs)"
    using rs by (auto simp: wf_frame_def chain_append split: option.splits)
  have ne: "last rs \<in> set rs" using rs by simp
  then have neq: "h_curr s \<noteq> Some a" using e by auto
  have hd: "h_head s \<noteq> Some a" using e(4,6) by (cases us) auto
  let ?s = "s\<lparr>h_heap := (h_heap s)(b \<mapsto> eb\<lparr>he_next := he_next ea\<rparr>, a := None)\<rparr>"
  have "delete_from_list_element (Some a) (if qs = [] then None else Some (last qs)) s = Inr (0, ?s)"
    using snoc e neq hd
    by (simp add: delete_from_list_element_def deref_def set_next_def free_element_def)
  moreover have "wf_history ?s (qs @ rs)"
    using snoc e rs by (auto simp: wf_frame_def heap_simps)
  moreover have "auths ?s (qs @ rs) = auths s qs @ auths s rs"
    using auths_next_eq [OF e(1), of a "qs @ rs" "he_next ea"] snoc e(6) by (simp add: auths_def)
  ultimately show ?thesis by blast
qed

lemma find_takeWhile:
  "find P xs = Some a \<Longrightarrow> \<exists>zs. xs = takeWhile (\<lambda>x. \<not> P x) xs @ a # zs"
  by (induction xs) (auto split: if_splits)

lemma snoc_split: "qs @ [a] = ts @ a # zs \<Longrightarrow> a \<notin> set qs \<Longrightarrow> ts = qs"
  by (cases zs rule: rev_cases) auto

lemma delete_from_list_found:
  assumes "wf_history s ps" and "find (\<lambda>a. he_matches i p now (the (h_heap s a))) ps = Some a"
  shows "delete_from_list i p now s = Some (delete_from_list_element (Some a)
     (let qs = takeWhile (\<lambda>a. \<not> he_matches i p now (the (h_heap s a))) ps
      in if qs = [] then None else Some (last qs)) s)"
  using search_in_list_wf [OF assms(1), of i p now None] assms(2)
  by (simp add: delete_from_list_def)

text \<open>
  Deleting by destination. If the first valid element for the destination is not the last
  element of the list, exactly that element is unlinked and freed and the list stays well formed;
  if there is none, the result is \<open>-1\<close> and nothing changes.
\<close>

lemma delete_from_list_correct:
  assumes "wf_history s ps"
  shows "case find (\<lambda>a. he_matches i p now (the (h_heap s a))) ps of
      None \<Rightarrow> delete_from_list i p now s = Some (Inr (-1, s))
    | Some a \<Rightarrow> a \<noteq> last ps \<longrightarrow>
        (\<exists>s'. delete_from_list i p now s = Some (Inr (0, s')) \<and> wf_history s' (remove1 a ps) \<and>
          auths s' (remove1 a ps) = auths s (remove1 a ps))"
proof (cases "find (\<lambda>a. he_matches i p now (the (h_heap s a))) ps")
  case None
  then show ?thesis using search_in_list_wf [OF assms, of i p now None]
    by (simp add: delete_from_list_def delete_from_list_element_def)
next
  case (Some a)
  define qs where "qs = takeWhile (\<lambda>a. \<not> he_matches i p now (the (h_heap s a))) ps"
  from find_takeWhile [OF Some] obtain rs where ps: "ps = qs @ a # rs" by (auto simp: qs_def)
  from assms ps have "a \<notin> set qs" by (auto simp: wf_frame_def)
  then have rem: "remove1 a ps = qs @ rs" by (simp add: ps remove1_append)
  have "\<exists>s'. delete_from_list i p now s = Some (Inr (0, s')) \<and> wf_history s' (remove1 a ps) \<and>
          auths s' (remove1 a ps) = auths s (remove1 a ps)" if "a \<noteq> last ps"
  proof -
    from that ps have "rs \<noteq> []" by auto
    from delete_middle [OF assms [unfolded ps] this] show ?thesis
      using delete_from_list_found [OF assms Some] rem
      by (auto simp: qs_def [symmetric] Let_def auths_def)
  qed
  with Some show ?thesis by simp
qed

lemma delete_from_list_correct_witness:
  "\<exists>s'. delete_from_list 7 80 300 demo_full = Some (Inr (0, s')) \<and> wf_history s' [8]"
proof -
  have "wf_history demo_full [4, 8]" by (auto simp: wf_frame_def demo_full_def)
  from delete_from_list_correct [OF this, of 7 80 300] show ?thesis
    by (auto simp: demo_full_def he_matches_def expiry_def TIMEVALIDITY_def)
qed

text \<open>
  Deleting the last element empties the list. When the element found is the last one, the
  code clears \<open>head\<close> as well as \<open>curr\<close>: the elements before it are lost and stay allocated.
\<close>

lemma delete_last_drops_list:
  assumes "wf_history s (qs @ [a])"
    and "find (\<lambda>a. he_matches i p now (the (h_heap s a))) (qs @ [a]) = Some a"
  shows "\<exists>s'. delete_from_list i p now s = Some (Inr (0, s')) \<and>
    h_head s' = None \<and> h_curr s' = None \<and> dom (h_heap s') = set qs"
proof -
  let ?T = "takeWhile (\<lambda>a. \<not> he_matches i p now (the (h_heap s a))) (qs @ [a])"
  from find_takeWhile [OF assms(2)] obtain zs where zs: "qs @ [a] = ?T @ a # zs" by auto
  have "a \<notin> set qs" using assms(1) by (auto simp: wf_frame_def)
  with zs have qs: "?T = qs" by (rule snoc_split)
  have *: "\<exists>s'. delete_from_list_element (Some a) (if qs = [] then None else Some (last qs)) s =
      Inr (0, s') \<and> h_head s' = None \<and> h_curr s' = None \<and> dom (h_heap s') = set qs"
  proof (cases qs rule: rev_cases)
    case Nil
    with assms(1) show ?thesis
      by (auto simp: wf_frame_def delete_from_list_element_def free_element_def
          simp del: dom_eq_empty_conv split: option.splits)
  next
    case (snoc us b)
    with assms(1) obtain ea eb where "h_heap s a = Some ea" "h_heap s b = Some eb" "a \<noteq> b"
        "a \<notin> set us" "h_curr s = Some a" "dom (h_heap s) = insert a (insert b (set us))"
      by (auto simp: wf_frame_def chain_append split: option.splits)
    with snoc show ?thesis
      by (auto simp: delete_from_list_element_def free_element_def deref_def set_next_def)
  qed
  then show ?thesis
    using delete_from_list_found [OF assms] by (simp add: qs)
qed

lemma delete_last_drops_list_witness:
  "\<exists>s'. delete_from_list 5 443 550 demo_full = Some (Inr (0, s')) \<and> h_head s' = None \<and>
     dom (h_heap s') = {4}"
proof -
  have "wf_history demo_full ([4] @ [8])" by (auto simp: wf_frame_def demo_full_def)
  from delete_last_drops_list [OF this, of 5 443 550] show ?thesis
    by (auto simp: demo_full_def he_matches_def expiry_def TIMEVALIDITY_def)
qed

section \<open>The steps of the threads\<close>

text \<open>
  The code is not atomic where it runs without the mutex: \<open>add_to_list\<close> tests \<open>head\<close> and allocates before it takes the mutex,
  \<open>create_list\<close> stores \<open>curr\<close> and then \<open>head\<close> without it, and \<open>clean_list\<close> reads \<open>head\<close> and the clock before it takes the
  mutex. The program counters record how far a thread has come and what it has read. Since \<open>create_list\<close> can run in the
  middle of the cleaner's critical section, that section is one step per element, and the deletion of the last element is cut
  after the first store of \<open>curr = prev = head = NULL\<close>, which is the one to \<open>head\<close>. Appending and searching hold
  the mutex throughout and are one step, enabled while the cleaner does not hold it. Each store is seen by the other
  threads at once. A step whose access faults ends in the outcome \<open>Inl\<close>.
\<close>

datatype reader_pc =
    RIdle
  | RCall u32 u16 int   \<comment> \<open>\<open>current_time\<close> is read, \<open>add_to_list\<close> is called\<close>
  | RCreate addr        \<comment> \<open>\<open>head\<close> was null and the element is filled in, \<open>curr = ptr\<close> is next\<close>
  | RHead addr          \<comment> \<open>\<open>head = ptr\<close> is next\<close>
  | RAppend addr        \<comment> \<open>\<open>head\<close> was not null and the element is filled in, the mutex is next\<close>

datatype cleaner_pc =
    CSleep
  | CLock "addr option" int                   \<comment> \<open>\<open>ptr\<close> and \<open>current_time\<close> are read, the mutex is next\<close>
  | CLoop "addr option" "addr option" int     \<comment> \<open>in the loop, with \<open>ptr\<close>, \<open>prev\<close> and \<open>current_time\<close>\<close>
  | CClear addr "addr option" int             \<comment> \<open>\<open>head\<close> is cleared, \<open>curr = NULL\<close> is next\<close>

record threads =
  th_now :: int
  th_hist :: history
  th_reader :: reader_pc
  th_cleaner :: cleaner_pc

definition init_threads :: "int \<Rightarrow> threads" where
  "init_threads t = \<lparr>th_now = t, th_hist = init_history, th_reader = RIdle, th_cleaner = CSleep\<rparr>"

definition cleaner_locks :: "cleaner_pc \<Rightarrow> bool" where
  "cleaner_locks pc \<longleftrightarrow> (case pc of CSleep \<Rightarrow> False | CLock _ _ \<Rightarrow> False | CLoop _ _ _ \<Rightarrow> True | CClear _ _ _ \<Rightarrow> True)"

definition reader_fill :: "addr \<Rightarrow> u32 \<Rightarrow> u16 \<Rightarrow> int \<Rightarrow> history \<Rightarrow> history" where
  "reader_fill a i p ts s =
     s\<lparr>h_heap := (h_heap s)(a \<mapsto> \<lparr>he_ip = i, he_port = p, he_timestamp = ts, he_next = None\<rparr>)\<rparr>"

definition reader_append :: "addr \<Rightarrow> history \<Rightarrow> history res" where
  "reader_append a s = rbind (set_next s (h_curr s) (Some a)) (\<lambda>s1. Inr (s1\<lparr>h_curr := Some a\<rparr>))"

text \<open>The end of \<open>delete_from_list_element\<close> and what the loop of \<open>clean_list\<close> does after it.\<close>

definition cleaner_free :: "addr \<Rightarrow> addr option \<Rightarrow> int \<Rightarrow> history \<Rightarrow> (history \<times> cleaner_pc) res" where
  "cleaner_free a prev t s =
     rbind (free_element s a) (\<lambda>s'.
       if prev \<noteq> None then rbind (deref s' (Some a)) (\<lambda>e. Inr (s', CLoop (he_next e) (Some a) t))
       else Inr (s', CLoop (h_head s') prev t))"

definition cleaner_round :: "addr option \<Rightarrow> addr option \<Rightarrow> int \<Rightarrow> history \<Rightarrow> (history \<times> cleaner_pc) res" where
  "cleaner_round ptr prev t s =
     (case ptr of
        None \<Rightarrow> Inr (s, CSleep)
      | Some a \<Rightarrow>
          rbind (deref s ptr) (\<lambda>e.
            if \<not> he_expired t e then Inr (s, CLoop (he_next e) ptr t)
            else rbind (if prev \<noteq> None then set_next s prev (he_next e) else Inr s) (\<lambda>s1.
              if ptr = h_curr s1 then Inr (s1\<lparr>h_head := None\<rparr>, CClear a prev t)
              else if ptr = h_head s1
              then rbind (deref s1 ptr) (\<lambda>e. cleaner_free a prev t (s1\<lparr>h_head := he_next e\<rparr>))
              else cleaner_free a prev t s1)))"

definition cleaner_clear :: "addr \<Rightarrow> addr option \<Rightarrow> int \<Rightarrow> history \<Rightarrow> (history \<times> cleaner_pc) res" where
  "cleaner_clear a prev t s = cleaner_free a prev t (s\<lparr>h_curr := None\<rparr>)"

inductive thread_step :: "threads \<Rightarrow> threads res \<Rightarrow> bool" where
  tick: "th_now c \<le> t \<Longrightarrow> thread_step c (Inr (c\<lparr>th_now := t\<rparr>))"
| reader_time: "th_reader c = RIdle \<Longrightarrow> thread_step c (Inr (c\<lparr>th_reader := RCall i p (th_now c)\<rparr>))"
| reader_no_memory: "th_reader c = RCall i p ts \<Longrightarrow> thread_step c (Inr (c\<lparr>th_reader := RIdle\<rparr>))"
| reader_create: "th_reader c = RCall i p ts \<Longrightarrow> h_head (th_hist c) = None \<Longrightarrow> h_heap (th_hist c) a = None \<Longrightarrow>
     thread_step c (Inr (c\<lparr>th_hist := reader_fill a i p ts (th_hist c), th_reader := RCreate a\<rparr>))"
| reader_curr: "th_reader c = RCreate a \<Longrightarrow>
     thread_step c (Inr (c\<lparr>th_hist := (th_hist c)\<lparr>h_curr := Some a\<rparr>, th_reader := RHead a\<rparr>))"
| reader_head: "th_reader c = RHead a \<Longrightarrow>
     thread_step c (Inr (c\<lparr>th_hist := (th_hist c)\<lparr>h_head := Some a\<rparr>, th_reader := RIdle\<rparr>))"
| reader_alloc: "th_reader c = RCall i p ts \<Longrightarrow> h_head (th_hist c) \<noteq> None \<Longrightarrow> h_heap (th_hist c) a = None \<Longrightarrow>
     thread_step c (Inr (c\<lparr>th_hist := reader_fill a i p ts (th_hist c), th_reader := RAppend a\<rparr>))"
| reader_append_ok: "th_reader c = RAppend a \<Longrightarrow> \<not> cleaner_locks (th_cleaner c) \<Longrightarrow> reader_append a (th_hist c) = Inr s' \<Longrightarrow>
     thread_step c (Inr (c\<lparr>th_hist := s', th_reader := RIdle\<rparr>))"
| reader_append_fault: "th_reader c = RAppend a \<Longrightarrow> \<not> cleaner_locks (th_cleaner c) \<Longrightarrow> reader_append a (th_hist c) = Inl f \<Longrightarrow>
     thread_step c (Inl f)"
| cleaner_wake: "th_cleaner c = CSleep \<Longrightarrow>
     thread_step c (Inr (c\<lparr>th_cleaner := CLock (h_head (th_hist c)) (th_now c)\<rparr>))"
| cleaner_lock: "th_cleaner c = CLock ptr t \<Longrightarrow> thread_step c (Inr (c\<lparr>th_cleaner := CLoop ptr None t\<rparr>))"
| cleaner_round_ok: "th_cleaner c = CLoop ptr prev t \<Longrightarrow> cleaner_round ptr prev t (th_hist c) = Inr (s', pc) \<Longrightarrow>
     thread_step c (Inr (c\<lparr>th_hist := s', th_cleaner := pc\<rparr>))"
| cleaner_round_fault: "th_cleaner c = CLoop ptr prev t \<Longrightarrow> cleaner_round ptr prev t (th_hist c) = Inl f \<Longrightarrow>
     thread_step c (Inl f)"
| cleaner_clear_ok: "th_cleaner c = CClear a prev t \<Longrightarrow> cleaner_clear a prev t (th_hist c) = Inr (s', pc) \<Longrightarrow>
     thread_step c (Inr (c\<lparr>th_hist := s', th_cleaner := pc\<rparr>))"
| cleaner_clear_fault: "th_cleaner c = CClear a prev t \<Longrightarrow> cleaner_clear a prev t (th_hist c) = Inl f \<Longrightarrow>
     thread_step c (Inl f)"
| sender_fault: "\<not> cleaner_locks (th_cleaner c) \<Longrightarrow> search_in_list i p (th_now c) q (th_hist c) = Some (Inl f) \<Longrightarrow>
     thread_step c (Inl f)"

inductive thread_reachable :: "int \<Rightarrow> threads res \<Rightarrow> bool" for t0 where
  start: "thread_reachable t0 (Inr (init_threads t0))"
| step: "thread_reachable t0 (Inr c) \<Longrightarrow> thread_step c c' \<Longrightarrow> thread_reachable t0 c'"

text \<open>The steps of one thread without interruption are the calls.\<close>

lemma split_add_is_add_to_list:
  assumes "h_head s \<noteq> None"
  shows "add_to_list (Some a) i p ts s = rbind (reader_append a (reader_fill a i p ts s)) (\<lambda>s'. Inr (Some a, s'))"
  using assms by (auto simp: add_to_list_def reader_append_def reader_fill_def rbind_def Let_def split: sum.split)

lemma split_create_is_create_list:
  "create_list (Some a) i p ts s = (Some a, (reader_fill a i p ts s)\<lparr>h_curr := Some a, h_head := Some a\<rparr>)"
  by (simp add: create_list_def reader_fill_def)

lemma split_clean_is_clean_loop:
  "clean_loop t ptr prev s =
     (case cleaner_round ptr prev t s of
        Inl f \<Rightarrow> Some (Inl f)
      | Inr (s', CLoop p q _) \<Rightarrow> clean_loop t p q s'
      | Inr (s', CClear a q _) \<Rightarrow>
          (case cleaner_clear a q t s' of Inl f \<Rightarrow> Some (Inl f) | Inr (s'', CLoop p' q' _) \<Rightarrow> clean_loop t p' q' s'')
      | Inr (s', _) \<Rightarrow> Some (Inr s'))"
proof (cases ptr)
  case None
  then show ?thesis by (simp add: cleaner_round_def)
next
  case (Some a)
  note defs = cleaner_round_def cleaner_clear_def cleaner_free_def delete_from_list_element_def deref_def set_next_def free_element_def
  show ?thesis
  proof (cases "h_heap s a")
    case None
    then show ?thesis using Some by (subst clean_loop.simps) (simp add: defs)
  next
    case e: (Some e)
    show ?thesis
    proof (cases "he_expired t e")
      case False
      then show ?thesis using Some e by (subst clean_loop.simps) (simp add: defs)
    next
      case True
      then show ?thesis using Some e
        by (cases prev; cases "h_heap s (the prev)"; cases "h_curr s = Some a"; cases "h_head s = Some a"; subst clean_loop.simps)
          (simp_all add: defs)
    qed
  qed
qed

section \<open>Races\<close>

definition race_history :: history where
  "race_history = \<lparr>h_heap = [8 \<mapsto> \<lparr>he_ip = 5, he_port = 443, he_timestamp = 601, he_next = None\<rparr>],
     h_head = None, h_curr = None\<rparr>"

definition race_threads :: threads where
  "race_threads = \<lparr>th_now = 601, th_hist = race_history, th_reader = RAppend 8, th_cleaner = CSleep\<rparr>"

lemmas thread_eval = cleaner_round_def cleaner_clear_def cleaner_free_def deref_def set_next_def free_element_def
  he_expired_def expiry_def TIMEVALIDITY_def reader_fill_def cleaner_locks_def

text \<open>Both races begin with one authorisation at time 0 that has expired at time 601, when the cleaner runs.\<close>

definition one_history :: history where
  "one_history = \<lparr>h_heap = [4 \<mapsto> \<lparr>he_ip = 7, he_port = 80, he_timestamp = 0, he_next = None\<rparr>], h_head = Some 4, h_curr = Some 4\<rparr>"

lemma one_reachable:
  "thread_reachable 0 (Inr \<lparr>th_now = 601, th_hist = one_history, th_reader = RCall 5 443 601, th_cleaner = CSleep\<rparr>)"
proof -
  let ?h = "reader_fill 4 7 80 0 init_history"
  note go = thread_reachable.step [of 0]
  have "thread_reachable 0 (Inr \<lparr>th_now = 0, th_hist = init_history, th_reader = RIdle, th_cleaner = CSleep\<rparr>)"
    using thread_reachable.start [of 0] by (simp add: init_threads_def)
  from go [OF this thread_step.reader_time [of _ 7 80]]
  have "thread_reachable 0 (Inr \<lparr>th_now = 0, th_hist = init_history, th_reader = RCall 7 80 0, th_cleaner = CSleep\<rparr>)" by simp
  from go [OF this thread_step.reader_create [of _ 7 80 0 4]]
  have "thread_reachable 0 (Inr \<lparr>th_now = 0, th_hist = ?h, th_reader = RCreate 4, th_cleaner = CSleep\<rparr>)"
    by (simp add: init_history_def)
  from go [OF this thread_step.reader_curr [of _ 4]]
  have "thread_reachable 0 (Inr \<lparr>th_now = 0, th_hist = ?h\<lparr>h_curr := Some 4\<rparr>, th_reader = RHead 4, th_cleaner = CSleep\<rparr>)" by simp
  from go [OF this thread_step.reader_head [of _ 4]]
  have "thread_reachable 0 (Inr \<lparr>th_now = 0, th_hist = one_history, th_reader = RIdle, th_cleaner = CSleep\<rparr>)"
    by (simp add: one_history_def reader_fill_def init_history_def)
  from go [OF this thread_step.tick [of _ 601]]
  have "thread_reachable 0 (Inr \<lparr>th_now = 601, th_hist = one_history, th_reader = RIdle, th_cleaner = CSleep\<rparr>)" by simp
  from go [OF this thread_step.reader_time [of _ 5 443]] show ?thesis by simp
qed

lemma race_state_reachable: "thread_reachable 0 (Inr race_threads)"
proof -
  let ?h = "reader_fill 8 5 443 601 one_history"
  note go = thread_reachable.step [of 0]
  from go [OF one_reachable thread_step.reader_alloc [of _ 5 443 601 8]]
  have "thread_reachable 0 (Inr \<lparr>th_now = 601, th_hist = ?h, th_reader = RAppend 8, th_cleaner = CSleep\<rparr>)"
    by (simp add: one_history_def)
  from go [OF this thread_step.cleaner_wake]
  have "thread_reachable 0 (Inr \<lparr>th_now = 601, th_hist = ?h, th_reader = RAppend 8, th_cleaner = CLock (Some 4) 601\<rparr>)"
    by (simp add: one_history_def reader_fill_def)
  from go [OF this thread_step.cleaner_lock [of _ "Some 4" 601]]
  have "thread_reachable 0 (Inr \<lparr>th_now = 601, th_hist = ?h, th_reader = RAppend 8, th_cleaner = CLoop (Some 4) None 601\<rparr>)" by simp
  from go [OF this thread_step.cleaner_round_ok [of _ "Some 4" None 601 "?h\<lparr>h_head := None\<rparr>" "CClear 4 None 601"]]
  have "thread_reachable 0 (Inr \<lparr>th_now = 601, th_hist = ?h\<lparr>h_head := None\<rparr>, th_reader = RAppend 8, th_cleaner = CClear 4 None 601\<rparr>)"
    by (simp add: thread_eval one_history_def)
  from go [OF this thread_step.cleaner_clear_ok [of _ 4 None 601 race_history "CLoop None None 601"]]
  have "thread_reachable 0 (Inr \<lparr>th_now = 601, th_hist = race_history, th_reader = RAppend 8, th_cleaner = CLoop None None 601\<rparr>)"
    by (simp add: thread_eval one_history_def race_history_def fun_eq_iff)
  from go [OF this thread_step.cleaner_round_ok [of _ None None 601 race_history CSleep]] show ?thesis
    by (simp add: thread_eval race_threads_def)
qed

lemma race_step: "thread_step race_threads (Inl NullDeref)"
  by (rule thread_step.reader_append_fault [of _ 8])
    (simp_all add: race_threads_def race_history_def reader_append_def set_next_def cleaner_locks_def)

text \<open>
  C39. The race between the reader and the cleaner. There is an interleaving, with a clock that
  never runs backwards, in which \<open>add_to_list\<close> dereferences a null pointer: it sees a list that
  is not empty, the cleaner then deletes every element and clears \<open>curr\<close>, and the reader writes
  to \<open>curr->next\<close>.
\<close>

theorem add_clean_race: "thread_reachable 0 (Inl NullDeref)"
  by (rule thread_reachable.step [OF race_state_reachable race_step])

text \<open>
  A second race needs no element in the reader's hands when the cleaner starts: \<open>create_list\<close> runs between the cleaner's
  stores to \<open>head\<close> and to \<open>curr\<close>. The list is then not empty but has no last element, and the next
  append faults.
\<close>

definition lost_history :: history where
  "lost_history = \<lparr>h_heap = [8 \<mapsto> \<lparr>he_ip = 5, he_port = 443, he_timestamp = 601, he_next = None\<rparr>], h_head = Some 8, h_curr = None\<rparr>"

lemma lost_reachable:
  "thread_reachable 0 (Inr \<lparr>th_now = 601, th_hist = lost_history, th_reader = RIdle, th_cleaner = CSleep\<rparr>)"
proof -
  let ?h0 = "one_history\<lparr>h_head := None\<rparr>"
  let ?h1 = "reader_fill 8 5 443 601 ?h0"
  note go = thread_reachable.step [of 0]
  from go [OF one_reachable thread_step.cleaner_wake]
  have "thread_reachable 0 (Inr \<lparr>th_now = 601, th_hist = one_history, th_reader = RCall 5 443 601, th_cleaner = CLock (Some 4) 601\<rparr>)"
    by (simp add: one_history_def)
  from go [OF this thread_step.cleaner_lock [of _ "Some 4" 601]]
  have "thread_reachable 0 (Inr \<lparr>th_now = 601, th_hist = one_history, th_reader = RCall 5 443 601, th_cleaner = CLoop (Some 4) None 601\<rparr>)" by simp
  from go [OF this thread_step.cleaner_round_ok [of _ "Some 4" None 601 ?h0 "CClear 4 None 601"]]
  have "thread_reachable 0 (Inr \<lparr>th_now = 601, th_hist = ?h0, th_reader = RCall 5 443 601, th_cleaner = CClear 4 None 601\<rparr>)"
    by (simp add: thread_eval one_history_def)
  from go [OF this thread_step.reader_create [of _ 5 443 601 8]]
  have "thread_reachable 0 (Inr \<lparr>th_now = 601, th_hist = ?h1, th_reader = RCreate 8, th_cleaner = CClear 4 None 601\<rparr>)"
    by (simp add: one_history_def)
  from go [OF this thread_step.reader_curr [of _ 8]]
  have "thread_reachable 0 (Inr \<lparr>th_now = 601, th_hist = ?h1\<lparr>h_curr := Some 8\<rparr>, th_reader = RHead 8, th_cleaner = CClear 4 None 601\<rparr>)" by simp
  from go [OF this thread_step.reader_head [of _ 8]]
  have "thread_reachable 0 (Inr \<lparr>th_now = 601, th_hist = ?h1\<lparr>h_curr := Some 8, h_head := Some 8\<rparr>, th_reader = RIdle, th_cleaner = CClear 4 None 601\<rparr>)"
    by simp
  from go [OF this thread_step.cleaner_clear_ok [of _ 4 None 601 lost_history "CLoop (Some 8) None 601"]]
  have "thread_reachable 0 (Inr \<lparr>th_now = 601, th_hist = lost_history, th_reader = RIdle, th_cleaner = CLoop (Some 8) None 601\<rparr>)"
    by (simp add: thread_eval one_history_def lost_history_def fun_eq_iff)
  from go [OF this thread_step.cleaner_round_ok [of _ "Some 8" None 601 lost_history "CLoop None (Some 8) 601"]]
  have "thread_reachable 0 (Inr \<lparr>th_now = 601, th_hist = lost_history, th_reader = RIdle, th_cleaner = CLoop None (Some 8) 601\<rparr>)"
    by (simp add: thread_eval lost_history_def)
  from go [OF this thread_step.cleaner_round_ok [of _ None "Some 8" 601 lost_history CSleep]] show ?thesis by (simp add: thread_eval)
qed

lemma create_clean_race:
  "\<exists>c. thread_reachable 0 (Inr c) \<and> h_head (th_hist c) \<noteq> None \<and> th_cleaner c = CSleep \<and> thread_step c (Inl NullDeref)"
proof -
  let ?h = "reader_fill 12 1 22 601 lost_history"
  let ?c = "\<lparr>th_now = 601, th_hist = ?h, th_reader = RAppend 12, th_cleaner = CSleep\<rparr>"
  note go = thread_reachable.step [of 0]
  from go [OF lost_reachable thread_step.reader_time [of _ 1 22]]
  have "thread_reachable 0 (Inr \<lparr>th_now = 601, th_hist = lost_history, th_reader = RCall 1 22 601, th_cleaner = CSleep\<rparr>)" by simp
  from go [OF this thread_step.reader_alloc [of _ 1 22 601 12]] have "thread_reachable 0 (Inr ?c)" by (simp add: lost_history_def)
  moreover have "thread_step ?c (Inl NullDeref)"
    by (rule thread_step.reader_append_fault [of _ 12]) (simp_all add: reader_append_def set_next_def thread_eval lost_history_def)
  ultimately show ?thesis by (intro exI [of _ ?c]) (simp add: reader_fill_def lost_history_def)
qed

section \<open>The only fault\<close>

text \<open>
  What holds between the steps. The elements that are not in the list are the one the reader holds and the one the
  cleaner is about to free; timestamps are in order; the reader creates a list only while there is none. \<open>curr\<close>
  is the last element, or null while the list has at most one element.
\<close>

definition reader_holds :: "reader_pc \<Rightarrow> addr list" where
  "reader_holds pc = (case pc of RCreate a \<Rightarrow> [a] | RHead a \<Rightarrow> [a] | RAppend a \<Rightarrow> [a] | _ \<Rightarrow> [])"

definition reader_called :: "reader_pc \<Rightarrow> auth list" where
  "reader_called pc = (case pc of RCall i p ts \<Rightarrow> [(i, p, ts)] | _ \<Rightarrow> [])"

definition cleaner_holds :: "cleaner_pc \<Rightarrow> addr list" where
  "cleaner_holds pc = (case pc of CClear a prev t \<Rightarrow> [a] | _ \<Rightarrow> [])"

definition shape :: "addr list \<Rightarrow> addr list \<Rightarrow> addr list \<Rightarrow> history \<Rightarrow> bool" where
  "shape ps rs cs s \<longleftrightarrow> chain (h_heap s) (h_head s) ps None \<and> distinct (ps @ rs @ cs) \<and> dom (h_heap s) = set (ps @ rs @ cs) \<and>
     (\<forall>a\<in>set rs. \<exists>e. h_heap s a = Some e \<and> he_next e = None)"

definition times_ok :: "int \<Rightarrow> auth list \<Rightarrow> bool" where
  "times_ok now xs \<longleftrightarrow> sorted (map auth_time xs) \<and> (\<forall>x\<in>set xs. 0 \<le> auth_time x \<and> auth_time x \<le> now)"

definition reader_ok :: "addr list \<Rightarrow> reader_pc \<Rightarrow> bool" where
  "reader_ok ps pc = (case pc of RCreate a \<Rightarrow> ps = [] | RHead a \<Rightarrow> ps = [] | _ \<Rightarrow> True)"

definition curr_ok :: "addr list \<Rightarrow> reader_pc \<Rightarrow> addr list \<Rightarrow> addr option \<Rightarrow> bool" where
  "curr_ok ps rd cs cu = (case cu of
     None \<Rightarrow> length ps \<le> 1
   | Some x \<Rightarrow> if ps \<noteq> [] then x = last ps
       else (case rd of RHead a \<Rightarrow> x = a | _ \<Rightarrow> cs = [x]))"

definition cleaner_ok :: "addr list \<Rightarrow> history \<Rightarrow> cleaner_pc \<Rightarrow> bool" where
  "cleaner_ok ps s pc = (case pc of
     CSleep \<Rightarrow> True
   | CLock ptr t \<Rightarrow> ptr = None \<or> ptr = h_head s
   | CLoop ptr prev t \<Rightarrow> ptr = None \<or> prev = None \<and> ptr = h_head s \<or>
       prev \<noteq> None \<and> (\<exists>qs rs. ps = qs @ rs \<and> chain (h_heap s) ptr rs None \<and> (\<forall>a\<in>set rs. \<not> he_expired t (the (h_heap s a))))
   | CClear a prev t \<Rightarrow> prev = None \<and> length ps \<le> 1)"

definition thread_inv :: "addr list \<Rightarrow> threads \<Rightarrow> bool" where
  "thread_inv ps c \<longleftrightarrow>
     shape ps (reader_holds (th_reader c)) (cleaner_holds (th_cleaner c)) (th_hist c) \<and>
     times_ok (th_now c) (auths (th_hist c) (ps @ reader_holds (th_reader c)) @ reader_called (th_reader c)) \<and> 0 \<le> th_now c \<and>
     reader_ok ps (th_reader c) \<and> curr_ok ps (th_reader c) (cleaner_holds (th_cleaner c)) (h_curr (th_hist c)) \<and>
     cleaner_ok ps (th_hist c) (th_cleaner c)"

lemma auths_append [simp]: "auths s (ps @ qs) = auths s ps @ auths s qs"
  by (simp add: auths_def)

lemma times_ok_append: "times_ok now (xs @ ys) \<Longrightarrow> times_ok now xs"
  by (auto simp: times_ok_def sorted_append)

lemma times_ok_snoc: "times_ok now xs \<Longrightarrow> 0 \<le> now \<Longrightarrow> times_ok now (xs @ [(i, p, now)])"
  by (auto simp: times_ok_def sorted_append auth_time_def)

lemma times_ok_mono: "times_ok now xs \<Longrightarrow> now \<le> now' \<Longrightarrow> times_ok now' xs"
  by (auto simp: times_ok_def)

lemma times_in_order: "times_ok now xs \<Longrightarrow> in_time now \<Longrightarrow> in_order xs"
  using in_orderI [of xs now] by (simp add: times_ok_def)

lemma thread_inv_init: "0 \<le> t \<Longrightarrow> thread_inv [] (init_threads t)"
  by (simp add: thread_inv_def init_threads_def init_history_def shape_def times_ok_def reader_ok_def curr_ok_def cleaner_ok_def
      reader_holds_def reader_called_def cleaner_holds_def)

lemma curr_ok_simps [simp]:
  "curr_ok ps (RCall i p ts) cs cu = curr_ok ps RIdle cs cu" "curr_ok ps (RCreate a) cs cu = curr_ok ps RIdle cs cu"
  "curr_ok ps (RAppend a) cs cu = curr_ok ps RIdle cs cu"
  by (simp_all add: curr_ok_def split: option.split)

lemma fill_shape:
  assumes "shape ps [] cs s" and "h_heap s a = None"
  shows "shape ps [a] cs (reader_fill a i p ts s)" and "auths (reader_fill a i p ts s) (ps @ [a]) = auths s ps @ [(i, p, ts)]"
    and "cleaner_ok ps s pc \<Longrightarrow> cleaner_ok ps (reader_fill a i p ts s) pc"
proof -
  have a: "a \<notin> set ps" "a \<notin> set cs" using assms by (auto simp: shape_def)
  then show "shape ps [a] cs (reader_fill a i p ts s)"
    using assms(1) by (auto simp: shape_def reader_fill_def heap_simps)
  show "auths (reader_fill a i p ts s) (ps @ [a]) = auths s ps @ [(i, p, ts)]"
    using a(1) by (auto simp: auths_def reader_fill_def auth_of_def)
  show "cleaner_ok ps (reader_fill a i p ts s) pc" if "cleaner_ok ps s pc"
  proof (cases pc)
    case (CLoop ptr prev t)
    have h: "h_head (reader_fill a i p ts s) = h_head s" by (simp add: reader_fill_def)
    have "chain (h_heap (reader_fill a i p ts s)) ptr rs None \<and> (\<forall>b\<in>set rs. \<not> he_expired t (the (h_heap (reader_fill a i p ts s) b)))"
      if "ps = qs @ rs" "chain (h_heap s) ptr rs None" "\<forall>b\<in>set rs. \<not> he_expired t (the (h_heap s b))" for qs rs
    proof -
      have "a \<notin> set rs" using a(1) that(1) by simp
      then show ?thesis using that(2,3) by (auto simp: reader_fill_def heap_simps)
    qed
    then show ?thesis using that unfolding CLoop cleaner_ok_def cleaner_pc.case h by blast
  qed (use that in \<open>auto simp: cleaner_ok_def reader_fill_def\<close>)
qed

lemma head_null: "shape ps rs cs s \<Longrightarrow> h_head s = None \<longleftrightarrow> ps = []"
  by (cases ps) (auto simp: shape_def)

lemma inv_reader_head:
  assumes "thread_inv ps c" and "th_reader c = RHead a"
  shows "thread_inv [a] (c\<lparr>th_hist := (th_hist c)\<lparr>h_head := Some a\<rparr>, th_reader := RIdle\<rparr>)"
proof -
  have [simp]: "ps = []" using assms by (simp add: thread_inv_def reader_ok_def)
  have sh: "shape [] [a] (cleaner_holds (th_cleaner c)) (th_hist c)" using assms by (simp add: thread_inv_def reader_holds_def)
  then have "h_head (th_hist c) = None" by (simp add: shape_def)
  then have "cleaner_ok [a] ((th_hist c)\<lparr>h_head := Some a\<rparr>) (th_cleaner c)"
    using assms(1) by (auto simp: thread_inv_def cleaner_ok_def split: cleaner_pc.splits)
  then show ?thesis using assms sh
    by (auto simp: thread_inv_def shape_def reader_holds_def reader_called_def reader_ok_def curr_ok_def auths_def split: option.splits)
qed

lemma append_shape:
  assumes "shape ps [a] cs s" and "ps \<noteq> []" and "h_curr s = Some (last ps)"
  shows "\<exists>s'. reader_append a s = Inr s' \<and> shape (ps @ [a]) [] cs s' \<and> auths s' (ps @ [a]) = auths s (ps @ [a]) \<and>
    h_head s' = h_head s \<and> h_curr s' = Some a"
proof -
  obtain qs b where ps: "ps = qs @ [b]" using assms(2) by (metis append_butlast_last_id)
  obtain ea where ea: "h_heap s a = Some ea" "he_next ea = None" using assms(1) by (auto simp: shape_def)
  obtain e where e: "h_heap s b = Some e" "he_next e = None" "chain (h_heap s) (h_head s) qs (Some b)" "b \<notin> set qs" "distinct qs"
      "a \<noteq> b" "a \<notin> set qs" "a \<notin> set cs" "b \<notin> set cs" "set qs \<inter> set cs = {}" "distinct cs" "dom (h_heap s) = insert a (insert b (set qs \<union> set cs))"
    using assms(1) ps by (auto simp: shape_def chain_append split: option.splits)
  define s' where "s' = s\<lparr>h_heap := (h_heap s)(b \<mapsto> e\<lparr>he_next := Some a\<rparr>), h_curr := Some a\<rparr>"
  have "reader_append a s = Inr s'" using assms(3) e(1) ps by (simp add: reader_append_def set_next_def s'_def)
  moreover have "shape (ps @ [a]) [] cs s'" using e ea ps by (auto simp: shape_def s'_def heap_simps)
  moreover have "auths s' (ps @ [a]) = auths s (ps @ [a])" using e ps by (auto simp: auths_def auth_of_def s'_def)
  ultimately show ?thesis by (auto simp: s'_def)
qed

lemma inv_append:
  assumes "thread_inv ps c" and "th_reader c = RAppend a" and "\<not> cleaner_locks (th_cleaner c)"
  shows "h_curr (th_hist c) = None \<and> reader_append a (th_hist c) = Inl NullDeref \<or>
    (\<exists>s'. reader_append a (th_hist c) = Inr s' \<and> thread_inv (ps @ [a]) (c\<lparr>th_hist := s', th_reader := RIdle\<rparr>))"
proof (cases "h_curr (th_hist c)")
  case None
  then show ?thesis by (simp add: reader_append_def set_next_def)
next
  case (Some x)
  have h: "cleaner_holds (th_cleaner c) = []" using assms(3) by (auto simp: cleaner_holds_def cleaner_locks_def split: cleaner_pc.splits)
  then have ps: "ps \<noteq> []" "x = last ps" using assms(1,2) Some by (auto simp: thread_inv_def curr_ok_def split: if_splits)
  have sh: "shape ps [a] [] (th_hist c)" using assms(1,2) h by (simp add: thread_inv_def reader_holds_def)
  from append_shape [OF sh ps(1)] Some ps(2) obtain s' where s': "reader_append a (th_hist c) = Inr s'" "shape (ps @ [a]) [] [] s'"
    "auths s' (ps @ [a]) = auths (th_hist c) (ps @ [a])" "h_head s' = h_head (th_hist c)" "h_curr s' = Some a" by auto
  have "cleaner_ok (ps @ [a]) s' (th_cleaner c)"
    using assms(1,3) s'(4) by (auto simp: thread_inv_def cleaner_ok_def cleaner_locks_def split: cleaner_pc.splits)
  then have "thread_inv (ps @ [a]) (c\<lparr>th_hist := s', th_reader := RIdle\<rparr>)"
    using assms(1,2) s' h unfolding thread_inv_def by (simp add: reader_holds_def reader_called_def reader_ok_def curr_ok_def del: auths_append)
  then show ?thesis using s'(1) by blast
qed

lemma inv_round_delete:
  assumes inv: "thread_inv ps c" and cl: "th_cleaner c = CLoop ptr prev t" and "ptr = Some a" "prev = None" "ps = a # rs" "h_heap (th_hist c) a = Some e"
    "chain (h_heap (th_hist c)) (he_next e) rs None" "he_expired t e" "h_head (th_hist c) = Some a"
  shows "\<exists>s' pc ps'. cleaner_round ptr prev t (th_hist c) = Inr (s', pc) \<and> thread_inv ps' (c\<lparr>th_hist := s', th_cleaner := pc\<rparr>)"
proof -
  let ?s = "th_hist c" and ?rs = "reader_holds (th_reader c)"
  have sh: "shape (a # rs) ?rs [] ?s" using inv cl assms(5) by (simp add: thread_inv_def cleaner_holds_def)
  have tm: "times_ok (th_now c) (auths ?s (rs @ ?rs) @ reader_called (th_reader c))"
    using inv assms(5) by (simp add: thread_inv_def times_ok_def)
  have a: "a \<notin> set rs" "a \<notin> set ?rs" using sh by (auto simp: shape_def)
  have rd: "reader_ok rs (th_reader c)" "\<And>b. th_reader c \<noteq> RHead b"
    using inv assms(5) by (auto simp: thread_inv_def reader_ok_def split: reader_pc.splits)
  show ?thesis
  proof (cases "h_curr ?s = Some a")
    case True
    then have rs: "rs = []" using inv assms(5) a by (auto simp: thread_inv_def curr_ok_def split: if_splits)
    let ?s' = "?s\<lparr>h_head := None\<rparr>"
    have "cleaner_round ptr prev t ?s = Inr (?s', CClear a None t)"
      using assms True by (simp add: cleaner_round_def deref_def)
    moreover have "shape [] ?rs [a] ?s'" using sh rs by (auto simp: shape_def)
    then have "thread_inv [] (c\<lparr>th_hist := ?s', th_cleaner := CClear a None t\<rparr>)"
      using tm rs rd True inv by (auto simp: thread_inv_def cleaner_holds_def cleaner_ok_def curr_ok_def auths_def split: reader_pc.splits)
    ultimately show ?thesis by blast
  next
    case False
    let ?s' = "?s\<lparr>h_head := he_next e, h_heap := (h_heap ?s)(a := None)\<rparr>"
    have r: "cleaner_round ptr prev t ?s = Inr (?s', CLoop (he_next e) None t)"
      using assms False by (simp add: cleaner_round_def cleaner_free_def deref_def free_element_def)
    have "shape rs ?rs [] ?s'" using sh assms(7) a by (auto simp: shape_def heap_simps)
    moreover have "auths ?s' (rs @ ?rs) = auths ?s (rs @ ?rs)" using a by (auto simp: auths_def)
    moreover have "curr_ok rs (th_reader c) [] (h_curr ?s)"
      using inv assms(5) cl False by (auto simp: thread_inv_def cleaner_holds_def curr_ok_def split: option.splits if_splits)
    ultimately have "thread_inv rs (c\<lparr>th_hist := ?s', th_cleaner := CLoop (he_next e) None t\<rparr>)"
      using inv tm rd(1) by (simp add: thread_inv_def cleaner_holds_def cleaner_ok_def del: auths_append)
    then show ?thesis using r by blast
  qed
qed

text \<open>The cleaner meets an expired element only at the head of the list.\<close>

lemma inv_round:
  assumes inv: "thread_inv ps c" and cl: "th_cleaner c = CLoop ptr prev t" and t: "in_time (th_now c)"
  shows "\<exists>s' pc ps'. cleaner_round ptr prev t (th_hist c) = Inr (s', pc) \<and> thread_inv ps' (c\<lparr>th_hist := s', th_cleaner := pc\<rparr>)"
proof (cases ptr)
  case None
  then show ?thesis using inv cl by (auto simp: cleaner_round_def thread_inv_def cleaner_holds_def cleaner_ok_def intro!: exI [of _ ps])
next
  case (Some a)
  let ?s = "th_hist c" and ?rs = "reader_holds (th_reader c)"
  have sh: "shape ps ?rs [] ?s" using inv cl by (simp add: thread_inv_def cleaner_holds_def)
  have ord: "in_order (auths ?s ps)"
    using inv t by (auto simp: thread_inv_def intro!: times_in_order [of "th_now c"] dest: times_ok_append)
  have ck: "prev = None \<and> ptr = h_head ?s \<or>
      prev \<noteq> None \<and> (\<exists>qs rs. ps = qs @ rs \<and> chain (h_heap ?s) ptr rs None \<and> (\<forall>a\<in>set rs. \<not> he_expired t (the (h_heap ?s a))))"
    using inv cl Some by (simp add: thread_inv_def cleaner_ok_def)
  obtain qs rs e where q: "ps = qs @ a # rs" "h_heap ?s a = Some e" "chain (h_heap ?s) (he_next e) rs None"
    and x: "he_expired t e \<Longrightarrow> prev = None \<and> qs = [] \<and> h_head ?s = Some a" and n: "\<not> he_expired t e \<Longrightarrow> \<forall>b\<in>set rs. \<not> he_expired t (the (h_heap ?s b))"
  proof (cases "prev = None")
    case True
    then obtain rs e where r: "ps = a # rs" "h_heap ?s a = Some e" "chain (h_heap ?s) (he_next e) rs None" "h_head ?s = Some a"
    proof -
      have hd: "h_head ?s = Some a" using ck True Some by simp
      have "chain (h_heap ?s) (Some a) ps None" using sh unfolding shape_def hd by blast
      then show ?thesis using that hd by (cases ps) (auto split: option.splits)
    qed
    have "\<not> he_expired t (the (h_heap ?s b))" if "\<not> he_expired t e" "b \<in> set rs" for b
    proof -
      have "\<forall>y\<in>set (auths ?s rs). expiry (auth_time (auth_of e)) \<le> expiry (auth_time y)" using ord r(1,2) by (simp add: in_order_def)
      moreover have "auth_of (the (h_heap ?s b)) \<in> set (auths ?s rs)" using that(2) by (simp add: auths_def)
      ultimately show ?thesis using that(1) by (force simp: he_expired_auth auth_expired_def)
    qed
    then show ?thesis using that [of "[]" rs e] r True by simp
  next
    case False
    then obtain us ws where u: "ps = us @ ws" "chain (h_heap ?s) ptr ws None" "\<forall>a\<in>set ws. \<not> he_expired t (the (h_heap ?s a))"
      using ck by blast
    then obtain rs e where "ws = a # rs" "h_heap ?s a = Some e" "chain (h_heap ?s) (he_next e) rs None"
      using Some by (cases ws) (auto split: option.splits)
    then show ?thesis using that [of us rs e] u by auto
  qed
  show ?thesis
  proof (cases "he_expired t e")
    case False
    then have r: "cleaner_round ptr prev t ?s = Inr (?s, CLoop (he_next e) (Some a) t)" using Some q(2) by (simp add: cleaner_round_def deref_def)
    have "\<exists>us ws. ps = us @ ws \<and> chain (h_heap ?s) (he_next e) ws None \<and> (\<forall>b\<in>set ws. \<not> he_expired t (the (h_heap ?s b)))"
      using q(1,3) n [OF False] by (intro exI [of _ "qs @ [a]"] exI [of _ rs]) simp
    then have "thread_inv ps (c\<lparr>th_hist := ?s, th_cleaner := CLoop (he_next e) (Some a) t\<rparr>)"
      using inv cl by (simp add: thread_inv_def cleaner_holds_def cleaner_ok_def)
    then show ?thesis using r by blast
  next
    case True
    then show ?thesis using inv_round_delete [OF inv cl, of a rs e] x q Some by simp
  qed
qed

lemma inv_clear:
  assumes inv: "thread_inv ps c" and cl: "th_cleaner c = CClear a prev t"
  shows "\<exists>s' pc. cleaner_clear a prev t (th_hist c) = Inr (s', pc) \<and> thread_inv ps (c\<lparr>th_hist := s', th_cleaner := pc\<rparr>)"
proof -
  let ?s = "th_hist c" and ?rs = "reader_holds (th_reader c)"
  have p: "prev = None" "length ps \<le> 1" and sh: "shape ps ?rs [a] ?s"
    using inv cl by (simp_all add: thread_inv_def cleaner_ok_def cleaner_holds_def)
  obtain e where e: "h_heap ?s a = Some e" using sh by (fastforce simp: shape_def dom_def)
  let ?s' = "?s\<lparr>h_curr := None, h_heap := (h_heap ?s)(a := None)\<rparr>"
  have "cleaner_clear a prev t ?s = Inr (?s', CLoop (h_head ?s) None t)"
    using e p(1) by (simp add: cleaner_clear_def cleaner_free_def free_element_def)
  moreover have a: "a \<notin> set ps" "a \<notin> set ?rs" using sh by (auto simp: shape_def)
  have "shape ps ?rs [] ?s'" using sh a by (auto simp: shape_def heap_simps)
  moreover have "auths ?s' (ps @ ?rs) = auths ?s (ps @ ?rs)" using a by (auto simp: auths_def)
  ultimately show ?thesis using inv p(2)
    by (intro exI [of _ ?s'] exI [of _ "CLoop (h_head ?s) None t"])
      (simp add: thread_inv_def cleaner_holds_def cleaner_ok_def curr_ok_def del: auths_append)
qed

lemma inv_sender:
  assumes "thread_inv ps c"
  shows "\<exists>r. search_in_list i p now q (th_hist c) = Some (Inr r)"
proof -
  have "chain (h_heap (th_hist c)) (h_head (th_hist c)) ps None" using assms by (simp add: thread_inv_def shape_def)
  from search_loop_chain [OF this, of i p now None] show ?thesis by (auto simp: search_in_list_def split: option.split)
qed

lemma thread_step_inv:
  assumes "thread_step c r" and "thread_inv ps c" and "in_time (th_now c)"
  shows "case r of Inr c' \<Rightarrow> \<exists>ps'. thread_inv ps' c'
    | Inl f \<Rightarrow> f = NullDeref \<and> (\<exists>a. th_reader c = RAppend a) \<and> \<not> cleaner_locks (th_cleaner c) \<and> h_curr (th_hist c) = None"
  using assms
proof (induction rule: thread_step.induct)
  case (tick c t)
  then show ?case by (auto simp: thread_inv_def intro: times_ok_mono)
next
  case (reader_time c i p)
  then have "thread_inv ps (c\<lparr>th_reader := RCall i p (th_now c)\<rparr>)"
    using times_ok_snoc [of "th_now c" "auths (th_hist c) ps" i p]
    by (auto simp: thread_inv_def reader_holds_def reader_called_def reader_ok_def)
  then show ?case by auto
next
  case (reader_no_memory c i p ts)
  then have "thread_inv ps (c\<lparr>th_reader := RIdle\<rparr>)"
    using times_ok_append [of "th_now c" "auths (th_hist c) ps" "[(i, p, ts)]"]
    by (auto simp: thread_inv_def reader_holds_def reader_called_def reader_ok_def)
  then show ?case by auto
next
  case (reader_create c i p ts a)
  have h: "h_curr (reader_fill a i p ts s) = h_curr s" for s by (simp add: reader_fill_def)
  have sh: "shape ps [] (cleaner_holds (th_cleaner c)) (th_hist c)" using reader_create by (simp add: thread_inv_def reader_holds_def)
  have "ps = []" using head_null [OF sh] reader_create by simp
  then have "thread_inv [] (c\<lparr>th_hist := reader_fill a i p ts (th_hist c), th_reader := RCreate a\<rparr>)"
    using reader_create fill_shape [OF sh reader_create(3), where i = i and p = p and ts = ts]
    by (auto simp: thread_inv_def reader_holds_def reader_called_def reader_ok_def h simp del: auths_append)
  then show ?case by auto
next
  case (reader_curr c a)
  then have "thread_inv ps (c\<lparr>th_hist := (th_hist c)\<lparr>h_curr := Some a\<rparr>, th_reader := RHead a\<rparr>)"
    by (auto simp: thread_inv_def reader_holds_def reader_called_def reader_ok_def curr_ok_def shape_def auths_def cleaner_ok_def
        split: cleaner_pc.splits)
  then show ?case by auto
next
  case (reader_head c a)
  then show ?case using inv_reader_head by auto
next
  case (reader_alloc c i p ts a)
  have h: "h_curr (reader_fill a i p ts s) = h_curr s" for s by (simp add: reader_fill_def)
  have sh: "shape ps [] (cleaner_holds (th_cleaner c)) (th_hist c)" using reader_alloc by (simp add: thread_inv_def reader_holds_def)
  have "ps \<noteq> []" using head_null [OF sh] reader_alloc by simp
  then have "thread_inv ps (c\<lparr>th_hist := reader_fill a i p ts (th_hist c), th_reader := RAppend a\<rparr>)"
    using reader_alloc fill_shape [OF sh reader_alloc(3), where i = i and p = p and ts = ts]
    by (auto simp: thread_inv_def reader_holds_def reader_called_def reader_ok_def h simp del: auths_append)
  then show ?case by auto
next
  case (reader_append_ok c a s')
  then show ?case using inv_append [of ps c a] by auto
next
  case (reader_append_fault c a f)
  then show ?case using inv_append [of ps c a] by auto
next
  case (cleaner_wake c)
  then have "thread_inv ps (c\<lparr>th_cleaner := CLock (h_head (th_hist c)) (th_now c)\<rparr>)"
    by (simp add: thread_inv_def cleaner_holds_def cleaner_ok_def)
  then show ?case by auto
next
  case (cleaner_lock c ptr t)
  then have "thread_inv ps (c\<lparr>th_cleaner := CLoop ptr None t\<rparr>)"
    by (simp add: thread_inv_def cleaner_holds_def cleaner_ok_def)
  then show ?case by auto
next
  case (cleaner_round_ok c ptr prev t s' pc)
  then show ?case using inv_round [of ps c ptr prev t] by auto
next
  case (cleaner_round_fault c ptr prev t f)
  then show ?case using inv_round [of ps c ptr prev t] by auto
next
  case (cleaner_clear_ok c a prev t s' pc)
  then show ?case using inv_clear [of ps c a prev t] by auto
next
  case (cleaner_clear_fault c a prev t f)
  then show ?case using inv_clear [of ps c a prev t] by auto
next
  case (sender_fault c i p q f)
  then show ?case using inv_sender [of ps c i p "th_now c" q] by auto
qed

lemma thread_step_now: "thread_step c (Inr c') \<Longrightarrow> th_now c \<le> th_now c'"
  by (induction c "Inr c' :: threads res" rule: thread_step.induct) auto

lemma thread_reachable_now: "thread_reachable t0 r \<Longrightarrow> (case r of Inr c \<Rightarrow> t0 \<le> th_now c | Inl f \<Rightarrow> True)"
proof (induction rule: thread_reachable.induct)
  case (step c c')
  then show ?case using thread_step_now [of c] by (auto split: sum.splits dest: order_trans)
qed (simp add: init_threads_def)

lemma thread_reachable_inv:
  "thread_reachable t0 r \<Longrightarrow> 0 \<le> t0 \<Longrightarrow> (case r of Inr c \<Rightarrow> in_time (th_now c) \<longrightarrow> (\<exists>ps. thread_inv ps c) | Inl f \<Rightarrow> True)"
proof (induction rule: thread_reachable.induct)
  case start
  then show ?case using thread_inv_init by auto
next
  case (step c c')
  show ?case
  proof (cases c')
    case (Inr d)
    show ?thesis
    proof (cases "in_time (th_now d)")
      case True
      have "th_now c \<le> th_now d" "t0 \<le> th_now c" using thread_step_now step(2) thread_reachable_now [OF step(1)] Inr by auto
      then have "in_time (th_now c)" using in_time_mono True step.prems by force
      then show ?thesis using step thread_step_inv [OF step(2)] Inr by fastforce
    qed (simp add: Inr)
  qed simp
qed

text \<open>
  C14. The two races are the only way to a fault. Whatever the interleaving of the reader, the cleaner, the sender and the
  clock, as long as the 32-bit clock is not within ten minutes of its end, no element is used after it is freed, none is freed twice,
  and the only fault is the null dereference of \<open>curr\<close> by a reader that appends, while the cleaner does not hold the mutex.
\<close>

theorem only_fault_is_empty_append:
  assumes "thread_reachable t0 (Inr c)" and "0 \<le> t0" and "th_now c + TIMEVALIDITY < 2 ^ 31" and "thread_step c (Inl f)"
  shows "f = NullDeref \<and> (\<exists>a. th_reader c = RAppend a) \<and> \<not> cleaner_locks (th_cleaner c) \<and> h_curr (th_hist c) = None"
proof -
  have t: "in_time (th_now c)" using thread_reachable_now [OF assms(1)] assms(2,3) by (simp add: in_time_def)
  then obtain ps where "thread_inv ps c" using thread_reachable_inv [OF assms(1,2)] by auto
  from thread_step_inv [OF assms(4) this t] show ?thesis by simp
qed

theorem only_fault_is_empty_append_witness:
  "NullDeref = NullDeref \<and> (\<exists>a. th_reader race_threads = RAppend a) \<and> \<not> cleaner_locks (th_cleaner race_threads) \<and>
   h_curr (th_hist race_threads) = None"
  by (rule only_fault_is_empty_append [OF race_state_reachable _ _ race_step]) (simp_all add: race_threads_def TIMEVALIDITY_def)

end
