(* ===== verification/CS_CLib.thy ===== *)
theory CS_CLib
  imports CS_Prelude "HOL-Library.Char_ord" "HOL-Library.List_Lexorder"
begin

text \<open>
  The functions of the C library the program calls, on strings without their terminating NUL:
  \<open>isspace\<close>, \<open>isdigit\<close>, \<open>strtol\<close>, \<open>strtoul\<close> and \<open>atoi\<close> in base 10 (saturating at the
  limits of the 32-bit \<open>long\<close>), \<open>strstr\<close>, \<open>strtok\<close> on a string and on a raw buffer, and the
  decimal conversions \<open>%d\<close> and \<open>%lu\<close> of \<open>printf\<close>. The laws at the end say that reading a
  printed number gives the number back.
\<close>

section \<open>Characters\<close>

definition isspace :: "char \<Rightarrow> bool" where
  "isspace c \<longleftrightarrow> of_char c \<in> {9, 10, 11, 12, 13, 32 :: nat}"

definition isdigit :: "char \<Rightarrow> bool" where
  "isdigit c \<longleftrightarrow> 48 \<le> (of_char c :: nat) \<and> (of_char c :: nat) \<le> 57"

definition digit_val :: "char \<Rightarrow> nat" where
  "digit_val c = of_char c - 48"

definition digit_char :: "nat \<Rightarrow> char" where
  "digit_char d = char_of (48 + d)"

definition nul :: char where
  "nul = CHR 0x00"

definition newline :: char where
  "newline = CHR 0x0A"

section \<open>Numbers from strings\<close>

definition LONG_MAX :: int where "LONG_MAX = 2147483647"
definition LONG_MIN :: int where "LONG_MIN = -2147483648"
definition ULONG_MAX :: nat where "ULONG_MAX = 4294967295"

fun digits_val :: "nat \<Rightarrow> string \<Rightarrow> nat" where
  "digits_val a [] = a"
| "digits_val a (c # cs) = (if isdigit c then digits_val (10 * a + digit_val c) cs else a)"

text \<open>An optional sign: whether it is a minus, and what follows it.\<close>

definition read_sign :: "string \<Rightarrow> bool \<times> string" where
  "read_sign s = (case s of
       [] \<Rightarrow> (False, [])
     | c # r \<Rightarrow> if c = CHR ''-'' then (True, r) else if c = CHR ''+'' then (False, r) else (False, s))"

text \<open>\<open>strtol(s, &end, 10)\<close>: the value and the suffix \<open>end\<close> points to.\<close>

definition strtol10 :: "string \<Rightarrow> int \<times> string" where
  "strtol10 s =
     (let (neg, u) = read_sign (dropWhile isspace s) in
      if u = [] \<or> \<not> isdigit (hd u) then (0, s)
      else let v = int (digits_val 0 u); n = (if neg then - v else v)
           in (max LONG_MIN (min LONG_MAX n), dropWhile isdigit u))"

definition strtoul10 :: "string \<Rightarrow> u32" where
  "strtoul10 s =
     (let (neg, u) = read_sign (dropWhile isspace s) in
      if u = [] \<or> \<not> isdigit (hd u) then 0
      else let v = digits_val 0 u
           in if ULONG_MAX < v then of_nat ULONG_MAX
              else if neg then - of_nat v else of_nat v)"

text \<open>\<open>atoi\<close> is \<open>(int) strtol(s, NULL, 10)\<close>, and \<open>int\<close> and \<open>long\<close> have the same width.\<close>

definition atoi :: "string \<Rightarrow> int" where
  "atoi s = fst (strtol10 s)"

section \<open>Numbers to strings\<close>

fun show_nat :: "nat \<Rightarrow> string" where
  "show_nat n = (if n < 10 then [digit_char n] else show_nat (n div 10) @ [digit_char (n mod 10)])"

declare show_nat.simps [simp del]

definition show_int :: "int \<Rightarrow> string" where
  "show_int i = (if i < 0 then CHR ''-'' # show_nat (nat (- i)) else show_nat (nat i))"

section \<open>Searching and splitting strings\<close>

fun is_prefix :: "string \<Rightarrow> string \<Rightarrow> bool" where
  "is_prefix [] _ = True"
| "is_prefix (_ # _) [] = False"
| "is_prefix (x # xs) (y # ys) = (x = y \<and> is_prefix xs ys)"

text \<open>\<open>strstr(haystack, needle) != NULL\<close>\<close>

fun strstr :: "string \<Rightarrow> string \<Rightarrow> bool" where
  "strstr [] needle = is_prefix needle []"
| "strstr (c # cs) needle = (is_prefix needle (c # cs) \<or> strstr cs needle)"

text \<open>All the tokens \<open>strtok\<close> returns one after the other, for one delimiter.\<close>

function strtok_all :: "char \<Rightarrow> string \<Rightarrow> string list" where
  "strtok_all d s =
     (case dropWhile (\<lambda>c. c = d) s of
        [] \<Rightarrow> []
      | u \<Rightarrow> takeWhile (\<lambda>c. c \<noteq> d) u # strtok_all d (dropWhile (\<lambda>c. c \<noteq> d) u))"
  by pat_completeness auto
termination
proof (relation "measure (\<lambda>(d, s). length s)", goal_cases)
  case (2 d s c cs)
  have "length (dropWhile (\<lambda>x. x \<noteq> d) cs) \<le> length cs" by (rule length_dropWhile_le)
  moreover have "length (dropWhile (\<lambda>x. x = d) s) \<le> length s" by (rule length_dropWhile_le)
  moreover have "c \<noteq> d" using hd_dropWhile [of "\<lambda>x. x = d" s] 2 by auto
  ultimately show ?case using 2 by simp
qed simp

declare strtok_all.simps [simp del]

text \<open>
  \<open>strtok\<close> on a raw buffer, which need not hold a terminating NUL. The buffer is its list of
  bytes, the saved position an index. The scan skips delimiters, then runs to the next
  delimiter, which it overwrites with NUL, or to a NUL; running off the end of the buffer is
  a fault. The result is the token (none if a NUL came first), the buffer and the position the
  next call starts from.
\<close>

definition strtok_buf ::
  "char \<Rightarrow> char list \<Rightarrow> nat \<Rightarrow> (string option \<times> char list \<times> nat) res" where
  "strtok_buf d buf p =
     (let q = p + length (takeWhile (\<lambda>c. c = d) (drop p buf)) in
      if q \<ge> length buf then Inl OutOfBounds
      else if buf ! q = nul then Inr (None, buf, q)
      else let tok = takeWhile (\<lambda>c. c \<noteq> d \<and> c \<noteq> nul) (drop q buf); r = q + length tok in
           if r \<ge> length buf then Inl OutOfBounds
           else if buf ! r = nul then Inr (Some tok, buf, r)
           else Inr (Some tok, buf[r := nul], Suc r))"

text \<open>\<open>strtol(s, NULL, 0)\<close>: the base is read from the prefix.\<close>

definition xdigit_val :: "char \<Rightarrow> nat" where
  "xdigit_val c = (let n = of_char c :: nat in
     if 48 \<le> n \<and> n \<le> 57 then n - 48
     else if 97 \<le> n \<and> n \<le> 122 then n - 87
     else if 65 \<le> n \<and> n \<le> 90 then n - 55 else 36)"

fun digits_base :: "nat \<Rightarrow> nat \<Rightarrow> string \<Rightarrow> nat" where
  "digits_base b a [] = a"
| "digits_base b a (c # cs) = (if xdigit_val c < b then digits_base b (b * a + xdigit_val c) cs else a)"

definition strtol0 :: "string \<Rightarrow> int" where
  "strtol0 s =
     (let (neg, u) = read_sign (dropWhile isspace s);
          v = (case u of
                 c # x # h # r \<Rightarrow>
                   if c = CHR ''0'' \<and> (x = CHR ''x'' \<or> x = CHR ''X'') \<and> xdigit_val h < 16
                   then digits_base 16 0 (h # r)
                   else digits_base (if c = CHR ''0'' then 8 else 10) 0 u
               | c # r \<Rightarrow> digits_base (if c = CHR ''0'' then 8 else 10) 0 u
               | [] \<Rightarrow> 0)
      in max LONG_MIN (min LONG_MAX (if neg then - int v else int v)))"

section \<open>Reading text\<close>

text \<open>
  \<open>fgets(buffer, n, f)\<close> on the rest of the file: at most \<open>n - 1\<close> characters, up to and including a
  newline. \<open>fgets_all\<close> lists what the loop \<open>while (fgets(...))\<close> sees.
\<close>

definition fgets :: "nat \<Rightarrow> string \<Rightarrow> string" where
  "fgets n s = take (n - 1) (let l = takeWhile (\<lambda>c. c \<noteq> newline) s in take (length l + 1) s)"

function fgets_all :: "nat \<Rightarrow> string \<Rightarrow> string list" where
  "fgets_all n s =
     (if s = [] \<or> n \<le> 1 then [] else fgets n s # fgets_all n (drop (length (fgets n s)) s))"
  by pat_completeness auto
termination by (relation "measure (\<lambda>(n, s). length s)") (auto simp: fgets_def Let_def)

declare fgets_all.simps [simp del]

text \<open>\<open>sscanf(s, "%s", w)\<close> reads the first word, if there is one.\<close>

definition first_word :: "string \<Rightarrow> string" where
  "first_word s = takeWhile (\<lambda>c. \<not> isspace c) (dropWhile isspace s)"

definition after_word :: "string \<Rightarrow> string" where
  "after_word s = dropWhile (\<lambda>c. \<not> isspace c) (dropWhile isspace s)"

definition rtrim :: "string \<Rightarrow> string" where
  "rtrim s = rev (dropWhile isspace (rev s))"

section \<open>Comparing and searching\<close>

fun strcmp :: "string \<Rightarrow> string \<Rightarrow> int" where
  "strcmp [] [] = 0"
| "strcmp [] (y # ys) = -1"
| "strcmp (x # xs) [] = 1"
| "strcmp (x # xs) (y # ys) = (if x = y then strcmp xs ys else int (of_char x) - int (of_char y))"

text \<open>\<open>bsearch\<close> between two positions of a table, by the name of an entry.\<close>

function bsearch_loop :: "(string \<times> 'a) list \<Rightarrow> string \<Rightarrow> nat \<Rightarrow> nat \<Rightarrow> 'a option" where
  "bsearch_loop t key lo hi =
     (if hi \<le> lo then None
      else let mid = (lo + hi) div 2; c = strcmp key (fst (t ! mid)) in
           if c = 0 then Some (snd (t ! mid))
           else if c < 0 then bsearch_loop t key lo mid
           else bsearch_loop t key (mid + 1) hi)"
  by pat_completeness auto
termination by (relation "measure (\<lambda>(t, key, lo, hi). hi - lo)") auto

declare bsearch_loop.simps [simp del]

section \<open>Laws\<close>

lemma of_char_digit_char [simp]: "d < 10 \<Longrightarrow> (of_char (digit_char d) :: nat) = 48 + d"
  by (simp add: digit_char_def)

lemma isdigit_digit_char [clib_simps]: "d < 10 \<Longrightarrow> isdigit (digit_char d)"
  by (simp add: isdigit_def)

lemma digit_val_digit_char [clib_simps]: "d < 10 \<Longrightarrow> digit_val (digit_char d) = d"
  by (simp add: digit_val_def)

lemma show_nat_nonempty [simp]: "show_nat n \<noteq> []"
  by (subst show_nat.simps) simp

lemma show_nat_isdigit: "list_all isdigit (show_nat n)"
proof (induction n rule: show_nat.induct)
  case (1 n)
  then show ?case by (subst show_nat.simps) (auto simp: clib_simps)
qed

lemma show_nat_no:
  assumes "\<not> isdigit c"
  shows "c \<notin> set (show_nat n)"
  using show_nat_isdigit [of n] assms by (auto simp: list_all_iff)

lemma show_nat_length: "n < 10 ^ d \<Longrightarrow> 0 < d \<Longrightarrow> length (show_nat n) \<le> d"
proof (induction n arbitrary: d rule: show_nat.induct)
  case (1 n)
  show ?case
  proof (cases "n < 10")
    case True
    then show ?thesis using 1 by (subst show_nat.simps) simp
  next
    case False
    with 1 obtain e where d: "d = Suc e" "0 < e" by (cases d; cases "d - 1") auto
    with 1(2) have "n div 10 < 10 ^ e" by (simp add: less_mult_imp_div_less mult.commute)
    with 1 False d have "length (show_nat (n div 10)) \<le> e" by blast
    then show ?thesis using False d by (subst show_nat.simps) simp
  qed
qed

lemma show_int_chars: "set (show_int i) \<subseteq> {c. isdigit c} \<union> {CHR ''-''}"
  using show_nat_isdigit by (auto simp: show_int_def list_all_iff)

lemma show_int_no: "\<not> isdigit c \<Longrightarrow> c \<noteq> CHR ''-'' \<Longrightarrow> c \<notin> set (show_int i)"
  using show_int_chars [of i] by auto

lemma digits_val_append:
  "list_all isdigit xs \<Longrightarrow> digits_val a (xs @ ys) = digits_val (digits_val a xs) ys"
  by (induction xs arbitrary: a) auto

lemma digits_val_stop: "ys = [] \<or> \<not> isdigit (hd ys) \<Longrightarrow> digits_val a ys = a"
  by (cases ys) auto

lemma digits_val_show_nat_0: "digits_val 0 (show_nat n) = n"
proof (induction n rule: show_nat.induct)
  case (1 n)
  show ?case
  proof (cases "n < 10")
    case True
    then show ?thesis by (subst show_nat.simps) (simp add: clib_simps)
  next
    case False
    with 1 have "digits_val 0 (show_nat (n div 10)) = n div 10" by simp
    with False show ?thesis
      by (subst show_nat.simps) (simp add: digits_val_append show_nat_isdigit clib_simps)
  qed
qed

lemma digits_val_show_nat [clib_simps]:
  "ys = [] \<or> \<not> isdigit (hd ys) \<Longrightarrow> digits_val 0 (show_nat n @ ys) = n"
  by (simp add: digits_val_append show_nat_isdigit digits_val_show_nat_0 digits_val_stop)

lemma hd_show_nat_digit: "isdigit (hd (show_nat n))"
  using show_nat_isdigit [of n] by (cases "show_nat n") auto

lemma isdigit_not_space: "isdigit c \<Longrightarrow> \<not> isspace c"
  by (auto simp: isdigit_def isspace_def)

lemma isdigit_not_sign: "isdigit c \<Longrightarrow> c \<noteq> CHR ''-'' \<and> c \<noteq> CHR ''+''"
  by (auto simp: isdigit_def)

lemma read_sign_show_nat: "read_sign (dropWhile isspace (show_nat n @ ys)) = (False, show_nat n @ ys)"
proof (cases "show_nat n")
  case (Cons c cs)
  then have "isdigit c" using hd_show_nat_digit [of n] by simp
  then show ?thesis
    using Cons by (auto simp: read_sign_def isdigit_not_space isdigit_not_sign)
qed simp

text \<open>Reading back what \<open>%d\<close> and \<open>%lu\<close> print, whatever non-digit follows.\<close>

lemma strtol10_show_nat:
  assumes "ys = [] \<or> \<not> isdigit (hd ys)" and "int n \<le> LONG_MAX"
  shows "strtol10 (show_nat n @ ys) = (int n, ys)"
proof -
  have "dropWhile isdigit (show_nat n @ ys) = ys"
    by (rule takeWhile_dropWhile_split(2) [OF show_nat_isdigit assms(1)])
  moreover have "isdigit (hd (show_nat n @ ys))"
    by (simp add: hd_show_nat_digit)
  ultimately show ?thesis
    using assms by (simp add: strtol10_def read_sign_show_nat clib_simps LONG_MIN_def)
qed

lemma strtol10_show_int:
  assumes "ys = [] \<or> \<not> isdigit (hd ys)" and "LONG_MIN \<le> i" and "i \<le> LONG_MAX"
  shows "strtol10 (show_int i @ ys) = (i, ys)"
proof (cases "i < 0")
  case True
  have drop: "dropWhile isdigit (show_nat (nat (- i)) @ ys) = ys"
    by (rule takeWhile_dropWhile_split(2) [OF show_nat_isdigit assms(1)])
  have "isdigit (hd (show_nat (nat (- i)) @ ys))"
    by (simp add: hd_show_nat_digit)
  moreover have "\<not> isspace CHR ''-''" by (simp add: isspace_def)
  ultimately show ?thesis
    using True assms drop
    by (simp add: strtol10_def show_int_def read_sign_def clib_simps LONG_MAX_def)
next
  case False
  then show ?thesis
    using assms strtol10_show_nat [of ys "nat i"] by (simp add: show_int_def)
qed

lemma show_int_nonempty [simp]: "show_int i \<noteq> []"
  by (simp add: show_int_def)

lemma strtol10_show_big:
  assumes "LONG_MAX < k"
  shows "strtol10 (show_int k) = (LONG_MAX, [])"
proof -
  have "dropWhile isdigit (show_nat (nat k)) = []"
    using takeWhile_dropWhile_split(2) [OF show_nat_isdigit, of "[]" "nat k"] by simp
  then show ?thesis
    using assms read_sign_show_nat [of "nat k" "[]"] hd_show_nat_digit [of "nat k"]
    by (simp add: strtol10_def show_int_def digits_val_show_nat_0 LONG_MAX_def LONG_MIN_def)
qed

lemma atoi_show_int [clib_simps]:
  "ys = [] \<or> \<not> isdigit (hd ys) \<Longrightarrow> LONG_MIN \<le> i \<Longrightarrow> i \<le> LONG_MAX \<Longrightarrow> atoi (show_int i @ ys) = i"
  by (simp add: atoi_def strtol10_show_int)

lemma strtoul10_show_nat [clib_simps]:
  assumes "ys = [] \<or> \<not> isdigit (hd ys)" and "n \<le> ULONG_MAX"
  shows "strtoul10 (show_nat n @ ys) = of_nat n"
  using assms
  by (simp add: strtoul10_def read_sign_show_nat hd_show_nat_digit clib_simps)

lemma strtol10_range: "LONG_MIN \<le> fst (strtol10 s) \<and> fst (strtol10 s) \<le> LONG_MAX"
  by (auto simp: strtol10_def LONG_MIN_def LONG_MAX_def Let_def split: prod.split)

lemma is_prefix_iff: "is_prefix xs ys \<longleftrightarrow> (\<exists>zs. ys = xs @ zs)"
  by (induction xs ys rule: is_prefix.induct) auto

lemma strstr_iff: "strstr hay needle \<longleftrightarrow> (\<exists>us vs. hay = us @ needle @ vs)"
proof (induction hay)
  case Nil
  then show ?case by (simp add: is_prefix_iff)
next
  case (Cons c cs)
  have "(\<exists>us vs. c # cs = us @ needle @ vs) \<longleftrightarrow>
        (\<exists>vs. c # cs = needle @ vs) \<or> (\<exists>us vs. cs = us @ needle @ vs)"
    by (metis append_Cons append_Nil list.exhaust list.inject)
  with Cons.IH show ?case by (auto simp: is_prefix_iff)
qed

lemma strcmp_0 [simp]: "strcmp a b = 0 \<longleftrightarrow> a = b"
  by (induction a b rule: strcmp.induct) auto

lemma strcmp_refl [simp]: "strcmp a a = 0"
  by (induction a) auto

lemma strcmp_less: "strcmp a b < 0 \<longleftrightarrow> a < b"
  by (induction a b rule: strcmp.induct) (auto simp: less_char_def)

lemma bsearch_loop_found:
  assumes "sorted (map fst t)" and "hi \<le> length t"
  shows "bsearch_loop t key lo hi = Some v \<Longrightarrow> \<exists>i. lo \<le> i \<and> i < hi \<and> t ! i = (key, v)"
  using assms
proof (induction t key lo hi rule: bsearch_loop.induct)
  case (1 t key lo hi)
  define mid where "mid = (lo + hi) div 2"
  show ?case
  proof (cases "hi \<le> lo")
    case True
    then show ?thesis using 1(3) by (simp add: bsearch_loop.simps)
  next
    case False
    then have mid: "lo \<le> mid" "mid < hi" by (auto simp: mid_def)
    consider (eq) "key = fst (t ! mid)" | (lt) "strcmp key (fst (t ! mid)) < 0"
      | (gt) "strcmp key (fst (t ! mid)) > 0" by (metis linorder_neqE strcmp_0)
    then show ?thesis
    proof cases
      case eq
      then have "bsearch_loop t key lo hi = Some (snd (t ! mid))"
        using False by (subst bsearch_loop.simps) (simp add: mid_def [symmetric] Let_def)
      then show ?thesis using 1(3) mid eq by (intro exI [of _ mid]) (simp add: prod_eq_iff)
    next
      case lt
      then have "key \<noteq> fst (t ! mid)" by auto
      with lt have "bsearch_loop t key lo mid = Some v"
        using 1(3) False by (auto simp: bsearch_loop.simps [of t key lo hi] mid_def [symmetric] Let_def)
      with 1(1) [OF False mid_def refl] lt 1(4,5) mid show ?thesis by force
    next
      case gt
      then have "key \<noteq> fst (t ! mid)" by auto
      with gt have found: "bsearch_loop t key (mid + 1) hi = Some v"
        using 1(3) False by (auto simp: bsearch_loop.simps [of t key lo hi] mid_def [symmetric] Let_def)
      obtain i where "mid + 1 \<le> i" "i < hi" "t ! i = (key, v)"
        using 1(2) [OF False mid_def refl _ _ found 1(4,5)] gt by fastforce
      with mid show ?thesis by (intro exI [of _ i]) simp
    qed
  qed
qed

lemma bsearch_loop_not_found:
  assumes "sorted (map fst t)" and "hi \<le> length t"
  shows "bsearch_loop t key lo hi = None \<Longrightarrow> lo \<le> i \<Longrightarrow> i < hi \<Longrightarrow> fst (t ! i) \<noteq> key"
  using assms
proof (induction t key lo hi rule: bsearch_loop.induct)
  case (1 t key lo hi)
  define mid where "mid = (lo + hi) div 2"
  have nle: "\<not> hi \<le> lo" using 1(4,5) by simp
  then have mid: "lo \<le> mid" "mid < hi" by (auto simp: mid_def)
  have ne: "strcmp key (fst (t ! mid)) \<noteq> 0"
    using 1(3) nle by (auto simp: bsearch_loop.simps [of t key lo hi] mid_def [symmetric] Let_def split: if_splits)
  have mono: "fst (t ! j) \<le> fst (t ! k)" if "j \<le> k" "k < hi" for j k
    using sorted_nth_mono [OF 1(6) that(1)] that 1(7) by simp
  show ?case
  proof (cases "strcmp key (fst (t ! mid)) < 0")
    case True
    then have "bsearch_loop t key lo mid = None"
      using 1(3) nle ne by (auto simp: bsearch_loop.simps [of t key lo hi] mid_def [symmetric] Let_def)
    then have "i < mid \<Longrightarrow> fst (t ! i) \<noteq> key"
      using 1(1) [OF nle mid_def refl ne True _ 1(4)] 1(6,7) mid by simp
    moreover have "mid \<le> i \<Longrightarrow> fst (t ! i) \<noteq> key"
      using True mono [of mid i] 1(5) by (auto simp: strcmp_less)
    ultimately show ?thesis by linarith
  next
    case False
    then have "bsearch_loop t key (mid + 1) hi = None"
      using 1(3) nle ne by (auto simp: bsearch_loop.simps [of t key lo hi] mid_def [symmetric] Let_def)
    then have "mid < i \<Longrightarrow> fst (t ! i) \<noteq> key"
      using 1(2) [OF nle mid_def refl ne False _ _ 1(5)] 1(6,7) by simp
    moreover have "i \<le> mid \<Longrightarrow> fst (t ! i) \<noteq> key"
      using False ne mono [of i mid] mid by (auto simp: strcmp_less)
    ultimately show ?thesis by linarith
  qed
qed

text \<open>On a sorted table with distinct names binary search is the lookup.\<close>

lemma bsearch_map_of:
  assumes "sorted (map fst t)" and "distinct (map fst t)"
  shows "bsearch_loop t key 0 (length t) = map_of t key"
proof (cases "bsearch_loop t key 0 (length t)")
  case None
  then have "key \<notin> fst ` set t"
    using bsearch_loop_not_found [OF assms(1) order_refl None] by (fastforce simp: in_set_conv_nth)
  then show ?thesis using None by (metis map_of_eq_None_iff)
next
  case (Some v)
  then have "(key, v) \<in> set t"
    using bsearch_loop_found [OF assms(1) order_refl Some] by (metis nth_mem)
  then show ?thesis using Some assms(2) by simp
qed

lemma takeWhile_until: "c \<notin> set xs \<Longrightarrow> takeWhile (\<lambda>x. x \<noteq> c) (xs @ c # ys) = xs"
  by (induction xs) auto

lemma strtok_all_Nil [simp]: "strtok_all d [] = []"
  by (simp add: strtok_all.simps)

lemma strtok_all_skip [simp]: "strtok_all d (d # rest) = strtok_all d rest"
  by (subst (1 2) strtok_all.simps) simp

lemma strtok_all_token:
  assumes "tok \<noteq> []" and "d \<notin> set tok" and "rest = [] \<or> hd rest = d"
  shows "strtok_all d (tok @ rest) = tok # strtok_all d rest"
proof -
  have all: "list_all (\<lambda>c. c \<noteq> d) tok" using assms(2) by (auto simp: list_all_iff)
  have "takeWhile (\<lambda>c. c \<noteq> d) (tok @ rest) = tok" "dropWhile (\<lambda>c. c \<noteq> d) (tok @ rest) = rest"
    using takeWhile_dropWhile_split [OF all, of rest] assms(3) by auto
  moreover have "dropWhile (\<lambda>c. c = d) (tok @ rest) = tok @ rest"
    using assms(1,2) by (cases tok) auto
  ultimately show ?thesis
    using assms(1) by (subst strtok_all.simps) (auto split: list.split)
qed

end
