(* ===== verification/Libipq.thy ===== *)
theory Libipq
  imports CS_CLib
begin

text \<open>
  The netlink library of the packet filter, \<^verbatim>\<open>src/jni/libipq/libipq.c\<close>: the error codes and
  their messages, handles, requests and the checked receive. The global \<open>ipq_errno\<close> is passed
  and returned. What the kernel answers to a system call is an argument of the function that
  makes the call. The layout of the kernel's structures is not part of the repository, so a
  message is a record of the fields the code names, and the sizes are fields of \<open>abi\<close>.
\<close>

section \<open>Errors\<close>

datatype ipq_err =
    IPQ_ERR_NONE | IPQ_ERR_IMPL | IPQ_ERR_HANDLE | IPQ_ERR_SOCKET | IPQ_ERR_BIND | IPQ_ERR_BUFFER
  | IPQ_ERR_RECV | IPQ_ERR_NLEOF | IPQ_ERR_ADDRLEN | IPQ_ERR_STRUNC | IPQ_ERR_RTRUNC
  | IPQ_ERR_NLRECV | IPQ_ERR_SEND | IPQ_ERR_SUPP | IPQ_ERR_RECVBUF | IPQ_ERR_TIMEOUT
  | IPQ_ERR_PROTOCOL

fun err_code :: "ipq_err \<Rightarrow> int" where
  "err_code IPQ_ERR_NONE = 0"
| "err_code IPQ_ERR_IMPL = 1"
| "err_code IPQ_ERR_HANDLE = 2"
| "err_code IPQ_ERR_SOCKET = 3"
| "err_code IPQ_ERR_BIND = 4"
| "err_code IPQ_ERR_BUFFER = 5"
| "err_code IPQ_ERR_RECV = 6"
| "err_code IPQ_ERR_NLEOF = 7"
| "err_code IPQ_ERR_ADDRLEN = 8"
| "err_code IPQ_ERR_STRUNC = 9"
| "err_code IPQ_ERR_RTRUNC = 10"
| "err_code IPQ_ERR_NLRECV = 11"
| "err_code IPQ_ERR_SEND = 12"
| "err_code IPQ_ERR_SUPP = 13"
| "err_code IPQ_ERR_RECVBUF = 14"
| "err_code IPQ_ERR_TIMEOUT = 15"
| "err_code IPQ_ERR_PROTOCOL = 16"

definition IPQ_MAXERR :: int where "IPQ_MAXERR = err_code IPQ_ERR_PROTOCOL"

definition ipq_errmap :: "(ipq_err \<times> string) list" where
  "ipq_errmap =
    [(IPQ_ERR_NONE, ''Unknown error''),
     (IPQ_ERR_IMPL, ''Implementation error''),
     (IPQ_ERR_HANDLE, ''Unable to create netlink handle''),
     (IPQ_ERR_SOCKET, ''Unable to create netlink socket''),
     (IPQ_ERR_BIND, ''Unable to bind netlink socket''),
     (IPQ_ERR_BUFFER, ''Unable to allocate buffer''),
     (IPQ_ERR_RECV, ''Failed to receive netlink message''),
     (IPQ_ERR_NLEOF, ''Received EOF on netlink socket''),
     (IPQ_ERR_ADDRLEN, ''Invalid peer address length''),
     (IPQ_ERR_STRUNC, ''Sent message truncated''),
     (IPQ_ERR_RTRUNC, ''Received message truncated''),
     (IPQ_ERR_NLRECV, ''Received error from netlink''),
     (IPQ_ERR_SEND, ''Failed to send netlink message''),
     (IPQ_ERR_SUPP, ''Operation not supported''),
     (IPQ_ERR_RECVBUF, ''Receive buffer size invalid''),
     (IPQ_ERR_TIMEOUT, ''Timeout''),
     (IPQ_ERR_PROTOCOL, ''Invalid protocol specified'')]"

definition ipq_strerror :: "int \<Rightarrow> string" where
  "ipq_strerror errcode =
     (let e = (if errcode < 0 \<or> errcode > IPQ_MAXERR then err_code IPQ_ERR_IMPL else errcode)
      in snd (ipq_errmap ! nat e))"

definition ipq_errstr :: "ipq_err \<Rightarrow> string" where
  "ipq_errstr errno = ipq_strerror (err_code errno)"

text \<open>What \<open>ipq_perror\<close> writes to stderr; \<open>sys\<close> is \<open>strerror(errno)\<close> if \<open>errno\<close> is not 0.\<close>

definition ipq_perror :: "string option \<Rightarrow> ipq_err \<Rightarrow> string option \<Rightarrow> string" where
  "ipq_perror s errno sys =
     (case s of Some t \<Rightarrow> t | None \<Rightarrow> ''ERROR'') @
     (if errno \<noteq> IPQ_ERR_NONE then '': '' @ ipq_errstr errno else '''') @
     (case sys of Some t \<Rightarrow> '': '' @ t | None \<Rightarrow> '''') @ [newline]"

section \<open>Handles\<close>

record sockaddr_nl =
  nl_pid :: u32
  nl_groups :: u32

record ipq_handle =
  h_fd :: int
  h_blocking :: u8
  h_local :: sockaddr_nl
  h_peer :: sockaddr_nl

definition NFPROTO_IPV4 :: u32 where "NFPROTO_IPV4 = 2"
definition NFPROTO_IPV6 :: u32 where "NFPROTO_IPV6 = 10"

datatype netlink_family = NETLINK_FIREWALL | NETLINK_IP6_FW

text \<open>
  \<open>ok_malloc\<close>: the handle could be allocated; \<open>sock\<close>: the descriptor \<open>socket\<close> returns for a
  family; \<open>bnd\<close>: what \<open>bind\<close> returns; \<open>pid\<close>: \<open>getpid\<close>. The third component of the result is the
  list of descriptors the function closed.
\<close>

definition ipq_create_handle ::
  "bool \<Rightarrow> (netlink_family \<Rightarrow> int) \<Rightarrow> int \<Rightarrow> u32 \<Rightarrow> u32 \<Rightarrow> u32 \<Rightarrow> ipq_err
     \<Rightarrow> ipq_handle option \<times> ipq_err \<times> int list" where
  "ipq_create_handle ok_malloc sock bnd pid flags protocol errno =
     (if \<not> ok_malloc then (None, IPQ_ERR_HANDLE, [])
      else
        let fam = (if protocol = NFPROTO_IPV4 then Some NETLINK_FIREWALL
                   else if protocol = NFPROTO_IPV6 then Some NETLINK_IP6_FW else None)
        in case fam of
             None \<Rightarrow> (None, IPQ_ERR_PROTOCOL, [])
           | Some f \<Rightarrow>
               let fd = sock f in
               if fd = -1 then (None, IPQ_ERR_SOCKET, [fd])
               else if bnd = -1 then (None, IPQ_ERR_BIND, [fd])
               else (Some \<lparr>h_fd = fd, h_blocking = 0, h_local = \<lparr>nl_pid = pid, nl_groups = 0\<rparr>,
                          h_peer = \<lparr>nl_pid = 0, nl_groups = 0\<rparr>\<rparr>, errno, []))"

text \<open>The result of \<open>ipq_destroy_handle\<close> and the descriptors it closes.\<close>

definition ipq_destroy_handle :: "ipq_handle option \<Rightarrow> int \<times> int list" where
  "ipq_destroy_handle h = (0, case h of None \<Rightarrow> [] | Some x \<Rightarrow> [h_fd x])"

section \<open>Requests\<close>

record abi =
  sizeof_nlmsghdr :: nat
  sizeof_peer_msg :: nat
  sizeof_mode_req :: nat    \<comment> \<open>the struct of \<open>ipq_set_mode\<close>: a header and a peer message\<close>
  sizeof_nlmsgerr :: nat
  sizeof_sockaddr_nl :: nat
  NLMSG_LENGTH :: "nat \<Rightarrow> nat"
  NLMSG_ERROR :: u16        \<comment> \<open>the type of an error message\<close>
  IPQM_PACKET :: u16        \<comment> \<open>the type of a message that carries a queued packet\<close>
  IPQ_COPY_PACKET :: u8     \<comment> \<open>the mode that delivers packets with their payload\<close>

datatype nlmsg_type = IPQM_MODE | IPQM_VERDICT

datatype peer_msg =
    ModeMsg u8 nat              \<comment> \<open>\<open>value\<close>, \<open>range\<close>\<close>
  | VerdictMsg u32 u32 nat      \<comment> \<open>\<open>value\<close>, \<open>id\<close>, \<open>data_len\<close>\<close>

record request =
  rq_len :: nat          \<comment> \<open>\<open>nlmsg_len\<close>\<close>
  rq_type :: nlmsg_type
  rq_pid :: u32          \<comment> \<open>\<open>nlmsg_pid\<close>; the flags are always \<open>NLM_F_REQUEST\<close>\<close>
  rq_msg :: peer_msg
  rq_data :: "u8 list"

text \<open>\<open>sendto\<close> and \<open>sendmsg\<close>: the status becomes the result, a negative one sets \<open>ipq_errno\<close>.\<close>

definition ipq_netlink_sendto :: "int \<Rightarrow> ipq_err \<Rightarrow> int \<times> ipq_err" where
  "ipq_netlink_sendto status errno = (status, if status < 0 then IPQ_ERR_SEND else errno)"

definition ipq_netlink_sendmsg :: "int \<Rightarrow> ipq_err \<Rightarrow> int \<times> ipq_err" where
  "ipq_netlink_sendmsg status errno = (status, if status < 0 then IPQ_ERR_SEND else errno)"

text \<open>
  \<open>ipq_set_mode\<close>: the request, the number of bytes \<open>sendto\<close> is told to read at it, and the size
  of the object they are read from.
\<close>

definition set_mode_request :: "abi \<Rightarrow> ipq_handle \<Rightarrow> u8 \<Rightarrow> nat \<Rightarrow> request \<times> nat \<times> nat" where
  "set_mode_request A h mode rng =
     (let len = NLMSG_LENGTH A (sizeof_mode_req A)
      in (\<lparr>rq_len = len, rq_type = IPQM_MODE, rq_pid = nl_pid (h_local h),
           rq_msg = ModeMsg mode rng, rq_data = []\<rparr>, len, sizeof_mode_req A))"

definition ipq_set_mode ::
  "abi \<Rightarrow> (request \<Rightarrow> nat \<Rightarrow> int) \<Rightarrow> ipq_handle \<Rightarrow> u8 \<Rightarrow> nat \<Rightarrow> ipq_err \<Rightarrow> int \<times> ipq_err" where
  "ipq_set_mode A sendto h mode rng errno =
     (let (rq, len, _) = set_mode_request A h mode rng
      in ipq_netlink_sendto (sendto rq len) errno)"

text \<open>
  \<open>ipq_set_verdict\<close>: the request and the lengths of its io vectors. \<open>buf\<close> is the replacement
  payload, \<open>None\<close> for a null pointer.
\<close>

definition set_verdict_request ::
  "abi \<Rightarrow> ipq_handle \<Rightarrow> u32 \<Rightarrow> u32 \<Rightarrow> nat \<Rightarrow> u8 list option \<Rightarrow> request \<times> nat list" where
  "set_verdict_request A h i verdict data_len buf =
     (let tlen = sizeof_nlmsghdr A + sizeof_peer_msg A;
          iov = [sizeof_nlmsghdr A, sizeof_peer_msg A];
          (tlen', iov', data) =
             (if data_len \<noteq> 0 \<and> buf \<noteq> None
              then (tlen + data_len, iov @ [data_len], take data_len (the buf))
              else (tlen, iov, []))
      in (\<lparr>rq_len = tlen', rq_type = IPQM_VERDICT, rq_pid = nl_pid (h_local h),
           rq_msg = VerdictMsg verdict i data_len, rq_data = data\<rparr>, iov'))"

definition ipq_set_verdict ::
  "abi \<Rightarrow> (request \<Rightarrow> int) \<Rightarrow> ipq_handle \<Rightarrow> u32 \<Rightarrow> u32 \<Rightarrow> nat \<Rightarrow> u8 list option \<Rightarrow> ipq_err
     \<Rightarrow> int \<times> ipq_err" where
  "ipq_set_verdict A sendmsg h i verdict data_len buf errno =
     ipq_netlink_sendmsg (sendmsg (fst (set_verdict_request A h i verdict data_len buf))) errno"

definition ipq_ctl :: "ipq_handle \<Rightarrow> int \<Rightarrow> int" where
  "ipq_ctl h req = 1"

section \<open>Receiving\<close>

text \<open>
  A received message as the code reads it: the header, the error number of an error message and
  the queued packet of a packet message. The payload is what lies behind the packet header up to
  the end of the receive buffer.
\<close>

record packet_msg =
  pm_packet_id :: u32
  pm_payload :: "u8 list"

record nlmsg =
  nlmsg_len :: u32
  nlmsg_flags :: u16
  nlmsg_type :: u16
  nlmsg_error :: int
  nlmsg_packet :: packet_msg

text \<open>What \<open>select\<close> did, and what \<open>recvfrom\<close> did: its status, address length, sender, message.\<close>

record select_result =
  se_ret :: int
  se_eintr :: bool
  se_isset :: bool

record recv_result =
  rr_status :: int
  rr_addrlen :: nat
  rr_peer :: sockaddr_nl
  rr_msg :: nlmsg

definition MSG_TRUNC :: u16 where "MSG_TRUNC = 0x20"

text \<open>The time \<open>select\<close> waits: seconds and microseconds.\<close>

definition recv_timeval :: "int \<Rightarrow> int \<times> int" where
  "recv_timeval timeout = (if timeout < 0 then (0, 0) else (timeout div 1000000, timeout mod 1000000))"

text \<open>
  \<open>recvfrom\<close> stores the sender in \<open>h->peer\<close>. The result: the status, the new \<open>ipq_errno\<close>, the
  handle.
\<close>

definition ipq_netlink_recvfrom ::
  "abi \<Rightarrow> (int \<times> int \<Rightarrow> select_result) \<Rightarrow> recv_result \<Rightarrow> ipq_handle \<Rightarrow> nat \<Rightarrow> int \<Rightarrow> ipq_err
     \<Rightarrow> int \<times> ipq_err \<times> ipq_handle" where
  "ipq_netlink_recvfrom A sel rcv h len timeout errno =
     (if len < sizeof_nlmsgerr A then (-1, IPQ_ERR_RECVBUF, h)
      else if timeout \<noteq> 0 \<and> se_ret (sel (recv_timeval timeout)) < 0
      then (if se_eintr (sel (recv_timeval timeout)) then (0, errno, h) else (-1, IPQ_ERR_RECV, h))
      else if timeout \<noteq> 0 \<and> \<not> se_isset (sel (recv_timeval timeout)) then (0, IPQ_ERR_TIMEOUT, h)
      else
        let status = rr_status rcv in
        if status < 0 then (status, IPQ_ERR_RECV, h)
        else
          let h' = h\<lparr>h_peer := rr_peer rcv\<rparr> in
          if rr_addrlen rcv \<noteq> sizeof_sockaddr_nl A then (-1, IPQ_ERR_RECV, h')
          else if nl_pid (h_peer h') \<noteq> 0 then (-1, IPQ_ERR_RECV, h')
          else if status = 0 then (-1, IPQ_ERR_NLEOF, h')
          else if nlmsg_flags (rr_msg rcv) AND MSG_TRUNC \<noteq> 0 \<or>
                  uint (nlmsg_len (rr_msg rcv)) > status
          then (-1, IPQ_ERR_RTRUNC, h')
          else (status, errno, h'))"

definition ipq_read ::
  "abi \<Rightarrow> (int \<times> int \<Rightarrow> select_result) \<Rightarrow> recv_result \<Rightarrow> ipq_handle \<Rightarrow> nat \<Rightarrow> int \<Rightarrow> ipq_err
     \<Rightarrow> int \<times> ipq_err \<times> ipq_handle" where
  "ipq_read A sel rcv h len timeout errno = ipq_netlink_recvfrom A sel rcv h len timeout errno"

definition ipq_message_type :: "nlmsg \<Rightarrow> u16" where
  "ipq_message_type buf = nlmsg_type buf"

definition ipq_get_msgerr :: "nlmsg \<Rightarrow> int" where
  "ipq_get_msgerr buf = - nlmsg_error buf"

definition ipq_get_packet :: "nlmsg \<Rightarrow> packet_msg" where
  "ipq_get_packet buf = nlmsg_packet buf"

section \<open>Properties\<close>

text \<open>
  The error table is aligned with the enumeration: every error code selects its own message,
  distinct codes give distinct messages, and a number outside the enumeration is reported as an
  implementation error.
\<close>

lemma ipq_strerror_total:
  "(ipq_errmap ! nat (err_code e) = (e, ipq_errstr e)) \<and>
   (ipq_errstr e = ipq_errstr e' \<longleftrightarrow> e = e') \<and>
   ipq_strerror n =
     (if n \<in> {0..IPQ_MAXERR} then snd (ipq_errmap ! nat n) else ''Implementation error'')"
proof -
  have map: "ipq_errmap ! nat (err_code e) = (e, ipq_errstr e)" for e
    by (cases e) (simp_all add: ipq_errmap_def ipq_errstr_def ipq_strerror_def IPQ_MAXERR_def)
  have len: "nat (err_code e) < length (map snd ipq_errmap)" for e
    by (cases e) (simp_all add: ipq_errmap_def)
  have "distinct (map snd ipq_errmap)" by (simp add: ipq_errmap_def)
  then have "map snd ipq_errmap ! nat (err_code e) = map snd ipq_errmap ! nat (err_code e') \<longleftrightarrow>
      nat (err_code e) = nat (err_code e')"
    by (rule nth_eq_iff_index_eq [OF _ len len])
  then have "ipq_errstr e = ipq_errstr e' \<longleftrightarrow> e = e'"
    using len [of e] len [of e'] map by (metis length_map nth_map prod.inject snd_conv)
  moreover have "ipq_strerror n =
     (if n \<in> {0..IPQ_MAXERR} then snd (ipq_errmap ! nat n) else ''Implementation error'')"
    by (auto simp: ipq_strerror_def ipq_errmap_def)
  ultimately show ?thesis using map by blast
qed

text \<open>
  What a received message has gone through. A positive result means that the kernel (port 0)
  sent it, that it is complete (its \<open>nlmsg_len\<close> is within the bytes received and it is not marked
  truncated), and that \<open>ipq_errno\<close> is as before; a negative result sets one of the four receive
  errors; the result 0 needs a timeout, so that a blocking read never returns 0.
\<close>

lemma ipq_read_checked:
  assumes "ipq_read A sel rcv h len timeout errno = (n, errno', h')"
  shows "(0 < n \<longrightarrow> n = rr_status rcv \<and> nl_pid (rr_peer rcv) = 0 \<and> h' = h\<lparr>h_peer := rr_peer rcv\<rparr> \<and>
            uint (nlmsg_len (rr_msg rcv)) \<le> n \<and> nlmsg_flags (rr_msg rcv) AND MSG_TRUNC = 0 \<and>
            errno' = errno) \<and>
         (n < 0 \<longrightarrow> errno' \<in> {IPQ_ERR_RECVBUF, IPQ_ERR_RECV, IPQ_ERR_NLEOF, IPQ_ERR_RTRUNC}) \<and>
         (n = 0 \<longrightarrow> timeout \<noteq> 0 \<and> h' = h \<and> errno' \<in> {errno, IPQ_ERR_TIMEOUT})"
  using assms
  by (auto simp: ipq_read_def ipq_netlink_recvfrom_def Let_def not_less split: if_splits)

text \<open>The sizes of the 32-bit Linux kernel interface, for concrete evaluations.\<close>

definition linux32 :: abi where
  "linux32 = \<lparr>sizeof_nlmsghdr = 16, sizeof_peer_msg = 12, sizeof_mode_req = 28,
     sizeof_nlmsgerr = 20, sizeof_sockaddr_nl = 12, NLMSG_LENGTH = (\<lambda>n. n + 16),
     NLMSG_ERROR = 2, IPQM_PACKET = 16, IPQ_COPY_PACKET = 2\<rparr>"

definition demo_handle :: ipq_handle where
  "demo_handle = \<lparr>h_fd = 3, h_blocking = 0, h_local = \<lparr>nl_pid = 77, nl_groups = 0\<rparr>,
     h_peer = \<lparr>nl_pid = 0, nl_groups = 0\<rparr>\<rparr>"

definition demo_recv :: recv_result where
  "demo_recv = \<lparr>rr_status = 100, rr_addrlen = 12, rr_peer = \<lparr>nl_pid = 0, nl_groups = 0\<rparr>,
     rr_msg = \<lparr>nlmsg_len = 100, nlmsg_flags = 0, nlmsg_type = 0, nlmsg_error = 0,
       nlmsg_packet = \<lparr>pm_packet_id = 9, pm_payload = []\<rparr>\<rparr>\<rparr>"

lemma demo_read:
  "ipq_read linux32 (\<lambda>_. \<lparr>se_ret = 0, se_eintr = False, se_isset = False\<rparr>) demo_recv demo_handle 4096 0
     IPQ_ERR_NONE = (100, IPQ_ERR_NONE, demo_handle\<lparr>h_peer := \<lparr>nl_pid = 0, nl_groups = 0\<rparr>\<rparr>)"
  by (simp add: ipq_read_def ipq_netlink_recvfrom_def linux32_def demo_recv_def)

theorem ipq_read_checked_witness:
  "nl_pid (rr_peer demo_recv) = 0 \<and> uint (nlmsg_len (rr_msg demo_recv)) \<le> 100"
  using ipq_read_checked [OF demo_read] by simp

text \<open>
  A verdict is framed exactly: the length in the netlink header is the sum of the io vectors
  that are sent, the replacement payload has the announced length, and the message carries the
  packet id and the verdict it was asked to.
\<close>

lemma set_verdict_framed:
  assumes "\<And>b. buf = Some b \<Longrightarrow> data_len \<le> length b"
    and "set_verdict_request A h i v data_len buf = (rq, iov)"
  shows "rq_len rq = sum_list iov \<and> rq_msg rq = VerdictMsg v i data_len \<and>
    rq_pid rq = nl_pid (h_local h) \<and>
    sum_list iov = sizeof_nlmsghdr A + sizeof_peer_msg A + length (rq_data rq)"
  using assms by (auto simp: set_verdict_request_def Let_def split: if_splits)

lemma set_verdict_framed_witness:
  "rq_len (fst (set_verdict_request linux32 demo_handle 9 1 2 (Some [7, 8, 9]))) = 30"
  using set_verdict_framed [of "Some [7, 8, 9]" 2 linux32 demo_handle 9 1
      "fst (set_verdict_request linux32 demo_handle 9 1 2 (Some [7, 8, 9]))"
      "snd (set_verdict_request linux32 demo_handle 9 1 2 (Some [7, 8, 9]))"]
  by (simp add: set_verdict_request_def linux32_def)

text \<open>
  The mode request reads past its object. \<open>ipq_set_mode\<close> passes the size of the whole request,
  header included, to \<open>NLMSG_LENGTH\<close>, which adds the header again; \<open>sendto\<close> is then told to
  send more bytes than the request on the stack has, by the size of a header.
\<close>

lemma set_mode_overread:
  assumes "\<And>n. NLMSG_LENGTH A n = n + sizeof_nlmsghdr A" and "0 < sizeof_nlmsghdr A"
    and "set_mode_request A h mode rng = (rq, len, objsize)"
  shows "len = objsize + sizeof_nlmsghdr A \<and> len > objsize \<and> rq_len rq = len"
  using assms by (auto simp: set_mode_request_def Let_def)

lemma set_mode_overread_witness:
  "fst (snd (set_mode_request linux32 demo_handle 2 4096)) = 44 \<and>
   snd (snd (set_mode_request linux32 demo_handle 2 4096)) = 28"
  using set_mode_overread [of linux32 demo_handle 2 4096
      "fst (set_mode_request linux32 demo_handle 2 4096)" 44 28]
  by (simp add: set_mode_request_def linux32_def)

text \<open>
  Creating a handle never leaks a descriptor: either a handle with the open descriptor, bound
  to this process and addressed to the kernel, is returned, or the descriptor it got is closed
  again and \<open>ipq_errno\<close> names the step that failed.
\<close>

lemma ipq_create_handle_no_leak:
  assumes "ipq_create_handle ok sock bnd pid flags protocol errno = (r, errno', closed)"
  shows "case r of
      Some h \<Rightarrow> ok \<and> h_fd h \<noteq> -1 \<and> closed = [] \<and> errno' = errno \<and> nl_pid (h_local h) = pid \<and>
        nl_pid (h_peer h) = 0 \<and>
        h_fd h = sock (if protocol = NFPROTO_IPV4 then NETLINK_FIREWALL else NETLINK_IP6_FW)
    | None \<Rightarrow>
        if \<not> ok then errno' = IPQ_ERR_HANDLE \<and> closed = []
        else if protocol \<notin> {NFPROTO_IPV4, NFPROTO_IPV6} then errno' = IPQ_ERR_PROTOCOL \<and> closed = []
        else closed = [sock (if protocol = NFPROTO_IPV4 then NETLINK_FIREWALL else NETLINK_IP6_FW)] \<and>
          errno' = (if hd closed = -1 then IPQ_ERR_SOCKET else IPQ_ERR_BIND)"
  using assms by (auto simp: ipq_create_handle_def Let_def split: if_splits)

lemma ipq_create_handle_no_leak_witness:
  "ipq_create_handle True (\<lambda>_. 3) (-1) 77 0 NFPROTO_IPV4 IPQ_ERR_NONE = (None, IPQ_ERR_BIND, [3]) \<and>
   IPQ_ERR_BIND = (if hd [3::int] = -1 then IPQ_ERR_SOCKET else IPQ_ERR_BIND)"
proof -
  have *: "ipq_create_handle True (\<lambda>_. 3) (-1) 77 0 NFPROTO_IPV4 IPQ_ERR_NONE = (None, IPQ_ERR_BIND, [3])"
    by (simp add: ipq_create_handle_def)
  from ipq_create_handle_no_leak [OF *] * show ?thesis by simp
qed

end
