(* ===== verification/Ipq_Server.thy ===== *)
theory Ipq_Server
  imports Ipq_Monitor Libipq
begin

text \<open>
  The packet filter itself, \<^verbatim>\<open>src/jni/ipqserver/server.c\<close>: the sender thread, which decides each
  queued packet by the authorisation history or asks the Java side, and the reader thread, which
  stores the answers of the Java side. The Java end of the protocol is
  \<^verbatim>\<open>src/src/de/cased/mobilecloud/IpqWorker.java\<close>.
\<close>

section \<open>Packets\<close>

definition BUFFSIZE :: nat where "BUFFSIZE = 4096"

definition byte_at :: "u8 list \<Rightarrow> nat \<Rightarrow> u8 res" where
  "byte_at p i = (if i < length p then Inr (p ! i) else Inl OutOfBounds)"

text \<open>Loads of a little-endian machine.\<close>

definition le16 :: "u8 \<Rightarrow> u8 \<Rightarrow> u16" where
  "le16 b0 b1 = ucast b0 OR push_bit 8 (ucast b1)"

definition le32 :: "u8 \<Rightarrow> u8 \<Rightarrow> u8 \<Rightarrow> u8 \<Rightarrow> u32" where
  "le32 b0 b1 b2 b3 =
     ucast b0 OR push_bit 8 (ucast b1) OR push_bit 16 (ucast b2) OR push_bit 24 (ucast b3)"

definition htons :: "u16 \<Rightarrow> u16" where
  "htons x = push_bit 8 x OR drop_bit 8 x"

text \<open>\<open>IPCOMP(addr, n)\<close> on a signed \<open>addr\<close>: the shift is arithmetic, the mask makes that invisible.\<close>

definition IPCOMP :: "u32 \<Rightarrow> nat \<Rightarrow> int" where
  "IPCOMP a n = drop_bit (24 - 8 * n) (sint a) AND 0xFF"

record packet_info =
  pk_protocol :: u8
  pk_saddr :: u32
  pk_daddr :: u32
  pk_port :: u16

text \<open>
  The fields of the IPv4 header (RFC 791) and of the TCP header behind it (RFC 793) that the
  sender reads from the payload.
\<close>

definition read_packet :: "u8 list \<Rightarrow> packet_info res" where
  "read_packet p =
     rbind (byte_at p 0) (\<lambda>b0.
     rbind (byte_at p 9) (\<lambda>proto.
     rbind (byte_at p 12) (\<lambda>s0. rbind (byte_at p 13) (\<lambda>s1.
     rbind (byte_at p 14) (\<lambda>s2. rbind (byte_at p 15) (\<lambda>s3.
     rbind (byte_at p 16) (\<lambda>d0. rbind (byte_at p 17) (\<lambda>d1.
     rbind (byte_at p 18) (\<lambda>d2. rbind (byte_at p 19) (\<lambda>d3.
     (let tcp = 4 * unat (b0 AND 0xF) in
      rbind (byte_at p (tcp + 2)) (\<lambda>t0. rbind (byte_at p (tcp + 3)) (\<lambda>t1.
        Inr \<lparr>pk_protocol = proto, pk_saddr = le32 s0 s1 s2 s3, pk_daddr = le32 d0 d1 d2 d3,
             pk_port = htons (le16 t0 t1)\<rparr>)))))))))))))"

section \<open>The sender thread\<close>

definition dotted :: "u32 \<Rightarrow> string" where
  "dotted a = show_int (IPCOMP a 3) @ ''.'' @ show_int (IPCOMP a 2) @ ''.'' @
     show_int (IPCOMP a 1) @ ''.'' @ show_int (IPCOMP a 0)"

definition packet_line :: "u32 \<Rightarrow> packet_info \<Rightarrow> string" where
  "packet_line i k =
     show_nat (unat i) @ ''='' @ dotted (pk_saddr k) @ ''>'' @ dotted (pk_daddr k) @ '':'' @
     show_nat (unat (pk_port k)) @ '','' @ show_nat (unat (pk_protocol k)) @ [newline]"

datatype sender_act =
    Die               \<comment> \<open>\<open>die(h)\<close>\<close>
  | Respond string    \<comment> \<open>a line for the Java side\<close>
  | Accept u32        \<comment> \<open>the verdict \<open>NF_ACCEPT\<close> for a packet\<close>

text \<open>One iteration up to the decision; \<open>status\<close> is the result of \<open>ipq_read\<close>, \<open>msg\<close> the message.\<close>

definition send_ipq_decide ::
  "abi \<Rightarrow> int \<Rightarrow> nlmsg \<Rightarrow> int \<Rightarrow> history \<Rightarrow> sender_act res option" where
  "send_ipq_decide A status msg now s =
     (if status < 0 then Some (Inr Die)
      else if ipq_message_type msg = NLMSG_ERROR A
      then Some (Inr (Respond (''Received error message '' @ show_int (ipq_get_msgerr msg) @ [newline])))
      else if ipq_message_type msg = IPQM_PACKET A
      then (let m = ipq_get_packet msg in
            case read_packet (pm_payload m) of
              Inl f \<Rightarrow> Some (Inl f)
            | Inr k \<Rightarrow>
                (case search_in_list (pk_daddr k) (pk_port k) now None s of
                   None \<Rightarrow> None
                 | Some (Inl f) \<Rightarrow> Some (Inl f)
                 | Some (Inr (None, _)) \<Rightarrow> Some (Inr (Respond (packet_line (pm_packet_id m) k)))
                 | Some (Inr (Some _, _)) \<Rightarrow> Some (Inr (Accept (pm_packet_id m)))))
      else Some (Inr (Respond (''Unknown message type!'' @ [newline]))))"

text \<open>
  The state the threads of one connection share besides the history: whether they keep running,
  whether the process has exited with status 1, \<open>ipq_errno\<close>, what was written to the socket of
  the Java side, and the verdicts sent to the kernel.
\<close>

record server =
  sv_running :: bool
  sv_exited :: bool
  sv_errno :: ipq_err
  sv_handle :: ipq_handle
  sv_hist :: history
  sv_written :: "string list"
  sv_verdicts :: "request list"

definition NF_ACCEPT :: u32 where "NF_ACCEPT = 1"

definition stop :: "server \<Rightarrow> server" where
  "stop v = v\<lparr>sv_running := False\<rparr>"

definition die :: "server \<Rightarrow> server" where
  "die v = (stop v)\<lparr>sv_exited := True\<rparr>"

text \<open>
  \<open>ipq_set_verdict(h, id, NF_ACCEPT, 0, NULL)\<close> and the exit when it fails. The kernel has the verdict only if it was sent.
\<close>

definition accept_packet :: "abi \<Rightarrow> (request \<Rightarrow> int) \<Rightarrow> u32 \<Rightarrow> server \<Rightarrow> server" where
  "accept_packet A sendmsg i v =
     (let rq = fst (set_verdict_request A (sv_handle v) i NF_ACCEPT 0 None);
          (status, errno) = ipq_set_verdict A sendmsg (sv_handle v) i NF_ACCEPT 0 None (sv_errno v);
          v' = v\<lparr>sv_errno := errno\<rparr>
      in if status < 0 then die v' else v'\<lparr>sv_verdicts := sv_verdicts v @ [rq]\<rparr>)"

text \<open>\<open>write\<close> of the response: \<open>wr\<close> gives the number of bytes written.\<close>

definition write_response :: "(string \<Rightarrow> int) \<Rightarrow> string \<Rightarrow> server \<Rightarrow> server" where
  "write_response wr r v =
     (let n = wr r; v' = v\<lparr>sv_written := sv_written v @ [take (nat n) r]\<rparr>
      in if n \<noteq> int (length r) then stop v' else v')"

definition send_ipq_iteration ::
  "abi \<Rightarrow> (request \<Rightarrow> int) \<Rightarrow> (string \<Rightarrow> int) \<Rightarrow> (int \<times> int \<Rightarrow> select_result) \<Rightarrow> recv_result \<Rightarrow> int
     \<Rightarrow> server \<Rightarrow> server res option" where
  "send_ipq_iteration A sendmsg wr sel rcv now v =
     (let (status, errno, h) = ipq_read A sel rcv (sv_handle v) BUFFSIZE 0 (sv_errno v);
          v1 = v\<lparr>sv_errno := errno, sv_handle := h\<rparr>
      in case send_ipq_decide A status (rr_msg rcv) now (sv_hist v1) of
           None \<Rightarrow> None
         | Some (Inl f) \<Rightarrow> Some (Inl f)
         | Some (Inr Die) \<Rightarrow> Some (Inr (die v1))
         | Some (Inr (Respond r)) \<Rightarrow> Some (Inr (write_response wr r v1))
         | Some (Inr (Accept i)) \<Rightarrow> Some (Inr (accept_packet A sendmsg i v1)))"

section \<open>The reader thread\<close>

definition token_value :: "string option \<Rightarrow> string res" where
  "token_value t = (case t of None \<Rightarrow> Inl NullDeref | Some x \<Rightarrow> Inr x)"

text \<open>
  The parsing of one answer: three calls of \<open>strtok\<close> on the buffer, which holds what was read
  followed by what earlier reads left, then the conversions. A missing field is a null pointer.
\<close>

definition read_java_parse :: "char list \<Rightarrow> (u32 \<times> u32 \<times> u16 \<times> char list) res" where
  "read_java_parse buffer =
     rbind (strtok_buf CHR '';'' buffer 0) (\<lambda>(i, b1, p1).
     rbind (strtok_buf CHR '';'' b1 p1) (\<lambda>(ip, b2, p2).
     rbind (strtok_buf CHR '';'' b2 p2) (\<lambda>(port, b3, _).
     rbind (token_value i) (\<lambda>i'. rbind (token_value ip) (\<lambda>ip'. rbind (token_value port) (\<lambda>port'.
       Inr (strtoul10 i', of_int (atoi ip'), of_int (atoi port'), b3)))))))"

text \<open>
  One iteration. \<open>data\<close> is what \<open>read\<close> delivered (nothing if it failed or the stream ended),
  \<open>m\<close> the result of \<open>malloc\<close>. The buffer is kept between iterations.
\<close>

definition read_java_iteration ::
  "abi \<Rightarrow> (request \<Rightarrow> int) \<Rightarrow> string \<Rightarrow> addr option \<Rightarrow> int \<Rightarrow> char list \<times> server
     \<Rightarrow> (char list \<times> server) res" where
  "read_java_iteration A sendmsg data m now bv =
     (let (buffer, v) = bv in
      if data = [] then Inr (buffer, v)
      else
        let buffer1 = data @ drop (length data) buffer in
        rbind (read_java_parse buffer1) (\<lambda>(i, ip, port, buffer2).
        rbind (add_to_list m ip port now (sv_hist v)) (\<lambda>(_, s).
          Inr (buffer2, accept_packet A sendmsg i (v\<lparr>sv_hist := s\<rparr>)))))"

section \<open>The Java end of the protocol\<close>

definition indexOf :: "string \<Rightarrow> char \<Rightarrow> nat option" where
  "indexOf s c = (if c \<in> set s then Some (length (takeWhile (\<lambda>x. x \<noteq> c) s)) else None)"

definition substring :: "string \<Rightarrow> nat \<Rightarrow> nat \<Rightarrow> string" where
  "substring s a b = take (b - a) (drop a s)"

text \<open>\<open>Integer.parseInt\<close> and \<open>Long.parseLong\<close> on an unsigned decimal within the given bound.\<close>

definition parse_dec :: "nat \<Rightarrow> string \<Rightarrow> nat option" where
  "parse_dec bound s =
     (if s \<noteq> [] \<and> list_all isdigit s \<and> digits_val 0 s \<le> bound then Some (digits_val 0 s) else None)"

definition INT_MAX :: nat where "INT_MAX = 2147483647"
definition JLONG_MAX :: nat where "JLONG_MAX = 9223372036854775807"

text \<open>\<open>IpqWorker.ipStringToInt\<close>: the sum of the shifted components, in 32 bits.\<close>

definition ipStringToInt :: "string \<Rightarrow> u32 option" where
  "ipStringToInt s =
     (case strtok_all CHR ''.'' s of
        a # b # c # d # _ \<Rightarrow>
          do { first \<leftarrow> parse_dec INT_MAX a; second \<leftarrow> parse_dec INT_MAX b;
               third \<leftarrow> parse_dec INT_MAX c; fourth \<leftarrow> parse_dec INT_MAX d;
               Some (of_nat first + push_bit 8 (of_nat second) + push_bit 16 (of_nat third)
                     + push_bit 24 (of_nat fourth)) }
      | _ \<Rightarrow> None)"

text \<open>
  The fields \<open>IpqWorker.run\<close> cuts out of a line: packet id, destination, destination port and
  protocol. A failing conversion is an exception, which ends the worker.
\<close>

definition worker_parse :: "string \<Rightarrow> (nat \<times> string \<times> nat \<times> nat) option" where
  "worker_parse line =
     do { eq \<leftarrow> indexOf line CHR ''='';
          gt \<leftarrow> indexOf line CHR ''>'';
          co \<leftarrow> indexOf line CHR '':'';
          cm \<leftarrow> indexOf line CHR '','';
          i \<leftarrow> parse_dec JLONG_MAX (substring line 0 eq);
          proto \<leftarrow> parse_dec INT_MAX (drop (Suc cm) line);
          port \<leftarrow> parse_dec INT_MAX (substring line (Suc co) cm);
          Some (i, substring line (Suc gt) co, port, proto) }"

text \<open>\<open>IpqWorker.verdict(id, ip, port)\<close>: what is written to the socket.\<close>

definition worker_verdict :: "nat \<Rightarrow> string \<Rightarrow> nat \<Rightarrow> string option" where
  "worker_verdict i ip port =
     do { a \<leftarrow> ipStringToInt ip;
          Some (show_nat i @ '';'' @ show_int (sint a) @ '';'' @ show_nat port @ [newline]) }"

text \<open>
  The answer to a line: \<open>readLine\<close> drops the newline, the line is parsed, and \<open>verdict\<close> is called
  with its fields, at once for a destination that needs no permission, otherwise when the
  permission is granted.
\<close>

definition worker_answer :: "string \<Rightarrow> string option" where
  "worker_answer line =
     do { (i, ip, port, proto) \<leftarrow> worker_parse (takeWhile (\<lambda>c. c \<noteq> newline) line);
          worker_verdict i ip port }"

section \<open>Addresses as text\<close>

lemma bit_le32:
  "bit (le32 b0 b1 b2 b3) n \<longleftrightarrow>
     (n < 8 \<and> bit b0 n) \<or> (8 \<le> n \<and> n < 16 \<and> bit b1 (n - 8)) \<or>
     (16 \<le> n \<and> n < 24 \<and> bit b2 (n - 16)) \<or> (24 \<le> n \<and> n < 32 \<and> bit b3 (n - 24))"
  by (auto simp: le32_def bit_or_iff bit_push_bit_iff bit_ucast_iff dest: bit_imp_le_length)

lemma IPCOMP_bits:
  assumes "k \<le> 24"
  shows "drop_bit k (sint (a :: u32)) AND 0xFF = uint (ucast (drop_bit k a) :: u8)"
proof -
  have "(0xFF :: int) = mask 8" by (simp add: mask_eq_exp_minus_1)
  moreover have "drop_bit k (sint a) AND mask 8 = uint (ucast (drop_bit k a) :: u8)"
  proof (rule bit_eqI)
    fix n
    show "bit (drop_bit k (sint a) AND mask 8) n \<longleftrightarrow> bit (uint (ucast (drop_bit k a) :: u8)) n"
      using assms
      by (cases "n < 8") (auto simp: bit_and_iff bit_mask_iff bit_drop_bit_eq bit_sint_iff bit_uint_iff
          bit_ucast_iff)
  qed
  ultimately show ?thesis by simp
qed

definition octet :: "nat \<Rightarrow> u32 \<Rightarrow> u8" where
  "octet k a = ucast (drop_bit (8 * k) a)"

lemma IPCOMP_octet:
  "IPCOMP a 3 = uint (octet 0 a)" "IPCOMP a 2 = uint (octet 1 a)"
  "IPCOMP a 1 = uint (octet 2 a)" "IPCOMP a 0 = uint (octet 3 a)"
  by (simp_all add: IPCOMP_def octet_def IPCOMP_bits [of 0, simplified] IPCOMP_bits)

lemma le32_octets: "le32 (octet 0 a) (octet 1 a) (octet 2 a) (octet 3 a) = a"
proof (rule bit_word_eqI)
  fix n
  assume "n < LENGTH(32)"
  then show "bit (le32 (octet 0 a) (octet 1 a) (octet 2 a) (octet 3 a)) n = bit a n"
    by (cases "n < 8"; cases "n < 16"; cases "n < 24")
      (auto simp: bit_le32 octet_def bit_ucast_iff bit_drop_bit_eq not_less)
qed

lemma le32_sum:
  "le32 b0 b1 b2 b3 = ucast b0 + push_bit 8 (ucast b1) + push_bit 16 (ucast b2) + push_bit 24 (ucast b3)"
proof -
  have d1: "(ucast b0 :: u32) AND push_bit 8 (ucast b1) = 0"
    by (rule bit_eqI) (auto simp: bit_and_iff bit_push_bit_iff bit_ucast_iff dest: bit_imp_le_length)
  have d2: "((ucast b0 :: u32) OR push_bit 8 (ucast b1)) AND push_bit 16 (ucast b2) = 0"
    by (rule bit_eqI)
      (auto simp: bit_and_iff bit_or_iff bit_push_bit_iff bit_ucast_iff dest!: bit_imp_le_length)
  have d3: "(((ucast b0 :: u32) OR push_bit 8 (ucast b1)) OR push_bit 16 (ucast b2)) AND
      push_bit 24 (ucast b3) = 0"
    by (rule bit_eqI)
      (auto simp: bit_and_iff bit_or_iff bit_push_bit_iff bit_ucast_iff dest!: bit_imp_le_length)
  show ?thesis
    unfolding disjunctive_add_eq_or [OF d1] disjunctive_add_eq_or [OF d2]
      disjunctive_add_eq_or [OF d3] le32_def by (simp only: or.assoc)
qed

lemma show_int_uint: "show_int (uint w) = show_nat (unat w)"
  by (simp add: show_int_def)

lemma dotted_octets:
  "dotted a = show_nat (unat (octet 0 a)) @ ''.'' @ show_nat (unat (octet 1 a)) @ ''.'' @
     show_nat (unat (octet 2 a)) @ ''.'' @ show_nat (unat (octet 3 a))"
  unfolding dotted_def IPCOMP_octet show_int_uint by (rule refl)

lemma parse_dec_show_nat: "n \<le> b \<Longrightarrow> parse_dec b (show_nat n) = Some n"
  using digits_val_show_nat [of "[]" n] by (simp add: parse_dec_def show_nat_isdigit)

lemma unat_u8_le: "unat (w :: u8) \<le> INT_MAX"
  using unsigned_less [of w, where 'a = nat] by (simp add: INT_MAX_def)

lemma ipStringToInt_dotted: "ipStringToInt (dotted a) = Some a"
proof -
  have no: "CHR ''.'' \<notin> set (show_nat n)" for n by (rule show_nat_no) (simp add: isdigit_def)
  have "strtok_all CHR ''.'' (dotted a) =
      [show_nat (unat (octet 0 a)), show_nat (unat (octet 1 a)), show_nat (unat (octet 2 a)),
       show_nat (unat (octet 3 a))]"
    using strtok_all_token [OF show_nat_nonempty no, of "[]"]
    by (simp add: dotted_octets strtok_all_token no)
  moreover have "ucast (octet 0 a) + push_bit 8 (ucast (octet 1 a)) + push_bit 16 (ucast (octet 2 a)) +
      push_bit 24 (ucast (octet 3 a)) = a"
    unfolding le32_sum [symmetric] by (rule le32_octets)
  ultimately show ?thesis
    by (simp add: ipStringToInt_def parse_dec_show_nat unat_u8_le)
qed

section \<open>Cutting a line into fields\<close>

lemma indexOf_append: "c \<notin> set xs \<Longrightarrow> indexOf (xs @ c # ys) c = Some (length xs)"
  by (simp add: indexOf_def takeWhile_append)

lemma substring_middle:
  "a = length xs \<Longrightarrow> b = length xs + length ys \<Longrightarrow> substring (xs @ ys @ zs) a b = ys"
  by (simp add: substring_def)

lemma dotted_no:
  assumes "\<not> isdigit c" and "c \<noteq> CHR ''.''"
  shows "c \<notin> set (dotted a)"
  using assms by (simp add: dotted_octets show_nat_no)

lemma worker_parse_fields:
  assumes "list_all isdigit i" "i \<noteq> []" "digits_val 0 i \<le> JLONG_MAX"
    and "set src \<inter> {CHR ''='', CHR ''>'', CHR '':'', CHR '',''} = {}"
    and "set dst \<inter> {CHR ''='', CHR ''>'', CHR '':'', CHR '',''} = {}"
    and "list_all isdigit port" "port \<noteq> []" "digits_val 0 port \<le> INT_MAX"
    and "list_all isdigit rest" "rest \<noteq> []" "digits_val 0 rest \<le> INT_MAX"
  shows "worker_parse (i @ ''='' @ src @ ''>'' @ dst @ '':'' @ port @ '','' @ rest) =
    Some (digits_val 0 i, dst, digits_val 0 port, digits_val 0 rest)"
proof -
  let ?l = "i @ ''='' @ src @ ''>'' @ dst @ '':'' @ port @ '','' @ rest"
  have no: "c \<notin> set xs" if "list_all isdigit xs" "\<not> isdigit c" for xs c
    using that by (auto simp: list_all_iff)
  have nd: "\<not> isdigit CHR ''=''" "\<not> isdigit CHR ''>''" "\<not> isdigit CHR '':''" "\<not> isdigit CHR '',''"
    by (simp_all add: isdigit_def)
  have eq: "indexOf ?l CHR ''='' = Some (length i)"
    using indexOf_append [of "CHR ''=''" i] no [OF assms(1) nd(1)] by simp
  have gt: "indexOf ?l CHR ''>'' = Some (length (i @ ''='' @ src))"
    using indexOf_append [of "CHR ''>''" "i @ ''='' @ src"] no [OF assms(1) nd(2)] assms(4) by simp
  have co: "indexOf ?l CHR '':'' = Some (length (i @ ''='' @ src @ ''>'' @ dst))"
    using indexOf_append [of "CHR '':''" "i @ ''='' @ src @ ''>'' @ dst"] no [OF assms(1) nd(3)] assms(4,5)
    by simp
  have cm: "indexOf ?l CHR '','' = Some (length (i @ ''='' @ src @ ''>'' @ dst @ '':'' @ port))"
    using indexOf_append [of "CHR '',''" "i @ ''='' @ src @ ''>'' @ dst @ '':'' @ port"]
      no [OF assms(1) nd(4)] no [OF assms(6) nd(4)] assms(4,5) by simp
  have f1: "substring ?l 0 (length i) = i"
    using substring_middle [of 0 "[]" "length i" i] by simp
  have f2: "substring ?l (Suc (length (i @ ''='' @ src))) (length (i @ ''='' @ src @ ''>'' @ dst)) = dst"
    using substring_middle [of "Suc (length (i @ ''='' @ src))" "i @ ''='' @ src @ ''>''"
        "length (i @ ''='' @ src @ ''>'' @ dst)" dst] by simp
  have f3: "substring ?l (Suc (length (i @ ''='' @ src @ ''>'' @ dst)))
      (length (i @ ''='' @ src @ ''>'' @ dst @ '':'' @ port)) = port"
    using substring_middle [of "Suc (length (i @ ''='' @ src @ ''>'' @ dst))"
        "i @ ''='' @ src @ ''>'' @ dst @ '':''"
        "length (i @ ''='' @ src @ ''>'' @ dst @ '':'' @ port)" port] by simp
  have f4: "drop (Suc (length (i @ ''='' @ src @ ''>'' @ dst @ '':'' @ port))) ?l = rest"
    using append_eq_conv_conj [of "i @ ''='' @ src @ ''>'' @ dst @ '':'' @ port @ '',''" rest ?l] by simp
  show ?thesis
    unfolding worker_parse_def eq gt co cm Option.bind.simps f1 f2 f3 f4
    using assms by (simp add: parse_dec_def)
qed

lemma unat_u32_le: "unat (w :: u32) \<le> ULONG_MAX"
  using unsigned_less [of w, where 'a = nat] by (simp add: ULONG_MAX_def)

lemma unat_u16_le: "unat (w :: u16) \<le> 65535"
  using unsigned_less [of w, where 'a = nat] by simp

lemma not_digit_chars:
  "\<not> isdigit newline" "\<not> isdigit nul" "\<not> isdigit CHR '';''" "\<not> isdigit CHR ''=''"
  "\<not> isdigit CHR ''>''" "\<not> isdigit CHR '':''" "\<not> isdigit CHR '',''"
  by (simp_all add: isdigit_def newline_def nul_def)

lemma newline_neq:
  "newline \<noteq> CHR ''.''" "newline \<noteq> CHR ''=''" "newline \<noteq> CHR ''>''" "newline \<noteq> CHR '':''"
  "newline \<noteq> CHR '',''" "newline \<noteq> CHR '';''"
  by (simp_all add: newline_def)

lemma newline_dotted: "newline \<notin> set (dotted a)"
  by (simp add: dotted_no not_digit_chars newline_neq)

lemma worker_parse_packet_line:
  "worker_parse (takeWhile (\<lambda>c. c \<noteq> newline) (packet_line i k)) =
     Some (unat i, dotted (pk_daddr k), unat (pk_port k), unat (pk_protocol k))"
proof -
  let ?l = "show_nat (unat i) @ ''='' @ dotted (pk_saddr k) @ ''>'' @ dotted (pk_daddr k) @ '':'' @
     show_nat (unat (pk_port k)) @ '','' @ show_nat (unat (pk_protocol k))"
  have "newline \<notin> set ?l"
    by (simp add: show_nat_no newline_dotted newline_neq not_digit_chars)
  then have "takeWhile (\<lambda>c. c \<noteq> newline) (packet_line i k) = ?l"
    using takeWhile_until [of newline ?l "[]"] by (simp add: packet_line_def)
  moreover have "worker_parse ?l = Some (unat i, dotted (pk_daddr k), unat (pk_port k), unat (pk_protocol k))"
    using worker_parse_fields [of "show_nat (unat i)" "dotted (pk_saddr k)" "dotted (pk_daddr k)"
        "show_nat (unat (pk_port k))" "show_nat (unat (pk_protocol k))"]
      unat_u32_le [of i] unat_u16_le [of "pk_port k"] unat_u8_le [of "pk_protocol k"]
    by (simp add: show_nat_isdigit digits_val_show_nat_0 dotted_no not_digit_chars
        JLONG_MAX_def INT_MAX_def ULONG_MAX_def)
  ultimately show ?thesis by simp
qed

lemma worker_answer_packet_line:
  "worker_answer (packet_line i k) =
     Some (show_nat (unat i) @ '';'' @ show_int (sint (pk_daddr k)) @ '';'' @
           show_nat (unat (pk_port k)) @ [newline])"
  by (simp add: worker_answer_def worker_parse_packet_line worker_verdict_def ipStringToInt_dotted)

section \<open>Reading an answer\<close>

lemma strtok_buf_token:
  assumes "tok \<noteq> []" and "d \<notin> set tok" and "nul \<notin> set tok" and "d \<noteq> nul" and "p = length pre"
  shows "strtok_buf d (pre @ tok @ d # rest) p = Inr (Some tok, pre @ tok @ nul # rest, Suc (p + length tok))"
proof -
  from assms obtain c cs where tok: "tok = c # cs" "c \<noteq> d" "c \<noteq> nul" by (cases tok) auto
  have "takeWhile (\<lambda>c. c = d) (drop p (pre @ tok @ d # rest)) = []" using tok assms(5) by simp
  moreover have "(pre @ tok @ d # rest) ! p = c" using tok assms(5) by (simp add: nth_append)
  moreover have "takeWhile (\<lambda>c. c \<noteq> d \<and> c \<noteq> nul) (drop p (pre @ tok @ d # rest)) = tok"
    using assms by (auto simp: takeWhile_append)
  moreover have "(pre @ tok @ d # rest) ! (p + length tok) = d" using assms(5) by (simp add: nth_append)
  moreover have "(pre @ tok @ d # rest)[p + length tok := nul] = pre @ tok @ nul # rest"
    using assms(5) by (simp add: list_update_append)
  ultimately show ?thesis
    using tok assms by (simp add: strtok_buf_def)
qed

lemma strtok_buf_last:
  assumes "tok \<noteq> []" and "d \<notin> set tok" and "nul \<notin> set tok" and "d \<noteq> nul" and "p = length pre"
    and "nul \<in> set rest \<or> d \<in> set rest"
  shows "\<exists>b q. strtok_buf d (pre @ tok @ rest) p =
    Inr (Some (tok @ takeWhile (\<lambda>c. c \<noteq> d \<and> c \<noteq> nul) rest), b, q)"
proof -
  from assms obtain c cs where tok: "tok = c # cs" "c \<noteq> d" "c \<noteq> nul" by (cases tok) auto
  let ?tw = "takeWhile (\<lambda>c. c \<noteq> d \<and> c \<noteq> nul) rest"
  have "takeWhile (\<lambda>c. c = d) (drop p (pre @ tok @ rest)) = []" using tok assms(5) by simp
  moreover have "(pre @ tok @ rest) ! p = c" using tok assms(5) by (simp add: nth_append)
  moreover have "takeWhile (\<lambda>c. c \<noteq> d \<and> c \<noteq> nul) (drop p (pre @ tok @ rest)) = tok @ ?tw"
    using assms by (auto simp: takeWhile_append)
  moreover have "length ?tw < length rest"
    using assms(6) by (metis (mono_tags, lifting) length_takeWhile_le nat_less_le takeWhile_eq_all_conv
        takeWhile_eq_take take_all_iff order_refl)
  ultimately show ?thesis
    using tok assms by (auto simp: strtok_buf_def Let_def)
qed

lemma sint_u32_range: "LONG_MIN \<le> sint (w :: u32) \<and> sint w \<le> LONG_MAX"
  using sint_ge [of w] sint_lt [of w] by (simp add: LONG_MIN_def LONG_MAX_def)

text \<open>
  The parser on a well-formed answer followed by anything that holds a NUL or a semicolon.
\<close>

lemma read_java_parse_answer:
  assumes "nul \<in> set rest \<or> CHR '';'' \<in> set rest"
  shows "\<exists>b. read_java_parse (show_nat (unat i) @ '';'' @ show_int (sint a) @ '';'' @
      show_nat (unat p) @ newline # rest) = Inr (i, a, p, b)"
proof -
  let ?s = "CHR '';''"
  let ?I = "show_nat (unat i)" and ?A = "show_int (sint a)" and ?P = "show_nat (unat p)"
  let ?t = "takeWhile (\<lambda>c. c \<noteq> ?s \<and> c \<noteq> nul) rest"
  have ns: "?s \<noteq> nul" "newline \<noteq> ?s" "newline \<noteq> nul" "nul \<noteq> CHR ''-''" "?s \<noteq> CHR ''-''"
    by (simp_all add: nul_def newline_def)
  have t1: "strtok_buf ?s (?I @ ?s # ?A @ ?s # ?P @ newline # rest) 0 =
      Inr (Some ?I, ?I @ nul # ?A @ ?s # ?P @ newline # rest, Suc (length ?I))"
    using strtok_buf_token [of ?I ?s 0 "[]" "?A @ ?s # ?P @ newline # rest"] ns
    by (simp add: show_nat_no not_digit_chars)
  have t2: "strtok_buf ?s (?I @ nul # ?A @ ?s # ?P @ newline # rest) (Suc (length ?I)) =
      Inr (Some ?A, (?I @ nul # ?A @ [nul]) @ ?P @ newline # rest, Suc (Suc (length ?I) + length ?A))"
    using strtok_buf_token [of ?A ?s "Suc (length ?I)" "?I @ [nul]" "?P @ newline # rest"] ns
    by (simp add: show_int_no not_digit_chars)
  obtain b q where t3: "strtok_buf ?s ((?I @ nul # ?A @ [nul]) @ ?P @ newline # rest)
      (Suc (Suc (length ?I) + length ?A)) = Inr (Some (?P @ newline # ?t), b, q)"
    using strtok_buf_last [of ?P ?s "Suc (Suc (length ?I) + length ?A)" "?I @ nul # ?A @ [nul]"
        "newline # rest"] ns assms
    by (auto simp: show_nat_no not_digit_chars)
  have v1: "strtoul10 ?I = i"
    using strtoul10_show_nat [of "[]" "unat i"] unat_u32_le [of i] by simp
  have v2: "of_int (atoi ?A) = a"
    using atoi_show_int [of "[]" "sint a"] sint_u32_range [of a] by simp
  have "LONG_MIN \<le> int (unat p) \<and> int (unat p) \<le> LONG_MAX"
    using unat_u16_le [of p] unfolding LONG_MIN_def LONG_MAX_def by linarith
  then have "atoi (show_int (int (unat p)) @ newline # ?t) = int (unat p)"
    using atoi_show_int [of "newline # ?t" "int (unat p)"] by (simp add: not_digit_chars)
  then have v3: "of_int (atoi (?P @ newline # ?t)) = p"
    by (simp add: show_int_def)
  show ?thesis
    using t1 t2 t3 v1 v2 v3 by (simp add: read_java_parse_def token_value_def)
qed

section \<open>Properties\<close>

lemma packet_answer_parsed:
  assumes "nul \<in> set stale \<or> CHR '';'' \<in> set stale"
  shows "\<exists>msg b. worker_answer (packet_line i k) = Some msg \<and>
    read_java_parse (msg @ stale) = Inr (i, pk_daddr k, pk_port k, b)"
  using read_java_parse_answer [OF assms, of i "pk_daddr k" "pk_port k"]
  by (simp add: worker_answer_packet_line)

text \<open>
  C6. The protocol round trip. The line the server writes for a queued packet is parsed by the Java
  side, and the answer to it, wherever the unused part of the read buffer holds a NUL or a
  semicolon, is read back by the server as the same packet id, destination address and port, over
  the whole range of 32-bit addresses, including those that are negative as an \<open>int\<close>.
\<close>

theorem authorisation_round_trip:
  assumes "nul \<in> set stale \<or> CHR '';'' \<in> set stale"
  shows "\<exists>msg b. worker_answer (packet_line i k) = Some msg \<and>
    read_java_parse (msg @ stale) = Inr (i, pk_daddr k, pk_port k, b)"
  using assms by (rule packet_answer_parsed)

definition demo_packet :: packet_info where
  "demo_packet = \<lparr>pk_protocol = 6, pk_saddr = 0x0100000A, pk_daddr = 0xFE01A8C0, pk_port = 443\<rparr>"

theorem authorisation_round_trip_witness:
  "\<exists>msg b. worker_answer (packet_line 4294967295 demo_packet) = Some msg \<and>
    read_java_parse (msg @ [nul]) = Inr (4294967295, pk_daddr demo_packet, pk_port demo_packet, b)"
  using authorisation_round_trip [of "[nul]" 4294967295 demo_packet] by simp

text \<open>
  C8. The decision of the sender on a queued packet: in every reachable state of the history the
  packet is accepted at once if its destination was authorised less than ten minutes ago, and
  otherwise the line that asks the Java side is written; it is neither dropped nor decided twice. This holds until
  the 32-bit clock comes within ten minutes of its end.
\<close>

theorem sender_decides:
  assumes "hist_reachable t0 c" and "0 \<le> t0" and "mo_now c + TIMEVALIDITY < 2 ^ 31"
    and "0 \<le> status" and "ipq_message_type msg = IPQM_PACKET A"
    and "IPQM_PACKET A \<noteq> NLMSG_ERROR A" and "read_packet (pm_payload (ipq_get_packet msg)) = Inr k"
  shows "send_ipq_decide A status msg (mo_now c) (mo_hist c) =
    Some (Inr (if \<exists>ts. (pk_daddr k, pk_port k, ts) \<in> set (mo_log c) \<and> mo_now c < ts + TIMEVALIDITY
               then Accept (pm_packet_id (ipq_get_packet msg))
               else Respond (packet_line (pm_packet_id (ipq_get_packet msg)) k)))"
proof -
  have "in_time (mo_now c)" using hist_reachable_now [OF assms(1)] assms(2,3) by (simp add: in_time_def)
  from reachable_search [OF assms(1,2) this, of "pk_daddr k" "pk_port k" None] assms(4-) show ?thesis
    by (auto simp: send_ipq_decide_def)
qed

definition demo_payload :: "u8 list" where
  "demo_payload = [0x45, 0, 0, 40, 0, 0, 0, 0, 64, 6, 0, 0, 10, 0, 0, 1, 5, 0, 0, 0, 0x12, 0x34, 1, 0xBB]"

definition demo_msg :: nlmsg where
  "demo_msg = \<lparr>nlmsg_len = 100, nlmsg_flags = 0, nlmsg_type = 16, nlmsg_error = 0,
     nlmsg_packet = \<lparr>pm_packet_id = 9, pm_payload = demo_payload\<rparr>\<rparr>"

lemma demo_read_packet:
  "read_packet demo_payload =
     Inr \<lparr>pk_protocol = 6, pk_saddr = 0x0100000A, pk_daddr = 5, pk_port = 443\<rparr>"
  by (simp add: read_packet_def demo_payload_def byte_at_def le32_def le16_def htons_def)

theorem sender_decides_witness:
  "send_ipq_decide linux32 100 demo_msg 700 demo_history = Some (Inr (Accept 9))"
  using sender_decides [OF demo_reachable, of 100 demo_msg linux32
      "\<lparr>pk_protocol = 6, pk_saddr = 0x0100000A, pk_daddr = 5, pk_port = 443\<rparr>"]
  by (simp add: demo_msg_def linux32_def ipq_message_type_def ipq_get_packet_def demo_read_packet
      TIMEVALIDITY_def)

lemma read_java_answer:
  assumes "worker_answer (packet_line i k) = Some msg" and "length msg < length buffer"
    and "nul \<in> set (drop (length msg) buffer) \<or> CHR '';'' \<in> set (drop (length msg) buffer)"
    and "add_to_list m (pk_daddr k) (pk_port k) now (sv_hist v) = Inr (r, s')"
  shows "\<exists>b. read_java_iteration A sendmsg msg m now (buffer, v) =
    Inr (b, accept_packet A sendmsg i (v\<lparr>sv_hist := s'\<rparr>))"
proof -
  have "msg \<noteq> []" using assms(1) by (auto simp: worker_answer_packet_line)
  moreover obtain b where
    "read_java_parse (msg @ drop (length msg) buffer) = Inr (i, pk_daddr k, pk_port k, b)"
    using packet_answer_parsed [OF assms(3), of i k] assms(1) by auto
  ultimately show ?thesis
    using assms(4) by (simp add: read_java_iteration_def)
qed

lemma accept_packet_hist [simp]: "sv_hist (accept_packet A sendmsg i v) = sv_hist v"
  by (simp add: accept_packet_def Let_def die_def stop_def split: prod.split)

lemma accept_packet_sent:
  "0 \<le> fst (ipq_set_verdict A sendmsg (sv_handle v) i NF_ACCEPT 0 None (sv_errno v)) \<Longrightarrow>
     sv_verdicts (accept_packet A sendmsg i v) = sv_verdicts v @ [fst (set_verdict_request A (sv_handle v) i NF_ACCEPT 0 None)] \<and>
     sv_exited (accept_packet A sendmsg i v) = sv_exited v"
  by (simp add: accept_packet_def Let_def split_beta)

lemma accept_packet_failed:
  "fst (ipq_set_verdict A sendmsg (sv_handle v) i NF_ACCEPT 0 None (sv_errno v)) < 0 \<Longrightarrow>
     sv_verdicts (accept_packet A sendmsg i v) = sv_verdicts v \<and> sv_exited (accept_packet A sendmsg i v)"
  by (simp add: accept_packet_def Let_def die_def stop_def split_beta)

lemma hist_steps_keep:
  assumes "rtranclp hist_step c d" and "hist_reachable t0 c"
  shows "hist_reachable t0 d \<and> set (mo_log c) \<subseteq> set (mo_log d)"
  using assms
proof (induction rule: rtranclp_induct)
  case (step d e)
  have "set (mo_log d) \<subseteq> set (mo_log e)" using step(2) by (induction rule: hist_step.induct) auto
  then show ?case using step hist_reachable.step by blast
qed simp

text \<open>
  C2. An answer takes effect. Let the reader process the answer for a packet, with a read buffer whose unused part holds a
  NUL or a semicolon. If the verdict can be sent, the packet has got it; if not, the process exits. And from then on, whatever
  is added to the history and however often the cleaner runs, for ten minutes every packet to the same address and port
  is accepted by the sender without asking the Java side again (unless the 32-bit clock comes within ten minutes of its end).
\<close>

theorem answer_authorises:
  assumes "hist_reachable t0 c" and "0 \<le> t0" and "mo_now c + TIMEVALIDITY < 2 ^ 31"
    and "fresh (Some a) (mo_hist c)" and "sv_hist v = mo_hist c"
    and "worker_answer (packet_line i k) = Some msg" and "length msg < length buffer"
    and "nul \<in> set (drop (length msg) buffer) \<or> CHR '';'' \<in> set (drop (length msg) buffer)"
    and "0 \<le> status" and "ipq_message_type msg' = IPQM_PACKET A" and "IPQM_PACKET A \<noteq> NLMSG_ERROR A"
    and "read_packet (pm_payload (ipq_get_packet msg')) = Inr k'"
    and "pk_daddr k' = pk_daddr k" and "pk_port k' = pk_port k"
  shows "\<exists>b v'. read_java_iteration A sendmsg msg (Some a) (mo_now c) (buffer, v) = Inr (b, v') \<and>
    (if 0 \<le> fst (ipq_set_verdict A sendmsg (sv_handle v) i NF_ACCEPT 0 None (sv_errno v))
     then sv_verdicts v' = sv_verdicts v @ [fst (set_verdict_request A (sv_handle v) i NF_ACCEPT 0 None)] \<and> sv_exited v' = sv_exited v
     else sv_verdicts v' = sv_verdicts v \<and> sv_exited v') \<and>
    (\<forall>d. rtranclp hist_step (c\<lparr>mo_hist := sv_hist v', mo_log := mo_log c @ [(pk_daddr k, pk_port k, mo_now c)]\<rparr>) d \<and>
       mo_now d < mo_now c + TIMEVALIDITY \<and> mo_now d + TIMEVALIDITY < 2 ^ 31 \<longrightarrow>
       send_ipq_decide A status msg' (mo_now d) (mo_hist d) = Some (Inr (Accept (pm_packet_id (ipq_get_packet msg')))))"
proof -
  have t: "in_time (mo_now c)" using hist_reachable_now [OF assms(1)] assms(2,3) by (simp add: in_time_def)
  obtain s' where add: "add_to_list (Some a) (pk_daddr k) (pk_port k) (mo_now c) (mo_hist c) = Inr (Some a, s')"
    using hist.tracks_add [OF hist_reachable_tracks [OF assms(1,2) t] assms(4)] by blast
  define c' where "c' = c\<lparr>mo_hist := s', mo_log := mo_log c @ [(pk_daddr k, pk_port k, mo_now c)]\<rparr>"
  define v' where "v' = accept_packet A sendmsg i (v\<lparr>sv_hist := s'\<rparr>)"
  have "hist_step c c'" using hist_step.add [OF assms(4) add] by (simp add: c'_def)
  from hist_reachable.step [OF assms(1) this] have c': "hist_reachable t0 c'" .
  have "send_ipq_decide A status msg' (mo_now d) (mo_hist d) = Some (Inr (Accept (pm_packet_id (ipq_get_packet msg'))))"
    if "rtranclp hist_step c' d" "mo_now d < mo_now c + TIMEVALIDITY" "mo_now d + TIMEVALIDITY < 2 ^ 31" for d
  proof -
    have d: "hist_reachable t0 d" "(pk_daddr k, pk_port k, mo_now c) \<in> set (mo_log d)"
      using hist_steps_keep [OF that(1) c'] by (auto simp: c'_def)
    have "in_time (mo_now d)" using hist_reachable_now [OF d(1)] assms(2) that(3) by (simp add: in_time_def)
    from reachable_search [OF d(1) assms(2) this, of "pk_daddr k" "pk_port k" None] d(2) that(2) assms(9-) show ?thesis
      by (auto simp: send_ipq_decide_def)
  qed
  moreover obtain b where "read_java_iteration A sendmsg msg (Some a) (mo_now c) (buffer, v) = Inr (b, v')"
    using read_java_answer [OF assms(6-8), of "Some a" "mo_now c" v "Some a" s' A sendmsg] add assms(5) by (auto simp: v'_def)
  moreover have "sv_hist v' = s'" by (simp add: v'_def)
  ultimately show ?thesis
    using accept_packet_sent [of A sendmsg "v\<lparr>sv_hist := s'\<rparr>" i] accept_packet_failed [of A sendmsg "v\<lparr>sv_hist := s'\<rparr>" i]
    by (intro exI [of _ b] exI [of _ v']) (simp add: c'_def v'_def)
qed

definition demo_server :: server where
  "demo_server = \<lparr>sv_running = True, sv_exited = False, sv_errno = IPQ_ERR_NONE, sv_handle = demo_handle,
     sv_hist = init_history, sv_written = [], sv_verdicts = []\<rparr>"

theorem answer_authorises_witness:
  "\<exists>b v'. read_java_iteration linux32 (\<lambda>_. 28)
      (show_nat 9 @ '';'' @ show_int 5 @ '';'' @ show_nat 443 @ [newline])
      (Some 4) 0 (replicate 4096 nul, demo_server) = Inr (b, v') \<and>
    sv_verdicts v' = [fst (set_verdict_request linux32 demo_handle 9 NF_ACCEPT 0 None)] \<and>
    send_ipq_decide linux32 100 demo_msg 599 (sv_hist v') = Some (Inr (Accept 9))"
proof -
  let ?k = "\<lparr>pk_protocol = 6, pk_saddr = 0x0100000A, pk_daddr = 5, pk_port = 443\<rparr>"
  let ?m = "show_nat 9 @ '';'' @ show_int 5 @ '';'' @ show_nat 443 @ [newline]"
  have m: "worker_answer (packet_line 9 ?k) = Some ?m"
    by (simp add: worker_answer_packet_line)
  have l: "length ?m < length (replicate 4096 nul)"
    by (simp add: show_int_def show_nat.simps)
  then have z: "nul \<in> set (drop (length ?m) (replicate 4096 nul))"
    by (simp only: drop_replicate set_replicate_conv_if length_replicate) simp
  have p: "read_packet (pm_payload (ipq_get_packet demo_msg)) = Inr ?k"
    by (simp add: demo_msg_def ipq_get_packet_def demo_read_packet)
  have s: "0 \<le> fst (ipq_set_verdict linux32 (\<lambda>_. 28) demo_handle 9 NF_ACCEPT 0 None IPQ_ERR_NONE)"
    by (simp add: ipq_set_verdict_def ipq_netlink_sendmsg_def)
  obtain b v' where v': "read_java_iteration linux32 (\<lambda>_. 28) ?m (Some 4) 0 (replicate 4096 nul, demo_server) = Inr (b, v')"
    "sv_verdicts v' = [fst (set_verdict_request linux32 demo_handle 9 NF_ACCEPT 0 None)]"
    and d: "\<And>d. rtranclp hist_step ((init_monitor 0)\<lparr>mo_hist := sv_hist v', mo_log := [(5, 443, 0)]\<rparr>) d \<Longrightarrow>
       mo_now d < TIMEVALIDITY \<Longrightarrow> mo_now d + TIMEVALIDITY < 2 ^ 31 \<Longrightarrow>
       send_ipq_decide linux32 100 demo_msg (mo_now d) (mo_hist d) = Some (Inr (Accept 9))"
    using answer_authorises [OF hist_reachable.start [of 0], of 4 demo_server 9 ?k ?m "replicate 4096 nul"
        100 demo_msg linux32 ?k "\<lambda>_. 28", OF _ _ _ _ m l _ _ _ _ p] z s
    by (auto simp: init_monitor_def demo_server_def demo_msg_def linux32_def ipq_message_type_def
        ipq_get_packet_def TIMEVALIDITY_def fresh_def init_history_def)
  have "rtranclp hist_step ((init_monitor 0)\<lparr>mo_hist := sv_hist v', mo_log := [(5, 443, 0)]\<rparr>)
      ((init_monitor 0)\<lparr>mo_hist := sv_hist v', mo_log := [(5, 443, 0)], mo_now := 599\<rparr>)"
    by (rule r_into_rtranclp) (use hist_step.tick [of "(init_monitor 0)\<lparr>mo_hist := sv_hist v', mo_log := [(5, 443, 0)]\<rparr>" 599] in \<open>simp add: init_monitor_def\<close>)
  from d [OF this] v' show ?thesis by (auto simp: TIMEVALIDITY_def)
qed

lemma show_u8_length: "length (show_nat (unat (w :: u8))) \<le> 3"
  using unsigned_less [of w, where 'a = nat] by (intro show_nat_length) simp_all

lemma dotted_length: "length (dotted a) \<le> 15"
  using show_u8_length [of "octet 0 a"] show_u8_length [of "octet 1 a"]
    show_u8_length [of "octet 2 a"] show_u8_length [of "octet 3 a"] by (simp add: dotted_octets)

text \<open>
  The response buffer is large enough: a line for a packet has at most 53 characters, far below
  the 1024 of the buffer, so that \<open>snprintf\<close> never truncates and \<open>used_chars\<close> is the number of
  bytes to write; and the only newline of a line is its last character, which is where the Java
  side's \<open>readLine\<close> cuts.
\<close>

lemma packet_line_fits:
  "length (packet_line i k) \<le> 53 \<and>
   (\<exists>body. packet_line i k = body @ [newline] \<and> newline \<notin> set body)"
proof
  have "length (show_nat (unat i)) \<le> 10"
    using unsigned_less [of i, where 'a = nat] by (intro show_nat_length) simp_all
  moreover have "length (show_nat (unat (pk_port k))) \<le> 5"
    using unsigned_less [of "pk_port k", where 'a = nat] by (intro show_nat_length) simp_all
  ultimately show "length (packet_line i k) \<le> 53"
    using dotted_length [of "pk_saddr k"] dotted_length [of "pk_daddr k"] show_u8_length [of "pk_protocol k"]
    by (simp add: packet_line_def)
  show "\<exists>body. packet_line i k = body @ [newline] \<and> newline \<notin> set body"
    by (intro exI [of _ "butlast (packet_line i k)"])
      (simp add: packet_line_def butlast_append show_nat_no newline_dotted newline_neq not_digit_chars)
qed

text \<open>
  Answers that arrive together are lost. If one \<open>read\<close> delivers two answers of the Java side,
  only the first packet gets a verdict and only its destination is stored; the second answer is
  overwritten by the next read.
\<close>

lemma coalesced_answer_lost:
  assumes "worker_answer (packet_line i k) = Some msg" and "worker_answer (packet_line j l) = Some msg'"
    and "add_to_list m (pk_daddr k) (pk_port k) now (sv_hist v) = Inr (r, s')"
  shows "\<exists>b. read_java_iteration A sendmsg (msg @ msg') m now (buffer, v) =
    Inr (b, accept_packet A sendmsg i (v\<lparr>sv_hist := s'\<rparr>))"
proof -
  let ?rest = "msg' @ drop (length (msg @ msg')) buffer"
  have "nul \<in> set ?rest \<or> CHR '';'' \<in> set ?rest" and "msg \<noteq> []"
    using assms(1,2) by (auto simp: worker_answer_packet_line)
  then obtain b where "read_java_parse (msg @ ?rest) = Inr (i, pk_daddr k, pk_port k, b)"
    using packet_answer_parsed [of ?rest i k] assms(1) by auto
  then show ?thesis
    using assms(3) \<open>msg \<noteq> []\<close> by (simp add: read_java_iteration_def)
qed

lemma demo_answer:
  "worker_answer (packet_line i \<lparr>pk_protocol = 6, pk_saddr = 1, pk_daddr = 5, pk_port = 443\<rparr>) =
     Some (show_nat (unat i) @ '';'' @ show_int 5 @ '';'' @ show_nat 443 @ [newline])"
  by (simp add: worker_answer_packet_line)

theorem coalesced_answer_lost_witness:
  "\<exists>b v'. read_java_iteration linux32 (\<lambda>_. 28)
     ((show_nat 9 @ '';'' @ show_int 5 @ '';'' @ show_nat 443 @ [newline]) @
      (show_nat 10 @ '';'' @ show_int 5 @ '';'' @ show_nat 443 @ [newline]))
     (Some 4) 0 ([], demo_server) = Inr (b, v') \<and>
     sv_verdicts v' = [fst (set_verdict_request linux32 demo_handle 9 NF_ACCEPT 0 None)]"
  using coalesced_answer_lost [OF demo_answer [of 9] demo_answer [of 10], of "Some 4" 0 demo_server
      "Some 4" "\<lparr>h_heap = [4 \<mapsto> \<lparr>he_ip = 5, he_port = 443, he_timestamp = 0, he_next = None\<rparr>],
        h_head = Some 4, h_curr = Some 4\<rparr>" linux32 "\<lambda>_. 28" "[]"]
  by (auto simp: add_to_list_def create_list_def demo_server_def init_history_def accept_packet_sent ipq_set_verdict_def ipq_netlink_sendmsg_def)

text \<open>
  A message without separators crashes the server: \<open>strtok\<close> returns a null pointer for the
  missing fields and \<open>atoi\<close> reads through it.
\<close>

lemma missing_field_faults:
  assumes "data \<noteq> []" and "CHR '';'' \<notin> set data" and "nul \<notin> set data" and "length data < length buffer"
    and "drop (length data) buffer = nul # zs"
  shows "read_java_iteration A sendmsg data m now (buffer, v) = Inl NullDeref"
proof -
  let ?b = "data @ nul # zs"
  from assms(1,2,3) obtain c cs where d: "data = c # cs" "c \<noteq> CHR '';''" "c \<noteq> nul" by (cases data) auto
  have "takeWhile (\<lambda>c. c = CHR '';'') ?b = []" using d by simp
  moreover have "takeWhile (\<lambda>c. c \<noteq> CHR '';'' \<and> c \<noteq> nul) ?b = data"
    using assms(2,3) by (induction data) auto
  ultimately have 1: "strtok_buf CHR '';'' ?b 0 = Inr (Some data, ?b, length data)"
    using d assms by (auto simp: strtok_buf_def nul_def)
  have 2: "strtok_buf CHR '';'' ?b (length data) = Inr (None, ?b, length data)"
    by (simp add: strtok_buf_def nul_def)
  show ?thesis
    using assms(1,5) 1 2 by (simp add: read_java_iteration_def read_java_parse_def token_value_def)
qed

lemma missing_field_faults_witness:
  "read_java_iteration linux32 (\<lambda>_. 28) ''17'' (Some 4) 0 (replicate 4096 nul, demo_server) = Inl NullDeref"
  using missing_field_faults [of "''17''" "replicate 4096 nul" "replicate 4093 nul"]
    replicate_Suc [of 4093 nul] by (simp add: nul_def)

end
