(* ===== verification/Ipq_Main.thy ===== *)
theory Ipq_Main
  imports Ipq_Server
begin

text \<open>
  The life of a connection in \<^verbatim>\<open>src/jni/ipqserver/server.c\<close>: the loops of the two threads, the set-up
  of the netlink handle, the handler that starts and joins the threads, and the accept loop of
  \<open>main\<close>. Results of system calls are arguments; what the process does is a list of events.
\<close>

section \<open>The loops of the threads\<close>

text \<open>
  The do-while loop of the sender on the messages it receives, each with the answer of \<open>select\<close> and
  the time of the search. When the list is used up the thread waits in \<open>ipq_read\<close>.
\<close>

fun send_ipq ::
  "abi \<Rightarrow> (request \<Rightarrow> int) \<Rightarrow> (string \<Rightarrow> int)
     \<Rightarrow> ((int \<times> int \<Rightarrow> select_result) \<times> recv_result \<times> int) list \<Rightarrow> server \<Rightarrow> server res option" where
  "send_ipq A sendmsg wr [] v = Some (Inr v)"
| "send_ipq A sendmsg wr ((sel, rcv, now) # ins) v =
     (case send_ipq_iteration A sendmsg wr sel rcv now v of
        Some (Inr v') \<Rightarrow>
          if sv_exited v' \<or> \<not> sv_running v' then Some (Inr v') else send_ipq A sendmsg wr ins v'
      | r \<Rightarrow> r)"

text \<open>The loop of the reader, on what each \<open>read\<close> delivers, the result of \<open>malloc\<close> and the time.\<close>

fun read_java ::
  "abi \<Rightarrow> (request \<Rightarrow> int) \<Rightarrow> (string \<times> addr option \<times> int) list \<Rightarrow> char list \<times> server
     \<Rightarrow> (char list \<times> server) res" where
  "read_java A sendmsg [] bv = Inr bv"
| "read_java A sendmsg ((data, m, now) # ins) bv =
     rbind (read_java_iteration A sendmsg data m now bv) (\<lambda>bv'.
       if sv_exited (snd bv') \<or> \<not> sv_running (snd bv') then Inr bv' else read_java A sendmsg ins bv')"

section \<open>Setting up\<close>

datatype thread = Sender | Reader | Cleaner

datatype event =
    MutexInit | MutexDestroy
  | Open ipq_handle         \<comment> \<open>the netlink handle is ready\<close>
  | CloseFd int
  | Start thread            \<comment> \<open>\<open>pthread_create\<close> succeeded\<close>
  | StopAll                 \<comment> \<open>\<open>running = 0\<close>\<close>
  | Join thread
  | Unlink string
  | Fork int                \<comment> \<open>for this connection\<close>
  | Print string

text \<open>
  The answers of the system to one connection: of \<open>pthread_mutex_init\<close>, \<open>malloc\<close>, \<open>socket\<close>,
  \<open>bind\<close>, \<open>getpid\<close>, \<open>setsockopt\<close> and \<open>sendto\<close>, and, per thread, whether the parameter block
  could be allocated and the result of \<open>pthread_create\<close>.
\<close>

record conn_os =
  os_mutex :: int
  os_malloc :: bool
  os_socket :: "netlink_family \<Rightarrow> int"
  os_bind :: int
  os_pid :: u32
  os_setsockopt :: "int \<Rightarrow> int"
  os_sendto :: "request \<Rightarrow> nat \<Rightarrow> int"
  os_param :: "thread \<Rightarrow> bool"
  os_create :: "thread \<Rightarrow> int"

text \<open>\<open>die\<close>: \<open>running\<close> is cleared, the handle destroyed, the process exits with status 1.\<close>

definition die_events :: "ipq_handle option \<Rightarrow> event list" where
  "die_events h = StopAll # map CloseFd (snd (ipq_destroy_handle h))"

text \<open>The result is \<open>None\<close> if the process exited.\<close>

definition init_ipq :: "abi \<Rightarrow> conn_os \<Rightarrow> ipq_err \<Rightarrow> ipq_handle option \<times> event list" where
  "init_ipq A os errno =
     (case ipq_create_handle (os_malloc os) (os_socket os) (os_bind os) (os_pid os) 0 NFPROTO_IPV4 errno of
        (None, _, closed) \<Rightarrow> (None, map CloseFd closed @ die_events None)
      | (Some h, errno1, closed) \<Rightarrow>
          if os_setsockopt os (h_fd h) \<noteq> 0 then (None, Open h # die_events (Some h))
          else let (status, _) = ipq_set_mode A (os_sendto os) h (IPQ_COPY_PACKET A) BUFFSIZE errno1
               in if status < 0 then (None, Open h # die_events (Some h)) else (Some h, [Open h]))"

text \<open>
  \<open>start_sender_thread\<close> and \<open>start_reader_thread\<close>; the flag says whether the process is still
  alive. The cleaner takes no parameters.
\<close>

definition start_thread :: "conn_os \<Rightarrow> ipq_handle \<Rightarrow> thread \<Rightarrow> bool \<times> event list" where
  "start_thread os h t =
     (if \<not> os_param os t then (False, die_events (Some h))
      else (True, [if os_create os t \<noteq> 0 then StopAll else Start t]))"

definition start_cleaner_thread :: "conn_os \<Rightarrow> event list" where
  "start_cleaner_thread os = [if os_create os Cleaner \<noteq> 0 then StopAll else Start Cleaner]"

text \<open>The exit status of the connection's process and its events.\<close>

definition connection_handler :: "abi \<Rightarrow> conn_os \<Rightarrow> int \<Rightarrow> int \<times> event list" where
  "connection_handler A os connection_fd =
     (if os_mutex os \<noteq> 0 then (1, [])
      else case init_ipq A os IPQ_ERR_NONE of
        (None, es) \<Rightarrow> (1, MutexInit # es)
      | (Some h, es) \<Rightarrow>
          let (alive1, es1) = start_thread os h Sender in
          if \<not> alive1 then (1, MutexInit # es @ es1)
          else let (alive2, es2) = start_thread os h Reader in
          if \<not> alive2 then (1, MutexInit # es @ es1 @ es2)
          else (0, MutexInit # es @ es1 @ es2 @ start_cleaner_thread os @
                   [Join Sender, Join Reader, Join Cleaner, MutexDestroy] @
                   map CloseFd (snd (ipq_destroy_handle (Some h))) @ [CloseFd connection_fd]))"

section \<open>The accept loop\<close>

text \<open>
  The connections that arrive, each with the result of \<open>fork\<close> and the system's answers in the
  child; the end of the list is a failing \<open>accept\<close>. The first component is the exit status of a
  child, if this process is one.
\<close>

fun accept_loop :: "abi \<Rightarrow> (int \<times> int \<times> conn_os) list \<Rightarrow> int option \<times> event list" where
  "accept_loop A [] = (None, [])"
| "accept_loop A ((fd, child, os) # rest) =
     (if child = 0
      then let (st, es) = connection_handler A os fd
           in (Some st, Print (''[*] client connected'' @ [newline]) # Fork fd # es)
      else let (r, es) = accept_loop A rest
           in (r, Print (''[*] client connected'' @ [newline]) # Fork fd # CloseFd fd # es))"

definition main :: "abi \<Rightarrow> string list \<Rightarrow> int \<Rightarrow> int \<Rightarrow> int \<Rightarrow> (int \<times> int \<times> conn_os) list \<Rightarrow> int \<times> event list" where
  "main A argv socket_fd bnd lsn conns =
     (if length argv \<noteq> 2
      then (1, [Print (''call with the unix domain socket destination as single argument.'' @ [newline])])
      else if socket_fd < 0 then (1, [])
      else if bnd \<noteq> 0 then (1, [Unlink (argv ! 1)])
      else if lsn \<noteq> 0 then (1, [Unlink (argv ! 1)])
      else case accept_loop A conns of
        (Some st, es) \<Rightarrow> (st, Unlink (argv ! 1) # es)
      | (None, es) \<Rightarrow> (0, Unlink (argv ! 1) # es @ [CloseFd socket_fd, Unlink (argv ! 1)]))"

section \<open>Properties\<close>

definition opened :: "event list \<Rightarrow> int list" where
  "opened es = concat (map (\<lambda>e. case e of Open h \<Rightarrow> [h_fd h] | _ \<Rightarrow> []) es)"

definition closed :: "event list \<Rightarrow> int list" where
  "closed es = concat (map (\<lambda>e. case e of CloseFd d \<Rightarrow> [d] | _ \<Rightarrow> []) es)"

lemma opened_simps [simp]:
  "opened [] = []" "opened (xs @ ys) = opened xs @ opened ys" "opened (Open h # es) = h_fd h # opened es"
  "opened (CloseFd d # es) = opened es" "opened (StopAll # es) = opened es"
  "opened (MutexInit # es) = opened es" "opened (MutexDestroy # es) = opened es"
  "opened (Start t # es) = opened es" "opened (Join t # es) = opened es"
  by (simp_all add: opened_def)

lemma closed_simps [simp]:
  "closed [] = []" "closed (xs @ ys) = closed xs @ closed ys" "closed (Open h # es) = closed es"
  "closed (CloseFd d # es) = d # closed es" "closed (StopAll # es) = closed es"
  "closed (MutexInit # es) = closed es" "closed (MutexDestroy # es) = closed es"
  "closed (Start t # es) = closed es" "closed (Join t # es) = closed es"
  "closed (Print s # es) = closed es" "closed (Fork d # es) = closed es" "closed (Unlink s # es) = closed es"
  by (simp_all add: closed_def)

lemma init_ipq_events:
  assumes "init_ipq A os errno = (r, es)"
  shows "case r of Some h \<Rightarrow> es = [Open h] | None \<Rightarrow> set (opened es) \<subseteq> set (closed es)"
  using assms
  by (auto simp: init_ipq_def die_events_def ipq_destroy_handle_def Let_def
      ipq_create_handle_def split: if_splits prod.splits option.splits)

text \<open>
  The handler of a connection gives its netlink descriptor back: whatever the system answers,
  every descriptor opened for netlink is closed again on every way out of the process; the status
  is 0 exactly if the mutex, the handle, its receive buffer and mode, and both parameter blocks
  could be set up, and then the connection is closed and every thread joined before the handle is
  destroyed.
\<close>

lemma connection_handler_closes:
  assumes "connection_handler A os fd = (st, es)"
  shows "set (opened es) \<subseteq> set (closed es) \<and>
    (st = 0 \<longleftrightarrow> os_mutex os = 0 \<and> fst (init_ipq A os IPQ_ERR_NONE) \<noteq> None \<and>
       os_param os Sender \<and> os_param os Reader) \<and>
    (st = 0 \<longrightarrow> (\<exists>h xs. init_ipq A os IPQ_ERR_NONE = (Some h, [Open h]) \<and>
       es = xs @ [Join Sender, Join Reader, Join Cleaner, MutexDestroy, CloseFd (h_fd h), CloseFd fd] \<and>
       closed xs = []))"
proof (cases "init_ipq A os IPQ_ERR_NONE")
  case (Pair r es0)
  with init_ipq_events [OF Pair] assms show ?thesis
    by (cases r) (auto simp: connection_handler_def start_thread_def start_cleaner_thread_def
        die_events_def ipq_destroy_handle_def split: if_splits)
qed

definition demo_os :: conn_os where
  "demo_os = \<lparr>os_mutex = 0, os_malloc = True, os_socket = (\<lambda>_. 7), os_bind = 0, os_pid = 77,
     os_setsockopt = (\<lambda>_. 0), os_sendto = (\<lambda>_ _. 44), os_param = (\<lambda>t. t \<noteq> Reader), os_create = (\<lambda>_. 0)\<rparr>"

theorem connection_handler_closes_witness:
  "fst (connection_handler linux32 demo_os 5) \<noteq> 0 \<and>
   set (opened (snd (connection_handler linux32 demo_os 5))) \<subseteq>
     set (closed (snd (connection_handler linux32 demo_os 5)))"
  using connection_handler_closes [of linux32 demo_os 5 "fst (connection_handler linux32 demo_os 5)"
      "snd (connection_handler linux32 demo_os 5)"]
  by (simp add: demo_os_def)

lemma accept_loop_parent:
  "\<forall>(fd, child, os)\<in>set conns. child \<noteq> 0 \<Longrightarrow>
    fst (accept_loop A conns) = None \<and> closed (snd (accept_loop A conns)) = map fst conns"
  by (induction conns) (auto split: prod.splits)

text \<open>
  The server process itself never serves a connection and keeps none: as long as \<open>fork\<close> does
  not return in a child, it closes every connection it accepted, in order, then the listening
  socket, removes the path before \<open>bind\<close> and at the end, and exits with status 0.
\<close>

lemma main_closes_connections:
  assumes "length argv = 2" and "0 \<le> socket_fd" and "\<forall>(fd, child, os)\<in>set conns. child \<noteq> 0"
  shows "\<exists>es. main A argv socket_fd 0 0 conns = (0, Unlink (argv ! 1) # es @ [Unlink (argv ! 1)]) \<and>
    closed es = map fst conns @ [socket_fd]"
  using accept_loop_parent [OF assms(3), of A] assms(1,2)
  by (cases "accept_loop A conns") (simp add: main_def)

lemma main_closes_connections_witness:
  "\<exists>es. main linux32 [''server'', ''s''] 3 0 0 [(4, 100, demo_os), (4, -1, demo_os)] =
      (0, Unlink ''s'' # es @ [Unlink ''s'']) \<and> closed es = [4, 4, 3]"
  using main_closes_connections [of "[''server'', ''s'']" 3 "[(4, 100, demo_os), (4, -1, demo_os)]" linux32]
  by simp

end
