(* ===== verification/Sqlite_Encode.thy ===== *)
theory Sqlite_Encode
  imports CS_Prelude
begin

text \<open>
  The encoder of binary data as SQL strings, \<^verbatim>\<open>src/jni/sqlite3/encode.c\<close>. Buffers are lists with
  the capacity of the C array; a store or load beyond it is the fault \<open>OutOfBounds\<close>. The decoder
  is modelled on separate buffers and on one buffer it shares with its input.
\<close>

section \<open>The encoder\<close>

definition put :: "u8 list \<Rightarrow> nat \<Rightarrow> u8 \<Rightarrow> u8 list res" where
  "put out j b = (if j < length out then Inr (out[j := b]) else Inl OutOfBounds)"

definition get :: "u8 list \<Rightarrow> nat \<Rightarrow> u8 res" where
  "get buf p = (if p < length buf then Inr (buf ! p) else Inl OutOfBounds)"

text \<open>The histogram, filled from the last byte to the first.\<close>

definition count_bytes :: "u8 list \<Rightarrow> u8 \<Rightarrow> nat" where
  "count_bytes inp = foldr (\<lambda>b cnt. cnt(b := cnt b + 1)) inp (\<lambda>_. 0)"

definition escapes :: "(u8 \<Rightarrow> nat) \<Rightarrow> nat \<Rightarrow> nat" where
  "escapes cnt i = cnt (of_nat i) + cnt (of_nat (i + 1)) + cnt (of_nat (i + 39))"

text \<open>The loop over the offsets; \<open>e\<close> is \<open>None\<close> as long as the C variable is uninitialised.\<close>

function offset_loop :: "(u8 \<Rightarrow> nat) \<Rightarrow> nat \<Rightarrow> nat \<Rightarrow> u8 option \<Rightarrow> nat \<times> u8 option" where
  "offset_loop cnt i m e =
     (if 256 \<le> i then (m, e)
      else if i = 39 then offset_loop cnt (i + 1) m e
      else let sum = escapes cnt i in
           if sum < m
           then if sum = 0 then (sum, Some (of_nat i)) else offset_loop cnt (i + 1) sum (Some (of_nat i))
           else offset_loop cnt (i + 1) m e)"
  by pat_completeness auto
termination by (relation "measure (\<lambda>(cnt, i, m, e). 256 - i)") auto

declare offset_loop.simps [simp del]

definition special :: "u8 \<Rightarrow> bool" where
  "special x \<longleftrightarrow> x = 0 \<or> x = 1 \<or> x = 39"

fun encode_loop :: "u8 list \<Rightarrow> u8 \<Rightarrow> nat \<Rightarrow> u8 list \<Rightarrow> (nat \<times> u8 list) res" where
  "encode_loop [] e j out = Inr (j, out)"
| "encode_loop (b # bs) e j out =
     (let x = b - e in
      if special x
      then rbind (put out j 1) (\<lambda>out. rbind (put out (j + 1) (x + 1)) (\<lambda>out. encode_loop bs e (j + 2) out))
      else rbind (put out j x) (\<lambda>out. encode_loop bs e (j + 1) out))"

text \<open>
  \<open>out\<close> is \<open>None\<close> for a null pointer. An uninitialised \<open>e\<close> would be undefined behaviour; it is
  given the fault \<open>Uninitialised\<close> here, and shown not to happen.
\<close>

definition sqlite_encode_binary :: "u8 list \<Rightarrow> u8 list option \<Rightarrow> (nat \<times> u8 list option) res" where
  "sqlite_encode_binary inp out =
     (if inp = []
      then (case out of
              None \<Rightarrow> Inr (1, None)
            | Some ob \<Rightarrow> rbind (put ob 0 120) (\<lambda>ob. rbind (put ob 1 0) (\<lambda>ob. Inr (1, Some ob))))
      else
        let n = length inp; (m, e) = offset_loop (count_bytes inp) 1 n None in
        case out of
          None \<Rightarrow> Inr (n + m + 1, None)
        | Some ob \<Rightarrow>
            (case e of
               None \<Rightarrow> Inl Uninitialised
             | Some e \<Rightarrow>
                 rbind (put ob 0 e) (\<lambda>ob.
                 rbind (encode_loop inp e 1 ob) (\<lambda>(j, ob).
                 rbind (put ob j 0) (\<lambda>ob. Inr (j, Some ob))))))"

section \<open>The decoder\<close>

function decode_loop :: "u8 list \<Rightarrow> nat \<Rightarrow> u8 \<Rightarrow> nat \<Rightarrow> u8 list \<Rightarrow> (nat \<times> u8 list) res" where
  "decode_loop inp p e i out =
     (if length inp \<le> p then Inl OutOfBounds
      else if inp ! p = 0 then Inr (i, out)
      else if inp ! p = 1
      then rbind (get inp (p + 1)) (\<lambda>c. rbind (put out i (c - 1 + e)) (\<lambda>out'.
             decode_loop inp (p + 2) e (i + 1) out'))
      else rbind (put out i (inp ! p + e)) (\<lambda>out'. decode_loop inp (p + 1) e (i + 1) out'))"
  by pat_completeness auto
termination by (relation "measure (\<lambda>(inp, p, e, i, out). length inp - p)") auto

declare decode_loop.simps [simp del]

definition sqlite_decode_binary :: "u8 list \<Rightarrow> u8 list \<Rightarrow> (nat \<times> u8 list) res" where
  "sqlite_decode_binary inp out = rbind (get inp 0) (\<lambda>e. decode_loop inp 1 e 0 out)"

text \<open>The same code when \<open>in\<close> and \<open>out\<close> point to one buffer: every store is seen by later loads.\<close>

function decode_inplace_loop :: "nat \<Rightarrow> u8 \<Rightarrow> nat \<Rightarrow> u8 list \<Rightarrow> (nat \<times> u8 list) res" where
  "decode_inplace_loop p e i buf =
     (if length buf \<le> p then Inl OutOfBounds
      else if buf ! p = 0 then Inr (i, buf)
      else if buf ! p = 1
      then rbind (get buf (p + 1)) (\<lambda>c. if i < length buf
             then decode_inplace_loop (p + 2) e (i + 1) (buf[i := c - 1 + e]) else Inl OutOfBounds)
      else if i < length buf
           then decode_inplace_loop (p + 1) e (i + 1) (buf[i := buf ! p + e]) else Inl OutOfBounds)"
  by pat_completeness auto
termination by (relation "measure (\<lambda>(p, e, i, buf). length buf - p)") auto

declare decode_inplace_loop.simps [simp del]

definition sqlite_decode_inplace :: "u8 list \<Rightarrow> (nat \<times> u8 list) res" where
  "sqlite_decode_inplace buf = rbind (get buf 0) (\<lambda>e. decode_inplace_loop 1 e 0 buf)"

section \<open>What the loops compute\<close>

definition escape :: "u8 \<Rightarrow> u8 \<Rightarrow> u8 list" where
  "escape e b = (if special (b - e) then [1, b - e + 1] else [b - e])"

definition encoding :: "u8 \<Rightarrow> u8 list \<Rightarrow> u8 list" where
  "encoding e bs = concat (map (escape e) bs)"

lemma encoding_simps [simp]:
  "encoding e [] = []" "encoding e (b # bs) = escape e b @ encoding e bs"
  by (simp_all add: encoding_def)

lemma splice1:
  assumes "j < length out"
  shows "take j out @ x # drop (Suc j) out = out[j := x]"
  using assms by (simp add: upd_conv_take_nth_drop)

lemma splice_after_put:
  assumes "j < length out"
  shows "take (Suc j) (out[j := x]) @ ys @ drop (Suc j + k) (out[j := x]) =
    take j out @ x # ys @ drop (Suc j + k) out"
  using assms by (simp add: take_Suc_conv_app_nth)

lemma encode_loop_encoding:
  assumes "j + length (encoding e bs) \<le> length out"
  shows "encode_loop bs e j out =
    Inr (j + length (encoding e bs), take j out @ encoding e bs @ drop (j + length (encoding e bs)) out)"
  using assms
proof (induction bs arbitrary: j out)
  case Nil
  then show ?case by simp
next
  case (Cons b bs)
  show ?case
  proof (cases "special (b - e)")
    case True
    let ?o1 = "out[j := 1]"
    let ?o2 = "?o1[Suc j := b - e + 1]"
    have le: "Suc (Suc j) + length (encoding e bs) \<le> length out"
      using Cons.prems True by (simp add: escape_def)
    then have "encode_loop bs e (Suc (Suc j)) ?o2 =
        Inr (Suc (Suc j) + length (encoding e bs), take (Suc (Suc j)) ?o2 @ encoding e bs @
          drop (Suc (Suc j) + length (encoding e bs)) ?o2)"
      using Cons.IH [of "Suc (Suc j)" ?o2] by simp
    also have "take (Suc (Suc j)) ?o2 @ encoding e bs @ drop (Suc (Suc j) + length (encoding e bs)) ?o2 =
        take j out @ 1 # (b - e + 1) # encoding e bs @ drop (Suc (Suc j) + length (encoding e bs)) out"
      using le splice_after_put [of "Suc j" ?o1 "b - e + 1" "encoding e bs" "length (encoding e bs)"]
        splice_after_put [of j out 1 "(b - e + 1) # encoding e bs" "Suc (length (encoding e bs))"] by simp
    finally show ?thesis
      using True le by (simp add: Let_def put_def escape_def)
  next
    case False
    let ?o1 = "out[j := b - e]"
    have le: "Suc j + length (encoding e bs) \<le> length out"
      using Cons.prems False by (simp add: escape_def)
    then have "encode_loop bs e (Suc j) ?o1 =
        Inr (Suc j + length (encoding e bs), take (Suc j) ?o1 @ encoding e bs @
          drop (Suc j + length (encoding e bs)) ?o1)"
      using Cons.IH [of "Suc j" ?o1] by simp
    then show ?thesis
      using False le splice_after_put [of j out "b - e" "encoding e bs" "length (encoding e bs)"]
      by (simp add: Let_def put_def escape_def)
  qed
qed

lemma count_bytes_count_list: "count_bytes inp b = count_list inp b"
  by (induction inp) (auto simp: count_bytes_def)

lemma length_encoding: "length (encoding e bs) = length bs + length (filter (\<lambda>b. special (b - e)) bs)"
  by (induction bs) (auto simp: escape_def)

lemma filter_special: "length (filter (\<lambda>b. special (b - e)) bs) =
    count_list bs e + count_list bs (e + 1) + count_list bs (e + 39)"
proof (induction bs)
  case (Cons b bs)
  have "b - e = 0 \<longleftrightarrow> b = e" "b - e = 1 \<longleftrightarrow> b = e + 1" "b - e = 39 \<longleftrightarrow> b = e + 39"
    by (auto simp: algebra_simps)
  moreover have "e \<noteq> e + 1" "e \<noteq> e + 39" "e + 1 \<noteq> e + (39 :: u8)" by simp_all
  ultimately show ?case using Cons by (auto simp: special_def)
qed simp

lemma length_encoding_escapes:
  "length (encoding (of_nat i) bs) = length bs + escapes (count_bytes bs) i"
  by (simp add: length_encoding filter_special escapes_def count_bytes_count_list add.commute)

section \<open>The choice of the offset\<close>

definition offsets :: "nat set" where
  "offsets = {1..<256} - {39}"

lemma offset_loop_min:
  assumes "offset_loop cnt i m e = (m', e')"
  shows "m' \<le> m \<and> (\<forall>k\<in>offsets. i \<le> k \<longrightarrow> m' \<le> escapes cnt k) \<and>
    (e' = e \<and> m' = m \<or> (\<exists>k. i \<le> k \<and> k < 256 \<and> k \<noteq> 39 \<and> e' = Some (of_nat k) \<and> m' = escapes cnt k))"
  using assms
proof (induction cnt i m e arbitrary: m' e' rule: offset_loop.induct)
  case (1 cnt i m e)
  show ?case
  proof (cases "256 \<le> i")
    case True
    then show ?thesis using 1(4) by (auto simp: offset_loop.simps [of cnt i] offsets_def)
  next
    case i: False
    have step: "\<forall>k\<in>offsets. i \<le> k \<longrightarrow> q \<le> escapes cnt k"
      if "\<forall>k\<in>offsets. Suc i \<le> k \<longrightarrow> q \<le> escapes cnt k" "i \<noteq> 39 \<longrightarrow> q \<le> escapes cnt i" for q
      using that by (auto simp: offsets_def le_Suc_eq Suc_le_eq dest: le_neq_implies_less)
    show ?thesis
    proof (cases "i = 39")
      case True
      with 1(4) i have "offset_loop cnt (i + 1) m e = (m', e')"
        by (simp add: offset_loop.simps [of cnt 39])
      note IH = 1(1) [OF i True this]
      then have "\<forall>k\<in>offsets. i \<le> k \<longrightarrow> m' \<le> escapes cnt k" using step [of m'] True by simp
      with IH show ?thesis by (elim conjE disjE exE) (blast dest: add_leD1)+
    next
      case ne: False
      consider (zero) "escapes cnt i < m" "escapes cnt i = 0" | (less) "escapes cnt i < m" "escapes cnt i \<noteq> 0"
        | (ge) "\<not> escapes cnt i < m" by blast
      then show ?thesis
      proof cases
        case zero
        then show ?thesis using 1(4) i ne by (auto simp: offset_loop.simps [of cnt i])
      next
        case less
        with 1(4) i ne have "offset_loop cnt (i + 1) (escapes cnt i) (Some (of_nat i)) = (m', e')"
          by (simp add: offset_loop.simps [of cnt i])
        note IH = 1(2) [OF i ne refl less this]
        then have "\<forall>k\<in>offsets. i \<le> k \<longrightarrow> m' \<le> escapes cnt k" using step [of m'] by simp
        moreover have "\<exists>k. i \<le> k \<and> k < 256 \<and> k \<noteq> 39 \<and> e' = Some (of_nat k) \<and> m' = escapes cnt k"
          using IH i ne by (elim conjE disjE exE) (blast intro: order_refl leI dest: add_leD1)+
        moreover have "m' \<le> m" using IH less by linarith
        ultimately show ?thesis by blast
      next
        case ge
        with 1(4) i ne have "offset_loop cnt (i + 1) m e = (m', e')"
          by (simp add: offset_loop.simps [of cnt i])
        note IH = 1(3) [OF i ne refl ge this]
        then have "\<forall>k\<in>offsets. i \<le> k \<longrightarrow> m' \<le> escapes cnt k" using step [of m'] ge by simp
        with IH show ?thesis by (elim conjE disjE exE) (blast dest: add_leD1)+
      qed
    qed
  qed
qed

lemma escapes_total:
  "(\<Sum>k\<in>offsets. escapes (count_bytes bs) k) \<le> 3 * length bs"
proof -
  have shift: "(\<Sum>k\<in>offsets. count_list bs (of_nat (k + d))) \<le> length bs" for d
  proof -
    have "inj_on (\<lambda>k. of_nat (k + d) :: u8) offsets"
      by (rule inj_onI) (auto simp: offsets_def unsigned_of_nat take_bit_eq_mod
          dest!: word_of_nat_eq_iff [THEN iffD1])
    then have "(\<Sum>k\<in>offsets. count_list bs (of_nat (k + d))) =
        (\<Sum>w\<in>(\<lambda>k. of_nat (k + d)) ` offsets. count_list bs w)"
      by (simp add: sum.reindex)
    also have "\<dots> \<le> (\<Sum>w\<in>UNIV. count_list bs w)"
      by (rule sum_mono2) simp_all
    also have "\<dots> = length bs" by (rule sum_count_set) simp_all
    finally show ?thesis .
  qed
  show ?thesis
    using shift [of 0] shift [of 1] shift [of 39]
    by (simp add: escapes_def count_bytes_count_list sum.distrib)
qed

text \<open>The loop always finds an offset, the best one, with at most 3 escapes in 254 bytes.\<close>

lemma offset_found:
  assumes "bs \<noteq> []"
  obtains k where "offset_loop (count_bytes bs) 1 (length bs) None =
      (escapes (count_bytes bs) k, Some (of_nat k))"
    and "k \<in> offsets" and "\<forall>k'\<in>offsets. escapes (count_bytes bs) k \<le> escapes (count_bytes bs) k'"
    and "254 * escapes (count_bytes bs) k \<le> 3 * length bs"
proof -
  obtain m e where me: "offset_loop (count_bytes bs) 1 (length bs) None = (m, e)"
    by (cases "offset_loop (count_bytes bs) 1 (length bs) None")
  note min = offset_loop_min [OF me]
  have le: "\<forall>k\<in>offsets. m \<le> escapes (count_bytes bs) k" using min by (auto simp: offsets_def)
  have "254 * m = (\<Sum>k\<in>offsets. m)" by (simp add: offsets_def)
  also have "\<dots> \<le> (\<Sum>k\<in>offsets. escapes (count_bytes bs) k)" using le by (intro sum_mono) auto
  finally have bound: "254 * m \<le> 3 * length bs" using escapes_total [of bs] by linarith
  with assms have "m \<noteq> length bs" by auto
  with min obtain k where "1 \<le> k" "k < 256" "k \<noteq> 39" "e = Some (of_nat k)" "m = escapes (count_bytes bs) k"
    by auto
  with that [of k] me le bound show thesis by (auto simp: offsets_def)
qed

lemma offsets_word:
  assumes "k \<in> offsets"
  shows "(of_nat k :: u8) \<noteq> 0" "(of_nat k :: u8) \<noteq> 39"
  using assms by (auto simp: offsets_def word_of_nat_eq_0_iff unsigned_of_nat take_bit_eq_mod
      dest!: arg_cong [where f = unat])

text \<open>The encoder's result, whatever the capacity of the buffer, provided it is enough.\<close>

definition encoded :: "u8 list \<Rightarrow> u8 list" where
  "encoded bs = (if bs = [] then [120]
     else let e = the (snd (offset_loop (count_bytes bs) 1 (length bs) None)) in e # encoding e bs)"

lemma encoded_cases:
  assumes "bs \<noteq> []"
  obtains k where "k \<in> offsets" "encoded bs = of_nat k # encoding (of_nat k) bs"
    "length (encoded bs) = length bs + escapes (count_bytes bs) k + 1"
    "offset_loop (count_bytes bs) 1 (length bs) None = (escapes (count_bytes bs) k, Some (of_nat k))"
    "\<forall>k'\<in>offsets. escapes (count_bytes bs) k \<le> escapes (count_bytes bs) k'"
    "254 * escapes (count_bytes bs) k \<le> 3 * length bs"
proof (rule offset_found [OF assms])
  fix k
  assume "offset_loop (count_bytes bs) 1 (length bs) None = (escapes (count_bytes bs) k, Some (of_nat k))"
    "k \<in> offsets" "\<forall>k'\<in>offsets. escapes (count_bytes bs) k \<le> escapes (count_bytes bs) k'"
    "254 * escapes (count_bytes bs) k \<le> 3 * length bs"
  then show thesis
    using assms that [of k] by (simp add: encoded_def length_encoding_escapes Let_def)
qed

lemma encode_writes:
  assumes "length (encoded inp) < length ob"
  shows "sqlite_encode_binary inp (Some ob) =
    Inr (length (encoded inp), Some (encoded inp @ 0 # drop (length (encoded inp) + 1) ob))"
proof (cases "inp = []")
  case True
  then show ?thesis
    using assms by (auto simp: sqlite_encode_binary_def encoded_def put_def
        upd_conv_take_nth_drop take_Suc_conv_app_nth)
next
  case False
  then obtain k where k: "encoded inp = of_nat k # encoding (of_nat k) inp"
    "offset_loop (count_bytes inp) 1 (length inp) None = (escapes (count_bytes inp) k, Some (of_nat k))"
    by (rule encoded_cases) blast
  let ?e = "of_nat k :: u8"
  have "encode_loop inp ?e 1 (ob[0 := ?e]) = Inr (length (encoded inp),
      encoded inp @ drop (length (encoded inp)) ob)"
    using assms k(1) encode_loop_encoding [of 1 ?e inp "ob[0 := ?e]"]
    by (cases ob) auto
  moreover have "(encoded inp @ drop (length (encoded inp)) ob)[length (encoded inp) := 0] =
      encoded inp @ 0 # drop (length (encoded inp) + 1) ob"
    using assms by (simp add: list_update_append Cons_nth_drop_Suc [symmetric])
  moreover have "0 < length ob" using assms by linarith
  ultimately show ?thesis
    using False k(2) assms by (simp add: sqlite_encode_binary_def put_def)
qed

section \<open>Decoding an encoding\<close>

lemma decode_loop_encoding:
  assumes "i + length bs \<le> length out" and "p = length pre"
  shows "decode_loop (pre @ encoding e bs @ 0 # rest) p e i out =
    Inr (i + length bs, take i out @ bs @ drop (i + length bs) out)"
  using assms
proof (induction bs arbitrary: pre p i out)
  case Nil
  then show ?case by (simp add: decode_loop.simps nth_append)
next
  case (Cons b bs)
  have IH: "decode_loop (pre' @ encoding e bs @ 0 # rest) (length pre') e (Suc i) (out[i := b]) =
      Inr (i + length (b # bs), take i out @ (b # bs) @ drop (i + length (b # bs)) out)" for pre'
    using Cons.IH [of "Suc i" "out[i := b]" "length pre'" pre'] Cons.prems
      splice_after_put [of i out b bs "length bs"] by simp
  show ?case
  proof (cases "special (b - e)")
    case True
    then show ?thesis
      using IH [of "pre @ [1, b - e + 1]"] Cons.prems
      by (simp add: decode_loop.simps [of _ "length pre"] escape_def nth_append get_def put_def)
  next
    case False
    then show ?thesis
      using IH [of "pre @ [b - e]"] Cons.prems
      by (simp add: decode_loop.simps [of _ "length pre"] escape_def nth_append put_def special_def)
  qed
qed

lemma decode_encoded:
  assumes "length inp \<le> length out"
  shows "sqlite_decode_binary (encoded inp @ 0 # rest) out = Inr (length inp, inp @ drop (length inp) out)"
proof (cases "inp = []")
  case True
  then show ?thesis
    by (simp add: sqlite_decode_binary_def encoded_def get_def decode_loop.simps)
next
  case False
  then obtain k where "encoded inp = of_nat k # encoding (of_nat k) inp" by (rule encoded_cases) blast
  then show ?thesis
    using decode_loop_encoding [of 0 inp out 1 "[of_nat k]" "of_nat k" rest] assms
    by (simp add: sqlite_decode_binary_def get_def)
qed

section \<open>Decoding in place\<close>

lemma drop_update_before: "i < p \<Longrightarrow> drop p (xs[i := x]) = drop p xs"
  by simp

lemma nth_from_drop: "drop p xs = drop p ys \<Longrightarrow> p < length xs \<Longrightarrow> length xs = length ys \<Longrightarrow>
    p \<le> k \<Longrightarrow> k < length xs \<Longrightarrow> xs ! k = ys ! k"
  by (metis le_add_diff_inverse less_imp_le nth_drop)

definition same_result :: "(nat \<times> u8 list) res \<Rightarrow> (nat \<times> u8 list) res \<Rightarrow> bool" where
  "same_result r r' \<longleftrightarrow> (case (r, r') of
       (Inl f, Inl f') \<Rightarrow> f = f'
     | (Inr (i, xs), Inr (j, ys)) \<Rightarrow> i = j \<and> take i xs = take j ys
     | _ \<Rightarrow> False)"

text \<open>Every store goes to a position behind which the loads have already moved.\<close>

lemma decode_inplace_simulates:
  assumes "drop p buf = drop p inp" and "length buf = length inp" and "length inp \<le> length out"
    and "i < p" and "take i buf = take i out" and "i \<le> length inp"
  shows "same_result (decode_loop inp p e i out) (decode_inplace_loop p e i buf)"
  using assms
proof (induction inp p e i out arbitrary: buf rule: decode_loop.induct)
  case (1 inp p e i out)
  show ?case
  proof (cases "length inp \<le> p")
    case True
    then show ?thesis
      using 1(4) by (simp add: decode_loop.simps [of inp p] decode_inplace_loop.simps [of p] same_result_def)
  next
    case p: False
    have at: "buf ! k = inp ! k" if "p \<le> k" "k < length inp" for k
      using nth_from_drop [OF 1(3)] 1(4) p that by simp
    have i: "i < length buf" "i < length out" using 1(4,5,6) p by auto
    have step: "take (Suc i) (buf[i := x]) = take (Suc i) (out[i := x])" for x
      using i 1(7) by (simp add: take_Suc_conv_app_nth)
    consider (stop) "inp ! p = 0" | (esc) "inp ! p = 1" | (plain) "inp ! p \<noteq> 0" "inp ! p \<noteq> 1" by blast
    then show ?thesis
    proof cases
      case stop
      then show ?thesis
        using p at [of p] 1(4,7)
        by (simp add: decode_loop.simps [of inp p] decode_inplace_loop.simps [of p] same_result_def)
    next
      case esc
      show ?thesis
      proof (cases "Suc p < length inp")
        case True
        let ?x = "inp ! Suc p - 1 + e"
        have "drop (p + 2) buf = drop (p + 2) inp" using arg_cong [OF 1(3), of "drop 2"] by (simp add: add.commute)
        then have "same_result (decode_loop inp (p + 2) e (i + 1) (out[i := ?x]))
            (decode_inplace_loop (p + 2) e (i + 1) (buf[i := ?x]))"
          using 1(1) [OF p _ esc, of "buf[i := ?x]" "out[i := ?x]"] esc step [of ?x] 1(4-6) i True
          by (simp add: drop_update_before)
        then show ?thesis
          using p esc True at [of p] at [of "Suc p"] i 1(4)
          by (simp add: decode_loop.simps [of inp p] decode_inplace_loop.simps [of p] get_def put_def)
      next
        case False
        then show ?thesis
          using p esc at [of p] 1(4)
          by (simp add: decode_loop.simps [of inp p] decode_inplace_loop.simps [of p] get_def same_result_def)
      qed
    next
      case plain
      let ?x = "inp ! p + e"
      have "drop (p + 1) buf = drop (p + 1) inp" using arg_cong [OF 1(3), of "drop 1"] by (simp add: add.commute)
      then have "same_result (decode_loop inp (p + 1) e (i + 1) (out[i := ?x]))
          (decode_inplace_loop (p + 1) e (i + 1) (buf[i := ?x]))"
        using 1(2) [OF p plain, of "buf[i := ?x]" "out[i := ?x]"] step [of ?x] 1(4-6) i
        by (simp add: drop_update_before)
      then show ?thesis
        using p plain at [of p] i 1(4)
        by (simp add: decode_loop.simps [of inp p] decode_inplace_loop.simps [of p] put_def)
    qed
  qed
qed

section \<open>Properties\<close>

lemma encoding_clean: "b \<in> set (encoding e bs) \<Longrightarrow> b \<noteq> 0 \<and> b \<noteq> 39"
  by (induction bs) (auto simp: escape_def special_def split: if_splits)

lemma encoded_length: "length (encoded inp) + 1 \<le> 2 + 257 * length inp div 254"
proof (cases "inp = []")
  case False
  then obtain k where "length (encoded inp) = length inp + escapes (count_bytes inp) k + 1"
    "254 * escapes (count_bytes inp) k \<le> 3 * length inp" by (rule encoded_cases) blast
  then show ?thesis by linarith
qed (simp add: encoded_def)

text \<open>
  C4. Decoding reverses encoding. With an output buffer of the documented size, \<open>2 + (257*n)/254\<close>
  bytes, the encoder never writes beyond it and never uses its offset uninitialised, and the
  decoder gives back exactly the input, whatever follows the terminator.
\<close>

theorem encode_decode_round_trip:
  assumes "2 + 257 * length inp div 254 \<le> length ob" and "length inp \<le> length out"
  shows "\<exists>j ob'. sqlite_encode_binary inp (Some ob) = Inr (j, Some ob') \<and> length ob' = length ob \<and>
    sqlite_decode_binary ob' out = Inr (length inp, inp @ drop (length inp) out)"
  using encode_writes [of inp ob] encoded_length [of inp] decode_encoded [OF assms(2)] assms(1) by simp

theorem encode_decode_round_trip_witness:
  "\<exists>j ob'. sqlite_encode_binary [0, 1, 39, 255] (Some (replicate 6 7)) = Inr (j, Some ob') \<and>
    sqlite_decode_binary ob' [9, 9, 9, 9, 9] = Inr (4, [0, 1, 39, 255, 9])"
  using encode_decode_round_trip [of "[0, 1, 39, 255]" "replicate 6 7" "[9, 9, 9, 9, 9]"] by auto

text \<open>
  C32. The output is fit for an SQL string: it is terminated by a NUL and contains neither a NUL nor a
  quote before it; the return value is the length of that string, is the size announced when the
  routine is called without a buffer, and meets the documented bound.
\<close>

theorem encode_output_clean:
  assumes "sqlite_encode_binary inp None = Inr (n, None)" and "n < length ob"
  shows "\<exists>ob'. sqlite_encode_binary inp (Some ob) = Inr (n, Some ob') \<and> ob' ! n = 0 \<and>
    0 \<notin> set (take n ob') \<and> 39 \<notin> set (take n ob') \<and> n + 1 \<le> 2 + 257 * length inp div 254"
proof -
  have n: "n = length (encoded inp)"
  proof (cases "inp = []")
    case False
    then obtain k where "length (encoded inp) = length inp + escapes (count_bytes inp) k + 1"
      "offset_loop (count_bytes inp) 1 (length inp) None = (escapes (count_bytes inp) k, Some (of_nat k))"
      by (rule encoded_cases) blast
    then show ?thesis using assms(1) False by (simp add: sqlite_encode_binary_def)
  qed (use assms(1) in \<open>simp add: sqlite_encode_binary_def encoded_def\<close>)
  have "0 \<notin> set (encoded inp) \<and> 39 \<notin> set (encoded inp)"
  proof (cases "inp = []")
    case False
    then obtain k where "k \<in> offsets" "encoded inp = of_nat k # encoding (of_nat k) inp"
      by (rule encoded_cases) blast
    then show ?thesis using offsets_word [of k] encoding_clean by force
  qed (simp add: encoded_def)
  then show ?thesis
    using encode_writes [of inp ob] encoded_length [of inp] n assms(2) by (simp add: nth_append)
qed

theorem encode_output_clean_witness:
  "\<exists>ob'. sqlite_encode_binary [] (Some [7, 7]) = Inr (1, Some ob') \<and> ob' ! 1 = 0 \<and> 39 \<notin> set (take 1 ob')"
  using encode_output_clean [of "[]" 1 "[7, 7]"] by (auto simp: sqlite_encode_binary_def)

text \<open>
  The offset is the best there is: the string the encoder writes is no longer than with any
  other admissible offset, and the offset is neither 0 nor a quote.
\<close>

lemma encode_offset_minimal:
  assumes "inp \<noteq> []" and "length (encoded inp) < length ob" and "k \<in> {1..<256} - {39}"
  shows "\<exists>j e rest. sqlite_encode_binary inp (Some ob) = Inr (j, Some (e # rest)) \<and> e \<noteq> 0 \<and> e \<noteq> 39 \<and>
    take (j - 1) rest = encoding e inp \<and> j \<le> length (of_nat k # encoding (of_nat k) inp)"
proof -
  obtain i where i: "i \<in> offsets" "encoded inp = of_nat i # encoding (of_nat i) inp"
    "length (encoded inp) = length inp + escapes (count_bytes inp) i + 1"
    "\<forall>k'\<in>offsets. escapes (count_bytes inp) i \<le> escapes (count_bytes inp) k'"
    using assms(1) by (rule encoded_cases) blast
  have "k \<in> offsets" using assms(3) by (simp add: offsets_def)
  with i have "length (encoded inp) \<le> length (of_nat k # encoding (of_nat k) inp)"
    by (simp add: length_encoding_escapes)
  then show ?thesis
    using encode_writes [OF assms(2)] i(2) offsets_word [OF i(1)] by simp
qed

lemma demo_encoded_length: "length (encoded [39, 39]) < length (replicate 4 7)"
  using encoded_length [of "[39, 39]"] by simp

theorem encode_offset_minimal_witness:
  "\<exists>j e rest. sqlite_encode_binary [39, 39] (Some (replicate 4 7)) = Inr (j, Some (e # rest)) \<and> e \<noteq> 39 \<and>
    j \<le> length (of_nat 38 # encoding (of_nat 38) [39, 39])"
  using encode_offset_minimal [OF _ demo_encoded_length, of 38] by auto

text \<open>
  C33. Decoding in place is the same as decoding into another buffer: for every input, well-formed or
  not, both runs fault alike or return the same count and the same bytes.
\<close>

theorem decode_in_place_equiv:
  assumes "length inp \<le> length out"
  shows "same_result (sqlite_decode_binary inp out) (sqlite_decode_inplace inp)"
  using decode_inplace_simulates [of 1 inp inp out 0 "inp ! 0"] assms
  by (cases "inp = []")
    (simp_all add: sqlite_decode_binary_def sqlite_decode_inplace_def get_def same_result_def)

theorem decode_in_place_equiv_witness:
  "same_result (sqlite_decode_binary [1, 1, 2, 5, 0] [0, 0, 0, 0, 0]) (sqlite_decode_inplace [1, 1, 2, 5, 0])"
  using decode_in_place_equiv [of "[1, 1, 2, 5, 0]" "[0, 0, 0, 0, 0]"] by simp

text \<open>
  A string that ends in the escape character is not rejected: the terminator is taken as the
  escaped byte and the decoder reads on behind the string.
\<close>

lemma decode_reads_past_terminator:
  assumes "0 \<notin> set bs" and "1 \<notin> set bs" and "length bs + 1 < length out"
  shows "sqlite_decode_binary (e # bs @ [1, 0]) out = Inl OutOfBounds"
proof -
  have "decode_loop (pre @ bs @ [1, 0]) (length pre) e i out = Inl OutOfBounds"
    if "i + length bs < length out" for pre i out
    using that assms(1,2)
  proof (induction bs arbitrary: pre i out)
    case Nil
    then show ?case by (simp add: decode_loop.simps [of _ "length pre"] decode_loop.simps [of _ "Suc (Suc (length pre))"]
          nth_append get_def put_def)
  next
    case (Cons b bs)
    from Cons.IH [of "Suc i" "out[i := b + e]" "pre @ [b]"] Cons.prems show ?case
      by (auto simp: decode_loop.simps [of _ "length pre"] nth_append put_def)
  qed
  from this [of 0 out "[e]"] assms(3) show ?thesis
    by (simp add: sqlite_decode_binary_def get_def)
qed

lemma decode_reads_past_terminator_witness:
  "sqlite_decode_binary [1, 65, 1, 0] [0, 0, 0, 0] = Inl OutOfBounds"
  using decode_reads_past_terminator [of "[65]" "[0, 0, 0, 0]" 1] by simp

end
