(* ===== verification/Edify_Expr.thy ===== *)
theory Edify_Expr
  imports CS_CLib
begin

text \<open>
  The core of the script interpreter, \<^verbatim>\<open>src/jni/adhoc-edify/edify/expr.c\<close>: expressions, the
  operators and built-in functions, the function table, and the helpers for functions.

  A C \<open>Function\<close> takes the unevaluated arguments and may evaluate each of them, in its own order,
  or not at all. Here it takes a list of \<open>arg\<close>s, which hold the evaluation of the argument and
  its place in the script. A null pointer is \<open>None\<close>, a load beyond \<open>argv\<close> the fault
  \<open>OutOfBounds\<close>. The cookie of the state is a type parameter.
\<close>

section \<open>State and expressions\<close>

datatype edify_out = Stdout string | Stderr string | Sleep int

record 'c State =
  st_cookie :: 'c
  st_script :: string
  st_errmsg :: "string option"
  st_out :: "edify_out list"

type_synonym 'c action = "'c State \<Rightarrow> (string option \<times> 'c State) res"

record 'c arg =
  ar_eval :: "'c action"
  ar_start :: nat
  ar_end :: nat

type_synonym 'c Function = "string \<Rightarrow> 'c arg list \<Rightarrow> 'c action"

datatype 'c Expr = Expr "'c Function" string "'c Expr list" nat nat

fun ex_start :: "'c Expr \<Rightarrow> nat" where "ex_start (Expr fn name argv s e) = s"
fun ex_end :: "'c Expr \<Rightarrow> nat" where "ex_end (Expr fn name argv s e) = e"
fun ex_args :: "'c Expr \<Rightarrow> 'c Expr list" where "ex_args (Expr fn name argv s e) = argv"

fun Evaluate :: "'c Expr \<Rightarrow> 'c action" where
  "Evaluate (Expr fn name argv s e) =
     fn name (map (\<lambda>x. \<lparr>ar_eval = Evaluate x, ar_start = ex_start x, ar_end = ex_end x\<rparr>) argv)"

definition BooleanString :: "string \<Rightarrow> bool" where
  "BooleanString s \<longleftrightarrow> s \<noteq> []"

section \<open>Plumbing\<close>

text \<open>Return a string or null; set the error message and return null.\<close>

definition ret :: "string \<Rightarrow> 'c action" where
  "ret v s = Inr (Some v, s)"

definition fail_with :: "string \<Rightarrow> 'c action" where
  "fail_with msg s = Inr (None, s\<lparr>st_errmsg := Some msg\<rparr>)"

text \<open>Evaluate, return null if that gives null, go on with the string otherwise.\<close>

definition ebind :: "'c action \<Rightarrow> (string \<Rightarrow> 'c action) \<Rightarrow> 'c action" where
  "ebind a f s = rbind (a s) (\<lambda>(r, s'). case r of None \<Rightarrow> Inr (None, s') | Some v \<Rightarrow> f v s')"

definition emit :: "edify_out \<Rightarrow> 'c State \<Rightarrow> 'c State" where
  "emit x s = s\<lparr>st_out := st_out s @ [x]\<rparr>"

definition eval_at :: "'c arg list \<Rightarrow> nat \<Rightarrow> 'c action" where
  "eval_at argv i s = (if i < length argv then ar_eval (argv ! i) s else Inl OutOfBounds)"

definition truth :: "bool \<Rightarrow> string" where
  "truth b = (if b then ''t'' else '''')"

section \<open>Helpers for functions\<close>

text \<open>
  \<open>ReadVarArgs\<close>: the strings of all arguments, or \<open>None\<close> as soon as one is null; the later
  arguments are then not evaluated.
\<close>

fun ReadVarArgs :: "'c arg list \<Rightarrow> 'c State \<Rightarrow> (string list option \<times> 'c State) res" where
  "ReadVarArgs [] s = Inr (Some [], s)"
| "ReadVarArgs (a # as) s =
     rbind (ar_eval a s) (\<lambda>(r, s1).
       case r of
         None \<Rightarrow> Inr (None, s1)
       | Some v \<Rightarrow> rbind (ReadVarArgs as s1) (\<lambda>(vs, s2).
           Inr (case vs of None \<Rightarrow> None | Some xs \<Rightarrow> Some (v # xs), s2)))"

text \<open>\<open>ReadArgs(state, argv, n, ...)\<close>: the first \<open>n\<close> arguments; \<open>argc\<close> is not looked at.\<close>

fun ReadArgs_from :: "nat \<Rightarrow> nat \<Rightarrow> 'c arg list \<Rightarrow> 'c State \<Rightarrow> (string list option \<times> 'c State) res" where
  "ReadArgs_from i 0 argv s = Inr (Some [], s)"
| "ReadArgs_from i (Suc n) argv s =
     rbind (eval_at argv i s) (\<lambda>(r, s1).
       case r of
         None \<Rightarrow> Inr (None, s1)
       | Some v \<Rightarrow> rbind (ReadArgs_from (Suc i) n argv s1) (\<lambda>(vs, s2).
           Inr (case vs of None \<Rightarrow> None | Some xs \<Rightarrow> Some (v # xs), s2)))"

definition ReadArgs :: "nat \<Rightarrow> 'c arg list \<Rightarrow> 'c State \<Rightarrow> (string list option \<times> 'c State) res" where
  "ReadArgs n argv s = ReadArgs_from 0 n argv s"

text \<open>Go on with the strings, or return null.\<close>

definition with_args ::
  "('c State \<Rightarrow> (string list option \<times> 'c State) res) \<Rightarrow> (string list \<Rightarrow> 'c action) \<Rightarrow> 'c action" where
  "with_args r f s = rbind (r s) (\<lambda>(vs, s'). case vs of None \<Rightarrow> Inr (None, s') | Some xs \<Rightarrow> f xs s')"

text \<open>\<open>ErrorAbort\<close> on the formatted message: at most 4095 characters are kept.\<close>

definition ErrorAbort :: "string \<Rightarrow> 'c action" where
  "ErrorAbort msg = fail_with (take 4095 msg)"

section \<open>Operators and built-in functions\<close>

definition ConcatFn :: "'c Function" where
  "ConcatFn name argv =
     (if argv = [] then ret '''' else with_args (ReadVarArgs argv) (\<lambda>vs. ret (concat vs)))"

definition IfElseFn :: "'c Function" where
  "IfElseFn name argv =
     (if length argv \<noteq> 2 \<and> length argv \<noteq> 3 then fail_with ''ifelse expects 2 or 3 arguments''
      else ebind (eval_at argv 0) (\<lambda>cond.
        if BooleanString cond then eval_at argv 1
        else if length argv = 3 then eval_at argv 2 else ret cond))"

definition AbortFn :: "'c Function" where
  "AbortFn name argv s =
     (if length argv > 0
      then rbind (eval_at argv 0 s) (\<lambda>(msg, s').
             Inr (None, s'\<lparr>st_errmsg := Some (case msg of Some m \<Rightarrow> m | None \<Rightarrow> ''called abort()'')\<rparr>))
      else fail_with ''called abort()'' s)"

fun assert_loop :: "'c arg list \<Rightarrow> 'c action" where
  "assert_loop [] s = Inr (Some '''', s)"
| "assert_loop (a # as) s =
     rbind (ar_eval a s) (\<lambda>(v, s').
       case v of
         None \<Rightarrow> Inr (None, s')
       | Some b \<Rightarrow>
           if BooleanString b then assert_loop as s'
           else if ar_start a \<le> ar_end a \<and> ar_end a \<le> length (st_script s')
           then fail_with (''assert failed: '' @
                  take (ar_end a - ar_start a) (drop (ar_start a) (st_script s'))) s'
           else Inl OutOfBounds)"

definition AssertFn :: "'c Function" where
  "AssertFn name argv = assert_loop argv"

definition SleepFn :: "'c Function" where
  "SleepFn name argv =
     ebind (eval_at argv 0) (\<lambda>val s. ret val (emit (Sleep (fst (strtol10 val))) s))"

fun stdout_loop :: "'c arg list \<Rightarrow> 'c action" where
  "stdout_loop [] s = Inr (Some '''', s)"
| "stdout_loop (a # as) s =
     rbind (ar_eval a s) (\<lambda>(v, s').
       case v of None \<Rightarrow> Inr (None, s') | Some t \<Rightarrow> stdout_loop as (emit (Stdout t) s'))"

definition StdoutFn :: "'c Function" where
  "StdoutFn name argv = stdout_loop argv"

definition LogicalAndFn :: "'c Function" where
  "LogicalAndFn name argv =
     ebind (eval_at argv 0) (\<lambda>left. if BooleanString left then eval_at argv 1 else ret left)"

definition LogicalOrFn :: "'c Function" where
  "LogicalOrFn name argv =
     ebind (eval_at argv 0) (\<lambda>left. if \<not> BooleanString left then eval_at argv 1 else ret left)"

definition LogicalNotFn :: "'c Function" where
  "LogicalNotFn name argv =
     ebind (eval_at argv 0) (\<lambda>val. if BooleanString val then ret '''' else ret ''t'')"

definition SubstringFn :: "'c Function" where
  "SubstringFn name argv =
     ebind (eval_at argv 0) (\<lambda>needle. ebind (eval_at argv 1) (\<lambda>haystack.
       ret (truth (strstr haystack needle))))"

definition EqualityFn :: "'c Function" where
  "EqualityFn name argv =
     ebind (eval_at argv 0) (\<lambda>left. ebind (eval_at argv 1) (\<lambda>right.
       ret (truth (strcmp left right = 0))))"

definition InequalityFn :: "'c Function" where
  "InequalityFn name argv =
     ebind (eval_at argv 0) (\<lambda>left. ebind (eval_at argv 1) (\<lambda>right.
       ret (truth (strcmp left right \<noteq> 0))))"

definition SequenceFn :: "'c Function" where
  "SequenceFn name argv = ebind (eval_at argv 0) (\<lambda>_. eval_at argv 1)"

definition not_an_int :: "string \<Rightarrow> 'c State \<Rightarrow> 'c State" where
  "not_an_int v = emit (Stderr (''['' @ v @ ''] is not an int'' @ [newline]))"

definition compare_ints :: "string \<Rightarrow> string \<Rightarrow> 'c action" where
  "compare_ints left right s =
     (let (l_int, l_end) = strtol10 left; (r_int, r_end) = strtol10 right in
      if left = [] \<or> l_end \<noteq> [] then ret '''' (not_an_int left s)
      else if right = [] \<or> r_end \<noteq> [] then ret '''' (not_an_int right s)
      else ret (truth (l_int < r_int)) s)"

definition LessThanIntFn :: "'c Function" where
  "LessThanIntFn name argv =
     (if length argv \<noteq> 2 then fail_with ''less_than_int expects 2 arguments''
      else with_args (ReadArgs 2 argv) (\<lambda>vs. compare_ints (vs ! 0) (vs ! 1)))"

definition GreaterThanIntFn :: "'c Function" where
  "GreaterThanIntFn name argv =
     (if length argv \<noteq> 2 then fail_with ''greater_than_int expects 2 arguments''
      else LessThanIntFn name [argv ! 1, argv ! 0])"

definition Literal :: "'c Function" where
  "Literal name argv = ret name"

definition Build :: "'c Function \<Rightarrow> nat \<times> nat \<Rightarrow> 'c Expr list \<Rightarrow> 'c Expr" where
  "Build fn loc argv = Expr fn ''(operator)'' argv (fst loc) (snd loc)"

section \<open>The function table\<close>

record 'c fn_table =
  ft_size :: nat
  ft_entries :: "(string \<times> 'c Function) list"

definition empty_table :: "'c fn_table" where
  "empty_table = \<lparr>ft_size = 0, ft_entries = []\<rparr>"

definition RegisterFunction :: "string \<Rightarrow> 'c Function \<Rightarrow> 'c fn_table \<Rightarrow> 'c fn_table" where
  "RegisterFunction name fn t =
     (let t' = (if length (ft_entries t) \<ge> ft_size t then t\<lparr>ft_size := ft_size t * 2 + 1\<rparr> else t)
      in t'\<lparr>ft_entries := ft_entries t @ [(name, fn)]\<rparr>)"

definition FinishRegistration :: "'c fn_table \<Rightarrow> 'c fn_table" where
  "FinishRegistration t = t\<lparr>ft_entries := sort_key fst (ft_entries t)\<rparr>"

definition FindFunction :: "'c fn_table \<Rightarrow> string \<Rightarrow> 'c Function option" where
  "FindFunction t name = bsearch_loop (ft_entries t) name 0 (length (ft_entries t))"

definition builtins :: "(string \<times> 'c Function) list" where
  "builtins =
    [(''ifelse'', IfElseFn), (''abort'', AbortFn), (''assert'', AssertFn), (''concat'', ConcatFn),
     (''is_substring'', SubstringFn), (''stdout'', StdoutFn), (''sleep'', SleepFn),
     (''less_than_int'', LessThanIntFn), (''greater_than_int'', GreaterThanIntFn)]"

definition register_all :: "(string \<times> 'c Function) list \<Rightarrow> 'c fn_table \<Rightarrow> 'c fn_table" where
  "register_all fs t = fold (\<lambda>(name, fn). RegisterFunction name fn) fs t"

definition RegisterBuiltins :: "'c fn_table \<Rightarrow> 'c fn_table" where
  "RegisterBuiltins = register_all builtins"

section \<open>The contract of a function\<close>

text \<open>
  A well-behaved evaluation, in states that hold the script \<open>sc\<close> and whose cookie satisfies \<open>W\<close>: it
  returns without a fault, keeps both, never removes an error message, and returns null only
  with an error message set.
\<close>

definition good :: "('c \<Rightarrow> bool) \<Rightarrow> string \<Rightarrow> 'c action \<Rightarrow> bool" where
  "good W sc a \<longleftrightarrow> (\<forall>s. st_script s = sc \<and> W (st_cookie s) \<longrightarrow>
     (\<exists>r s'. a s = Inr (r, s') \<and> st_script s' = sc \<and> W (st_cookie s') \<and>
        (st_errmsg s \<noteq> None \<or> r = None \<longrightarrow> st_errmsg s' \<noteq> None)))"

definition placed :: "string \<Rightarrow> nat \<Rightarrow> nat \<Rightarrow> bool" where
  "placed sc a b \<longleftrightarrow> a \<le> b \<and> b \<le> length sc"

definition good_arg :: "('c \<Rightarrow> bool) \<Rightarrow> string \<Rightarrow> 'c arg \<Rightarrow> bool" where
  "good_arg W sc a \<longleftrightarrow> good W sc (ar_eval a) \<and> placed sc (ar_start a) (ar_end a)"

definition good_read ::
  "('c \<Rightarrow> bool) \<Rightarrow> string \<Rightarrow> nat \<Rightarrow> ('c State \<Rightarrow> (string list option \<times> 'c State) res) \<Rightarrow> bool" where
  "good_read W sc n f \<longleftrightarrow> (\<forall>s. st_script s = sc \<and> W (st_cookie s) \<longrightarrow>
     (\<exists>r s'. f s = Inr (r, s') \<and> st_script s' = sc \<and> W (st_cookie s') \<and>
        (st_errmsg s \<noteq> None \<or> r = None \<longrightarrow> st_errmsg s' \<noteq> None) \<and>
        (\<forall>vs. r = Some vs \<longrightarrow> length vs = n)))"

lemma goodI:
  assumes "\<And>s. st_script s = sc \<Longrightarrow> W (st_cookie s) \<Longrightarrow>
     \<exists>r s'. a s = Inr (r, s') \<and> st_script s' = sc \<and> W (st_cookie s') \<and>
        (st_errmsg s \<noteq> None \<or> r = None \<longrightarrow> st_errmsg s' \<noteq> None)"
  shows "good W sc a"
  using assms by (simp add: good_def)

lemma goodE:
  assumes "good W sc a" and "st_script s = sc" and "W (st_cookie s)"
  obtains r s' where "a s = Inr (r, s')" "st_script s' = sc" "W (st_cookie s')"
    "st_errmsg s \<noteq> None \<or> r = None \<longrightarrow> st_errmsg s' \<noteq> None"
  using assms unfolding good_def by blast

named_theorems good_intros

lemma good_ret [good_intros]: "good W sc (ret v)"
  by (rule goodI) (simp add: ret_def)

lemma good_fail_with [good_intros]: "good W sc (fail_with m)"
  by (rule goodI) (simp add: fail_with_def)

lemma good_ErrorAbort [good_intros]: "good W sc (ErrorAbort m)"
  unfolding ErrorAbort_def by (rule good_fail_with)

lemma good_ebind [good_intros]:
  assumes "good W sc a" and "\<And>v. good W sc (f v)"
  shows "good W sc (ebind a f)"
proof (rule goodI)
  fix s :: "'a State"
  assume s: "st_script s = sc" "W (st_cookie s)"
  obtain r s1 where 1: "a s = Inr (r, s1)" "st_script s1 = sc" "W (st_cookie s1)"
    "st_errmsg s \<noteq> None \<or> r = None \<longrightarrow> st_errmsg s1 \<noteq> None" using assms(1) s by (rule goodE)
  show "\<exists>r s'. ebind a f s = Inr (r, s') \<and> st_script s' = sc \<and> W (st_cookie s') \<and>
      (st_errmsg s \<noteq> None \<or> r = None \<longrightarrow> st_errmsg s' \<noteq> None)"
  proof (cases r)
    case None
    then show ?thesis using 1 by (simp add: ebind_def)
  next
    case (Some v)
    obtain r2 s2 where "f v s1 = Inr (r2, s2)" "st_script s2 = sc" "W (st_cookie s2)"
      "st_errmsg s1 \<noteq> None \<or> r2 = None \<longrightarrow> st_errmsg s2 \<noteq> None"
      using assms(2) 1(2,3) by (rule goodE)
    with 1 Some show ?thesis by (simp add: ebind_def)
  qed
qed

lemma good_with_args [good_intros]:
  assumes "good_read W sc n r" and "\<And>vs. length vs = n \<Longrightarrow> good W sc (f vs)"
  shows "good W sc (with_args r f)"
proof (rule goodI)
  fix s :: "'a State"
  assume s: "st_script s = sc" "W (st_cookie s)"
  with assms(1) obtain vs s1 where 1: "r s = Inr (vs, s1)" "st_script s1 = sc" "W (st_cookie s1)"
    "st_errmsg s \<noteq> None \<or> vs = None \<longrightarrow> st_errmsg s1 \<noteq> None" "\<forall>xs. vs = Some xs \<longrightarrow> length xs = n"
    unfolding good_read_def by blast
  show "\<exists>q s'. with_args r f s = Inr (q, s') \<and> st_script s' = sc \<and> W (st_cookie s') \<and>
      (st_errmsg s \<noteq> None \<or> q = None \<longrightarrow> st_errmsg s' \<noteq> None)"
  proof (cases vs)
    case None
    then show ?thesis using 1 by (simp add: with_args_def)
  next
    case (Some xs)
    with 1(5) have "good W sc (f xs)" using assms(2) by blast
    then obtain r2 s2 where "f xs s1 = Inr (r2, s2)" "st_script s2 = sc" "W (st_cookie s2)"
      "st_errmsg s1 \<noteq> None \<or> r2 = None \<longrightarrow> st_errmsg s2 \<noteq> None"
      using 1(2,3) by (rule goodE)
    with 1 Some show ?thesis by (simp add: with_args_def)
  qed
qed

lemma good_emit [good_intros]: "good W sc a \<Longrightarrow> good W sc (\<lambda>s. a (emit x s))"
  by (rule goodI) (elim goodE [of W sc a "emit x s" for s], auto simp: emit_def)

lemma good_eval_at [good_intros]:
  "i < length argv \<Longrightarrow> list_all (good_arg W sc) argv \<Longrightarrow> good W sc (eval_at argv i)"
  by (auto simp: eval_at_def good_def good_arg_def list_all_length)

lemma good_readI:
  assumes "\<And>s. st_script s = sc \<Longrightarrow> W (st_cookie s) \<Longrightarrow>
     \<exists>r s'. f s = Inr (r, s') \<and> st_script s' = sc \<and> W (st_cookie s') \<and>
        (st_errmsg s \<noteq> None \<or> r = None \<longrightarrow> st_errmsg s' \<noteq> None) \<and>
        (\<forall>vs. r = Some vs \<longrightarrow> length vs = n)"
  shows "good_read W sc n f"
  using assms by (simp add: good_read_def)

text \<open>Reading one string and then the others, as both reading loops do.\<close>

lemma good_read_Cons:
  assumes "good W sc a" and "good_read W sc n f"
  shows "good_read W sc (Suc n) (\<lambda>s. rbind (a s) (\<lambda>(r, s1).
       case r of
         None \<Rightarrow> Inr (None, s1)
       | Some v \<Rightarrow> rbind (f s1) (\<lambda>(vs, s2).
           Inr (case vs of None \<Rightarrow> None | Some xs \<Rightarrow> Some (v # xs), s2))))"
    (is "good_read W sc (Suc n) ?g")
proof (rule good_readI)
  fix s :: "'a State"
  assume s: "st_script s = sc" "W (st_cookie s)"
  obtain r s1 where 1: "a s = Inr (r, s1)" "st_script s1 = sc" "W (st_cookie s1)"
    "st_errmsg s \<noteq> None \<or> r = None \<longrightarrow> st_errmsg s1 \<noteq> None" using assms(1) s by (rule goodE)
  with assms(2) obtain vs s2 where 2: "f s1 = Inr (vs, s2)" "st_script s2 = sc" "W (st_cookie s2)"
    "st_errmsg s1 \<noteq> None \<or> vs = None \<longrightarrow> st_errmsg s2 \<noteq> None" "\<forall>xs. vs = Some xs \<longrightarrow> length xs = n"
    unfolding good_read_def by blast
  show "\<exists>q s'. ?g s = Inr (q, s') \<and> st_script s' = sc \<and> W (st_cookie s') \<and>
      (st_errmsg s \<noteq> None \<or> q = None \<longrightarrow> st_errmsg s' \<noteq> None) \<and>
      (\<forall>vs. q = Some vs \<longrightarrow> length vs = Suc n)"
    using 1 2 by (cases r; cases vs) auto
qed

lemma good_ReadVarArgs [good_intros]:
  "list_all (good_arg W sc) argv \<Longrightarrow> good_read W sc (length argv) (ReadVarArgs argv)"
proof (induction argv)
  case Nil
  then show ?case by (simp add: good_read_def)
next
  case (Cons a as)
  then have "good_read W sc (length as) (ReadVarArgs as)" "good W sc (ar_eval a)"
    by (simp_all add: good_arg_def)
  then show ?case
    using good_read_Cons by (fastforce simp: ReadVarArgs.simps(2) [abs_def])
qed

lemma good_ReadArgs_from:
  "i + n \<le> length argv \<Longrightarrow> list_all (good_arg W sc) argv \<Longrightarrow>
    good_read W sc n (ReadArgs_from i n argv)"
proof (induction n arbitrary: i)
  case 0
  then show ?case by (simp add: good_read_def)
next
  case (Suc n)
  then have "good_read W sc n (ReadArgs_from (Suc i) n argv)" by simp
  from good_read_Cons [OF good_eval_at this, of i argv] Suc.prems show ?case
    by (simp add: ReadArgs_from.simps(2) [abs_def])
qed

lemma good_ReadArgs [good_intros]:
  "n \<le> length argv \<Longrightarrow> list_all (good_arg W sc) argv \<Longrightarrow> good_read W sc n (ReadArgs n argv)"
  unfolding ReadArgs_def by (rule good_ReadArgs_from) simp_all

lemma good_stdout_loop: "list_all (good_arg W sc) argv \<Longrightarrow> good W sc (stdout_loop argv)"
proof (induction argv)
  case Nil
  then show ?case by (simp add: good_def)
next
  case (Cons a as)
  have "stdout_loop (a # as) = ebind (ar_eval a) (\<lambda>t s. stdout_loop as (emit (Stdout t) s))"
    by (simp add: fun_eq_iff ebind_def)
  then show ?case using Cons by (auto intro!: good_intros simp: good_arg_def)
qed

lemma good_script:
  assumes "\<And>s. st_script s = sc \<Longrightarrow> b s = a s" and "good W sc a"
  shows "good W sc b"
  using assms by (simp add: good_def)

lemma good_assert_loop: "list_all (good_arg W sc) argv \<Longrightarrow> good W sc (assert_loop argv)"
proof (induction argv)
  case Nil
  then show ?case by (simp add: good_def)
next
  case (Cons a as)
  have fail: "good W sc (\<lambda>s. if ar_start a \<le> ar_end a \<and> ar_end a \<le> length (st_script s)
       then fail_with (''assert failed: '' @
              take (ar_end a - ar_start a) (drop (ar_start a) (st_script s))) s
       else Inl OutOfBounds)"
    by (rule good_script [OF _ good_fail_with [of W sc]])
      (use Cons.prems in \<open>simp add: good_arg_def placed_def\<close>)
  have "assert_loop (a # as) = ebind (ar_eval a) (\<lambda>b s. if BooleanString b then assert_loop as s
      else if ar_start a \<le> ar_end a \<and> ar_end a \<le> length (st_script s)
       then fail_with (''assert failed: '' @
              take (ar_end a - ar_start a) (drop (ar_start a) (st_script s))) s
       else Inl OutOfBounds)"
    by (simp add: fun_eq_iff ebind_def)
  moreover have "good W sc (\<lambda>s. if BooleanString b then assert_loop as s
      else if ar_start a \<le> ar_end a \<and> ar_end a \<le> length (st_script s)
       then fail_with (''assert failed: '' @
              take (ar_end a - ar_start a) (drop (ar_start a) (st_script s))) s
       else Inl OutOfBounds)" for b
    using Cons fail by (cases "BooleanString b") simp_all
  ultimately show ?case using Cons.prems by (auto intro!: good_ebind simp: good_arg_def)
qed

lemma good_compare_ints [good_intros]: "good W sc (compare_ints l r)"
  by (rule goodI) (auto simp: compare_ints_def not_an_int_def emit_def ret_def Let_def split: prod.splits)

lemma good_AbortFn:
  assumes "list_all (good_arg W sc) argv"
  shows "good W sc (AbortFn name argv)"
proof (rule goodI)
  fix s :: "'a State"
  assume s: "st_script s = sc" "W (st_cookie s)"
  show "\<exists>r s'. AbortFn name argv s = Inr (r, s') \<and> st_script s' = sc \<and> W (st_cookie s') \<and>
      (st_errmsg s \<noteq> None \<or> r = None \<longrightarrow> st_errmsg s' \<noteq> None)"
  proof (cases argv)
    case Nil
    then show ?thesis using s by (simp add: AbortFn_def fail_with_def)
  next
    case (Cons a as)
    then have "good W sc (eval_at argv 0)" using assms by (intro good_intros) simp_all
    then obtain r s1 where "eval_at argv 0 s = Inr (r, s1)" "st_script s1 = sc" "W (st_cookie s1)"
      using s by (rule goodE)
    then show ?thesis using Cons by (simp add: AbortFn_def)
  qed
qed

section \<open>The interface of a function\<close>

text \<open>
  What the interpreter relies on: given at least \<open>need\<close> arguments, well-behaved ones, the call is
  well-behaved. The comment at the top of the C file asks for less: that null is passed on.
\<close>

locale edify_function =
  fixes need :: nat and fn :: "'c Function" and W :: "'c \<Rightarrow> bool"
  assumes call: "need \<le> length argv \<Longrightarrow> list_all (good_arg W sc) argv \<Longrightarrow> good W sc (fn name argv)"
begin

lemma node:
  assumes "need \<le> length xs" and "\<forall>x\<in>set xs. good W sc (Evaluate x) \<and> placed sc (ex_start x) (ex_end x)"
  shows "good W sc (Evaluate (Expr fn name xs s e))"
  using assms by (auto intro!: call simp: list_all_iff good_arg_def)

end

interpretation if_fn: edify_function 0 IfElseFn W for W
  by unfold_locales (auto simp: IfElseFn_def intro!: good_intros)

interpretation and_fn: edify_function 2 LogicalAndFn W for W
  by unfold_locales (auto simp: LogicalAndFn_def intro!: good_intros)

interpretation or_fn: edify_function 2 LogicalOrFn W for W
  by unfold_locales (auto simp: LogicalOrFn_def intro!: good_intros)

interpretation not_fn: edify_function 1 LogicalNotFn W for W
  by unfold_locales (auto simp: LogicalNotFn_def intro!: good_intros)

interpretation sub_fn: edify_function 2 SubstringFn W for W
  by unfold_locales (auto simp: SubstringFn_def intro!: good_intros)

interpretation eq_fn: edify_function 2 EqualityFn W for W
  by unfold_locales (auto simp: EqualityFn_def intro!: good_intros)

interpretation ne_fn: edify_function 2 InequalityFn W for W
  by unfold_locales (auto simp: InequalityFn_def intro!: good_intros)

interpretation seq_fn: edify_function 2 SequenceFn W for W
  by unfold_locales (auto simp: SequenceFn_def intro!: good_intros)

interpretation sleep_fn: edify_function 1 SleepFn W for W
  by unfold_locales (auto simp: SleepFn_def intro!: good_intros)

interpretation lit_fn: edify_function 0 Literal W for W
  by unfold_locales (auto simp: Literal_def intro!: good_intros)

interpretation lt_fn: edify_function 0 LessThanIntFn W for W
  by unfold_locales (auto simp: LessThanIntFn_def intro!: good_intros)

interpretation concat_fn: edify_function 0 ConcatFn W for W
  by unfold_locales (auto simp: ConcatFn_def intro!: good_intros)

interpretation gt_fn: edify_function 0 GreaterThanIntFn W for W
  by unfold_locales (auto simp: GreaterThanIntFn_def list_all_length less_Suc_eq intro!: good_intros lt_fn.call)

interpretation abort_fn: edify_function 0 AbortFn W for W
  by unfold_locales (rule good_AbortFn)

interpretation assert_fn: edify_function 0 AssertFn W for W
  by unfold_locales (simp add: AssertFn_def good_assert_loop)

interpretation stdout_fn: edify_function 0 StdoutFn W for W
  by unfold_locales (simp add: StdoutFn_def good_stdout_loop)

text \<open>Scripts over a set of functions, each with the number of arguments it reads unchecked.\<close>

inductive script_over :: "(nat \<times> 'c Function) set \<Rightarrow> string \<Rightarrow> 'c Expr \<Rightarrow> bool" for F sc where
  node: "(n, fn) \<in> F \<Longrightarrow> n \<le> length xs \<Longrightarrow>
    (\<And>x. x \<in> set xs \<Longrightarrow> script_over F sc x \<and> placed sc (ex_start x) (ex_end x)) \<Longrightarrow>
    script_over F sc (Expr fn name xs s e)"

lemma script_good:
  assumes "script_over F sc x" and "\<And>n fn. (n, fn) \<in> F \<Longrightarrow> edify_function n fn W"
  shows "good W sc (Evaluate x)"
  using assms(1)
proof (induction rule: script_over.induct)
  case (node n fn xs name s e)
  from edify_function.node [OF assms(2) [OF node(1)] node(2), of sc name s e] node(3)
  show ?case by blast
qed

definition core_functions :: "(nat \<times> 'c Function) set" where
  "core_functions =
    {(0, IfElseFn), (0, AbortFn), (0, AssertFn), (0, ConcatFn), (2, SubstringFn), (0, StdoutFn),
     (1, SleepFn), (0, LessThanIntFn), (0, GreaterThanIntFn), (2, LogicalAndFn), (2, LogicalOrFn),
     (1, LogicalNotFn), (2, EqualityFn), (2, InequalityFn), (2, SequenceFn), (0, Literal)}"

lemma core_functions_ok: "(n, fn) \<in> core_functions \<Longrightarrow> edify_function n fn W"
  unfolding core_functions_def
  by (elim insertE emptyE; clarify; intro_locales)

section \<open>Properties\<close>


definition lit :: "string \<Rightarrow> nat \<Rightarrow> 'c Expr" where
  "lit v p = Expr Literal v [] p (p + length v)"

definition demo_state :: "string \<Rightarrow> unit State" where
  "demo_state sc = \<lparr>st_cookie = (), st_script = sc, st_errmsg = None, st_out = []\<rparr>"

lemma lit_over: "script_over core_functions sc (lit v p)"
  unfolding lit_def by (rule script_over.node [of 0]) (simp_all add: core_functions_def)


text \<open>A pure argument: it evaluates to a string and leaves the state alone.\<close>

definition pure_arg :: "string \<Rightarrow> nat \<Rightarrow> nat \<Rightarrow> 'c arg" where
  "pure_arg v a b = \<lparr>ar_eval = ret v, ar_start = a, ar_end = b\<rparr>"

lemma eval_at_simps [simp]:
  "eval_at (a # as) 0 = ar_eval a" "eval_at (a # as) (Suc i) = eval_at as i"
  "eval_at (a # as) 1 = eval_at as 0" "eval_at [] i = (\<lambda>s. Inl OutOfBounds)"
  by (simp_all add: eval_at_def fun_eq_iff)

lemma ebind_ret [simp]: "ebind (ret v) f = f v"
  by (simp add: ebind_def ret_def fun_eq_iff)

lemma ar_eval_pure [simp]: "ar_eval (pure_arg v a b) = ret v"
  by (simp add: pure_arg_def)

text \<open>
  The logical operators are the connectives on truth values, and they are short-circuit: the
  second argument is evaluated exactly if the first has not decided the result, and then in the
  state the first has left. This holds for any second argument, also one that aborts or faults.
\<close>

lemma logical_operators:
  "(LogicalAndFn name [pure_arg u a b, y] = (if u = '''' then ret '''' else ar_eval y)) \<and>
   (LogicalOrFn name [pure_arg u a b, y] = (if u = '''' then ar_eval y else ret u)) \<and>
   (LogicalNotFn name [pure_arg u a b] = ret (truth (\<not> BooleanString u))) \<and>
   (IfElseFn name [pure_arg u a b, y, z] = (if u = '''' then ar_eval z else ar_eval y)) \<and>
   (SequenceFn name [pure_arg u a b, y] = ar_eval y) \<and>
   (EqualityFn name [pure_arg u a b, pure_arg v c d] = ret (truth (u = v))) \<and>
   (InequalityFn name [pure_arg u a b, pure_arg v c d] = ret (truth (u \<noteq> v))) \<and>
   (ConcatFn name [pure_arg u a b, pure_arg v c d] = ret (u @ v)) \<and>
   (SubstringFn name [pure_arg u a b, pure_arg v c d] = ret (truth (\<exists>xs ys. v = xs @ u @ ys)))"
  by (simp add: LogicalAndFn_def LogicalOrFn_def LogicalNotFn_def IfElseFn_def SequenceFn_def
      EqualityFn_def InequalityFn_def ConcatFn_def SubstringFn_def BooleanString_def truth_def
      strstr_iff with_args_def ret_def fun_eq_iff numeral_2_eq_2)

lemma ReadArgs_pure:
  "ReadArgs 2 [pure_arg u a b, pure_arg v c d] s = Inr (Some [u, v], s)"
  by (simp add: ReadArgs_def numeral_2_eq_2 ret_def)

lemma less_than_pure:
  "LessThanIntFn name [pure_arg u a b, pure_arg v c d] = compare_ints u v"
  by (simp add: LessThanIntFn_def with_args_def ReadArgs_pure fun_eq_iff)

text \<open>
  The numeric comparisons: on decimal numbers in the range of \<open>long\<close>, negative ones included,
  \<open>less_than_int\<close> is the order of the integers and \<open>greater_than_int\<close> its converse; numbers above
  that range are compared as \<open>LONG_MAX\<close>, and an argument that is no number makes the comparison
  false with a message on stderr.
\<close>

lemma int_comparisons:
  assumes "LONG_MIN \<le> i" "i \<le> LONG_MAX" "LONG_MIN \<le> j" "j \<le> LONG_MAX"
  shows "(LessThanIntFn name [pure_arg (show_int i) a b, pure_arg (show_int j) c d] s = ret (truth (i < j)) s) \<and>
    (GreaterThanIntFn name [pure_arg (show_int i) a b, pure_arg (show_int j) c d] s = ret (truth (i > j)) s) \<and>
    (LONG_MAX < k \<longrightarrow> LessThanIntFn name [pure_arg (show_int j) a b, pure_arg (show_int k) c d] s =
       ret (truth (j < LONG_MAX)) s) \<and>
    (snd (strtol10 u) \<noteq> [] \<longrightarrow>
       LessThanIntFn name [pure_arg u a b, pure_arg v c d] s = ret '''' (not_an_int u s))"
proof -
  have cmp: "compare_ints (show_int i) (show_int j) s = ret (truth (i < j)) s" if
    "LONG_MIN \<le> i" "i \<le> LONG_MAX" "LONG_MIN \<le> j" "j \<le> LONG_MAX" for i j
    using strtol10_show_int [of "[]" i] strtol10_show_int [of "[]" j] that
    by (simp add: compare_ints_def)
  have "compare_ints (show_int j) (show_int k) s = ret (truth (j < LONG_MAX)) s" if "LONG_MAX < k"
    using strtol10_show_int [of "[]" j] strtol10_show_big [OF that] assms
    by (simp add: compare_ints_def)
  moreover have "compare_ints u v s = ret '''' (not_an_int u s)" if "snd (strtol10 u) \<noteq> []"
    using that by (cases "strtol10 u"; cases "strtol10 v") (simp add: compare_ints_def)
  ultimately show ?thesis
    using cmp [OF assms] cmp [OF assms(3,4,1,2)]
    by (simp add: less_than_pure GreaterThanIntFn_def)
qed

theorem int_comparisons_witness:
  "LessThanIntFn ''f'' [pure_arg (show_int (-5)) 0 2, pure_arg (show_int 14) 3 5] (demo_state []) =
     ret ''t'' (demo_state [])"
  using int_comparisons [of "-5" 14 "''f''" 0 2 3 5 "demo_state []" 0 "[]" "[]"]
  by (simp add: LONG_MIN_def LONG_MAX_def truth_def)

text \<open>
  Built-in functions that do not check \<open>argc\<close> read past their arguments: \<open>is_substring\<close> with one
  argument and \<open>sleep\<close> with none are accepted by the parser and fault when evaluated.
\<close>

lemma unchecked_arity_faults:
  assumes "ar_eval x s = Inr (Some v, s')"
  shows "SubstringFn name [x] s = Inl OutOfBounds \<and> SleepFn name [] s = Inl OutOfBounds"
  using assms by (simp add: SubstringFn_def SleepFn_def ebind_def)

lemma unchecked_arity_faults_witness:
  "SubstringFn ''is_substring'' [pure_arg ''a'' 0 1] (demo_state '''') = Inl OutOfBounds"
  using unchecked_arity_faults [of "pure_arg ''a'' 0 1" "demo_state ''''" "''a''"] by (simp add: ret_def)

section \<open>The function table\<close>

lemma register_all_entries: "ft_entries (register_all fs t) = ft_entries t @ fs"
  unfolding register_all_def
  by (induction fs arbitrary: t) (auto simp: RegisterFunction_def Let_def)

text \<open>
  C18. The function table: after registering any functions under distinct names and sorting the
  table, the binary search finds exactly the function registered under a name, and nothing under
  any other name; the table never outgrows its allocation.
\<close>

theorem find_function_correct:
  assumes "distinct (map fst fs)"
  shows "FindFunction (FinishRegistration (register_all fs empty_table)) name = map_of fs name \<and>
    length (ft_entries (register_all fs empty_table)) \<le> ft_size (register_all fs (empty_table :: 'c fn_table))"
proof
  let ?t = "sort_key fst fs"
  have "sorted (map fst ?t)" by simp
  moreover have d: "distinct (map fst ?t)"
    using assms by (simp add: distinct_map)
  ultimately have "bsearch_loop ?t name 0 (length ?t) = map_of ?t name" by (rule bsearch_map_of)
  also have "map_of ?t name = map_of fs name"
    using assms d by (intro map_of_inject_set [THEN iffD2, THEN fun_cong]) simp_all
  finally show "FindFunction (FinishRegistration (register_all fs empty_table)) name = map_of fs name"
    by (simp add: FindFunction_def FinishRegistration_def register_all_entries empty_table_def)
  have "length (ft_entries t) \<le> ft_size t \<Longrightarrow>
      length (ft_entries (register_all fs t)) \<le> ft_size (register_all fs t)" for t :: "'c fn_table"
    unfolding register_all_def
    by (induction fs arbitrary: t) (auto simp: RegisterFunction_def Let_def)
  then show "length (ft_entries (register_all fs empty_table)) \<le>
      ft_size (register_all fs (empty_table :: 'c fn_table))"
    by (simp add: empty_table_def)
qed

theorem find_function_correct_witness:
  "FindFunction (FinishRegistration (register_all builtins empty_table)) ''sleep'' =
     Some (SleepFn :: unit Function)"
  using find_function_correct [of "builtins :: (string \<times> unit Function) list" "''sleep''"]
  by (simp add: builtins_def)

end
