(* ===== verification/Edify_Parser.thy ===== *)
theory Edify_Parser
  imports Edify_Expr
begin

text \<open>
  The parser of the script interpreter, \<^verbatim>\<open>src/jni/adhoc-edify/edify/y.tab.c\<close>: the automaton Bison has
  made of \<^verbatim>\<open>parser.y\<close>, with its tables, its stacks, the semantic actions and the error recovery.

  A call of \<open>yylex\<close> is the next element of the input list, a fault of the scanner an \<open>Inl\<close> in it. The
  three stacks of the C code grow and shrink together, so they are one list of frames, the top first;
  the wasted bottom element, with state 0, is left out. An access to a table outside its bounds, a pop
  of more frames than there are, and a read of a member of the union \<open>YYSTYPE\<close> other than the one that
  was written are faults. Allocation succeeds.
\<close>

section \<open>Tables\<close>

definition YYFINAL :: int where "YYFINAL = 13"
definition YYLAST :: int where "YYLAST = 129"
definition YYNTOKENS :: int where "YYNTOKENS = 21"
definition YYUNDEFTOK :: int where "YYUNDEFTOK = 2"
definition YYMAXUTOK :: int where "YYMAXUTOK = 269"
definition YYPACT_NINF :: int where "YYPACT_NINF = -16"
definition YYTABLE_NINF :: int where "YYTABLE_NINF = -18"
definition YYEMPTY :: int where "YYEMPTY = -2"
definition YYEOF :: int where "YYEOF = 0"
definition YYTERROR :: int where "YYTERROR = 1"
definition YYINITDEPTH :: nat where "YYINITDEPTH = 200"
definition YYMAXDEPTH :: nat where "YYMAXDEPTH = 10000"

lemmas yy_consts =
  YYFINAL_def YYLAST_def YYNTOKENS_def YYUNDEFTOK_def YYMAXUTOK_def YYPACT_NINF_def YYTABLE_NINF_def
  YYEMPTY_def YYEOF_def YYTERROR_def

definition yytranslate :: "int list" where
  "yytranslate = [0] @ replicate 32 2 @ [18] @ replicate 6 2 @ [19, 20, 2, 17, 16] @ replicate 14 2 @
    [15] @ replicate 196 2 @ [1, 2, 3, 4, 5, 6, 7, 8, 9, 10, 11, 12, 13, 14]"

definition yyr1 :: "int list" where
  "yyr1 = [0, 21, 22, 23, 23, 23, 23, 23, 23, 23, 23, 23, 23, 23, 23, 23, 23, 24, 24, 24]"

definition yyr2 :: "int list" where
  "yyr2 = [0, 2, 1, 1, 3, 2, 3, 3, 3, 3, 3, 3, 3, 2, 5, 7, 4, 0, 1, 3]"

definition yydefact :: "int list" where
  "yydefact = [0, 0, 0, 3, 0, 0, 0, 2, 0, 0, 0, 13, 0, 1, 0, 0, 0, 0, 0, 0, 7, 0, 18, 0, 4, 11, 12, 9, 10,
    6, 8, 0, 0, 16, 0, 14, 19, 0, 15]"

definition yydefgoto :: "int list" where
  "yydefgoto = [-1, 6, 7, 23]"

definition yypact :: "int list" where
  "yypact = [46, -11, 46, -12, 46, 46, 11, 95, 46, 74, 9, -16, 53, -16, 46, 46, 46, 46, 33, 46, 110, 46,
    95, -15, -16, 112, 108, -8, -8, 110, -16, 68, 46, -16, 46, -16, 95, 89, -16]"

definition yypgoto :: "int list" where
  "yypgoto = [-16, -16, -2, -16]"

definition yytable :: "int list" where
  "yytable = [9, 32, 11, 12, 8, 33, 20, 10, 22, 19, 1, 13, 25, 26, 27, 28, 29, 30, 2, 31, 0, 0, 3, 0, 0,
    -17, 0, 4, 5, -17, 36, 0, 37, -5, 1, 0, -5, -5, 0, 0, -5, -5, 2, -5, -5, -5, 3, 1, -5, -5,
    -5, 4, 5, -5, 0, 2, 14, 15, 0, 3, 16, 17, 0, 0, 4, 5, 0, 0, 18, 0, 19, 14, 15, 24, 0, 16,
    17, 14, 15, 34, 35, 16, 17, 18, 21, 19, 0, 0, 0, 18, 0, 19, 14, 15, 0, 0, 16, 17, 14, 15,
    0, 38, 16, 17, 18, 0, 19, 0, 0, 0, 18, 14, 19, 14, 15, 16, 17, 16, 17, 16, 17, 0, 0, 0, 0,
    19, 0, 19, 0, 19]"

definition yycheck :: "int list" where
  "yycheck = [2, 16, 4, 5, 15, 20, 8, 19, 10, 17, 1, 0, 14, 15, 16, 17, 18, 19, 9, 21, -1, -1, 13, -1,
    -1, 16, -1, 18, 19, 20, 32, -1, 34, 0, 1, -1, 3, 4, -1, -1, 7, 8, 9, 10, 11, 12, 13, 1, 15,
    16, 17, 18, 19, 20, -1, 9, 3, 4, -1, 13, 7, 8, -1, -1, 18, 19, -1, -1, 15, -1, 17, 3, 4,
    20, -1, 7, 8, 3, 4, 11, 12, 7, 8, 15, 10, 17, -1, -1, -1, 15, -1, 17, 3, 4, -1, -1, 7, 8,
    3, 4, -1, 12, 7, 8, 15, -1, 17, -1, -1, -1, 15, 3, 17, 3, 4, 7, 8, 7, 8, 7, 8, -1, -1, -1,
    -1, 17, -1, 17, -1, 17]"

definition yystos :: "int list" where
  "yystos = [0, 1, 9, 13, 18, 19, 22, 23, 15, 23, 19, 23, 23, 0, 3, 4, 7, 8, 15, 17, 23, 10, 23, 24, 20,
    23, 23, 23, 23, 23, 23, 23, 16, 20, 11, 12, 23, 23, 12]"

definition yytname :: "string list" where
  "yytname =
    [''$end'', ''error'', ''$undefined'', ''AND'', ''OR'', ''SUBSTR'', ''SUPERSTR'', ''EQ'', ''NE'', ''IF'',
     ''THEN'', ''ELSE'', ''ENDIF'', ''STRING'', ''BAD'', [CHR 0x27, CHR '';'', CHR 0x27], [CHR 0x27, CHR '','', CHR 0x27],
     [CHR 0x27, CHR ''+'', CHR 0x27], [CHR 0x27, CHR ''!'', CHR 0x27], [CHR 0x27, CHR ''('', CHR 0x27],
     [CHR 0x27, CHR '')'', CHR 0x27], ''$accept'', ''input'', ''expr'', ''arglist'']"

definition YYTRANSLATE :: "int \<Rightarrow> int" where
  "YYTRANSLATE c = (if 0 \<le> c \<and> c \<le> YYMAXUTOK then yytranslate ! nat c else YYUNDEFTOK)"

section \<open>What the tables decide\<close>

text \<open>
  The action for a state and a look-ahead: \<open>yybackup\<close> from the look-ahead on, and \<open>yydefault\<close>.
\<close>

datatype yyact = Shift int | Reduce int | Accept | Error

definition yydefault :: "int \<Rightarrow> yyact res" where
  "yydefault s = rbind (aget yydefact s) (\<lambda>n. Inr (if n = 0 then Error else Reduce n))"

definition yydecide :: "int \<Rightarrow> int \<Rightarrow> yyact res" where
  "yydecide s tok =
     rbind (aget yypact s) (\<lambda>p. let i = p + tok in
       if i < 0 \<or> YYLAST < i then yydefault s
       else rbind (aget yycheck i) (\<lambda>c.
         if c \<noteq> tok then yydefault s
         else rbind (aget yytable i) (\<lambda>n. Inr (
           if n \<le> 0 then (if n = 0 \<or> n = YYTABLE_NINF then Error else Reduce (- n))
           else if n = YYFINAL then Accept
           else Shift n))))"

text \<open>The state after a reduction to the nonterminal \<open>nt\<close> above the state \<open>s\<close>.\<close>

definition yygoto :: "int \<Rightarrow> int \<Rightarrow> int res" where
  "yygoto s nt =
     rbind (aget yypgoto (nt - YYNTOKENS)) (\<lambda>g. let i = g + s in
       if 0 \<le> i \<and> i \<le> YYLAST
       then rbind (aget yycheck i) (\<lambda>c.
              if c = s then aget yytable i else aget yydefgoto (nt - YYNTOKENS))
       else aget yydefgoto (nt - YYNTOKENS))"

text \<open>The state that the error token leads to from \<open>s\<close>, if \<open>s\<close> can handle it.\<close>

definition yyerror_shift :: "int \<Rightarrow> int option res" where
  "yyerror_shift s =
     rbind (aget yypact s) (\<lambda>p. if p = YYPACT_NINF then Inr None else let i = p + YYTERROR in
       if 0 \<le> i \<and> i \<le> YYLAST
       then rbind (aget yycheck i) (\<lambda>c.
              if c = YYTERROR then rbind (aget yytable i) (\<lambda>n. Inr (if 0 < n then Some n else None))
              else Inr None)
       else Inr None)"

section \<open>State\<close>

type_synonym YYLTYPE = "nat \<times> nat"

text \<open>The union of semantic values, with the member last written; \<open>YStr None\<close> is the null pointer.\<close>

datatype 'c YYSTYPE = YStr "string option" | YExpr "'c Expr" | YArgs "'c Expr list" | YGarbage

text \<open>What a call of the scanner returns and leaves in the globals.\<close>

record lexeme =
  lx_char :: int
  lx_lval :: "string option"
  lx_lloc :: YYLTYPE
  lx_line :: nat
  lx_col :: nat

type_synonym 'c frame = "int \<times> 'c YYSTYPE \<times> YYLTYPE"

record 'c parser =
  yystack :: "'c frame list"
  yystacksize :: nat
  yyerrstatus :: nat
  yychar :: int
  yyglobals :: lexeme
  yyinput :: "lexeme res list"
  root :: "'c Expr option"
  error_count :: nat
  yyprinted :: "string list"

fun top_state :: "'c frame list \<Rightarrow> int" where
  "top_state [] = 0"
| "top_state ((s, v, l) # stk) = s"

definition yystate :: "'c parser \<Rightarrow> int" where
  "yystate p = top_state (yystack p)"

text \<open>One round of the parser: it goes on with a state just pushed, or returns.\<close>

datatype 'c move = Go "'c parser" | Halt nat "'c parser"

definition yypush :: "int \<Rightarrow> 'c YYSTYPE \<Rightarrow> YYLTYPE \<Rightarrow> 'c parser \<Rightarrow> 'c move" where
  "yypush s v l p = Go (p\<lparr>yystack := (s, v, l) # yystack p\<rparr>)"

section \<open>Errors\<close>

definition yyerror :: "string \<Rightarrow> 'c parser \<Rightarrow> 'c parser" where
  "yyerror s p =
     (let msg = (if s = [] then ''syntax error'' else s) in
      p\<lparr>yyprinted := yyprinted p @
          [''line '' @ show_nat (lx_line (yyglobals p)) @ '' col '' @ show_nat (lx_col (yyglobals p)) @ '': '' @ msg @ [newline]],
        error_count := Suc (error_count p)\<rparr>)"

text \<open>
  \<open>yytnamerr\<close>: the name of a symbol without unnecessary quotes. A name that opens a quote and never
  closes it would be read past its end.
\<close>

fun strip_quotes :: "string \<Rightarrow> string \<Rightarrow> string option res" where
  "strip_quotes acc [] = Inl OutOfBounds"
| "strip_quotes acc (c # cs) =
     (if c = CHR 0x27 \<or> c = CHR '','' then Inr None
      else if c = CHR 0x5C then
        (case cs of [] \<Rightarrow> Inr None
         | d # ds \<Rightarrow> if d \<noteq> CHR 0x5C then Inr None else strip_quotes (acc @ [d]) ds)
      else if c = CHR 0x22 then Inr (Some acc)
      else strip_quotes (acc @ [c]) cs)"

definition yytnamerr :: "string \<Rightarrow> string res" where
  "yytnamerr name =
     (if name \<noteq> [] \<and> hd name = CHR 0x22
      then rbind (strip_quotes [] (tl name)) (\<lambda>r. Inr (case r of Some t \<Rightarrow> t | None \<Rightarrow> name))
      else Inr name)"

definition yysymname :: "int \<Rightarrow> string res" where
  "yysymname x = rbind (aget yytname x) yytnamerr"

text \<open>The tokens a state expects, none if there are more than four.\<close>

fun yyexpected :: "int \<Rightarrow> int list \<Rightarrow> int list \<Rightarrow> int list res" where
  "yyexpected n [] args = Inr args"
| "yyexpected n (x # xs) args =
     rbind (aget yycheck (x + n)) (\<lambda>c.
       if c = x \<and> x \<noteq> YYTERROR
       then (if Suc (length args) = 5 then Inr [] else yyexpected n xs (args @ [x]))
       else yyexpected n xs args)"

definition unexpected_fmt :: string where "unexpected_fmt = ''syntax error, unexpected ''"
definition expecting_fmt :: string where "expecting_fmt = '', expecting ''"
definition or_fmt :: string where "or_fmt = '' or ''"

fun expecting_text :: "string \<Rightarrow> string list \<Rightarrow> string" where
  "expecting_text pre [] = []"
| "expecting_text pre (a # as) = pre @ a @ expecting_text or_fmt as"

text \<open>
  \<open>yysyntax_error\<close>: the number of bytes it asks for, which counts the two characters of each \<open>%s\<close>, and
  the message; no bytes if a plain message will do.
\<close>

definition yysyntax_error :: "int \<Rightarrow> int \<Rightarrow> (nat \<times> string) res" where
  "yysyntax_error s c =
     rbind (aget yypact s) (\<lambda>n.
       if \<not> (YYPACT_NINF < n \<and> n \<le> YYLAST) then Inr (0, [])
       else
         let yyxbegin = (if n < 0 then - n else 0);
             yychecklim = YYLAST - n + 1;
             yyxend = (if yychecklim < YYNTOKENS then yychecklim else YYNTOKENS)
         in rbind (yysymname (YYTRANSLATE c)) (\<lambda>unexp.
            rbind (yyexpected n [yyxbegin .. yyxend - 1] []) (\<lambda>args.
            rbind (rmap yysymname args) (\<lambda>names.
              let msg = unexpected_fmt @ unexp @ expecting_text expecting_fmt names
              in Inr (length msg + 2 * Suc (length names), msg)))))"

text \<open>
  \<open>yyerrlab1\<close>: pop states that cannot handle the error token, then shift it. \<open>r0\<close> is
  \<open>yyerror_range[0]\<close>.
\<close>

fun yyerrpop :: "'c frame list \<Rightarrow> YYLTYPE \<Rightarrow> ('c frame list \<times> int \<times> YYLTYPE) option res" where
  "yyerrpop [] r0 =
     rbind (yyerror_shift 0) (\<lambda>e. Inr (case e of Some n \<Rightarrow> Some ([], n, r0) | None \<Rightarrow> None))"
| "yyerrpop ((s, v, l) # stk) r0 =
     rbind (yyerror_shift s) (\<lambda>e. case e of Some n \<Rightarrow> Inr (Some ((s, v, l) # stk, n, r0)) | None \<Rightarrow> yyerrpop stk l)"

definition yyerrlab1 :: "YYLTYPE \<Rightarrow> 'c parser \<Rightarrow> 'c move res" where
  "yyerrlab1 r0 p =
     rbind (yyerrpop (yystack p) r0) (\<lambda>r. case r of
         None \<Rightarrow> Inr (Halt 1 (p\<lparr>yyerrstatus := 3, yystack := []\<rparr>))
       | Some (stk, n, r0') \<Rightarrow>
           let p' = p\<lparr>yyerrstatus := 3, yystack := stk\<rparr> in
           if n = YYFINAL then Inr (Halt 0 p')
           else Inr (yypush n (YStr (lx_lval (yyglobals p))) (fst r0', snd (lx_lloc (yyglobals p))) p'))"

text \<open>The report of a syntax error; a buffer larger than the 128 bytes at hand is allocated.\<close>

definition yyreport :: "'c parser \<Rightarrow> 'c parser res" where
  "yyreport p =
     rbind (yysyntax_error (yystate p) (yychar p)) (\<lambda>(yysize, msg).
       Inr (if 0 < yysize then yyerror msg p else yyerror ''syntax error'' p))"

definition yyerrlab :: "'c parser \<Rightarrow> 'c move res" where
  "yyerrlab p =
     rbind (if yyerrstatus p = 0 then yyreport p else Inr p) (\<lambda>p.
       if yyerrstatus p = 3
       then (if yychar p \<le> YYEOF
             then (if yychar p = YYEOF then Inr (Halt 1 p) else yyerrlab1 (lx_lloc (yyglobals p)) p)
             else yyerrlab1 (lx_lloc (yyglobals p)) (p\<lparr>yychar := YYEMPTY\<rparr>))
       else yyerrlab1 (lx_lloc (yyglobals p)) p)"

section \<open>Reductions\<close>

fun v_str :: "'c YYSTYPE \<Rightarrow> string res" where
  "v_str (YStr (Some s)) = Inr s"
| "v_str (YStr None) = Inl NullDeref"
| "v_str _ = Inl Uninitialised"

fun v_expr :: "'c YYSTYPE \<Rightarrow> 'c Expr res" where
  "v_expr (YExpr e) = Inr e"
| "v_expr _ = Inl Uninitialised"

fun v_args :: "'c YYSTYPE \<Rightarrow> 'c Expr list res" where
  "v_args (YArgs es) = Inr es"
| "v_args _ = Inl Uninitialised"

fun set_place :: "YYLTYPE \<Rightarrow> 'c Expr \<Rightarrow> 'c Expr" where
  "set_place l (Expr fn name argv s e) = Expr fn name argv (fst l) (snd l)"

text \<open>What an action does: \<open>$$\<close> gets a value, \<open>*root\<close> is set, or the call is of an unknown function.\<close>

datatype 'c action_result = Yields "'c YYSTYPE" | SetsRoot "'c Expr" | YYERROR string

definition build2 :: "'c Function \<Rightarrow> YYLTYPE \<Rightarrow> 'c YYSTYPE \<Rightarrow> 'c YYSTYPE \<Rightarrow> 'c action_result res" where
  "build2 fn l a b = rbind (v_expr a) (\<lambda>x. rbind (v_expr b) (\<lambda>y. Inr (Yields (YExpr (Build fn l [x, y])))))"

text \<open>
  The \<open>switch\<close> of \<open>yyreduce\<close>: \<open>vs\<close> and \<open>ls\<close> are the values and places of the symbols of the rule,
  from \<open>$1\<close> on, \<open>l\<close> is \<open>@$\<close> and \<open>v\<close> the default value.
\<close>

definition yyaction ::
  "(string \<Rightarrow> 'c Function option) \<Rightarrow> int \<Rightarrow> 'c YYSTYPE list \<Rightarrow> YYLTYPE list \<Rightarrow> YYLTYPE \<Rightarrow> 'c YYSTYPE \<Rightarrow>
   'c action_result res" where
  "yyaction find_fn n vs ls l v =
     (if n = 2 then rbind (v_expr (vs ! 0)) (\<lambda>e. Inr (SetsRoot e))
      else if n = 3 then rbind (v_str (vs ! 0)) (\<lambda>s. Inr (Yields (YExpr (Expr Literal s [] (fst l) (snd l)))))
      else if n = 4 then rbind (v_expr (vs ! 1)) (\<lambda>e. Inr (Yields (YExpr (set_place l e))))
      else if n = 5 then rbind (v_expr (vs ! 0)) (\<lambda>e. Inr (Yields (YExpr (set_place (ls ! 0) e))))
      else if n = 6 then build2 SequenceFn l (vs ! 0) (vs ! 2)
      else if n = 7 then rbind (v_expr (vs ! 2)) (\<lambda>e. Inr (Yields (YExpr (set_place l e))))
      else if n = 8 then build2 ConcatFn l (vs ! 0) (vs ! 2)
      else if n = 9 then build2 EqualityFn l (vs ! 0) (vs ! 2)
      else if n = 10 then build2 InequalityFn l (vs ! 0) (vs ! 2)
      else if n = 11 then build2 LogicalAndFn l (vs ! 0) (vs ! 2)
      else if n = 12 then build2 LogicalOrFn l (vs ! 0) (vs ! 2)
      else if n = 13 then rbind (v_expr (vs ! 1)) (\<lambda>e. Inr (Yields (YExpr (Build LogicalNotFn l [e]))))
      else if n = 14 then build2 IfElseFn l (vs ! 1) (vs ! 3)
      else if n = 15 then
        rbind (v_expr (vs ! 1)) (\<lambda>c. rbind (v_expr (vs ! 3)) (\<lambda>t. rbind (v_expr (vs ! 5)) (\<lambda>e.
          Inr (Yields (YExpr (Build IfElseFn l [c, t, e]))))))
      else if n = 16 then
        rbind (v_str (vs ! 0)) (\<lambda>name.
          case find_fn name of
            None \<Rightarrow> Inr (YYERROR (take 255 (''unknown function '' @ [CHR 0x22] @ name @ [CHR 0x22])))
          | Some fn \<Rightarrow> rbind (v_args (vs ! 2)) (\<lambda>argv. Inr (Yields (YExpr (Expr fn name argv (fst l) (snd l))))))
      else if n = 17 then Inr (Yields (YArgs []))
      else if n = 18 then rbind (v_expr (vs ! 0)) (\<lambda>e. Inr (Yields (YArgs [e])))
      else if n = 19 then
        rbind (v_args (vs ! 0)) (\<lambda>argv. rbind (v_expr (vs ! 2)) (\<lambda>e. Inr (Yields (YArgs (argv @ [e])))))
      else Inr (Yields v))"

text \<open>\<open>YYLLOC_DEFAULT\<close> on the places of the symbols of a rule; \<open>below\<close> are the places under them.\<close>

definition YYLLOC_DEFAULT :: "YYLTYPE list \<Rightarrow> YYLTYPE list \<Rightarrow> YYLTYPE res" where
  "YYLLOC_DEFAULT ls below =
     (if ls \<noteq> [] then Inr (fst (hd ls), snd (last ls))
      else if below \<noteq> [] then Inr (hd below)
      else Inl Uninitialised)"

definition frame_val :: "'c frame \<Rightarrow> 'c YYSTYPE" where "frame_val f = fst (snd f)"
definition frame_loc :: "'c frame \<Rightarrow> YYLTYPE" where "frame_loc f = snd (snd f)"

definition yyreduce :: "(string \<Rightarrow> 'c Function option) \<Rightarrow> int \<Rightarrow> 'c parser \<Rightarrow> 'c move res" where
  "yyreduce find_fn n p =
     rbind (aget yyr2 n) (\<lambda>yylen.
     if length (yystack p) < nat yylen then Inl OutOfBounds
     else
       let rhs = rev (take (nat yylen) (yystack p));
           rest = drop (nat yylen) (yystack p);
           vs = map frame_val rhs; ls = map frame_loc rhs;
           v = (if vs = [] then YGarbage else hd vs)
       in rbind (YYLLOC_DEFAULT ls (map frame_loc rest)) (\<lambda>l.
          rbind (yyaction find_fn n vs ls l v) (\<lambda>a.
          case a of
            YYERROR msg \<Rightarrow> yyerrlab1 (ls ! 0) (yyerror msg p\<lparr>yystack := rest\<rparr>)
          | _ \<Rightarrow>
            rbind (aget yyr1 n) (\<lambda>nt. rbind (yygoto (top_state rest) nt) (\<lambda>s.
              Inr (case a of
                  SetsRoot e \<Rightarrow> yypush s v l (p\<lparr>yystack := rest, root := Some e\<rparr>)
                | Yields v' \<Rightarrow> yypush s v' l (p\<lparr>yystack := rest\<rparr>)))))))"

section \<open>The loop\<close>

text \<open>\<open>yysetstate\<close>: extend the stack if it is full.\<close>

definition yysetstate :: "'c parser \<Rightarrow> 'c move" where
  "yysetstate p =
     (if yystacksize p - 1 \<le> length (yystack p)
      then if YYMAXDEPTH \<le> yystacksize p then Halt 2 (yyerror ''memory exhausted'' p)
           else let n = min YYMAXDEPTH (yystacksize p * 2); p' = p\<lparr>yystacksize := n\<rparr> in
                if n - 1 \<le> length (yystack p) then Halt 1 p' else Go p'
      else Go p)"

text \<open>Read a look-ahead token if there is none; the end of the input stays.\<close>

definition yylookahead :: "'c parser \<Rightarrow> 'c parser res" where
  "yylookahead p =
     rbind (if yychar p = YYEMPTY
            then (case yyinput p of
                    [] \<Rightarrow> Inr (p\<lparr>yychar := YYEOF\<rparr>)
                  | Inl f # _ \<Rightarrow> Inl f
                  | Inr x # xs \<Rightarrow> Inr (p\<lparr>yychar := lx_char x, yyglobals := x, yyinput := xs\<rparr>))
            else Inr p) (\<lambda>p. Inr (if yychar p \<le> YYEOF then p\<lparr>yychar := YYEOF\<rparr> else p))"

definition yyshift :: "int \<Rightarrow> 'c parser \<Rightarrow> 'c move" where
  "yyshift s p =
     yypush s (YStr (lx_lval (yyglobals p))) (lx_lloc (yyglobals p))
       (p\<lparr>yyerrstatus := yyerrstatus p - 1, yychar := (if yychar p \<noteq> YYEOF then YYEMPTY else YYEOF)\<rparr>)"

definition yyperform :: "(string \<Rightarrow> 'c Function option) \<Rightarrow> yyact \<Rightarrow> 'c parser \<Rightarrow> 'c move res" where
  "yyperform find_fn a p =
     (case a of
        Shift s \<Rightarrow> Inr (yyshift s p)
      | Reduce n \<Rightarrow> yyreduce find_fn n p
      | Accept \<Rightarrow> Inr (Halt 0 p)
      | Error \<Rightarrow> yyerrlab p)"

definition yybackup :: "(string \<Rightarrow> 'c Function option) \<Rightarrow> 'c parser \<Rightarrow> 'c move res" where
  "yybackup find_fn p =
     rbind (aget yypact (yystate p)) (\<lambda>n.
       if n = YYPACT_NINF then rbind (yydefault (yystate p)) (\<lambda>a. yyperform find_fn a p)
       else rbind (yylookahead p) (\<lambda>p.
         rbind (yydecide (yystate p) (YYTRANSLATE (yychar p))) (\<lambda>a. yyperform find_fn a p)))"

definition yystep :: "(string \<Rightarrow> 'c Function option) \<Rightarrow> 'c parser \<Rightarrow> 'c move res" where
  "yystep find_fn p = (case yysetstate p of Halt r p' \<Rightarrow> Inr (Halt r p') | Go p' \<Rightarrow> yybackup find_fn p')"

partial_function (option) yyrun ::
  "(string \<Rightarrow> 'c Function option) \<Rightarrow> 'c parser \<Rightarrow> (nat \<times> 'c parser) res option" where
  "yyrun find_fn p =
     (case yystep find_fn p of
        Inl f \<Rightarrow> Some (Inl f)
      | Inr m \<Rightarrow> (case m of Halt r p' \<Rightarrow> Some (Inr (r, p')) | Go p' \<Rightarrow> yyrun find_fn p'))"

declare yyrun.simps [code]

definition yyinit :: "lexeme \<Rightarrow> lexeme res list \<Rightarrow> 'c parser" where
  "yyinit globals input =
     \<lparr>yystack = [], yystacksize = YYINITDEPTH, yyerrstatus = 0, yychar = YYEMPTY, yyglobals = globals,
      yyinput = input, root = None, error_count = 0, yyprinted = []\<rparr>"

definition yyparse ::
  "(string \<Rightarrow> 'c Function option) \<Rightarrow> lexeme \<Rightarrow> lexeme res list \<Rightarrow> (nat \<times> 'c parser) res option" where
  "yyparse find_fn globals input = yyrun find_fn (yyinit globals input)"

end
