(* ===== verification/Edify_Lexer.thy ===== *)
theory Edify_Lexer
  imports Edify_Parser
begin

text \<open>
  The scanner of the scripts, \<^verbatim>\<open>src/jni/adhoc-edify/edify/lex.yy.c\<close>: the automaton Flex has made of
  \<^verbatim>\<open>lexer.l\<close>, with its compressed tables, the search for the longest match and the actions.

  The text is scanned from memory, so the end of the buffer is the end of the script, where the scanner
  acts on what it has matched so far. The position \<open>yy_c_buf_p\<close> is the list of characters from there on.
  A store behind the last element of \<open>string_buffer\<close> is a fault.
\<close>

section \<open>Tables\<close>

definition yy_accept :: "int list" where
  "yy_accept = [0, 0, 0, 0, 0, 24, 22, 20, 21, 19, 1, 22, 22, 19, 14, 22, 14, 14, 14, 22, 9, 8, 9, 2, 9, 20,
    18, 0, 21, 15, 14, 17, 14, 14, 10, 14, 16, 8, 5, 6, 3, 4, 0, 14, 14, 14, 0, 12, 14, 11, 7, 13,
    0]"

definition yy_ec :: "int list" where
  "yy_ec = [0, 1, 1, 1, 1, 1, 1, 1, 1, 2, 3, 1, 1, 4, 1, 1, 1, 1, 1, 1, 1, 1, 1, 1, 1, 1, 1, 1, 1, 1, 1, 1,
    2, 5, 6, 7, 1, 1, 8, 1, 9, 9, 1, 9, 9, 1, 10, 10, 11, 11, 11, 11, 11, 11, 11, 11, 11, 11, 10,
    9, 1, 12, 1, 1, 1, 11, 11, 11, 11, 11, 11, 10, 10, 10, 10, 10, 10, 10, 10, 10, 10, 10, 10, 10,
    10, 10, 10, 10, 10, 10, 10, 1, 13, 1, 1, 10, 1, 11, 11, 11, 14, 15, 16, 10, 17, 18, 10, 10, 19,
    10, 20, 10, 10, 10, 10, 21, 22, 10, 10, 10, 23, 10, 10, 1, 24, 1, 1] @ replicate 129 1"

definition yy_meta :: "int list" where
  "yy_meta = [0, 1, 1, 1, 1, 1, 1, 1, 1, 1, 2, 3, 1, 1, 3, 3, 3, 2, 2, 2, 2, 2, 2, 2, 1]"

definition yy_base :: "int list" where
  "yy_base = [0, 0, 0, 22, 33, 57, 73, 54, 73, 43, 73, 50, 44, 73, 0, 39, 10, 34, 32, 24, 73, 73, 42, 73, 41,
    42, 73, 40, 73, 73, 0, 73, 21, 27, 0, 25, 73, 73, 73, 73, 73, 73, 0, 23, 16, 13, 0, 0, 16, 0,
    73, 0, 73, 64, 67, 69, 28, 24]"

definition yy_def :: "int list" where
  "yy_def = [0, 52, 1, 53, 53, 52, 52, 52, 52, 52, 52, 54, 52, 52, 55, 52, 55, 55, 55, 52, 52, 52, 52, 52,
    52, 52, 52, 54, 52, 52, 55, 52, 55, 55, 55, 55, 52, 52, 52, 52, 52, 52, 56, 55, 55, 55, 57, 55,
    55, 55, 52, 55, 0, 52, 52, 52, 52, 52]"

definition yy_nxt :: "int list" where
  "yy_nxt = [0, 6, 7, 8, 6, 9, 10, 11, 12, 13, 14, 14, 15, 6, 14, 16, 14, 14, 17, 14, 14, 14, 18, 14, 19,
    21, 22, 50, 23, 32, 33, 46, 51, 49, 48, 24, 21, 22, 47, 23, 45, 44, 43, 28, 25, 37, 24, 38, 36,
    35, 34, 31, 29, 28, 39, 26, 25, 52, 52, 52, 52, 40, 52, 41, 42, 20, 20, 20, 27, 27, 27, 30, 30,
    5, 52, 52, 52, 52, 52, 52, 52, 52, 52, 52, 52, 52, 52, 52, 52, 52, 52, 52, 52, 52, 52, 52, 52,
    52]"

definition yy_chk :: "int list" where
  "yy_chk = [0, 1, 1, 1, 1, 1, 1, 1, 1, 1, 1, 1, 1, 1, 1, 1, 1, 1, 1, 1, 1, 1, 1, 1, 1, 3, 3, 57, 3, 16, 16,
    56, 48, 45, 44, 3, 4, 4, 43, 4, 35, 33, 32, 27, 25, 22, 4, 24, 19, 18, 17, 15, 12, 11, 24, 9,
    7, 5, 0, 0, 0, 24, 0, 24, 24, 53, 53, 53, 54, 54, 54, 55, 55, 52, 52, 52, 52, 52, 52, 52, 52,
    52, 52, 52, 52, 52, 52, 52, 52, 52, 52, 52, 52, 52, 52, 52, 52, 52]"

text \<open>The class of a character; a null byte inside the text is as any other character.\<close>

definition yy_class :: "char \<Rightarrow> int" where
  "yy_class c = (if c = nul then 1 else yy_ec ! of_char c)"

text \<open>
  The next state: entries that are not the state's own are looked up in its default state. Four
  look-ups are enough for every state.
\<close>

fun yy_next_n :: "nat \<Rightarrow> int \<Rightarrow> int \<Rightarrow> int res" where
  "yy_next_n 0 s c = Inl Diverges"
| "yy_next_n (Suc n) s c =
     rbind (aget yy_base s) (\<lambda>b. rbind (aget yy_chk (b + c)) (\<lambda>k.
       if k \<noteq> s
       then rbind (aget yy_def s) (\<lambda>s'.
              if s' \<ge> 53 then rbind (aget yy_meta c) (\<lambda>c'. yy_next_n n s' c') else yy_next_n n s' c)
       else aget yy_nxt (b + c)))"

definition yy_next :: "int \<Rightarrow> int \<Rightarrow> int res" where
  "yy_next s c = yy_next_n 4 s c"

section \<open>The longest match\<close>

text \<open>
  The rule and the length of the text matched. \<open>k\<close> characters are matched so far, \<open>acc\<close> is the acc
  accepting state with its position.
\<close>

definition yy_find_action :: "int \<Rightarrow> nat \<Rightarrow> (int \<times> nat) option \<Rightarrow> (int \<times> nat) res" where
  "yy_find_action s k acc =
     rbind (aget yy_accept s) (\<lambda>act.
       if act = 0
       then (case acc of None \<Rightarrow> Inl Uninitialised | Some (s', k') \<Rightarrow> rbind (aget yy_accept s') (\<lambda>act'. Inr (act', k')))
       else Inr (act, k))"

fun yy_match :: "int \<Rightarrow> string \<Rightarrow> nat \<Rightarrow> (int \<times> nat) option \<Rightarrow> (int \<times> nat) res" where
  "yy_match s [] k acc = yy_find_action s k acc"
| "yy_match s (c # cs) k acc =
     rbind (aget yy_accept s) (\<lambda>act. let acc' = (if act \<noteq> 0 then Some (s, k) else acc) in
     rbind (yy_next s (yy_class c)) (\<lambda>s'.
     rbind (aget yy_base s') (\<lambda>b.
       if b = 73 then yy_find_action s' (Suc k) acc' else yy_match s' cs (Suc k) acc')))"

section \<open>Actions\<close>

definition MAX_STRING_LEN :: nat where "MAX_STRING_LEN = 1024"

text \<open>The globals: \<open>string_buffer\<close> holds the characters up to \<open>string_pos\<close>.\<close>

record lexer =
  yy_start :: int
  yy_text :: string
  gLine :: nat
  gColumn :: nat
  gPos :: nat
  string_buffer :: string
  yylval :: "string option"
  yylloc :: YYLTYPE

definition lexer_init :: "string \<Rightarrow> lexer" where
  "lexer_init text =
     \<lparr>yy_start = 1, yy_text = text, gLine = 1, gColumn = 1, gPos = 0, string_buffer = [], yylval = None, yylloc = (0, 0)\<rparr>"

text \<open>\<open>yy_scan_string\<close>: a new text for the scanner, up to its terminator; the other globals stay.\<close>

definition yy_scan_string :: "string \<Rightarrow> lexer \<Rightarrow> lexer" where
  "yy_scan_string s L = L\<lparr>yy_text := takeWhile (\<lambda>c. c \<noteq> nul) s\<rparr>"

datatype scanned = Scans lexer | Returns int lexer

definition ADVANCE :: "nat \<Rightarrow> lexer \<Rightarrow> lexer" where
  "ADVANCE yyleng L =
     L\<lparr>yylloc := (gPos L, gPos L + yyleng), gColumn := gColumn L + yyleng, gPos := gPos L + yyleng\<rparr>"

definition moves :: "nat \<Rightarrow> lexer \<Rightarrow> lexer" where
  "moves n L = L\<lparr>gColumn := gColumn L + n, gPos := gPos L + n\<rparr>"

definition put_char :: "char \<Rightarrow> lexer \<Rightarrow> scanned res" where
  "put_char c L =
     (if length (string_buffer L) < MAX_STRING_LEN then Inr (Scans (L\<lparr>string_buffer := string_buffer L @ [c]\<rparr>))
      else Inl OutOfBounds)"

definition cstr :: "string \<Rightarrow> string" where
  "cstr s = takeWhile (\<lambda>c. c \<noteq> nul) s"

text \<open>The \<open>switch\<close> of \<open>yylex\<close>, on the text \<open>yytext\<close> the rule has matched.\<close>

definition yy_do_action :: "int \<Rightarrow> string \<Rightarrow> lexer \<Rightarrow> scanned res" where
  "yy_do_action act yytext L =
     (let n = length yytext in
      if act = 1 then Inr (Scans (moves 1 (L\<lparr>yy_start := 3, string_buffer := [], yylloc := (gPos L, snd (yylloc L))\<rparr>)))
      else if act = 2 then
        (if length (string_buffer L) < MAX_STRING_LEN
         then let L' = moves 1 L in
              Inr (Returns 268 (L'\<lparr>yy_start := 1, yylval := Some (cstr (string_buffer L)), yylloc := (fst (yylloc L), gPos L')\<rparr>))
         else Inl OutOfBounds)
      else if act = 3 then put_char newline (moves n L)
      else if act = 4 then put_char (CHR 0x09) (moves n L)
      else if act = 5 then put_char (CHR 0x22) (moves n L)
      else if act = 6 then put_char (CHR 0x5C) (moves n L)
      else if act = 7 then put_char (char_of (digits_base 16 0 (drop 2 yytext))) (moves n L)
      else if act = 8 then put_char (hd yytext) (L\<lparr>gLine := gLine L + 1, gPos := gPos L + 1, gColumn := 1\<rparr>)
      else if act = 9 then put_char (hd yytext) (moves 1 L)
      else if act = 10 then Inr (Returns 264 (ADVANCE n L))
      else if act = 11 then Inr (Returns 265 (ADVANCE n L))
      else if act = 12 then Inr (Returns 266 (ADVANCE n L))
      else if act = 13 then Inr (Returns 267 (ADVANCE n L))
      else if act = 14 then Inr (Returns 268 ((ADVANCE n L)\<lparr>yylval := Some yytext\<rparr>))
      else if act = 15 then Inr (Returns 258 (ADVANCE n L))
      else if act = 16 then Inr (Returns 259 (ADVANCE n L))
      else if act = 17 then Inr (Returns 262 (ADVANCE n L))
      else if act = 18 then Inr (Returns 263 (ADVANCE n L))
      else if act = 19 then Inr (Returns (of_char (hd yytext)) (ADVANCE n L))
      else if act = 20 then Inr (Scans (ADVANCE n L))
      else if act = 21 then Inr (Scans (L\<lparr>gPos := gPos L + n, gLine := gLine L + 1, gColumn := 1\<rparr>))
      else if act = 22 then Inr (Returns 269 L)
      else Inl AssertFailed)"

text \<open>
  \<open>yylex\<close>: scan until an action returns; the end of the text is the token 0. A match that is empty would be
  repeated for ever.
\<close>

definition yy_once :: "lexer \<Rightarrow> scanned res" where
  "yy_once L =
     rbind (yy_match (yy_start L) (yy_text L) 0 None) (\<lambda>(act, n).
       yy_do_action act (take n (yy_text L)) (L\<lparr>yy_text := drop n (yy_text L)\<rparr>))"

function yylex :: "lexer \<Rightarrow> (int \<times> lexer) res" where
  "yylex L =
     (if yy_text L = [] then Inr (0, L)
      else case yy_once L of
          Inl e \<Rightarrow> Inl e
        | Inr (Returns t L') \<Rightarrow> Inr (t, L')
        | Inr (Scans L') \<Rightarrow> if length (yy_text L') < length (yy_text L) then yylex L' else Inl Diverges)"
  by pat_completeness auto

termination
  by (relation "measure (\<lambda>L. length (yy_text L))") auto

declare yylex.simps [simp del]

definition lexeme_of :: "int \<Rightarrow> lexer \<Rightarrow> lexeme" where
  "lexeme_of t L = \<lparr>lx_char = t, lx_lval = yylval L, lx_lloc = yylloc L, lx_line = gLine L, lx_col = gColumn L\<rparr>"

text \<open>
  The calls of \<open>yylex\<close> up to the end of the text, as the parser makes them, and the globals after
  a number of calls.
\<close>

function lexemes :: "lexer \<Rightarrow> lexeme res list" where
  "lexemes L =
     (case yylex L of
        Inl e \<Rightarrow> [Inl e]
      | Inr (t, L') \<Rightarrow>
          if t = 0 \<or> \<not> length (yy_text L') < length (yy_text L) then [Inr (lexeme_of t L')]
          else Inr (lexeme_of t L') # lexemes L')"
  by pat_completeness auto

termination
  by (relation "measure (\<lambda>L. length (yy_text L))") auto

declare lexemes.simps [simp del]

primrec lex_calls :: "nat \<Rightarrow> lexer \<Rightarrow> lexer" where
  "lex_calls 0 L = L"
| "lex_calls (Suc n) L = (case yylex L of Inl e \<Rightarrow> L | Inr (t, L') \<Rightarrow> lex_calls n L')"

end
