(* ===== verification/Edify_Scan.thy ===== *)
theory Edify_Scan
  imports Edify_Lexer
begin

text \<open>
  The scanner refines the rules of \<^verbatim>\<open>src/jni/adhoc-edify/edify/lexer.l\<close>: \<open>scan_rule\<close> states, without tables,
  which rule matches at a position and how much text, and the automaton computes it. The scanner always
  returns, and its only fault is the store behind the end of \<open>string_buffer\<close>.
\<close>

section \<open>The rules\<close>

definition isword :: "char \<Rightarrow> bool" where
  "isword c \<longleftrightarrow> (let n = of_char c :: int in
     48 \<le> n \<and> n \<le> 57 \<or> 65 \<le> n \<and> n \<le> 90 \<or> 97 \<le> n \<and> n \<le> 122 \<or> n = 95 \<or> n = 58 \<or> n = 47 \<or> n = 46)"

definition ishex :: "char \<Rightarrow> bool" where
  "ishex c \<longleftrightarrow> (let n = of_char c :: int in 48 \<le> n \<and> n \<le> 57 \<or> 65 \<le> n \<and> n \<le> 70 \<or> 97 \<le> n \<and> n \<le> 102)"

definition isblank :: "char \<Rightarrow> bool" where
  "isblank c \<longleftrightarrow> c = CHR 0x20 \<or> c = CHR 0x09"

definition keyword_rule :: "string \<Rightarrow> int" where
  "keyword_rule w = (if w = ''if'' then 10 else if w = ''then'' then 11 else if w = ''else'' then 12
     else if w = ''endif'' then 13 else 14)"

text \<open>The rule and the length of its match, outside and inside a string literal.\<close>

fun initial_rule :: "string \<Rightarrow> int \<times> nat" where
  "initial_rule [] = (0, 0)"
| "initial_rule (c # cs) =
     (if isword c then (let w = takeWhile isword (c # cs) in (keyword_rule w, length w))
      else if isblank c then (20, length (takeWhile isblank (c # cs)))
      else if c = newline then (21, 1)
      else if c = CHR 0x22 then (1, 1)
      else if c = CHR ''#'' then
        (let l = takeWhile (\<lambda>d. d \<noteq> newline) cs in if length l < length cs then (21, length l + 2) else (22, 1))
      else if c = CHR 0x26 \<and> cs \<noteq> [] \<and> hd cs = CHR 0x26 then (15, 2)
      else if c = CHR ''|'' \<and> cs \<noteq> [] \<and> hd cs = CHR ''|'' then (16, 2)
      else if c = CHR ''='' \<and> cs \<noteq> [] \<and> hd cs = CHR ''='' then (17, 2)
      else if c = CHR ''!'' \<and> cs \<noteq> [] \<and> hd cs = CHR ''='' then (18, 2)
      else if c \<in> set ''+(),!;'' then (19, 1)
      else (22, 1))"

fun string_rule :: "string \<Rightarrow> int \<times> nat" where
  "string_rule [] = (0, 0)"
| "string_rule (c # cs) =
     (if c = CHR 0x22 then (2, 1)
      else if c = newline then (8, 1)
      else if c = CHR 0x0D \<and> cs \<noteq> [] \<and> hd cs = newline then (8, 2)
      else if c = CHR 0x5C then
        (case cs of [] \<Rightarrow> (9, 1)
         | d # ds \<Rightarrow>
           if d = CHR ''n'' then (3, 2) else if d = CHR ''t'' then (4, 2) else if d = CHR 0x22 then (5, 2)
           else if d = CHR 0x5C then (6, 2)
           else if d = CHR ''x'' \<and> 2 \<le> length ds \<and> ishex (ds ! 0) \<and> ishex (ds ! 1) then (7, 4)
           else (9, 1))
      else (9, 1))"

section \<open>The automaton\<close>

text \<open>The classes of the characters, read off the table.\<close>

definition cls :: "int \<Rightarrow> int" where
  "cls k = (if k = 0 then 0 else if k = 9 \<or> k = 32 then 2 else if k = 10 then 3 else if k = 13 then 4 else if k = 33 then 5
     else if k = 34 then 6 else if k = 35 then 7 else if k = 38 then 8
     else if k = 40 \<or> k = 41 \<or> k = 43 \<or> k = 44 \<or> k = 59 then 9 else if k = 61 then 12 else if k = 92 then 13
     else if k = 100 then 14 else if k = 101 then 15 else if k = 102 then 16 else if k = 104 then 17 else if k = 105 then 18
     else if k = 108 then 19 else if k = 110 then 20 else if k = 115 then 21 else if k = 116 then 22 else if k = 120 then 23
     else if k = 124 then 24 else if 48 \<le> k \<and> k \<le> 57 \<or> 65 \<le> k \<and> k \<le> 70 \<or> 97 \<le> k \<and> k \<le> 99 then 11
     else if 71 \<le> k \<and> k \<le> 90 \<or> 103 \<le> k \<and> k \<le> 122 \<or> k = 95 \<or> k = 58 \<or> k = 47 \<or> k = 46 then 10 else 1)"

lemma yy_ec_table: "yy_ec = map cls [0 .. 255]"
  by code_simp

lemma yy_class: "yy_class c = (if c = nul then 1 else cls (of_char c))"
proof -
  have l: "(of_char c :: nat) < 256" by simp
  have "yy_ec ! of_char c = cls ([0 .. 255] ! of_char c)"
    unfolding yy_ec_table using l by (intro nth_map) simp
  also have "[0 .. 255] ! of_char c = int (of_char c)"
  proof (subst nth_upto)
    show "0 + int (of_char c) \<le> 255" using l by linarith
  qed simp
  finally show ?thesis by (simp add: yy_class_def of_nat_of_char)
qed


lemma char_code: "c = d \<longleftrightarrow> of_char c = (of_char d :: int)"
  by simp

lemma class_facts:
  "yy_class c \<in> {1 .. 24}" "isword c \<longleftrightarrow> yy_class c \<in> {10, 11, 14, 15, 16, 17, 18, 19, 20, 21, 22, 23}"
  "ishex c \<longleftrightarrow> yy_class c \<in> {11, 14, 15, 16}" "isblank c \<longleftrightarrow> yy_class c = 2" "c = newline \<longleftrightarrow> yy_class c = 3"
  "c = CHR 0x0D \<longleftrightarrow> yy_class c = 4" "c = CHR ''!'' \<longleftrightarrow> yy_class c = 5" "c = CHR 0x22 \<longleftrightarrow> yy_class c = 6"
  "c = CHR ''#'' \<longleftrightarrow> yy_class c = 7" "c = CHR 0x26 \<longleftrightarrow> yy_class c = 8" "c \<in> set ''+(),;'' \<longleftrightarrow> yy_class c = 9"
  "c = CHR ''='' \<longleftrightarrow> yy_class c = 12" "c = CHR 0x5C \<longleftrightarrow> yy_class c = 13"
  "c = CHR ''d'' \<longleftrightarrow> yy_class c = 14" "c = CHR ''e'' \<longleftrightarrow> yy_class c = 15" "c = CHR ''f'' \<longleftrightarrow> yy_class c = 16"
  "c = CHR ''h'' \<longleftrightarrow> yy_class c = 17" "c = CHR ''i'' \<longleftrightarrow> yy_class c = 18" "c = CHR ''l'' \<longleftrightarrow> yy_class c = 19"
  "c = CHR ''n'' \<longleftrightarrow> yy_class c = 20" "c = CHR ''s'' \<longleftrightarrow> yy_class c = 21" "c = CHR ''t'' \<longleftrightarrow> yy_class c = 22"
  "c = CHR ''x'' \<longleftrightarrow> yy_class c = 23" "c = CHR ''|'' \<longleftrightarrow> yy_class c = 24"
proof -
  define k :: int where "k = of_char c"
  have code: "c = newline \<longleftrightarrow> k = 10" "c = CHR 0x0D \<longleftrightarrow> k = 13" "c = CHR ''!'' \<longleftrightarrow> k = 33" "c = CHR 0x22 \<longleftrightarrow> k = 34"
    "c = CHR ''#'' \<longleftrightarrow> k = 35" "c = CHR 0x26 \<longleftrightarrow> k = 38" "c = CHR ''='' \<longleftrightarrow> k = 61" "c = CHR 0x5C \<longleftrightarrow> k = 92"
    "c = CHR ''d'' \<longleftrightarrow> k = 100" "c = CHR ''e'' \<longleftrightarrow> k = 101" "c = CHR ''f'' \<longleftrightarrow> k = 102" "c = CHR ''h'' \<longleftrightarrow> k = 104"
    "c = CHR ''i'' \<longleftrightarrow> k = 105" "c = CHR ''l'' \<longleftrightarrow> k = 108" "c = CHR ''n'' \<longleftrightarrow> k = 110" "c = CHR ''s'' \<longleftrightarrow> k = 115"
    "c = CHR ''t'' \<longleftrightarrow> k = 116" "c = CHR ''x'' \<longleftrightarrow> k = 120" "c = CHR ''|'' \<longleftrightarrow> k = 124" "c = nul \<longleftrightarrow> k = 0"
    "c = CHR 0x20 \<longleftrightarrow> k = 32" "c = CHR 0x09 \<longleftrightarrow> k = 9" "c = CHR ''+'' \<longleftrightarrow> k = 43" "c = CHR ''('' \<longleftrightarrow> k = 40"
    "c = CHR '')'' \<longleftrightarrow> k = 41" "c = CHR '','' \<longleftrightarrow> k = 44" "c = CHR '';'' \<longleftrightarrow> k = 59"
    by (simp_all only: char_code k_def nul_def newline_def) simp_all
  have y: "yy_class c = (if k = 0 then 1 else cls k)" using yy_class [of c] code by (simp add: k_def)
  have z: "0 \<le> k" using of_nat_of_char [of c, where ?'a = int] unfolding k_def by (metis of_nat_0_le_iff)
  have w: "isword c \<longleftrightarrow> 48 \<le> k \<and> k \<le> 57 \<or> 65 \<le> k \<and> k \<le> 90 \<or> 97 \<le> k \<and> k \<le> 122 \<or> k = 95 \<or> k = 58 \<or> k = 47 \<or> k = 46"
    "ishex c \<longleftrightarrow> 48 \<le> k \<and> k \<le> 57 \<or> 65 \<le> k \<and> k \<le> 70 \<or> 97 \<le> k \<and> k \<le> 102" "isblank c \<longleftrightarrow> k = 32 \<or> k = 9"
    "c \<in> set ''+(),;'' \<longleftrightarrow> k = 43 \<or> k = 40 \<or> k = 41 \<or> k = 44 \<or> k = 59"
    using code by (simp_all add: isword_def ishex_def isblank_def Let_def k_def [symmetric])
  show "yy_class c \<in> {1 .. 24}" unfolding y cls_def by simp
  show "isword c \<longleftrightarrow> yy_class c \<in> {10, 11, 14, 15, 16, 17, 18, 19, 20, 21, 22, 23}"
    unfolding w(1) y cls_def by (simp split: if_split) presburger
  show "ishex c \<longleftrightarrow> yy_class c \<in> {11, 14, 15, 16}"
    unfolding w(2) y cls_def by (simp split: if_split) presburger
  show "isblank c \<longleftrightarrow> yy_class c = 2" "c \<in> set ''+(),;'' \<longleftrightarrow> yy_class c = 9"
    unfolding w(3,4) y cls_def by (simp_all split: if_split)
  show "c = newline \<longleftrightarrow> yy_class c = 3" "c = CHR 0x0D \<longleftrightarrow> yy_class c = 4" "c = CHR ''!'' \<longleftrightarrow> yy_class c = 5"
    "c = CHR 0x22 \<longleftrightarrow> yy_class c = 6" "c = CHR ''#'' \<longleftrightarrow> yy_class c = 7" "c = CHR 0x26 \<longleftrightarrow> yy_class c = 8"
    "c = CHR ''='' \<longleftrightarrow> yy_class c = 12" "c = CHR 0x5C \<longleftrightarrow> yy_class c = 13" "c = CHR ''d'' \<longleftrightarrow> yy_class c = 14"
    "c = CHR ''e'' \<longleftrightarrow> yy_class c = 15" "c = CHR ''f'' \<longleftrightarrow> yy_class c = 16" "c = CHR ''h'' \<longleftrightarrow> yy_class c = 17"
    "c = CHR ''i'' \<longleftrightarrow> yy_class c = 18" "c = CHR ''l'' \<longleftrightarrow> yy_class c = 19" "c = CHR ''n'' \<longleftrightarrow> yy_class c = 20"
    "c = CHR ''s'' \<longleftrightarrow> yy_class c = 21" "c = CHR ''t'' \<longleftrightarrow> yy_class c = 22" "c = CHR ''x'' \<longleftrightarrow> yy_class c = 23"
    "c = CHR ''|'' \<longleftrightarrow> yy_class c = 24"
    unfolding code y cls_def by (simp_all split: if_split)
qed

subsection \<open>Words and keywords\<close>

definition word_states :: "int list" where
  "word_states = [14, 16, 17, 18, 30, 32, 33, 34, 35, 43, 44, 45, 47, 48, 49, 51]"

definition word_step :: "int \<Rightarrow> int \<Rightarrow> int" where
  "word_step s k = (case map_of [((16, 19), 32), ((16, 20), 33), ((17, 16), 34), ((18, 17), 35), ((32, 21), 43), ((33, 14), 44),
     ((35, 15), 45), ((43, 15), 47), ((44, 18), 48), ((45, 20), 49), ((48, 16), 51)] (s, k) of Some s' \<Rightarrow> s' | None \<Rightarrow> 30)"

definition word_accept :: "int \<Rightarrow> int" where
  "word_accept s = (if s = 34 then 10 else if s = 49 then 11 else if s = 47 then 12 else if s = 51 then 13 else 14)"

definition word_classes :: "int list" where
  "word_classes = [10, 11, 14, 15, 16, 17, 18, 19, 20, 21, 22, 23]"

lemma word_table:
  "list_all (\<lambda>s. list_all (\<lambda>k. yy_next s k = Inr (if k \<in> set word_classes then word_step s k else 52) \<and>
     word_step s k \<in> set word_states) [1 .. 24] \<and>
     aget yy_accept s = Inr (word_accept s) \<and> aget yy_base s \<noteq> Inr 73 \<and> (case aget yy_base s of Inl f \<Rightarrow> False | Inr b \<Rightarrow> True)) word_states"
  by code_simp

lemma word_next:
  assumes "s \<in> set word_states"
  shows "yy_next s (yy_class c) = Inr (if isword c then word_step s (yy_class c) else 52)"
    "word_step s (yy_class c) \<in> set word_states" "aget yy_accept s = Inr (word_accept s)" "\<exists>b. aget yy_base s = Inr b \<and> b \<noteq> 73"
proof -
  have k: "yy_class c \<in> set [1 .. 24]" using class_facts(1) [of c] by simp
  have w: "isword c \<longleftrightarrow> yy_class c \<in> set word_classes" unfolding word_classes_def class_facts(2) by simp
  note t = bspec [OF word_table [unfolded list_all_iff] assms]
  show "yy_next s (yy_class c) = Inr (if isword c then word_step s (yy_class c) else 52)" "word_step s (yy_class c) \<in> set word_states"
    using t k unfolding w by blast+
  show "aget yy_accept s = Inr (word_accept s)" using t by blast
  show "\<exists>b. aget yy_base s = Inr b \<and> b \<noteq> 73" using t by (cases "aget yy_base s") auto
qed

lemma word_accept_pos [simp]: "word_accept s \<noteq> 0"
  by (simp add: word_accept_def)

lemma jam [simp]: "aget yy_base 52 = Inr 73" "aget yy_accept 52 = Inr 0"
  by (code_simp)+

definition wst :: "int \<Rightarrow> char \<Rightarrow> int" where
  "wst s c = word_step s (yy_class c)"

lemma word_match:
  "s \<in> set word_states \<Longrightarrow>
   yy_match s cs k acc = Inr (word_accept (foldl wst s (takeWhile isword cs)), k + length (takeWhile isword cs))"
proof (induction cs arbitrary: s k acc)
  case Nil
  then show ?case using word_next(3) by (simp add: yy_find_action_def)
next
  case (Cons c cs)
  note n = word_next [OF Cons.prems]
  show ?case
  proof (cases "isword c")
    case True
    obtain b where "aget yy_base (word_step s (yy_class c)) = Inr b" "b \<noteq> 73" using word_next(4) [OF n(2) [of c]] by blast
    then show ?thesis using n True Cons.IH [OF n(2) [of c]] by (simp add: wst_def)
  next
    case False
    then show ?thesis using n by (simp add: yy_find_action_def)
  qed
qed

definition trie :: "(string \<times> int) list" where
  "trie = [(''i'', 17), (''if'', 34), (''t'', 18), (''th'', 35), (''the'', 45), (''then'', 49), (''e'', 16), (''el'', 32), (''els'', 43),
     (''else'', 47), (''en'', 33), (''end'', 44), (''endi'', 48), (''endif'', 51)]"

definition trie_state :: "string \<Rightarrow> int" where
  "trie_state w = (case map_of trie w of Some s \<Rightarrow> s | None \<Rightarrow> if length w = 1 then 14 else 30)"

lemma trie_closed: "map_of trie (w @ [c]) = Some s \<Longrightarrow> w \<noteq> [] \<Longrightarrow> map_of trie w \<noteq> None"
  by (auto simp: trie_def append_eq_Cons_conv split: if_splits)

lemma trie_state_step:
  assumes "w \<noteq> []"
  shows "trie_state (w @ [c]) = wst (trie_state w) c"
proof (cases "map_of trie w")
  case None
  then have "map_of trie (w @ [c]) = None" using trie_closed [OF _ assms] by (cases "map_of trie (w @ [c])") auto
  then show ?thesis using None assms by (simp add: trie_state_def wst_def word_step_def)
next
  case (Some s)
  then have "(w, s) \<in> set trie" by (rule map_of_SomeD)
  then show ?thesis
    by (auto simp: trie_def trie_state_def wst_def word_step_def class_facts(14-24) [symmetric])
qed

lemma trie_state_foldl: "foldl wst (trie_state [c]) cs = trie_state (c # cs)"
proof (induction cs rule: rev_induct)
  case (snoc d cs)
  then show ?case using trie_state_step [of "c # cs" d] by simp
qed simp

lemma trie_accept: "word_accept (trie_state w) = keyword_rule w"
proof (cases "map_of trie w")
  case None
  then show ?thesis by (auto simp: trie_state_def trie_def keyword_rule_def word_accept_def split: if_splits)
next
  case (Some s)
  then have "(w, s) \<in> set trie" by (rule map_of_SomeD)
  then show ?thesis by (auto simp: trie_def trie_state_def keyword_rule_def word_accept_def)
qed

subsection \<open>The other states\<close>

definition first_state :: "int \<Rightarrow> int" where
  "first_state k = (if k = 1 \<or> k = 4 \<or> k = 13 then 6 else if k = 2 then 7 else if k = 3 then 8 else if k = 5 then 9 else if k = 6 then 10
     else if k = 7 then 11 else if k = 8 then 12 else if k = 9 then 13 else if k = 12 then 15 else if k = 24 then 19
     else if k = 15 then 16 else if k = 18 then 17 else if k = 22 then 18 else 14)"

definition short_step :: "int \<Rightarrow> int \<Rightarrow> int" where
  "short_step s k =
    (if s = 9 then (if k = 12 then 26 else 52) else if s = 12 then (if k = 8 then 29 else 52)
     else if s = 15 then (if k = 12 then 31 else 52) else if s = 19 then (if k = 24 then 36 else 52)
     else if s = 7 \<or> s = 25 then (if k = 2 then 25 else 52)
     else if s = 11 \<or> s = 27 then (if k = 3 then 28 else 27)
     else if s = 3 then (if k = 3 then 21 else if k = 4 then 22 else if k = 6 then 23 else if k = 13 then 24 else 20)
     else if s = 22 then (if k = 3 then 37 else 52)
     else if s = 24 then (if k = 6 then 38 else if k = 13 then 39 else if k = 20 then 40 else if k = 22 then 41 else if k = 23 then 42 else 52)
     else if s = 42 then (if k \<in> set [11, 14, 15, 16] then 46 else 52)
     else (if k \<in> set [11, 14, 15, 16] then 50 else 52))"

definition short_states :: "int list" where
  "short_states = [9, 12, 15, 19, 7, 25, 11, 27, 3, 22, 24, 42, 46]"

lemma short_table:
  "list_all (\<lambda>k. yy_next 1 k = Inr (first_state k) \<and> list_all (\<lambda>s. yy_next s k = Inr (short_step s k)) short_states) [1 .. 24]"
  by code_simp

lemma short_next:
  "yy_next 1 (yy_class c) = Inr (first_state (yy_class c))"
  "s \<in> set short_states \<Longrightarrow> yy_next s (yy_class c) = Inr (short_step s (yy_class c))"
proof -
  have "yy_class c \<in> set [1 .. 24]" using class_facts(1) [of c] by simp
  from bspec [OF short_table [unfolded list_all_iff] this]
  show "yy_next 1 (yy_class c) = Inr (first_state (yy_class c))"
    "s \<in> set short_states \<Longrightarrow> yy_next s (yy_class c) = Inr (short_step s (yy_class c))" by blast+
qed

lemma accept_simps [simp]:
  "aget yy_accept 1 = Inr 0" "aget yy_accept 3 = Inr 0" "aget yy_accept 6 = Inr 22" "aget yy_accept 7 = Inr 20" "aget yy_accept 8 = Inr 21"
  "aget yy_accept 9 = Inr 19" "aget yy_accept 10 = Inr 1" "aget yy_accept 11 = Inr 22" "aget yy_accept 12 = Inr 22"
  "aget yy_accept 13 = Inr 19" "aget yy_accept 15 = Inr 22" "aget yy_accept 19 = Inr 22" "aget yy_accept 20 = Inr 9"
  "aget yy_accept 21 = Inr 8" "aget yy_accept 22 = Inr 9" "aget yy_accept 23 = Inr 2" "aget yy_accept 24 = Inr 9"
  "aget yy_accept 25 = Inr 20" "aget yy_accept 26 = Inr 18" "aget yy_accept 27 = Inr 0" "aget yy_accept 28 = Inr 21"
  "aget yy_accept 29 = Inr 15" "aget yy_accept 31 = Inr 17" "aget yy_accept 36 = Inr 16" "aget yy_accept 37 = Inr 8"
  "aget yy_accept 38 = Inr 5" "aget yy_accept 39 = Inr 6" "aget yy_accept 40 = Inr 3" "aget yy_accept 41 = Inr 4"
  "aget yy_accept 42 = Inr 0" "aget yy_accept 46 = Inr 0" "aget yy_accept 50 = Inr 7"
  by (code_simp)+

lemma base_simps [simp]:
  "aget yy_base 6 = Inr 73" "aget yy_base 8 = Inr 73" "aget yy_base 10 = Inr 73" "aget yy_base 13 = Inr 73" "aget yy_base 20 = Inr 73"
  "aget yy_base 21 = Inr 73" "aget yy_base 23 = Inr 73" "aget yy_base 26 = Inr 73" "aget yy_base 28 = Inr 73" "aget yy_base 29 = Inr 73"
  "aget yy_base 31 = Inr 73" "aget yy_base 36 = Inr 73" "aget yy_base 37 = Inr 73" "aget yy_base 38 = Inr 73" "aget yy_base 39 = Inr 73"
  "aget yy_base 40 = Inr 73" "aget yy_base 41 = Inr 73" "aget yy_base 50 = Inr 73"
  "aget yy_base 7 = Inr 54" "aget yy_base 9 = Inr 43" "aget yy_base 11 = Inr 50" "aget yy_base 12 = Inr 44" "aget yy_base 15 = Inr 39"
  "aget yy_base 19 = Inr 24" "aget yy_base 22 = Inr 42" "aget yy_base 24 = Inr 41" "aget yy_base 25 = Inr 42" "aget yy_base 27 = Inr 40"
  "aget yy_base 42 = Inr 0" "aget yy_base 46 = Inr 0"
  by (code_simp)+

lemma yy_match_short:
  assumes "s \<in> set short_states"
  shows "yy_match s (c # cs) k acc = rbind (aget yy_accept s) (\<lambda>act. let acc' = (if act \<noteq> 0 then Some (s, k) else acc) in
     rbind (aget yy_base (short_step s (yy_class c))) (\<lambda>b.
       if b = 73 then yy_find_action (short_step s (yy_class c)) (Suc k) acc' else yy_match (short_step s (yy_class c)) cs (Suc k) acc'))"
  using short_next(2) [OF assms] by simp

lemma short_simps [simp]: "s \<in> {3, 7, 9, 11, 12, 15, 19, 22, 24, 25, 27, 42, 46} \<Longrightarrow> s \<in> set short_states"
  by (auto simp: short_states_def)

lemma blank_match:
  "s \<in> {7, 25} \<Longrightarrow> yy_match s cs k acc = Inr (20, k + length (takeWhile isblank cs))"
proof (induction cs arbitrary: s k acc)
  case Nil
  then show ?case by (auto simp: yy_find_action_def)
next
  case (Cons c cs)
  then have s: "s \<in> set short_states" "aget yy_accept s = Inr 20" by auto
  have st: "short_step s (yy_class c) = (if isblank c then 25 else 52)"
    using Cons.prems by (auto simp: short_step_def class_facts(4))
  show ?case using s Cons.IH [of 25] by (simp add: yy_match_short st yy_find_action_def del: yy_match.simps)
qed

lemma comment_match:
  "yy_match 27 cs k (Some (11, Suc 0)) =
     (let l = takeWhile (\<lambda>d. d \<noteq> newline) cs in Inr (if length l < length cs then (21, k + length l + 1) else (22, 1)))"
proof (induction cs arbitrary: k)
  case (Cons c cs)
  have st: "short_step 27 (yy_class c) = (if c = newline then 28 else 27)" by (simp add: short_step_def class_facts(5))
  then show ?case using Cons.IH [of "Suc k"]
    by (cases "c = newline") (simp_all add: yy_match_short yy_find_action_def Let_def del: yy_match.simps)
qed (simp add: yy_find_action_def)

lemma initial_match:
  assumes "cs \<noteq> []"
  shows "yy_match 1 cs 0 None = Inr (initial_rule cs)"
proof -
  obtain c ds where cs: "cs = c # ds" using assms by (cases cs) auto
  let ?k = "yy_class c"
  have m: "yy_match 1 cs 0 None = rbind (aget yy_base (first_state ?k)) (\<lambda>b.
      if b = 73 then yy_find_action (first_state ?k) (Suc 0) None else yy_match (first_state ?k) ds (Suc 0) None)"
    using short_next(1) [of c] cs by simp
  show ?thesis
  proof (cases "isword c")
    case True
    then have "?k \<in> {10, 11, 14, 15, 16, 17, 18, 19, 20, 21, 22, 23}" by (simp only: class_facts(2))
    then have f: "first_state ?k = trie_state [c]" "first_state ?k \<in> set word_states"
      by (auto simp: first_state_def trie_state_def trie_def word_states_def class_facts(15,18,22))
    obtain b where b: "aget yy_base (first_state ?k) = Inr b" "b \<noteq> 73" using word_next(4) [OF f(2)] by blast
    have "yy_match (first_state ?k) ds (Suc 0) None = Inr (keyword_rule (c # takeWhile isword ds), Suc (length (takeWhile isword ds)))"
      using word_match [OF f(2), of ds "Suc 0" None] trie_state_foldl [of c "takeWhile isword ds"] f(1) trie_accept by simp
    then show ?thesis using True m b cs by simp
  next
    case nw: False
    note cf = class_facts [of c]
    have k: "?k \<in> {1, 2, 3, 4, 5, 6, 7, 8, 9, 12, 13, 24}" using nw cf(1) unfolding cf(2) by simp presburger
    have p: "c = CHR ''+'' \<or> c = CHR ''('' \<or> c = CHR '')'' \<or> c = CHR '','' \<or> c = CHR '';'' \<longleftrightarrow> ?k = 9"
      using cf(11) by simp
    then have np: "?k \<noteq> 9 \<Longrightarrow> c \<noteq> CHR ''+'' \<and> c \<noteq> CHR ''('' \<and> c \<noteq> CHR '')'' \<and> c \<noteq> CHR '','' \<and> c \<noteq> CHR '';''" by blast
    note d = yy_find_action_def first_state_def short_step_def
    show ?thesis
    proof (cases ds)
      case Nil
      show ?thesis using k
        by (elim insertE) (use nw Nil m cs in \<open>simp_all add: d cf(4-10,12,13,24) p np Let_def\<close>)
    next
      case (Cons e es)
      note cf' = class_facts [of e]
      show ?thesis using k
        by (elim insertE) (use nw Cons m cs blank_match [of 7 ds "Suc 0" None] in
          \<open>auto simp: d cf(4-10,12,13,24) p np cf'(4-10,12,13,24) yy_match_short comment_match Let_def simp del: yy_match.simps\<close>)
    qed
  qed
qed

lemma string_match:
  assumes "cs \<noteq> []"
  shows "yy_match 3 cs 0 None = Inr (string_rule cs)"
proof -
  obtain c ds where cs: "cs = c # ds" using assms by (cases cs) auto
  note d = yy_find_action_def short_step_def yy_match_short
  note cf = class_facts [of c]
  consider "c \<noteq> CHR 0x5C" "c \<noteq> CHR 0x0D" | "c = CHR 0x0D" | "c = CHR 0x5C" by blast
  then show ?thesis
  proof cases
    case 1
    then show ?thesis unfolding cs by (auto simp: d cf(5,6,8,13) simp del: yy_match.simps)
  next
    case 2
    then have k: "yy_class c = 4" by (simp only: cf(6))
    show ?thesis
    proof (cases ds)
      case Nil
      then show ?thesis using k unfolding cs by (auto simp: d cf(5,6,8,13) simp del: yy_match.simps(2))
    next
      case (Cons e es)
      then show ?thesis using k unfolding cs by (auto simp: d cf(5,6,8,13) class_facts(5) [of e] simp del: yy_match.simps)
    qed
  next
    case 3
    then have k: "yy_class c = 13" by (simp only: cf(13))
    show ?thesis
    proof (cases ds)
      case Nil
      then show ?thesis using k unfolding cs by (auto simp: d cf(5,6,8,13) simp del: yy_match.simps(2))
    next
      case (Cons e es)
      note ce = class_facts [of e]
      show ?thesis
      proof (cases "e = CHR ''x''")
        case False
        then show ?thesis using k Cons unfolding cs by (auto simp: d cf(5,6,8,13) ce(8,13,20,22,23) simp del: yy_match.simps)
      next
        case True
        then have ke: "yy_class e = 23" by (simp only: ce(23))
        have x: "yy_match 3 cs 0 None = yy_match 42 es 2 (Some (24, 1))"
          using k ke unfolding cs Cons by (simp add: d numeral_2_eq_2 del: yy_match.simps)
        show ?thesis
        proof (cases es)
          case Nil
          then show ?thesis using x k ke unfolding cs Cons by (auto simp: d cf(5,6,8,13) ce(8,13,20,22,23))
        next
          case c1: (Cons g gs)
          show ?thesis
          proof (cases gs)
            case Nil
            then show ?thesis using x k ke c1 unfolding cs Cons
              by (auto simp: d cf(5,6,8,13) ce(8,13,20,22,23) simp del: yy_match.simps(2))
          next
            case c2: (Cons h hs)
            then show ?thesis using x k ke c1 unfolding cs Cons
              by (auto simp: d cf(5,6,8,13) ce(8,13,20,22,23) class_facts(3) simp del: yy_match.simps)
          qed
        qed
      qed
    qed
  qed
qed

section \<open>Longest match\<close>

text \<open>The languages of the rules of \<^verbatim>\<open>lexer.l\<close>, outside and inside a string literal.\<close>

definition initial_lang :: "int \<Rightarrow> string \<Rightarrow> bool" where
  "initial_lang r w \<longleftrightarrow>
     r = 1 \<and> w = [CHR 0x22] \<or> r = 10 \<and> w = ''if'' \<or> r = 11 \<and> w = ''then'' \<or> r = 12 \<and> w = ''else'' \<or> r = 13 \<and> w = ''endif'' \<or>
     r = 14 \<and> w \<noteq> [] \<and> list_all isword w \<or>
     r = 15 \<and> w = [CHR 0x26, CHR 0x26] \<or> r = 16 \<and> w = ''||'' \<or> r = 17 \<and> w = ''=='' \<or> r = 18 \<and> w = ''!='' \<or>
     r = 19 \<and> (\<exists>c\<in>set ''+(),!;''. w = [c]) \<or> r = 20 \<and> w \<noteq> [] \<and> list_all isblank w \<or>
     r = 21 \<and> (w = [newline] \<or> (\<exists>v. w = CHR ''#'' # v @ [newline] \<and> newline \<notin> set v)) \<or>
     r = 22 \<and> (\<exists>c. w = [c] \<and> c \<noteq> newline)"

definition string_lang :: "int \<Rightarrow> string \<Rightarrow> bool" where
  "string_lang r w \<longleftrightarrow>
     r = 2 \<and> w = [CHR 0x22] \<or> r = 3 \<and> w = [CHR 0x5C, CHR ''n''] \<or> r = 4 \<and> w = [CHR 0x5C, CHR ''t''] \<or>
     r = 5 \<and> w = [CHR 0x5C, CHR 0x22] \<or> r = 6 \<and> w = [CHR 0x5C, CHR 0x5C] \<or>
     r = 7 \<and> (\<exists>g h. ishex g \<and> ishex h \<and> w = [CHR 0x5C, CHR ''x'', g, h]) \<or>
     r = 8 \<and> (w = [newline] \<or> w = [CHR 0x0D, newline]) \<or> r = 9 \<and> (\<exists>c. w = [c] \<and> c \<noteq> newline)"

text \<open>The longest prefix that some rule matches, and the first rule among those that match it.\<close>

definition longest_match :: "(int \<Rightarrow> string \<Rightarrow> bool) \<Rightarrow> string \<Rightarrow> int \<Rightarrow> nat \<Rightarrow> bool" where
  "longest_match lang cs r n \<longleftrightarrow> 0 < n \<and> n \<le> length cs \<and> lang r (take n cs) \<and>
     (\<forall>m r'. n < m \<longrightarrow> m \<le> length cs \<longrightarrow> \<not> lang r' (take m cs)) \<and> (\<forall>r' < r. \<not> lang r' (take n cs))"

lemma word_not: "isword c \<Longrightarrow> \<not> isblank c \<and> c \<noteq> newline \<and> c \<noteq> CHR 0x22 \<and> c \<noteq> CHR ''#'' \<and> c \<noteq> CHR 0x26 \<and> c \<noteq> CHR ''|'' \<and>
    c \<noteq> CHR ''='' \<and> c \<notin> set ''+(),!;''"
  by (auto simp: isword_def isblank_def newline_def)

lemma blank_not: "isblank c \<Longrightarrow> c \<noteq> newline \<and> c \<noteq> CHR 0x22 \<and> c \<noteq> CHR ''#'' \<and> c \<noteq> CHR 0x26 \<and> c \<noteq> CHR ''|'' \<and>
    c \<noteq> CHR ''='' \<and> c \<notin> set ''+(),!;''"
  by (auto simp: isblank_def newline_def)

lemma take_takeWhile: "take (length (takeWhile P cs)) cs = takeWhile P cs"
  by (metis append_eq_conv_conj takeWhile_dropWhile_id)

lemma longer_prefix:
  assumes "length (takeWhile P cs) < m" and "m \<le> length cs"
  shows "\<not> list_all P (take m cs)"
proof
  assume "list_all P (take m cs)"
  then have "P (take m cs ! length (takeWhile P cs))" using assms by (simp add: list_all_length)
  then have "P (cs ! length (takeWhile P cs))" using assms(1) by simp
  then show False using nth_length_takeWhile [of P cs] assms by simp
qed

lemma keyword_lang:
  assumes "list_all isword w" and "w \<noteq> []"
  shows "initial_lang (keyword_rule w) w" "r < keyword_rule w \<Longrightarrow> \<not> initial_lang r w"
proof -
  obtain c cs where w: "w = c # cs" using assms(2) by (cases w) auto
  have q: "w \<noteq> [CHR 0x22]" using assms(1) word_not [of c] w by auto
  show "initial_lang (keyword_rule w) w" using assms by (simp add: initial_lang_def keyword_rule_def)
  show "r < keyword_rule w \<Longrightarrow> \<not> initial_lang r w"
    using q by (cases "w \<in> {''if'', ''then'', ''else'', ''endif''}") (auto simp: initial_lang_def keyword_rule_def split: if_splits)
qed

text \<open>A text of two or more characters that some rule matches, by its first character.\<close>

lemma long_lang:
  assumes "initial_lang r (c # d # w)"
  shows "isword c \<and> isword d \<and> list_all isword w \<or> isblank c \<and> isblank d \<and> list_all isblank w \<or>
    c = CHR ''#'' \<and> (\<exists>v. d # w = v @ [newline] \<and> newline \<notin> set v) \<or>
    w = [] \<and> (c = CHR 0x26 \<and> d = CHR 0x26 \<or> c = CHR ''|'' \<and> d = CHR ''|'' \<or> c = CHR ''='' \<and> d = CHR ''='' \<or> c = CHR ''!'' \<and> d = CHR ''='')"
proof -
  have "isword (CHR ''i'')" "isword (CHR ''f'')" "isword (CHR ''t'')" "isword (CHR ''h'')" "isword (CHR ''e'')" "isword (CHR ''n'')"
    "isword (CHR ''l'')" "isword (CHR ''s'')" "isword (CHR ''d'')"
    by (simp_all add: isword_def)
  note w = this
  show ?thesis using assms unfolding initial_lang_def
    by (elim disjE conjE) (simp_all add: w, (metis list.inject list.pred_inject(2))?)
qed

lemma comment_prefix:
  assumes "take m cs = v @ [newline]" and "newline \<notin> set v" and "m \<le> length cs"
  shows "takeWhile (\<lambda>d. d \<noteq> newline) cs = v \<and> m = length v + 1"
proof -
  have "m = length (v @ [newline])" using assms(1,3) by (metis length_take min.absorb2)
  moreover have "cs = v @ newline # drop m cs" using assms(1) by (metis append.assoc append_Cons append_Nil append_take_drop_id)
  ultimately show ?thesis using assms(2) 
    using takeWhile_append2 [of v "\<lambda>d. d \<noteq> newline" "newline # drop m cs"] by auto
qed


lemma blank_lang: "isblank c \<Longrightarrow> r < 20 \<Longrightarrow> \<not> initial_lang r (c # w)"
  unfolding isblank_def by (erule disjE) (simp_all add: initial_lang_def isword_def)

lemma comment_lang: "r < 21 \<Longrightarrow> \<not> initial_lang r (CHR ''#'' # c # w)"
  by (simp add: initial_lang_def isword_def isblank_def)

lemma single_lang:
  assumes "\<not> isword c" and "\<not> isblank c"
  shows "initial_lang r [c] \<longleftrightarrow> r = 1 \<and> c = CHR 0x22 \<or> r = 19 \<and> c \<in> set ''+(),!;'' \<or> r = 21 \<and> c = newline \<or> r = 22 \<and> c \<noteq> newline"
  using assms by (simp add: initial_lang_def del: set_simps)

lemma pair_lang:
  assumes "\<not> isword c" and "\<not> isblank c" and "c \<noteq> CHR ''#''"
  shows "initial_lang r [c, d] \<longleftrightarrow> r = 15 \<and> c = CHR 0x26 \<and> d = CHR 0x26 \<or> r = 16 \<and> c = CHR ''|'' \<and> d = CHR ''|'' \<or>
    r = 17 \<and> c = CHR ''='' \<and> d = CHR ''='' \<or> r = 18 \<and> c = CHR ''!'' \<and> d = CHR ''=''"
proof -
  have "c \<noteq> CHR ''i''" using assms(1) by (auto simp: isword_def)
  then show ?thesis using assms by (simp add: initial_lang_def)
qed

definition pair_op :: "char \<Rightarrow> string \<Rightarrow> bool" where
  "pair_op c ds \<longleftrightarrow> ds \<noteq> [] \<and> (c = CHR 0x26 \<and> hd ds = CHR 0x26 \<or> c = CHR ''|'' \<and> hd ds = CHR ''|'' \<or>
     c = CHR ''='' \<and> hd ds = CHR ''='' \<or> c = CHR ''!'' \<and> hd ds = CHR ''='')"

definition pair_rule :: "char \<Rightarrow> int" where
  "pair_rule c = (if c = CHR 0x26 then 15 else if c = CHR ''|'' then 16 else if c = CHR ''='' then 17 else 18)"

definition other_rule :: "char \<Rightarrow> int" where
  "other_rule c = (if c = newline then 21 else if c = CHR 0x22 then 1 else if c \<in> set ''+(),!;'' then 19 else 22)"

lemma initial_rule_other:
  assumes "\<not> isword c" and "\<not> isblank c" and "c \<noteq> CHR ''#''"
  shows "initial_rule (c # ds) = (if pair_op c ds then (pair_rule c, 2) else (other_rule c, 1))"
proof (cases "pair_op c ds")
  case True
  then show ?thesis using assms unfolding pair_op_def by (elim conjE disjE) (simp_all add: pair_rule_def pair_op_def newline_def)
next
  case False
  then show ?thesis using assms unfolding pair_op_def other_rule_def by (simp del: set_simps) metis
qed

lemma pair_rule_lang:
  assumes "\<not> isword c" and "\<not> isblank c" and "c \<noteq> CHR ''#''" and "pair_op c ds"
  shows "initial_lang r [c, hd ds] \<longleftrightarrow> r = pair_rule c"
  using assms(4) unfolding pair_lang [OF assms(1-3)] pair_op_def by (elim conjE disjE) (simp_all add: pair_rule_def)

lemma other_rule_lang:
  assumes "\<not> isword c" and "\<not> isblank c"
  shows "initial_lang (other_rule c) [c]" "r < other_rule c \<Longrightarrow> \<not> initial_lang r [c]"
proof -
  have "CHR 0x22 \<notin> set ''+(),!;''" "newline \<notin> set ''+(),!;''" "newline \<noteq> CHR 0x22" by (simp_all add: newline_def)
  then show "initial_lang (other_rule c) [c]" "r < other_rule c \<Longrightarrow> \<not> initial_lang r [c]"
    unfolding single_lang [OF assms] other_rule_def by (auto simp del: set_simps split: if_splits)
qed

lemma longest_initial:
  assumes "cs \<noteq> []" and "initial_rule cs = (r, n)"
  shows "longest_match initial_lang cs r n"
proof -
  obtain c ds where cs: "cs = c # ds" using assms(1) by (cases cs) auto
  have longer: "isword c \<and> list_all isword (take m cs) \<or> isblank c \<and> list_all isblank (take m cs) \<or>
      c = CHR ''#'' \<and> (\<exists>v. take (m - 1) ds = v @ [newline] \<and> newline \<notin> set v) \<or>
      m = 2 \<and> ds \<noteq> [] \<and> (c = CHR 0x26 \<and> hd ds = CHR 0x26 \<or> c = CHR ''|'' \<and> hd ds = CHR ''|'' \<or>
        c = CHR ''='' \<and> hd ds = CHR ''='' \<or> c = CHR ''!'' \<and> hd ds = CHR ''='')"
    if h1: "1 < m" and h2: "m \<le> length cs" and h3: "initial_lang r' (take m cs)" for m r'
  proof -
    obtain d es where ds: "ds = d # es" using h1 h2 cs by (cases ds) auto
    define k where "k = m - 2"
    have m: "m = Suc (Suc k)" using h1 by (simp add: k_def)
    have "take m cs = c # d # take k es" using cs ds m by simp
    moreover have "take k es = [] \<Longrightarrow> k = 0" using h2 cs ds m by auto
    ultimately show ?thesis using long_lang [of r' c d "take k es"] h3 cs ds m by auto
  qed
  consider (w) "isword c" | (b) "isblank c" | (h) "c = CHR ''#''" | (o) "\<not> isword c" "\<not> isblank c" "c \<noteq> CHR ''#''" by blast
  then show ?thesis
  proof cases
    case w
    let ?w = "takeWhile isword cs"
    have rn: "r = keyword_rule ?w" "n = length ?w" using assms(2) w cs by (auto simp: Let_def)
    have l: "list_all isword ?w" "?w \<noteq> []" using w cs by (auto simp: list_all_iff dest: set_takeWhileD)
    have no: "\<not> initial_lang r' (take m cs)" if "n < m" "m \<le> length cs" for m r'
      using longer [of m r'] that longer_prefix [of isword cs m] word_not [OF w] l(2) rn(2) by (cases "?w") auto
    then show ?thesis
      using keyword_lang [OF l] l(2) rn length_takeWhile_le [of isword cs] by (auto simp: longest_match_def take_takeWhile)
  next
    case b
    let ?w = "takeWhile isblank cs"
    have nw: "\<not> isword c" using word_not b by blast
    have rn: "r = 20" "n = length ?w" using assms(2) b nw cs by auto
    have l: "list_all isblank ?w" "?w \<noteq> []" using b cs by (auto simp: list_all_iff dest: set_takeWhileD)
    have no: "\<not> initial_lang r' (take m cs)" if "n < m" "m \<le> length cs" for m r'
      using longer [of m r'] that longer_prefix [of isblank cs m] blank_not [OF b] nw l(2) rn(2) by (cases "?w") auto
    have "?w = c # takeWhile isblank ds" using b cs by simp
    then have "\<not> initial_lang r' ?w" if "r' < 20" for r'
      using blank_lang [OF b that] by simp
    then show ?thesis
      using no l rn length_takeWhile_le [of isblank cs] by (auto simp: longest_match_def take_takeWhile initial_lang_def)
  next
    case h
    have nc: "\<not> isword c" "\<not> isblank c" "c \<noteq> newline" "c \<noteq> CHR 0x22" using h by (auto simp: isword_def isblank_def newline_def)
    let ?l = "takeWhile (\<lambda>d. d \<noteq> newline) ds"
    have nin: "newline \<notin> set ?l" using set_takeWhileD by metis
    show ?thesis
    proof (cases "length ?l < length ds")
      case True
      have rn: "r = 21" "n = Suc (Suc (length ?l))" using assms(2) h nc cs True by (auto simp: Let_def)
      have nl: "ds ! length ?l = newline" using nth_length_takeWhile [OF True] by simp
      have tk: "take n cs = CHR ''#'' # ?l @ [newline]"
        using True cs h rn(2) nl by (simp add: take_Suc_conv_app_nth take_takeWhile)
      have no: "\<not> initial_lang r' (take m cs)" if "n < m" "m \<le> length cs" for m r'
      proof -
        have "m - 1 \<le> length ds" using that cs by simp
        then show ?thesis using longer [of m r'] that nc h rn(2) comment_prefix [of "m - 1" ds] cs by auto
      qed
      have "\<not> initial_lang r' (take n cs)" if "r' < 21" for r'
        using comment_lang [OF that] unfolding tk by (cases ?l) simp_all
      then show ?thesis using no tk rn nin True cs by (auto simp: longest_match_def initial_lang_def)
    next
      case False
      have rn: "r = 22" "n = 1" using assms(2) h nc cs False by (auto simp: Let_def)
      have no: "\<not> initial_lang r' (take m cs)" if "1 < m" "m \<le> length cs" for m r'
      proof -
        have "m - 1 \<le> length ds" using that cs by simp
        then show ?thesis using longer [of m r'] that nc h comment_prefix [of "m - 1" ds] cs False by auto
      qed
      have "\<not> initial_lang r' [c]" if "r' < 22" for r'
        using single_lang [OF nc(1,2)] nc(3,4) h that by auto
      moreover have "initial_lang 22 [c]" using single_lang [OF nc(1,2)] nc(3) by auto
      ultimately show ?thesis using rn cs no by (auto simp: longest_match_def)
    qed
  next
    case o
    have no: "\<not> initial_lang r' (take m cs)" if "1 < m" "m \<le> length cs" "\<not> (m = 2 \<and> pair_op c ds)" for m r'
      using longer [of m r'] that o unfolding pair_op_def by blast
    show ?thesis
    proof (cases "pair_op c ds")
      case True
      then have rn: "r = pair_rule c" "n = 2" using assms(2) initial_rule_other [OF o] cs by simp_all
      have "2 \<le> length cs" "take 2 cs = [c, hd ds]" using True cs by (cases ds; simp add: pair_op_def)+
      then show ?thesis using pair_rule_lang [OF o True] rn no by (simp add: longest_match_def)
    next
      case False
      then have rn: "r = other_rule c" "n = 1" using assms(2) initial_rule_other [OF o] cs by simp_all
      then show ?thesis using other_rule_lang [OF o(1,2)] no False cs by (simp add: longest_match_def)
    qed
  qed
qed

lemma single_string_lang:
  "string_lang r [c] \<longleftrightarrow> r = 2 \<and> c = CHR 0x22 \<or> r = 8 \<and> c = newline \<or> r = 9 \<and> c \<noteq> newline"
  by (simp add: string_lang_def)

lemma pair_string_lang:
  "string_lang r [c, d] \<longleftrightarrow> r = 8 \<and> c = CHR 0x0D \<and> d = newline \<or>
     c = CHR 0x5C \<and> (r = 3 \<and> d = CHR ''n'' \<or> r = 4 \<and> d = CHR ''t'' \<or> r = 5 \<and> d = CHR 0x22 \<or> r = 6 \<and> d = CHR 0x5C)"
  by (auto simp: string_lang_def)

lemma long_string_lang:
  "string_lang r (c # d # e # w) \<longleftrightarrow> (\<exists>g. r = 7 \<and> c = CHR 0x5C \<and> d = CHR ''x'' \<and> w = [g] \<and> ishex e \<and> ishex g)"
  by (auto simp: string_lang_def)

lemma longest_string:
  assumes "cs \<noteq> []" and "string_rule cs = (r, n)"
  shows "longest_match string_lang cs r n"
proof -
  obtain c ds where cs: "cs = c # ds" using assms(1) by (cases cs) auto
  define long where "long \<longleftrightarrow> 3 \<le> length ds \<and> c = CHR 0x5C \<and> ds ! 0 = CHR ''x'' \<and> ishex (ds ! 1) \<and> ishex (ds ! 2)"
  define pair where "pair \<longleftrightarrow> ds \<noteq> [] \<and> (c = CHR 0x0D \<and> hd ds = newline \<or> c = CHR 0x5C \<and> hd ds \<in> set [CHR ''n'', CHR ''t'', CHR 0x22, CHR 0x5C])"
  have lng: "m = 2 \<and> pair \<or> m = 4 \<and> long" if h: "1 < m" "m \<le> length cs" "string_lang r' (take m cs)" for m r'
  proof -
    consider "m = 2" | "2 < m" using h(1) by linarith
    then show ?thesis
    proof cases
      case 1
      then show ?thesis using h(2,3) cs by (cases ds) (auto simp: pair_string_lang pair_def)
    next
      case 2
      define k where "k = m - 3"
      have "m = Suc (Suc (Suc k))" using 2 by (simp add: k_def)
      then show ?thesis using h(2,3) cs
        by (cases ds; cases "tl ds"; cases "tl (tl ds)"; cases k) (auto simp: long_string_lang long_def)
    qed
  qed
  have disj: "\<not> (pair \<and> long)" by (cases ds) (auto simp: pair_def long_def newline_def)
  show ?thesis
  proof (cases "pair \<or> long")
    case False
    then have rn: "r = (if c = CHR 0x22 then 2 else if c = newline then 8 else 9)" "n = 1"
      using assms(2) cs unfolding pair_def long_def by (auto split: if_splits list.splits)
    show ?thesis using lng False rn cs unfolding longest_match_def by (auto simp: single_string_lang newline_def)
  next
    case True
    show ?thesis
    proof (cases pair)
      case p: True
      then have nl: "\<not> long" using disj by blast
      obtain d es where ds: "ds = d # es" using p by (cases ds) (auto simp: pair_def)
      have c: "c = CHR 0x0D \<and> d = newline \<or> c = CHR 0x5C \<and> d \<in> set [CHR ''n'', CHR ''t'', CHR 0x22, CHR 0x5C]" using p ds by (simp add: pair_def)
      have e: "string_rule (c # d # es) = (r, n)" using assms(2) cs ds by simp
      have rn: "n = 2" "string_lang r [c, d]" "\<forall>r'. string_lang r' [c, d] \<longrightarrow> r' = r"
        using c e unfolding pair_string_lang by (elim disjE conjE; simp add: newline_def; elim disjE; simp)+
      have "\<not> string_lang r' (take m cs)" if "2 < m" "m \<le> length cs" for m r' using lng [of m r'] that nl by auto
      moreover have "\<not> string_lang r' [c, d]" if "r' < r" for r' using rn(3) that by blast
      moreover have "take 2 cs = [c, d]" "2 \<le> length cs" using cs ds by simp_all
      ultimately show ?thesis using rn(1,2) by (simp add: longest_match_def)
    next
      case np: False
      then have l: "3 \<le> length ds" "c = CHR 0x5C" "ds ! 0 = CHR ''x''" "ishex (ds ! 1)" "ishex (ds ! 2)" using True by (simp_all add: long_def)
      then obtain d g h es where ds: "ds = d # g # h # es" by (cases ds; cases "tl ds"; cases "tl (tl ds)") auto
      have rn: "r = 7" "n = 4" using assms(2) l cs ds by (auto simp: newline_def)
      have t4: "take 4 cs = [c, d, g, h]" using cs ds by simp
      have "\<not> string_lang r' (take m cs)" if "4 < m" "m \<le> length cs" for m r' using lng [of m r'] that by auto
      moreover have "string_lang r' [c, d, g, h] \<longleftrightarrow> r' = 7" for r' using l ds by (auto simp: long_string_lang)
      ultimately show ?thesis using rn t4 cs ds by (simp add: longest_match_def)
    qed
  qed
qed

end
