(* ===== verification/Edify_Grammar.thy ===== *)
theory Edify_Grammar
  imports Edify_Parser
begin

text \<open>
  The language of the scripts and the parser's correctness. The grammar of
  \<^verbatim>\<open>src/jni/adhoc-edify/edify/parser.y\<close> is ambiguous, and its \<open>%left\<close> and \<open>%right\<close> declarations resolve
  the ambiguities; \<open>gexpr\<close> states the result without reference to an automaton. The parser accepts
  exactly these scripts, and builds exactly these expressions.
\<close>

section \<open>The grammar\<close>

definition tk :: "lexeme \<Rightarrow> int" where
  "tk x = YYTRANSLATE (lx_char x)"

text \<open>The place of a phrase: from the start of its first token to the end of its last one.\<close>

definition place :: "lexeme list \<Rightarrow> YYLTYPE" where
  "place ts = (fst (lx_lloc (hd ts)), snd (lx_lloc (last ts)))"

text \<open>The binary operators, with the level their declaration gives them, and their functions.\<close>

definition oplevel :: "int \<Rightarrow> nat" where
  "oplevel t = (if t = 4 then 2 else if t = 3 then 3 else if t = 7 \<or> t = 8 then 4 else if t = 17 then 5 else 0)"

definition opfn :: "int \<Rightarrow> 'c Function" where
  "opfn t = (if t = 4 then LogicalOrFn else if t = 3 then LogicalAndFn else if t = 7 then EqualityFn
     else if t = 8 then InequalityFn else ConcatFn)"

text \<open>
  \<open>gexpr find_fn er b n ts e\<close>: the tokens \<open>ts\<close> are an expression with the value \<open>e\<close> that can be an operand
  where operators of level \<open>n\<close> or more bind it. \<open>b\<close> holds at the start of a script, of an argument and after
  a bracket or a keyword; only there a semicolon may follow an operand. With \<open>er\<close>, phrases in which the
  parser has skipped tokens count too, and places are not looked at.
\<close>

inductive gexpr :: "(string \<Rightarrow> 'c Function option) \<Rightarrow> bool \<Rightarrow> bool \<Rightarrow> nat \<Rightarrow> lexeme list \<Rightarrow> 'c Expr \<Rightarrow> bool"
  and gargs :: "(string \<Rightarrow> 'c Function option) \<Rightarrow> bool \<Rightarrow> lexeme list \<Rightarrow> 'c Expr list \<Rightarrow> bool"
  for find_fn er where
  lit: "tk x = 13 \<Longrightarrow> lx_lval x = Some s \<Longrightarrow> er \<or> l = place [x] \<Longrightarrow>
    gexpr find_fn er b n [x] (Expr Literal s [] (fst l) (snd l))"
| call: "tk x = 13 \<Longrightarrow> lx_lval x = Some s \<Longrightarrow> find_fn s = Some fn \<Longrightarrow> tk lp = 19 \<Longrightarrow> gargs find_fn er ts es \<Longrightarrow>
    tk rp = 20 \<Longrightarrow> er \<or> l = place (x # lp # ts @ [rp]) \<Longrightarrow>
    gexpr find_fn er b n (x # lp # ts @ [rp]) (Expr fn s es (fst l) (snd l))"
| paren: "tk lp = 19 \<Longrightarrow> gexpr find_fn er True 0 ts e \<Longrightarrow> tk rp = 20 \<Longrightarrow> er \<or> l = place (lp # ts @ [rp]) \<Longrightarrow>
    gexpr find_fn er b n (lp # ts @ [rp]) (set_place l e)"
| negation: "tk x = 18 \<Longrightarrow> gexpr find_fn er False 6 ts e \<Longrightarrow> er \<or> l = place (x # ts) \<Longrightarrow>
    gexpr find_fn er b n (x # ts) (Build LogicalNotFn l [e])"
| if_then: "tk x = 9 \<Longrightarrow> gexpr find_fn er True 0 cs c \<Longrightarrow> tk y = 10 \<Longrightarrow> gexpr find_fn er True 0 ts t \<Longrightarrow> tk z = 12 \<Longrightarrow>
    er \<or> l = place (x # cs @ y # ts @ [z]) \<Longrightarrow>
    gexpr find_fn er b n (x # cs @ y # ts @ [z]) (Build IfElseFn l [c, t])"
| if_then_else: "tk x = 9 \<Longrightarrow> gexpr find_fn er True 0 cs c \<Longrightarrow> tk y = 10 \<Longrightarrow> gexpr find_fn er True 0 ts t \<Longrightarrow> tk w = 11 \<Longrightarrow>
    gexpr find_fn er True 0 us u \<Longrightarrow> tk z = 12 \<Longrightarrow> er \<or> l = place (x # cs @ y # ts @ w # us @ [z]) \<Longrightarrow>
    gexpr find_fn er b n (x # cs @ y # ts @ w # us @ [z]) (Build IfElseFn l [c, t, u])"
| binary: "0 < oplevel (tk x) \<Longrightarrow> n \<le> oplevel (tk x) \<Longrightarrow> gexpr find_fn er b (oplevel (tk x)) ts e \<Longrightarrow>
    gexpr find_fn er False (Suc (oplevel (tk x))) us e' \<Longrightarrow> er \<or> l = place (ts @ x # us) \<Longrightarrow>
    gexpr find_fn er b n (ts @ x # us) (Build (opfn (tk x)) l [e, e'])"
| sequence: "gexpr find_fn er True 0 ts e \<Longrightarrow> tk x = 15 \<Longrightarrow> gexpr find_fn er False 1 us e' \<Longrightarrow> er \<or> l = place (ts @ x # us) \<Longrightarrow>
    gexpr find_fn er True 0 (ts @ x # us) (Build SequenceFn l [e, e'])"
| semicolon: "gexpr find_fn er True 0 ts e \<Longrightarrow> tk x = 15 \<Longrightarrow> er \<or> l = place ts \<Longrightarrow>
    gexpr find_fn er True n (ts @ [x]) (set_place l e)"
| skipped: "er \<Longrightarrow> tk x = 15 \<Longrightarrow> gexpr find_fn er False 1 us e \<Longrightarrow> gexpr find_fn er b n (ts @ x # us) (set_place l e)"
| no_arg: "gargs find_fn er [] []"
| one_arg: "gexpr find_fn er True 0 ts e \<Longrightarrow> gargs find_fn er ts [e]"
| more_args: "gargs find_fn er ts es \<Longrightarrow> tk x = 16 \<Longrightarrow> gexpr find_fn er True 0 us e \<Longrightarrow> gargs find_fn er (ts @ x # us) (es @ [e])"

lemma oplevel_le: "oplevel t \<le> 5"
  by (simp add: oplevel_def)

lemma gexpr_mono:
  "gexpr f er b n ts e \<Longrightarrow> n' \<le> n \<Longrightarrow> gexpr f er b n' ts e"
  by (erule gexpr.cases) (auto intro: gexpr_gargs.intros)

lemma gexpr_bstart: "gexpr f er b n ts e \<Longrightarrow> gexpr f er True n ts e"
  and "gargs f er ts' es \<Longrightarrow> True"
  by (induction rule: gexpr_gargs.inducts) (auto intro: gexpr_gargs.intros)

lemma gexpr_er: "gexpr f er b n ts e \<Longrightarrow> gexpr f True b n ts e"
  and gargs_er: "gargs f er ts' es \<Longrightarrow> gargs f True ts' es"
  by (induction rule: gexpr_gargs.inducts) (auto intro: gexpr_gargs.intros)

lemma gexpr_nonempty: "gexpr f er b n ts e \<Longrightarrow> ts \<noteq> []"
  by (erule gexpr.cases) simp_all

section \<open>The automaton\<close>

text \<open>
  The action for a state and a token, read off the tables once for all states; and the states that
  can be below a state on the stack.
\<close>

definition bases :: "int list" where
  "bases = [0, 2, 4, 5, 8, 10, 14, 15, 16, 17, 18, 19, 21, 32, 34]"

definition after_expr :: "int \<Rightarrow> int" where
  "after_expr t = the (map_of [(0, 7), (2, 9), (4, 11), (5, 12), (8, 20), (10, 22), (14, 25), (15, 26), (16, 27),
     (17, 28), (18, 29), (19, 30), (21, 31), (32, 36), (34, 37)] t)"

definition follow :: "int list" where
  "follow = [0, 3, 4, 7, 8, 10, 11, 12, 15, 16, 17, 20]"

text \<open>The level from which operators are shifted in a state behind an expression.\<close>

definition lvl :: "int \<Rightarrow> nat" where
  "lvl s = (if s = 20 \<or> s = 29 then 1 else if s = 26 then 3 else if s = 25 then 4
     else if s = 27 \<or> s = 28 then 5 else if s = 30 \<or> s = 11 then 6 else 0)"

definition bstart :: "int \<Rightarrow> bool" where
  "bstart s \<longleftrightarrow> s \<in> set [7, 9, 12, 22, 31, 36, 37]"

definition edge_from :: "int \<Rightarrow> int list" where
  "edge_from s =
    (if s \<in> set [1, 2, 3, 4, 5] then bases
     else if s = 14 then [7, 9, 12, 20, 22, 26, 29, 31, 36, 37]
     else if s = 15 then [7, 9, 12, 20, 22, 29, 31, 36, 37]
     else if s = 16 \<or> s = 17 then [7, 9, 12, 20, 22, 25, 26, 29, 31, 36, 37]
     else if s = 18 then [7, 9, 12, 22, 31, 36, 37]
     else if s = 19 then [7, 9, 12, 20, 22, 25, 26, 27, 28, 29, 31, 36, 37]
     else the (map_of [(6, [0]), (7, [0]), (8, [1]), (9, [2]), (10, [3]), (11, [4]), (12, [5]), (20, [8]), (21, [9]),
       (22, [10]), (23, [10]), (24, [12]), (25, [14]), (26, [15]), (27, [16]), (28, [17]), (29, [18]), (30, [19]),
       (31, [21]), (32, [23]), (33, [23]), (34, [31]), (35, [31]), (36, [32]), (37, [34]), (38, [37])] s))"

definition states :: "int list" where "states = [0 .. 12] @ [14 .. 38]"
definition tokens :: "int list" where "tokens = [0 .. 20]"

definition reductions :: "(int \<times> int) list" where
  "reductions = [(2, 7), (3, 3), (4, 24), (5, 18), (6, 29), (7, 20), (8, 30), (9, 27), (10, 28), (11, 25), (12, 26),
     (13, 11), (14, 35), (15, 38), (16, 33), (17, 10), (18, 22), (19, 36)]"

text \<open>What the proofs use of the actions: checked by evaluation for every state and token.\<close>

fun act_ok :: "int \<Rightarrow> int \<Rightarrow> yyact res \<Rightarrow> bool" where
  "act_ok s t (Inl f) \<longleftrightarrow> False"
| "act_ok s t (Inr (Shift n)) \<longleftrightarrow> n \<in> set states \<and> s \<in> set (edge_from n) \<and> aget yystos n = Inr t \<and> t \<noteq> 0 \<and> t < 21"
| "act_ok s t (Inr (Reduce n)) \<longleftrightarrow> (n, s) \<in> set reductions \<and>
     (s \<in> set [25, 26, 27, 28, 29] \<longrightarrow> oplevel t < lvl s)"
| "act_ok s t (Inr Accept) \<longleftrightarrow> s = 6 \<and> t = 0"
| "act_ok s t (Inr Error) \<longleftrightarrow> True"

lemma act_ok_table: "list_all (\<lambda>s. list_all (\<lambda>t. act_ok s t (yydecide s t)) tokens) states"
  by code_simp

lemma act_ok: "s \<in> set states \<Longrightarrow> t \<in> set tokens \<Longrightarrow> act_ok s t (yydecide s t)"
  using act_ok_table unfolding list_all_iff by blast

fun pact_ok :: "int \<Rightarrow> int res \<Rightarrow> bool" where
  "pact_ok s (Inl f) \<longleftrightarrow> False"
| "pact_ok s (Inr p) \<longleftrightarrow> p = YYPACT_NINF \<longrightarrow> list_all (\<lambda>t. yydecide s t = yydefault s) tokens"

lemma pact_ok_table: "list_all (\<lambda>s. pact_ok s (aget yypact s)) states"
  by code_simp

lemma pact_ok: "s \<in> set states \<Longrightarrow> pact_ok s (aget yypact s)"
  using pact_ok_table unfolding list_all_iff by blast

lemma ninf_table:
  "list_all (\<lambda>s. aget yypact s = Inr YYPACT_NINF \<longrightarrow> s \<in> set [11, 24, 30, 33, 35, 38]) states"
  "list_all (\<lambda>s. yydefault s \<noteq> Inr Error \<and> yydefault s \<noteq> Inr Accept) [11, 24, 30, 33, 35, 38]"
  by (code_simp)+

lemma ninf_states: "aget yypact s = Inr YYPACT_NINF \<Longrightarrow> s \<in> set states \<Longrightarrow> s \<in> set [11, 24, 30, 33, 35, 38]"
  using ninf_table(1) unfolding list_all_iff by blast

lemma error_shift_cases:
  "\<forall>s\<in>set states. yyerror_shift s = Inr (if s \<in> set bases then Some 1 else None)"
proof -
  have "list_all (\<lambda>s. yyerror_shift s = Inr (if s \<in> set bases then Some 1 else None)) states" by code_simp
  then show ?thesis by (simp only: list_all_iff)
qed

lemma translate_table:
  "list_all (\<lambda>x. x \<in> set tokens) yytranslate \<and> list_all (\<lambda>x. x \<noteq> 0) (tl yytranslate) \<and> length yytranslate = 270"
  by code_simp

lemma YYTRANSLATE_token [simp]: "YYTRANSLATE c \<in> set tokens"
proof (cases "0 \<le> c \<and> c \<le> YYMAXUTOK")
  case True
  then have "yytranslate ! nat c \<in> set yytranslate"
    using translate_table nat_less_iff by (intro nth_mem) (simp add: yy_consts)
  then show ?thesis using True translate_table unfolding YYTRANSLATE_def list_all_iff by auto
qed (auto simp: YYTRANSLATE_def yy_consts tokens_def)

lemma tk_token [simp]: "tk x \<in> set tokens"
  by (simp add: tk_def)

lemma YYTRANSLATE_0 [simp]: "YYTRANSLATE 0 = 0"
  by (simp add: YYTRANSLATE_def yy_consts yytranslate_def)

lemma YYTRANSLATE_eq_0: "YYTRANSLATE c = 0 \<longleftrightarrow> c = 0"
proof
  assume c: "YYTRANSLATE c = 0"
  then have r: "0 \<le> c" "c \<le> YYMAXUTOK" "yytranslate ! nat c = 0"
    by (simp_all add: YYTRANSLATE_def yy_consts split: if_splits)
  show "c = 0"
  proof (rule ccontr)
    assume "c \<noteq> 0"
    then obtain k where k: "nat c = Suc k" using r(1) by (cases "nat c") auto
    have l: "length yytranslate = 270" using translate_table by simp
    have "k < length (tl yytranslate)" using k r(2) by (simp add: l yy_consts)
    then have "tl yytranslate ! k \<in> set (tl yytranslate)" by (rule nth_mem)
    moreover have "tl yytranslate ! k = yytranslate ! Suc k"
      using \<open>k < _\<close> by (simp add: nth_tl)
    ultimately show False using translate_table k r(3) unfolding list_all_iff by auto
  qed
qed simp

text \<open>The report of a syntax error fits the buffer on the stack.\<close>

definition expected_in :: "int \<Rightarrow> int list res" where
  "expected_in s = rbind (aget yypact s) (\<lambda>n.
     if \<not> (YYPACT_NINF < n \<and> n \<le> YYLAST) then Inr []
     else yyexpected n [if n < 0 then - n else 0 .. (if YYLAST - n + 1 < YYNTOKENS then YYLAST - n + 1 else YYNTOKENS) - 1] [])"

fun few_tokens :: "int list res \<Rightarrow> bool" where
  "few_tokens (Inl f) \<longleftrightarrow> False"
| "few_tokens (Inr xs) \<longleftrightarrow> length xs \<le> 4 \<and> list_all (\<lambda>x. x \<in> set tokens) xs"

lemma expected_table: "list_all (\<lambda>s. few_tokens (expected_in s)) states"
  by code_simp

fun short_name :: "string res \<Rightarrow> bool" where
  "short_name (Inl f) \<longleftrightarrow> False"
| "short_name (Inr n) \<longleftrightarrow> length n \<le> 10"

lemma symname_table: "list_all (\<lambda>x. short_name (yysymname x)) tokens"
  by code_simp

lemma symname: "x \<in> set tokens \<Longrightarrow> \<exists>n. yysymname x = Inr n \<and> length n \<le> 10"
proof -
  assume "x \<in> set tokens"
  then have "short_name (yysymname x)" using symname_table unfolding list_all_iff by blast
  then show ?thesis by (cases "yysymname x") simp_all
qed

lemma expecting_text_length:
  "list_all (\<lambda>n. length n \<le> 10) ns \<Longrightarrow> length (expecting_text pre ns) \<le> length pre + 14 * length ns"
proof (induction ns arbitrary: pre)
  case (Cons a ns)
  then have "length (expecting_text or_fmt ns) \<le> length or_fmt + 14 * length ns" "length a \<le> 10" by simp_all
  then show ?case by (simp add: or_fmt_def)
qed simp

lemma report_fits:
  assumes "s \<in> set states"
  shows "\<exists>k msg. yysyntax_error s c = Inr (k, msg) \<and> k \<le> 128 \<and> (0 < k \<longrightarrow> length msg < k)"
proof -
  obtain n where n: "aget yypact s = Inr n" using pact_ok [OF assms] by (cases "aget yypact s") simp_all
  have few: "few_tokens (expected_in s)" using expected_table assms unfolding list_all_iff by blast
  obtain args where a: "expected_in s = Inr args" "length args \<le> 4" "list_all (\<lambda>x. x \<in> set tokens) args"
    using few by (cases "expected_in s") simp_all
  obtain names where ns: "rmap yysymname args = Inr names" "length names = length args" "list_all (\<lambda>n. length n \<le> 10) names"
    using rmap_ok [of args yysymname "\<lambda>n. length n \<le> 10"] a(3) symname unfolding list_all_iff by blast
  obtain u where u: "yysymname (YYTRANSLATE c) = Inr u" "length u \<le> 10" using symname [OF YYTRANSLATE_token] by blast
  have "length (expecting_text expecting_fmt names) \<le> 68"
    using expecting_text_length [OF ns(3), of expecting_fmt] ns(2) a(2) by (simp add: expecting_fmt_def)
  then show ?thesis
    using n a(1,2) ns(1,2) u by (auto simp: yysyntax_error_def expected_in_def Let_def unexpected_fmt_def split: if_splits)
qed

end
