(* ===== verification/Edify_Reduce.thy ===== *)
theory Edify_Reduce
  imports Edify_Grammar
begin

text \<open>
  The invariant of the parser and its preservation by reductions and by the error recovery. The frames
  of the stack spell a path through the automaton, each frame holds the tokens it stands for and the value
  the grammar gives them, and the operand on top fits the look-ahead. Each reduction lowers a measure.
\<close>

section \<open>The invariant\<close>

definition sym_of :: "int \<Rightarrow> int" where
  "sym_of s = yystos ! nat s"

definition la :: "'c parser \<Rightarrow> int option" where
  "la p = (if yychar p = YYEMPTY then None else Some (YYTRANSLATE (yychar p)))"

text \<open>The level that the symbol behind an expression asks of it; an unread token asks for the highest.\<close>

definition need :: "int option \<Rightarrow> nat" where
  "need nxt = (case nxt of None \<Rightarrow> 5 | Some t \<Rightarrow> oplevel t)"

lemma need_simps [simp]: "need None = 5" "need (Some t) = oplevel t"
  by (simp_all add: need_def)

definition frame_ok ::
  "(string \<Rightarrow> 'c Function option) \<Rightarrow> bool \<Rightarrow> 'c Expr option \<Rightarrow> int option \<Rightarrow> 'c frame \<Rightarrow> lexeme list \<Rightarrow> bool" where
  "frame_ok f er r nxt fr seg =
     (case fr of (s, v, l) \<Rightarrow>
        if sym_of s = 23 then (er \<or> l = place seg) \<and> (\<exists>e. v = YExpr e \<and> gexpr f er (bstart s) (max (lvl s) (need nxt)) seg e)
        else if sym_of s = 24 then (\<exists>es. v = YArgs es \<and> gargs f er seg es)
        else if sym_of s = 22 then (\<exists>e. r = Some e \<and> gexpr f er True 0 seg e)
        else if sym_of s = 1 then er
        else (\<exists>x. seg = [x] \<and> tk x = sym_of s \<and> v = YStr (lx_lval x) \<and> l = lx_lloc x \<and> (tk x = 13 \<longrightarrow> lx_lval x \<noteq> None)))"

fun stk_ok ::
  "(string \<Rightarrow> 'c Function option) \<Rightarrow> bool \<Rightarrow> 'c Expr option \<Rightarrow> int option \<Rightarrow> 'c frame list \<Rightarrow> lexeme list \<Rightarrow> bool" where
  "stk_ok f er r nxt [] ts \<longleftrightarrow> ts = []"
| "stk_ok f er r nxt (fr # stk) ts \<longleftrightarrow>
     fst fr \<in> set states \<and> fst fr \<noteq> 0 \<and> top_state stk \<in> set (edge_from (fst fr)) \<and>
     (\<exists>us seg. ts = us @ seg \<and> frame_ok f er r nxt fr seg \<and> stk_ok f er r (Some (sym_of (fst fr))) stk us)"

lemma frame_ok_mono:
  "frame_ok f er r nxt fr seg \<Longrightarrow> need nxt' \<le> need nxt \<Longrightarrow> frame_ok f er r nxt' fr seg"
  unfolding frame_ok_def
  by (cases fr) (auto split: if_splits elim!: gexpr_mono intro: max.mono)

lemma stk_ok_mono:
  "stk_ok f er r nxt stk ts \<Longrightarrow> need nxt' \<le> need nxt \<Longrightarrow> stk_ok f er r nxt' stk ts"
  by (cases stk) (auto intro: frame_ok_mono)

lemma frame_ok_er: "frame_ok f er r nxt fr seg \<Longrightarrow> frame_ok f True r nxt fr seg"
  unfolding frame_ok_def by (auto split: if_splits prod.splits intro: gexpr_er gargs_er)

lemma stk_ok_er: "stk_ok f er r nxt stk ts \<Longrightarrow> stk_ok f True r nxt stk ts"
  by (induction stk arbitrary: nxt ts) (auto intro: frame_ok_er)

lemma top_in_states: "stk_ok f er r nxt stk ts \<Longrightarrow> top_state stk \<in> set states"
  by (cases stk) (auto simp: states_def)

text \<open>The frames of a stack, from the top: the state determines the symbol and what can be below.\<close>

lemma stk_ok_pop:
  assumes "stk_ok f er r nxt stk ts" and "top_state stk \<noteq> 0"
  obtains v l stk' us seg where "stk = (top_state stk, v, l) # stk'" "ts = us @ seg"
    "frame_ok f er r nxt (top_state stk, v, l) seg" "top_state stk' \<in> set (edge_from (top_state stk))"
    "stk_ok f er r (Some (sym_of (top_state stk))) stk' us"
proof (cases stk)
  case (Cons fr stk')
  moreover obtain s v l where "fr = (s, v, l)" by (cases fr)
  ultimately show ?thesis using assms(1) that [of v l stk'] by auto
qed (use assms(2) in simp)

definition toks_ok :: "lexeme list \<Rightarrow> lexeme \<Rightarrow> bool" where
  "toks_ok ts eof \<longleftrightarrow> lx_char eof = 0 \<and>
     list_all (\<lambda>x. 0 < lx_char x \<and> tk x \<noteq> 1 \<and> (tk x = 13 \<longrightarrow> lx_lval x \<noteq> None)) ts"

text \<open>The tokens the parser has not shifted yet.\<close>

definition pends :: "'c parser \<Rightarrow> lexeme list \<Rightarrow> bool" where
  "pends p ws \<longleftrightarrow> (if yychar p = YYEMPTY then yyinput p = map Inr ws
     else ws \<noteq> [] \<and> yyglobals p = hd ws \<and> yychar p = lx_char (hd ws) \<and> yyinput p = map Inr (tl ws))"

definition Inv :: "(string \<Rightarrow> 'c Function option) \<Rightarrow> lexeme list \<Rightarrow> lexeme \<Rightarrow> 'c parser \<Rightarrow> bool" where
  "Inv f ts eof p \<longleftrightarrow> (\<exists>us ws. us @ ws = ts \<and> pends p (ws @ [eof]) \<and>
     stk_ok f (0 < error_count p) (root p) (la p) (yystack p) us) \<and>
     yyerrstatus p \<le> 3 \<and> (0 < yyerrstatus p \<longrightarrow> 0 < error_count p) \<and>
     YYINITDEPTH \<le> yystacksize p \<and> yystacksize p \<le> YYMAXDEPTH \<and> length (yystack p) \<le> yystacksize p - 1"

text \<open>The measure that goes down with every state that is pushed.\<close>

definition weight :: "int \<Rightarrow> nat" where
  "weight s = (if s = 10 then 3 else if s = 3 then 2 else if s = 6 \<or> s = 23 then 0 else 1)"

definition left_to_read :: "'c parser \<Rightarrow> nat" where
  "left_to_read p = 2 * length (yyinput p) + (if yychar p = YYEMPTY \<or> yychar p = YYEOF then 0 else 1)"

definition yyless :: "('c parser \<times> 'c parser) set" where
  "yyless = measures [left_to_read, \<lambda>p. 3 - yyerrstatus p, \<lambda>p. 2 * length (yystack p) + weight (top_state (yystack p))]"

section \<open>One round\<close>

lemma yyreduce_yields:
  assumes "yystack p = frs @ rest" and "aget yyr2 n = Inr (int (length frs))"
    and "YYLLOC_DEFAULT (map frame_loc (rev frs)) (map frame_loc rest) = Inr l"
    and "\<And>v0. yyaction f n (map frame_val (rev frs)) (map frame_loc (rev frs)) l v0 = Inr (Yields v)"
    and "aget yyr1 n = Inr nt" and "yygoto (top_state rest) nt = Inr s"
  shows "yyreduce f n p = Inr (Go (p\<lparr>yystack := (s, v, l) # rest\<rparr>))"
  using assms by (simp add: yyreduce_def yypush_def Let_def)

lemma sym_of_frame: "aget yystos s = Inr t \<Longrightarrow> sym_of s = t"
  by (simp add: aget_def sym_of_def split: if_splits)

lemma sym_of_simps [simp]:
  "sym_of 1 = 1" "sym_of 2 = 9" "sym_of 3 = 13" "sym_of 4 = 18" "sym_of 5 = 19" "sym_of 6 = 22" "sym_of 8 = 15"
  "sym_of 10 = 19" "sym_of 14 = 3" "sym_of 15 = 4" "sym_of 16 = 7" "sym_of 17 = 8" "sym_of 18 = 15" "sym_of 19 = 17"
  "sym_of 21 = 10" "sym_of 23 = 24" "sym_of 24 = 20" "sym_of 32 = 16" "sym_of 33 = 20" "sym_of 34 = 11" "sym_of 35 = 12"
  "sym_of 38 = 12"
  by (code_simp)+

lemma expr_state_table:
  "list_all (\<lambda>t. sym_of (after_expr t) = 23 \<and> edge_from (after_expr t) = [t] \<and> after_expr t \<in> set states \<and> after_expr t \<noteq> 0 \<and>
     yygoto t 23 = Inr (after_expr t) \<and> weight (after_expr t) = 1) bases"
  by code_simp

lemma expr_state:
  assumes "t \<in> set bases"
  shows "sym_of (after_expr t) = 23" "edge_from (after_expr t) = [t]" "after_expr t \<in> set states" "after_expr t \<noteq> 0"
    "yygoto t 23 = Inr (after_expr t)" "weight (after_expr t) = 1"
  using assms expr_state_table unfolding list_all_iff by blast+

lemma edge_from_simps [simp]:
  "s \<in> {1, 2, 3, 4, 5} \<Longrightarrow> edge_from s = bases" "edge_from 6 = [0]" "edge_from 8 = [1]" "edge_from 10 = [3]" "edge_from 21 = [9]"
  "edge_from 23 = [10]" "edge_from 24 = [12]" "edge_from 32 = [23]" "edge_from 33 = [23]" "edge_from 34 = [31]"
  "edge_from 35 = [31]" "edge_from 38 = [37]" "edge_from 18 = [7, 9, 12, 22, 31, 36, 37]"
  by (auto simp: edge_from_def)

lemma after_expr_simps [simp]:
  "after_expr 0 = 7" "after_expr 2 = 9" "after_expr 4 = 11" "after_expr 5 = 12" "after_expr 8 = 20" "after_expr 10 = 22"
  "after_expr 14 = 25" "after_expr 15 = 26" "after_expr 16 = 27" "after_expr 17 = 28" "after_expr 18 = 29" "after_expr 19 = 30"
  "after_expr 21 = 31" "after_expr 32 = 36" "after_expr 34 = 37"
  by (simp_all add: after_expr_def)

text \<open>The states with a binary operator in front of the dot, and those behind its right operand.\<close>

lemma op_state_table:
  "list_all (\<lambda>s. edge_from (after_expr s) = [s] \<and> lvl (after_expr s) = Suc (oplevel (sym_of s)) \<and> 0 < oplevel (sym_of s) \<and>
     \<not> bstart (after_expr s) \<and> sym_of s \<notin> set [1, 13, 22, 23, 24] \<and>
     list_all (\<lambda>x. x \<in> set (map after_expr bases) \<and> lvl x \<le> oplevel (sym_of s)) (edge_from s)) [14, 15, 16, 17, 19]"
  by code_simp

lemma frame_okE_expr:
  assumes "frame_ok f er r nxt (s, v, l) seg" and "sym_of s = 23"
  obtains e where "v = YExpr e" "gexpr f er (bstart s) (max (lvl s) (need nxt)) seg e" "er \<or> l = place seg"
  using assms by (auto simp: frame_ok_def)

lemma frame_okE_token:
  assumes "frame_ok f er r nxt (s, v, l) seg" and "sym_of s \<notin> set [1, 22, 23, 24]"
  obtains x where "seg = [x]" "tk x = sym_of s" "v = YStr (lx_lval x)" "l = lx_lloc x" "tk x = 13 \<longrightarrow> lx_lval x \<noteq> None"
  using assms by (auto simp: frame_ok_def)

lemma stk_ok_top:
  assumes "stk_ok f er r nxt stk ts" and "top_state stk = s" and "s \<noteq> 0"
  obtains v l stk' us seg where "stk = (s, v, l) # stk'" "ts = us @ seg" "frame_ok f er r nxt (s, v, l) seg"
    "top_state stk' \<in> set (edge_from s)" "stk_ok f er r (Some (sym_of s)) stk' us"
  using stk_ok_pop [OF assms(1)] assms(2,3) by metis

lemma stk_ok_top_expr:
  assumes "stk_ok f er r nxt stk ts" and "top_state stk = after_expr t" and "t \<in> set bases"
  obtains e l stk' us seg where "stk = (after_expr t, YExpr e, l) # stk'" "ts = us @ seg" "er \<or> l = place seg"
    "gexpr f er (bstart (after_expr t)) (max (lvl (after_expr t)) (need nxt)) seg e"
    "top_state stk' = t" "stk_ok f er r (Some 23) stk' us"
proof -
  note es = expr_state [OF assms(3)]
  obtain v l stk' us seg where 1: "stk = (after_expr t, v, l) # stk'" "ts = us @ seg"
    "frame_ok f er r nxt (after_expr t, v, l) seg" "top_state stk' \<in> set (edge_from (after_expr t))"
    "stk_ok f er r (Some (sym_of (after_expr t))) stk' us"
    using stk_ok_top [OF assms(1,2) es(4)] .
  then obtain e where "v = YExpr e" "gexpr f er (bstart (after_expr t)) (max (lvl (after_expr t)) (need nxt)) seg e"
      "er \<or> l = place seg"
    using frame_okE_expr es(1) by blast
  then show ?thesis using that [of e l stk' us seg] 1 es(1,2) by simp
qed

lemma stk_ok_top_token:
  assumes "stk_ok f er r nxt stk ts" and "top_state stk = s" and "s \<noteq> 0" and "sym_of s \<notin> set [1, 22, 23, 24]"
  obtains x stk' us where "stk = (s, YStr (lx_lval x), lx_lloc x) # stk'" "ts = us @ [x]" "tk x = sym_of s"
    "tk x = 13 \<longrightarrow> lx_lval x \<noteq> None" "top_state stk' \<in> set (edge_from s)" "stk_ok f er r (Some (sym_of s)) stk' us"
proof -
  obtain v l stk' us seg where 1: "stk = (s, v, l) # stk'" "ts = us @ seg" "frame_ok f er r nxt (s, v, l) seg"
    "top_state stk' \<in> set (edge_from s)" "stk_ok f er r (Some (sym_of s)) stk' us"
    using stk_ok_top [OF assms(1-3)] .
  from 1(3) assms(4) obtain x where "seg = [x]" "tk x = sym_of s" "v = YStr (lx_lval x)" "l = lx_lloc x"
      "tk x = 13 \<longrightarrow> lx_lval x \<noteq> None"
    by (rule frame_okE_token)
  with 1 show ?thesis using that by blast
qed

lemma place_append: "ts \<noteq> [] \<Longrightarrow> us \<noteq> [] \<Longrightarrow> place (ts @ us) = (fst (place ts), snd (place us))"
  by (simp add: place_def)

lemma place_Cons: "us \<noteq> [] \<Longrightarrow> place (x # us) = (fst (lx_lloc x), snd (place us))"
  by (simp add: place_def)

lemma place_single [simp]: "place [x] = lx_lloc x"
  by (simp add: place_def)

text \<open>The part of the invariant that does not speak of the stack and the input.\<close>

definition side :: "'c parser \<Rightarrow> bool" where
  "side p \<longleftrightarrow> yyerrstatus p \<le> 3 \<and> (0 < yyerrstatus p \<longrightarrow> 0 < error_count p) \<and>
     YYINITDEPTH \<le> yystacksize p \<and> yystacksize p \<le> YYMAXDEPTH"

definition room :: "'c parser \<Rightarrow> bool" where
  "room p \<longleftrightarrow> length (yystack p) < yystacksize p - 1"

definition splits :: "(string \<Rightarrow> 'c Function option) \<Rightarrow> lexeme list \<Rightarrow> lexeme \<Rightarrow> 'c parser \<Rightarrow> lexeme list \<Rightarrow> bool" where
  "splits f ts eof p us \<longleftrightarrow> (\<exists>ws. us @ ws = ts \<and> pends p (ws @ [eof])) \<and>
     stk_ok f (0 < error_count p) (root p) (la p) (yystack p) us"

lemma Inv_iff: "Inv f ts eof p \<longleftrightarrow> (\<exists>us. splits f ts eof p us) \<and> side p \<and> length (yystack p) \<le> yystacksize p - 1"
  unfolding Inv_def splits_def side_def by blast

definition advances :: "(string \<Rightarrow> 'c Function option) \<Rightarrow> lexeme list \<Rightarrow> lexeme \<Rightarrow> 'c parser \<Rightarrow> 'c move res \<Rightarrow> bool" where
  "advances f ts eof p m \<longleftrightarrow> (\<exists>p'. m = Inr (Go p') \<and> Inv f ts eof p' \<and> (p', p) \<in> yyless)"

definition ready :: "(string \<Rightarrow> 'c Function option) \<Rightarrow> lexeme list \<Rightarrow> lexeme \<Rightarrow> 'c parser \<Rightarrow> lexeme list \<Rightarrow> bool" where
  "ready f ts eof p us \<longleftrightarrow> splits f ts eof p us \<and> side p \<and> room p"

lemma ready_stack: "ready f ts eof p us \<Longrightarrow> stk_ok f (0 < error_count p) (root p) (la p) (yystack p) us"
  by (simp add: ready_def splits_def)

lemma restack:
  assumes "ready f ts eof p us"
    and "stk_ok f (0 < error_count p) r (la p) stk us" and "length stk \<le> Suc (length (yystack p))"
    and "2 * length stk + weight (top_state stk) < 2 * length (yystack p) + weight (top_state (yystack p))"
    and "p' = p\<lparr>yystack := stk, root := r\<rparr>"
  shows "advances f ts eof p (Inr (Go p'))"
proof -
  have "pends p' = pends p" "la p' = la p" using assms(5) by (simp_all add: pends_def la_def fun_eq_iff)
  then have "splits f ts eof p' us" using assms(1,2,5) by (simp add: splits_def ready_def)
  moreover have "side p'" using assms(1,5) by (simp add: side_def ready_def)
  moreover have "length (yystack p') \<le> yystacksize p' - 1" using assms(1,3,5) by (simp add: room_def ready_def)
  moreover have "(p', p) \<in> yyless" using assms(4,5) by (simp add: yyless_def left_to_read_def)
  ultimately show ?thesis unfolding advances_def Inv_iff by blast
qed

lemma stk_ok_push_expr:
  assumes "stk_ok f er r X rest us" and "top_state rest \<in> set bases"
    and "gexpr f er (bstart (after_expr (top_state rest))) (max (lvl (after_expr (top_state rest))) (need nxt)) seg e"
    and "er \<or> l = place seg"
  shows "stk_ok f er r nxt ((after_expr (top_state rest), YExpr e, l) # rest) (us @ seg)"
proof -
  note es = expr_state [OF assms(2)]
  have "stk_ok f er r (Some 23) rest us"
    by (rule stk_ok_mono [OF assms(1)]) (simp add: oplevel_def)
  then show ?thesis using es assms(3,4) by (auto simp: frame_ok_def)
qed

lemma reduce_to_expr:
  assumes "ready f ts eof p (us @ seg)"
    and "yystack p = frs @ rest" and "frs \<noteq> []" and "aget yyr2 n = Inr (int (length frs))"
    and "stk_ok f (0 < error_count p) (root p) X rest us" and "top_state rest \<in> set bases"
    and "l = (fst (frame_loc (last frs)), snd (frame_loc (hd frs)))"
    and "\<And>v0. yyaction f n (map frame_val (rev frs)) (map frame_loc (rev frs)) l v0 = Inr (Yields (YExpr e))"
    and "aget yyr1 n = Inr 23"
    and "gexpr f (0 < error_count p) (bstart (after_expr (top_state rest)))
      (max (lvl (after_expr (top_state rest))) (need (la p))) seg e"
    and "0 < error_count p \<or> l = place seg"
    and "2 < 2 * length frs + weight (top_state (yystack p)) - 1"
  shows "advances f ts eof p (yyreduce f n p)"
proof -
  note es = expr_state [OF assms(6)]
  let ?g = "after_expr (top_state rest)"
  have l: "YYLLOC_DEFAULT (map frame_loc (rev frs)) (map frame_loc rest) = Inr l"
    using assms(3,7) by (simp add: YYLLOC_DEFAULT_def hd_map hd_rev last_map last_rev)
  have "yyreduce f n p = Inr (Go (p\<lparr>yystack := (?g, YExpr e, l) # rest\<rparr>))"
    using assms(2,4) l assms(8,9) es(5) by (rule yyreduce_yields)
  moreover have "advances f ts eof p (Inr (Go (p\<lparr>yystack := (?g, YExpr e, l) # rest\<rparr>)))"
  proof (rule restack [OF assms(1)])
    show "stk_ok f (0 < error_count p) (root p) (la p) ((?g, YExpr e, l) # rest) (us @ seg)"
      using assms(5,6,10,11) by (rule stk_ok_push_expr)
    show "2 * length ((?g, YExpr e, l) # rest) + weight (top_state ((?g, YExpr e, l) # rest))
        < 2 * length (yystack p) + weight (top_state (yystack p))"
      using assms(2,12) es(6) by simp
  qed (use assms(2,3) in simp_all)
  ultimately show ?thesis by simp
qed

lemma yyr_simps [simp]:
  "aget yyr2 2 = Inr 1" "aget yyr2 3 = Inr 1" "aget yyr2 4 = Inr 3" "aget yyr2 5 = Inr 2" "aget yyr2 6 = Inr 3" "aget yyr2 7 = Inr 3"
  "aget yyr2 8 = Inr 3" "aget yyr2 9 = Inr 3" "aget yyr2 10 = Inr 3" "aget yyr2 11 = Inr 3" "aget yyr2 12 = Inr 3" "aget yyr2 13 = Inr 2"
  "aget yyr2 14 = Inr 5" "aget yyr2 15 = Inr 7" "aget yyr2 16 = Inr 4" "aget yyr2 17 = Inr 0" "aget yyr2 18 = Inr 1" "aget yyr2 19 = Inr 3"
  "aget yyr1 2 = Inr 22" "aget yyr1 3 = Inr 23" "aget yyr1 4 = Inr 23" "aget yyr1 5 = Inr 23" "aget yyr1 6 = Inr 23" "aget yyr1 7 = Inr 23"
  "aget yyr1 8 = Inr 23" "aget yyr1 9 = Inr 23" "aget yyr1 10 = Inr 23" "aget yyr1 11 = Inr 23" "aget yyr1 12 = Inr 23" "aget yyr1 13 = Inr 23"
  "aget yyr1 14 = Inr 23" "aget yyr1 15 = Inr 23" "aget yyr1 16 = Inr 23" "aget yyr1 17 = Inr 24" "aget yyr1 18 = Inr 24" "aget yyr1 19 = Inr 24"
  "yygoto 0 22 = Inr 6" "yygoto 10 24 = Inr 23"
  by (code_simp)+

lemmas frame_simps = frame_val_def frame_loc_def

lemma bracket_simps [simp]:
  "bstart 7" "bstart 9" "bstart 12" "bstart 22" "bstart 31" "bstart 36" "bstart 37" "\<not> bstart 11" "\<not> bstart 20" "\<not> bstart 29"
  "lvl 7 = 0" "lvl 9 = 0" "lvl 12 = 0" "lvl 22 = 0" "lvl 31 = 0" "lvl 36 = 0" "lvl 37 = 0" "lvl 11 = 6" "lvl 20 = 1" "lvl 29 = 1"
  by (simp_all add: bstart_def lvl_def)

lemma bases_simps [simp]:
  "0 \<in> set bases" "2 \<in> set bases" "4 \<in> set bases" "5 \<in> set bases" "8 \<in> set bases" "10 \<in> set bases" "14 \<in> set bases" "15 \<in> set bases"
  "16 \<in> set bases" "17 \<in> set bases" "18 \<in> set bases" "19 \<in> set bases" "21 \<in> set bases" "32 \<in> set bases" "34 \<in> set bases"
  by (simp_all add: bases_def)

lemma gexpr_max: "gexpr f er b (max m n) seg e \<Longrightarrow> gexpr f er b m seg e"
  by (auto elim: gexpr_mono)

lemma gexpr_any: "gexpr f er b n seg e \<Longrightarrow> b \<Longrightarrow> gexpr f er True 0 seg e"
  by (auto intro: gexpr_mono)

lemma reduce_3: 
  assumes "ready f ts eof p us" and "yystate p = 3"
  shows "advances f ts eof p (yyreduce f 3 p)"
proof -
  let ?er = "0 < error_count p"
  obtain x rest us' where 1: "yystack p = (3, YStr (lx_lval x), lx_lloc x) # rest" "us = us' @ [x]" "tk x = 13"
    "lx_lval x \<noteq> None" "top_state rest \<in> set bases" "stk_ok f ?er (root p) (Some 13) rest us'"
    by (rule stk_ok_top_token [OF ready_stack [OF assms(1)] assms(2) [unfolded yystate_def]]) auto
  then obtain s where s: "lx_lval x = Some s" by blast
  show ?thesis
    by (rule reduce_to_expr [where us = us' and seg = "[x]" and frs = "[(3, YStr (lx_lval x), lx_lloc x)]" and rest = rest and
        e = "Expr Literal s [] (fst (lx_lloc x)) (snd (lx_lloc x))" and l = "lx_lloc x"])
      (use assms(1) 1 s in \<open>auto simp: frame_simps yyaction_def weight_def intro!: gexpr_gargs.lit\<close>)
qed

lemma reduce_4:
  assumes "ready f ts eof p us" and "yystate p = 24"
  shows "advances f ts eof p (yyreduce f 4 p)"
proof -
  let ?er = "0 < error_count p"
  obtain x st1 us1 where 1: "yystack p = (24, YStr (lx_lval x), lx_lloc x) # st1" "us = us1 @ [x]" "tk x = 20"
    "top_state st1 = after_expr 5" "stk_ok f ?er (root p) (Some 20) st1 us1"
    by (rule stk_ok_top_token [OF ready_stack [OF assms(1)] assms(2) [unfolded yystate_def]]) auto
  obtain e l st2 us2 seg where 2: "st1 = (12, YExpr e, l) # st2" "us1 = us2 @ seg"
    "gexpr f ?er True 0 seg e" "top_state st2 = 5" "stk_ok f ?er (root p) (Some 23) st2 us2"
    by (rule stk_ok_top_expr [OF 1(5,4)]) (auto intro: gexpr_any)
  obtain y rest us3 where 3: "st2 = (5, YStr (lx_lval y), lx_lloc y) # rest" "us2 = us3 @ [y]" "tk y = 19"
    "top_state rest \<in> set bases" "stk_ok f ?er (root p) (Some 19) rest us3"
    by (rule stk_ok_top_token [OF 2(5,4)]) auto
  show ?thesis
    by (rule reduce_to_expr [where us = us3 and seg = "[y] @ seg @ [x]" and rest = rest and
        frs = "[(24, YStr (lx_lval x), lx_lloc x), (12, YExpr e, l), (5, YStr (lx_lval y), lx_lloc y)]" and
        e = "set_place (fst (lx_lloc y), snd (lx_lloc x)) e" and l = "(fst (lx_lloc y), snd (lx_lloc x))"])
      (use assms(1) 1 2 3 in \<open>auto simp: frame_simps yyaction_def weight_def place_def intro!: gexpr_gargs.paren\<close>)
qed

text \<open>The operand in front of a semicolon.\<close>

lemma semicolon_state: "t \<in> set bases \<Longrightarrow> after_expr t \<in> set (edge_from 18) \<Longrightarrow> bstart (after_expr t) \<and> lvl (after_expr t) = 0"
  by (auto simp: bstart_def lvl_def)

lemma edge_expr:
  assumes "s \<in> {14, 15, 16, 17, 18, 19}" and "x \<in> set (edge_from s)"
  obtains t where "t \<in> set bases" "x = after_expr t"
proof -
  have "list_all (\<lambda>s. list_all (\<lambda>x. x \<in> set (map after_expr bases)) (edge_from s)) [14, 15, 16, 17, 18, 19]" by code_simp
  then have "x \<in> set (map after_expr bases)" using assms unfolding list_all_iff by auto
  then show ?thesis using that by auto
qed

lemma reduce_5:
  assumes "ready f ts eof p us" and "yystate p = 18"
  shows "advances f ts eof p (yyreduce f 5 p)"
proof -
  let ?er = "0 < error_count p"
  obtain x st1 us1 where 1: "yystack p = (18, YStr (lx_lval x), lx_lloc x) # st1" "us = us1 @ [x]" "tk x = 15"
    "top_state st1 \<in> set (edge_from 18)" "stk_ok f ?er (root p) (Some 15) st1 us1"
    by (rule stk_ok_top_token [OF ready_stack [OF assms(1)] assms(2) [unfolded yystate_def]]) auto
  obtain t where t: "t \<in> set bases" "top_state st1 = after_expr t" by (rule edge_expr [OF _ 1(4)]) auto
  note bs = semicolon_state [OF t(1) 1(4) [unfolded t(2)]]
  obtain e l rest us2 seg where 2: "st1 = (after_expr t, YExpr e, l) # rest" "us1 = us2 @ seg" "?er \<or> l = place seg"
    "gexpr f ?er True 0 seg e" "top_state rest = t" "stk_ok f ?er (root p) (Some 23) rest us2"
    by (rule stk_ok_top_expr [OF 1(5) t(2,1)]) (use bs in \<open>auto intro: gexpr_any\<close>)
  show ?thesis
    by (rule reduce_to_expr [where us = us2 and seg = "seg @ [x]" and rest = rest and
        frs = "[(18, YStr (lx_lval x), lx_lloc x), (after_expr t, YExpr e, l)]" and
        e = "set_place l e" and l = "(fst l, snd (lx_lloc x))"])
      (use assms(1) 1 2 t bs gexpr_nonempty [OF 2(4)] in
        \<open>auto simp: frame_simps yyaction_def weight_def place_def intro!: gexpr_gargs.semicolon\<close>)
qed

text \<open>The three frames of a binary operator and its operands.\<close>

lemma pop_binary:
  assumes "ready f ts eof p us" and "yystate p = after_expr s" and "s \<in> {14, 15, 16, 17, 18, 19}"
  obtains e' l' x t e l rest us0 seg seg' where
    "yystack p = [(after_expr s, YExpr e', l'), (s, YStr (lx_lval x), lx_lloc x), (after_expr t, YExpr e, l)] @ rest"
    "us = us0 @ seg @ x # seg'" "tk x = sym_of s" "t \<in> set bases" "after_expr t \<in> set (edge_from s)" "top_state rest = t"
    "gexpr f (0 < error_count p) (bstart (after_expr t)) (max (lvl (after_expr t)) (oplevel (sym_of s))) seg e"
    "gexpr f (0 < error_count p) False (lvl (after_expr s)) seg' e'"
    "0 < error_count p \<or> (fst l, snd l') = place (seg @ x # seg')" "stk_ok f (0 < error_count p) (root p) (Some 23) rest us0"
proof -
  let ?er = "0 < error_count p"
  have s: "s \<in> set bases" "s \<noteq> 0" "sym_of s \<notin> set [1, 22, 23, 24]" "\<not> bstart (after_expr s)"
    using assms(3) by (auto simp: bstart_def)
  obtain e' l' st1 us1 seg' where 1: "yystack p = (after_expr s, YExpr e', l') # st1" "us = us1 @ seg'" "?er \<or> l' = place seg'"
    "gexpr f ?er False (lvl (after_expr s)) seg' e'" "top_state st1 = s" "stk_ok f ?er (root p) (Some 23) st1 us1"
    by (rule stk_ok_top_expr [OF ready_stack [OF assms(1)] assms(2) [unfolded yystate_def] s(1)])
      (use s(4) in \<open>auto dest: gexpr_max\<close>)
  obtain x st2 us2 where 2: "st1 = (s, YStr (lx_lval x), lx_lloc x) # st2" "us1 = us2 @ [x]" "tk x = sym_of s"
    "top_state st2 \<in> set (edge_from s)" "stk_ok f ?er (root p) (Some (sym_of s)) st2 us2"
    by (rule stk_ok_top_token [OF 1(6,5) s(2,3)]) auto
  obtain t where t: "t \<in> set bases" "top_state st2 = after_expr t" using edge_expr [OF assms(3) 2(4)] by metis
  obtain e l rest us0 seg where 3: "st2 = (after_expr t, YExpr e, l) # rest" "us2 = us0 @ seg" "?er \<or> l = place seg"
    "gexpr f ?er (bstart (after_expr t)) (max (lvl (after_expr t)) (oplevel (sym_of s))) seg e"
    "top_state rest = t" "stk_ok f ?er (root p) (Some 23) rest us0"
    by (rule stk_ok_top_expr [OF 2(5) t(2,1)]) auto
  have "?er \<or> (fst l, snd l') = place (seg @ x # seg')"
    using 1(3) 3(3) gexpr_nonempty [OF 1(4)] gexpr_nonempty [OF 3(4)] by (auto simp: place_def)
  then show ?thesis using that [of e' l' x t e l rest us0 seg seg'] 1 2 3 t by simp
qed

lemma reduce_6:
  assumes "ready f ts eof p us" and "yystate p = 29" and "need (la p) < lvl 29"
  shows "advances f ts eof p (yyreduce f 6 p)"
proof -
  let ?er = "0 < error_count p"
  have "yystate p = after_expr 18" using assms(2) by simp
  then obtain e' l' x t e l rest us0 seg seg' where 1:
    "yystack p = [(after_expr 18, YExpr e', l'), (18, YStr (lx_lval x), lx_lloc x), (after_expr t, YExpr e, l)] @ rest"
    "us = us0 @ seg @ x # seg'" "tk x = sym_of 18" "t \<in> set bases" "after_expr t \<in> set (edge_from 18)" "top_state rest = t"
    "gexpr f ?er (bstart (after_expr t)) (max (lvl (after_expr t)) (oplevel (sym_of 18))) seg e"
    "gexpr f ?er False (lvl (after_expr 18)) seg' e'"
    "?er \<or> (fst l, snd l') = place (seg @ x # seg')" "stk_ok f ?er (root p) (Some 23) rest us0"
    using pop_binary [OF assms(1), of 18] by blast
  note bs = semicolon_state [OF 1(4,5)]
  have "gexpr f ?er True 0 seg e" using gexpr_any [OF 1(7)] bs by blast
  then have g: "gexpr f ?er True 0 (seg @ x # seg') (Build SequenceFn (fst l, snd l') [e, e'])"
    using 1(3,8,9) by (intro gexpr_gargs.sequence) simp_all
  show ?thesis
    by (rule reduce_to_expr [where us = us0 and seg = "seg @ x # seg'" and rest = rest and
        frs = "[(after_expr 18, YExpr e', l'), (18, YStr (lx_lval x), lx_lloc x), (after_expr t, YExpr e, l)]" and
        e = "Build SequenceFn (fst l, snd l') [e, e']" and l = "(fst l, snd l')"])
      (use assms(1,3) 1 bs g in \<open>auto simp: frame_simps yyaction_def build2_def weight_def\<close>)
qed

lemma operator_state:
  assumes "s \<in> {14, 15, 16, 17, 19}"
  shows "lvl (after_expr s) = Suc (oplevel (sym_of s))" "0 < oplevel (sym_of s)"
    "x \<in> set (edge_from s) \<Longrightarrow> lvl x \<le> oplevel (sym_of s)" "weight (after_expr s) = 1"
  using assms op_state_table by (auto simp: list_all_iff weight_def)

lemma reduce_binary:
  assumes "ready f ts eof p us" and "yystate p = after_expr s" and "s \<in> {14, 15, 16, 17, 19}"
    and "need (la p) < lvl (after_expr s)" and "aget yyr2 n = Inr 3" and "aget yyr1 n = Inr 23"
    and "\<And>a b c l v0 ls. yyaction f n [a, b, c] ls l v0 = build2 (opfn (sym_of s)) l a c"
  shows "advances f ts eof p (yyreduce f n p)"
proof -
  let ?er = "0 < error_count p"
  note op = operator_state [OF assms(3)]
  have s6: "s \<in> {14, 15, 16, 17, 18, 19}" using assms(3) by blast
  obtain e' l' x t e l rest us0 seg seg' where 1:
    "yystack p = [(after_expr s, YExpr e', l'), (s, YStr (lx_lval x), lx_lloc x), (after_expr t, YExpr e, l)] @ rest"
    "us = us0 @ seg @ x # seg'" "tk x = sym_of s" "t \<in> set bases" "after_expr t \<in> set (edge_from s)" "top_state rest = t"
    "gexpr f ?er (bstart (after_expr t)) (max (lvl (after_expr t)) (oplevel (sym_of s))) seg e"
    "gexpr f ?er False (lvl (after_expr s)) seg' e'"
    "?er \<or> (fst l, snd l') = place (seg @ x # seg')" "stk_ok f ?er (root p) (Some 23) rest us0"
    by (rule pop_binary [OF assms(1,2) s6])
  have "gexpr f ?er (bstart (after_expr t)) (oplevel (tk x)) seg e" using 1(3,7) by (auto intro: gexpr_mono)
  then have "gexpr f ?er (bstart (after_expr t)) (max (lvl (after_expr t)) (need (la p))) (seg @ x # seg')
      (Build (opfn (tk x)) (fst l, snd l') [e, e'])"
    using 1(3,8,9) op(1,2) op(3) [OF 1(5)] assms(4) by (intro gexpr_gargs.binary) auto
  then show ?thesis
    using assms(1,5-) 1 op(4)
    by (intro reduce_to_expr [where us = us0 and seg = "seg @ x # seg'" and rest = rest and
        frs = "[(after_expr s, YExpr e', l'), (s, YStr (lx_lval x), lx_lloc x), (after_expr t, YExpr e, l)]" and
        e = "Build (opfn (tk x)) (fst l, snd l') [e, e']" and l = "(fst l, snd l')"])
      (auto simp: frame_simps build2_def)
qed

lemma reduce_7:
  assumes "ready f ts eof p us" and "yystate p = 20"
  shows "advances f ts eof p (yyreduce f 7 p)"
proof -
  let ?er = "0 < error_count p"
  have "top_state (yystack p) = after_expr 8" using assms(2) by (simp add: yystate_def)
  then obtain e l st1 us1 seg where 1: "yystack p = (20, YExpr e, l) # st1" "us = us1 @ seg"
    "gexpr f ?er False 1 seg e" "top_state st1 = 8" "stk_ok f ?er (root p) (Some 23) st1 us1"
    by (rule stk_ok_top_expr [OF ready_stack [OF assms(1)]]) (auto dest: gexpr_max)
  obtain x st2 us2 where 2: "st1 = (8, YStr (lx_lval x), lx_lloc x) # st2" "us1 = us2 @ [x]" "tk x = 15"
    "top_state st2 = 1" "stk_ok f ?er (root p) (Some 15) st2 us2"
    by (rule stk_ok_top_token [OF 1(5,4)]) auto
  obtain v l' rest us0 skip where 3: "st2 = (1, v, l') # rest" "us2 = us0 @ skip" ?er
    "top_state rest \<in> set bases" "stk_ok f ?er (root p) (Some 1) rest us0"
    by (rule stk_ok_top [OF 2(5,4)]) (auto simp: frame_ok_def)
  show ?thesis
    by (rule reduce_to_expr [where us = us0 and seg = "skip @ x # seg" and rest = rest and
        frs = "[(20, YExpr e, l), (8, YStr (lx_lval x), lx_lloc x), (1, v, l')]" and
        e = "set_place (fst l', snd l) e" and l = "(fst l', snd l)"])
      (use assms(1) 1 2 3 in \<open>auto simp: frame_simps yyaction_def weight_def intro!: gexpr_gargs.skipped\<close>)
qed

lemma reduce_13:
  assumes "ready f ts eof p us" and "yystate p = 11"
  shows "advances f ts eof p (yyreduce f 13 p)"
proof -
  let ?er = "0 < error_count p"
  have "top_state (yystack p) = after_expr 4" using assms(2) by (simp add: yystate_def)
  then obtain e l st1 us1 seg where 1: "yystack p = (11, YExpr e, l) # st1" "us = us1 @ seg" "?er \<or> l = place seg"
    "gexpr f ?er False 6 seg e" "top_state st1 = 4" "stk_ok f ?er (root p) (Some 23) st1 us1"
    by (rule stk_ok_top_expr [OF ready_stack [OF assms(1)]]) (auto dest: gexpr_max)
  obtain x rest us2 where 2: "st1 = (4, YStr (lx_lval x), lx_lloc x) # rest" "us1 = us2 @ [x]" "tk x = 18"
    "top_state rest \<in> set bases" "stk_ok f ?er (root p) (Some 18) rest us2"
    by (rule stk_ok_top_token [OF 1(6,5)]) auto
  show ?thesis
    by (rule reduce_to_expr [where us = us2 and seg = "x # seg" and rest = rest and
        frs = "[(11, YExpr e, l), (4, YStr (lx_lval x), lx_lloc x)]" and
        e = "Build LogicalNotFn (fst (lx_lloc x), snd l) [e]" and l = "(fst (lx_lloc x), snd l)"])
      (use assms(1) 1 2 gexpr_nonempty [OF 1(4)] in
        \<open>auto simp: frame_simps yyaction_def weight_def place_Cons intro!: gexpr_gargs.negation\<close>)
qed

text \<open>An expression behind a keyword, a bracket or a comma.\<close>

lemma pop_bracketed:
  assumes "stk_ok f er r nxt stk us" and "top_state stk = after_expr t" and "t \<in> {2, 21, 32, 34}"
  obtains e l x rest us0 seg where "stk = (after_expr t, YExpr e, l) # (t, YStr (lx_lval x), lx_lloc x) # rest" "us = us0 @ x # seg"
    "gexpr f er True 0 seg e" "tk x = sym_of t" "top_state rest \<in> set (edge_from t)" "stk_ok f er r (Some (sym_of t)) rest us0"
proof -
  have t: "t \<in> set bases" "t \<noteq> 0" "sym_of t \<notin> set [1, 22, 23, 24]" "bstart (after_expr t)" using assms(3) by auto
  obtain e l st1 us1 seg where 1: "stk = (after_expr t, YExpr e, l) # st1" "us = us1 @ seg" "gexpr f er True 0 seg e"
    "top_state st1 = t" "stk_ok f er r (Some 23) st1 us1"
    by (rule stk_ok_top_expr [OF assms(1,2) t(1)]) (use t(4) in \<open>auto intro: gexpr_any\<close>)
  obtain x rest us0 where "st1 = (t, YStr (lx_lval x), lx_lloc x) # rest" "us1 = us0 @ [x]" "tk x = sym_of t"
    "top_state rest \<in> set (edge_from t)" "stk_ok f er r (Some (sym_of t)) rest us0"
    by (rule stk_ok_top_token [OF 1(5,4) t(2,3)]) auto
  then show ?thesis using that [of e l x rest us0 seg] 1 by simp
qed

lemma reduce_14:
  assumes "ready f ts eof p us" and "yystate p = 35"
  shows "advances f ts eof p (yyreduce f 14 p)"
proof -
  let ?er = "0 < error_count p"
  obtain z st1 us1 where 1: "yystack p = (35, YStr (lx_lval z), lx_lloc z) # st1" "us = us1 @ [z]" "tk z = 12"
    "top_state st1 = after_expr 21" "stk_ok f ?er (root p) (Some 12) st1 us1"
    by (rule stk_ok_top_token [OF ready_stack [OF assms(1)] assms(2) [unfolded yystate_def]]) auto
  obtain t lt y st2 us2 sgt where 2: "st1 = (31, YExpr t, lt) # (21, YStr (lx_lval y), lx_lloc y) # st2" "us1 = us2 @ y # sgt"
    "gexpr f ?er True 0 sgt t" "tk y = 10" "top_state st2 = after_expr 2" "stk_ok f ?er (root p) (Some 10) st2 us2"
    by (rule pop_bracketed [OF 1(5,4)]) auto
  obtain c lc x rest us0 sgc where 3: "st2 = (9, YExpr c, lc) # (2, YStr (lx_lval x), lx_lloc x) # rest" "us2 = us0 @ x # sgc"
    "gexpr f ?er True 0 sgc c" "tk x = 9" "top_state rest \<in> set bases" "stk_ok f ?er (root p) (Some 9) rest us0"
    by (rule pop_bracketed [OF 2(6,5)]) auto
  let ?l = "(fst (lx_lloc x), snd (lx_lloc z))"
  show ?thesis
    by (rule reduce_to_expr [where us = us0 and seg = "x # sgc @ y # sgt @ [z]" and rest = rest and
        frs = "[(35, YStr (lx_lval z), lx_lloc z), (31, YExpr t, lt), (21, YStr (lx_lval y), lx_lloc y), (9, YExpr c, lc),
          (2, YStr (lx_lval x), lx_lloc x)]" and e = "Build IfElseFn ?l [c, t]" and l = ?l])
      (use assms(1) 1 2 3 in \<open>auto simp: frame_simps yyaction_def build2_def weight_def place_def intro!: gexpr_gargs.if_then\<close>)
qed

lemma reduce_15:
  assumes "ready f ts eof p us" and "yystate p = 38"
  shows "advances f ts eof p (yyreduce f 15 p)"
proof -
  let ?er = "0 < error_count p"
  obtain z st1 us1 where 1: "yystack p = (38, YStr (lx_lval z), lx_lloc z) # st1" "us = us1 @ [z]" "tk z = 12"
    "top_state st1 = after_expr 34" "stk_ok f ?er (root p) (Some 12) st1 us1"
    by (rule stk_ok_top_token [OF ready_stack [OF assms(1)] assms(2) [unfolded yystate_def]]) auto
  obtain u lu w st2 us2 sgu where 2: "st1 = (37, YExpr u, lu) # (34, YStr (lx_lval w), lx_lloc w) # st2" "us1 = us2 @ w # sgu"
    "gexpr f ?er True 0 sgu u" "tk w = 11" "top_state st2 = after_expr 21" "stk_ok f ?er (root p) (Some 11) st2 us2"
    by (rule pop_bracketed [OF 1(5,4)]) auto
  obtain t lt y st3 us3 sgt where 3: "st2 = (31, YExpr t, lt) # (21, YStr (lx_lval y), lx_lloc y) # st3" "us2 = us3 @ y # sgt"
    "gexpr f ?er True 0 sgt t" "tk y = 10" "top_state st3 = after_expr 2" "stk_ok f ?er (root p) (Some 10) st3 us3"
    by (rule pop_bracketed [OF 2(6,5)]) auto
  obtain c lc x rest us0 sgc where 4: "st3 = (9, YExpr c, lc) # (2, YStr (lx_lval x), lx_lloc x) # rest" "us3 = us0 @ x # sgc"
    "gexpr f ?er True 0 sgc c" "tk x = 9" "top_state rest \<in> set bases" "stk_ok f ?er (root p) (Some 9) rest us0"
    by (rule pop_bracketed [OF 3(6,5)]) auto
  let ?l = "(fst (lx_lloc x), snd (lx_lloc z))"
  show ?thesis
    by (rule reduce_to_expr [where us = us0 and seg = "x # sgc @ y # sgt @ w # sgu @ [z]" and rest = rest and
        frs = "[(38, YStr (lx_lval z), lx_lloc z), (37, YExpr u, lu), (34, YStr (lx_lval w), lx_lloc w), (31, YExpr t, lt),
          (21, YStr (lx_lval y), lx_lloc y), (9, YExpr c, lc), (2, YStr (lx_lval x), lx_lloc x)]" and
        e = "Build IfElseFn ?l [c, t, u]" and l = ?l])
      (use assms(1) 1 2 3 4 in \<open>auto simp: frame_simps yyaction_def build2_def weight_def place_def intro!: gexpr_gargs.if_then_else\<close>)
qed

text \<open>The argument list of a call.\<close>

lemma pop_args:
  assumes "stk_ok f er r nxt stk us" and "top_state stk = 23"
  obtains es l y x rest us0 seg where
    "stk = (23, YArgs es, l) # (10, YStr (lx_lval y), lx_lloc y) # (3, YStr (lx_lval x), lx_lloc x) # rest"
    "us = us0 @ x # y # seg" "gargs f er seg es" "tk y = 19" "tk x = 13" "lx_lval x \<noteq> None"
    "top_state rest \<in> set bases" "stk_ok f er r (Some 13) rest us0"
proof -
  obtain es l st1 us1 seg where 1: "stk = (23, YArgs es, l) # st1" "us = us1 @ seg" "gargs f er seg es"
    "top_state st1 = 10" "stk_ok f er r (Some 24) st1 us1"
    by (rule stk_ok_top [OF assms]) (auto simp: frame_ok_def)
  obtain y st2 us2 where 2: "st1 = (10, YStr (lx_lval y), lx_lloc y) # st2" "us1 = us2 @ [y]" "tk y = 19"
    "top_state st2 = 3" "stk_ok f er r (Some 19) st2 us2"
    by (rule stk_ok_top_token [OF 1(5,4)]) auto
  obtain x rest us0 where "st2 = (3, YStr (lx_lval x), lx_lloc x) # rest" "us2 = us0 @ [x]" "tk x = 13" "lx_lval x \<noteq> None"
    "top_state rest \<in> set bases" "stk_ok f er r (Some 13) rest us0"
    by (rule stk_ok_top_token [OF 2(5,4)]) auto
  then show ?thesis using that [of es l y x rest us0 seg] 1 2 by simp
qed

lemma stk_ok_push_args:
  assumes "stk_ok f er r X rest us" and "top_state rest = 10" and "gargs f er seg es"
  shows "stk_ok f er r nxt ((23, YArgs es, l) # rest) (us @ seg)"
proof -
  have "stk_ok f er r (Some 24) rest us" by (rule stk_ok_mono [OF assms(1)]) (simp add: oplevel_def)
  then show ?thesis using assms(2,3) by (auto simp: frame_ok_def states_def)
qed

lemma reduce_17:
  assumes "ready f ts eof p us" and "yystate p = 10"
  shows "advances f ts eof p (yyreduce f 17 p)"
proof -
  let ?er = "0 < error_count p"
  note st = ready_stack [OF assms(1)]
  obtain y st1 us1 where 1: "yystack p = (10, YStr (lx_lval y), lx_lloc y) # st1" "us = us1 @ [y]"
    by (rule stk_ok_top_token [OF st assms(2) [unfolded yystate_def]]) auto
  let ?stk = "(23, YArgs [], lx_lloc y) # yystack p"
  have "yyreduce f 17 p = Inr (Go (p\<lparr>yystack := ?stk\<rparr>))"
    using 1 by (intro yyreduce_yields [where nt = 24 and frs = "[]"]) (simp_all add: YYLLOC_DEFAULT_def frame_loc_def yyaction_def)
  moreover have k: "stk_ok f ?er (root p) (la p) ?stk us"
    using stk_ok_push_args [OF st _ gexpr_gargs.no_arg] 1 by simp
  then have "advances f ts eof p (Inr (Go (p\<lparr>yystack := ?stk\<rparr>)))"
    by (intro restack [OF assms(1) k]) (use 1 in \<open>simp_all add: weight_def\<close>)
  ultimately show ?thesis by simp
qed

lemma reduce_18:
  assumes "ready f ts eof p us" and "yystate p = 22"
  shows "advances f ts eof p (yyreduce f 18 p)"
proof -
  let ?er = "0 < error_count p"
  have "top_state (yystack p) = after_expr 10" using assms(2) by (simp add: yystate_def)
  then obtain e l rest us0 seg where 1: "yystack p = (22, YExpr e, l) # rest" "us = us0 @ seg" "gexpr f ?er True 0 seg e"
    "top_state rest = 10" "stk_ok f ?er (root p) (Some 23) rest us0"
    by (rule stk_ok_top_expr [OF ready_stack [OF assms(1)]]) (auto intro: gexpr_any)
  have "yyreduce f 18 p = Inr (Go (p\<lparr>yystack := (23, YArgs [e], l) # rest\<rparr>))"
    using 1 by (intro yyreduce_yields [where nt = 24 and frs = "[(22, YExpr e, l)]"]) (simp_all add: YYLLOC_DEFAULT_def frame_simps yyaction_def)
  moreover have k: "stk_ok f ?er (root p) (la p) ((23, YArgs [e], l) # rest) us"
    using stk_ok_push_args [OF 1(5,4) gexpr_gargs.one_arg [OF 1(3)]] 1(2) by simp
  then have "advances f ts eof p (Inr (Go (p\<lparr>yystack := (23, YArgs [e], l) # rest\<rparr>)))"
    by (intro restack [OF assms(1) k]) (use 1(1) in \<open>simp_all add: weight_def\<close>)
  ultimately show ?thesis by simp
qed

lemma reduce_19:
  assumes "ready f ts eof p us" and "yystate p = 36"
  shows "advances f ts eof p (yyreduce f 19 p)"
proof -
  let ?er = "0 < error_count p"
  have "top_state (yystack p) = after_expr 32" using assms(2) by (simp add: yystate_def)
  then obtain e l y st1 us1 seg where 1: "yystack p = (36, YExpr e, l) # (32, YStr (lx_lval y), lx_lloc y) # st1" "us = us1 @ y # seg"
    "gexpr f ?er True 0 seg e" "tk y = 16" "top_state st1 = 23" "stk_ok f ?er (root p) (Some 16) st1 us1"
    by (rule pop_bracketed [OF ready_stack [OF assms(1)]]) auto
  obtain es l' rest us0 sga where 2: "st1 = (23, YArgs es, l') # rest" "us1 = us0 @ sga" "gargs f ?er sga es" "top_state rest = 10"
    "stk_ok f ?er (root p) (Some 24) rest us0"
    by (rule stk_ok_top [OF 1(6,5)]) (auto simp: frame_ok_def)
  let ?stk = "(23, YArgs (es @ [e]), (fst l', snd l)) # rest"
  have "yyreduce f 19 p = Inr (Go (p\<lparr>yystack := ?stk\<rparr>))"
    using 1 2 by (intro yyreduce_yields [where nt = 24 and frs = "[(36, YExpr e, l), (32, YStr (lx_lval y), lx_lloc y), (23, YArgs es, l')]"])
      (simp_all add: YYLLOC_DEFAULT_def frame_simps yyaction_def)
  moreover have k: "stk_ok f ?er (root p) (la p) ?stk us"
    using stk_ok_push_args [OF 2(5,4) gexpr_gargs.more_args [OF 2(3) 1(4,3)]] 1(2) 2(2) by simp
  then have "advances f ts eof p (Inr (Go (p\<lparr>yystack := ?stk\<rparr>)))"
    by (intro restack [OF assms(1) k]) (use 1(1) 2(1) in \<open>simp_all add: weight_def\<close>)
  ultimately show ?thesis by simp
qed

lemma reduce_2:
  assumes "ready f ts eof p us" and "yystate p = 7"
  shows "advances f ts eof p (yyreduce f 2 p)"
proof -
  let ?er = "0 < error_count p"
  have "top_state (yystack p) = after_expr 0" using assms(2) by (simp add: yystate_def)
  then obtain e l rest us0 seg where 1: "yystack p = (7, YExpr e, l) # rest" "us = us0 @ seg" "gexpr f ?er True 0 seg e"
    "top_state rest = 0" "stk_ok f ?er (root p) (Some 23) rest us0"
    by (rule stk_ok_top_expr [OF ready_stack [OF assms(1)]]) (auto intro: gexpr_any)
  have 2: "rest = []" using 1(4,5) by (cases rest) auto
  let ?p = "p\<lparr>yystack := [(6, YExpr e, l)], root := Some e\<rparr>"
  have "yyreduce f 2 p = Inr (Go ?p)"
    using 1 2 by (simp add: yyreduce_def YYLLOC_DEFAULT_def frame_simps yyaction_def yypush_def Let_def)
  moreover have k: "stk_ok f ?er (Some e) (la p) [(6, YExpr e, l)] us"
    using 1 2 by (auto simp: frame_ok_def states_def)
  then have "advances f ts eof p (Inr (Go ?p))"
    by (intro restack [OF assms(1) k]) (use 1 2 in \<open>simp_all add: weight_def\<close>)
  ultimately show ?thesis by simp
qed

section \<open>Error recovery\<close>

lemma errpop_ok:
  "stk_ok f er r nxt stk us \<Longrightarrow> \<exists>stk' r0' X us' seg. yyerrpop stk r0 = Inr (Some (stk', 1, r0')) \<and> top_state stk' \<in> set bases \<and>
     length stk' \<le> length stk \<and> us = us' @ seg \<and> stk_ok f er r X stk' us'"
proof (induction stk arbitrary: nxt us r0)
  case Nil
  have "yyerror_shift 0 = Inr (Some 1)" using error_shift_cases by (simp add: states_def)
  then show ?case using Nil by auto
next
  case (Cons fr stk)
  obtain s v l where fr: "fr = (s, v, l)" by (cases fr)
  with Cons.prems obtain us1 seg1 where 1: "s \<in> set states" "us = us1 @ seg1" "stk_ok f er r (Some (sym_of s)) stk us1" by auto
  show ?case
  proof (cases "s \<in> set bases")
    case True
    then have "yyerror_shift s = Inr (Some 1)" using error_shift_cases 1(1) by simp
    then have "yyerrpop (fr # stk) r0 = Inr (Some (fr # stk, 1, r0))" using fr by simp
    moreover have "top_state (fr # stk) \<in> set bases" using True fr by simp
    ultimately show ?thesis using Cons.prems
      by (intro exI [of _ "fr # stk"] exI [of _ r0] exI [of _ nxt] exI [of _ us] exI [of _ "[]"]) (simp del: stk_ok.simps)
  next
    case False
    then have "yyerror_shift s = Inr None" using error_shift_cases 1(1) by simp
    then have "yyerrpop (fr # stk) r0 = yyerrpop stk l" using fr by simp
    with Cons.IH [OF 1(3), of l] 1(2) show ?thesis by fastforce
  qed
qed

lemma yyerror_simps [simp]:
  "yystack (yyerror m p) = yystack p" "yystacksize (yyerror m p) = yystacksize p" "yyerrstatus (yyerror m p) = yyerrstatus p"
  "yychar (yyerror m p) = yychar p" "yyglobals (yyerror m p) = yyglobals p" "yyinput (yyerror m p) = yyinput p"
  "root (yyerror m p) = root p" "error_count (yyerror m p) = Suc (error_count p)"
  by (simp_all add: yyerror_def Let_def)

text \<open>Tokens that are discarded, or belong to frames that are popped, go to the error token.\<close>

lemma errlab1_ok:
  assumes "us @ skip @ ws = ts" and "pends p (ws @ [eof])" and "stk_ok f True (root p) X (yystack p) us"
    and "side p" and "0 < error_count p" and "length (yystack p) + 1 \<le> yystacksize p - 1"
  obtains p' where "yyerrlab1 r0 p = Inr (Go p')" "Inv f ts eof p'" "yyerrstatus p' = 3" "left_to_read p' = left_to_read p"
    "length (yystack p') \<le> length (yystack p) + 1" "top_state (yystack p') = 1"
proof -
  obtain stk r0' X us' seg where 1: "yyerrpop (yystack p) r0 = Inr (Some (stk, 1, r0'))" "top_state stk \<in> set bases"
    "length stk \<le> length (yystack p)" "us = us' @ seg" "stk_ok f True (root p) X stk us'"
    using errpop_ok [OF assms(3)] by blast
  let ?fr = "(1, YStr (lx_lval (yyglobals p)), fst r0', snd (lx_lloc (yyglobals p)))"
  let ?p = "p\<lparr>yyerrstatus := 3, yystack := ?fr # stk\<rparr>"
  have "yyerrlab1 r0 p = Inr (Go ?p)"
    using 1(1) by (simp add: yyerrlab1_def Let_def yypush_def yy_consts)
  moreover have "Inv f ts eof ?p"
  proof -
    have "stk_ok f True (root p) (Some 1) stk us'"
      by (rule stk_ok_mono [OF 1(5)]) (simp add: oplevel_def)
    then have "stk_ok f True (root p) (la p) (?fr # stk) (us' @ seg @ skip)"
      using 1(2) by (auto simp: frame_ok_def states_def)
    moreover have "la ?p = la p" "pends ?p = pends p" by (simp_all add: la_def pends_def fun_eq_iff)
    moreover have "(us' @ seg @ skip) @ ws = ts" using assms(1) 1(4) by simp
    ultimately have "splits f ts eof ?p (us' @ seg @ skip)" using assms(2,5) unfolding splits_def by auto
    moreover have "side ?p" using assms(4,5) by (simp add: side_def)
    ultimately show ?thesis unfolding Inv_iff using assms(6) 1(3) by auto
  qed
  ultimately show ?thesis using that 1(3) by (simp add: left_to_read_def)
qed

lemma reduce_16:
  assumes "ready f ts eof p us" and "yystate p = 33"
  shows "advances f ts eof p (yyreduce f 16 p)"
proof -
  let ?er = "0 < error_count p"
  obtain z st1 us1 where 1: "yystack p = (33, YStr (lx_lval z), lx_lloc z) # st1" "us = us1 @ [z]" "tk z = 20"
    "top_state st1 = 23" "stk_ok f ?er (root p) (Some 20) st1 us1"
    by (rule stk_ok_top_token [OF ready_stack [OF assms(1)] assms(2) [unfolded yystate_def]]) auto
  obtain es la' y x rest us0 seg where 2:
    "st1 = (23, YArgs es, la') # (10, YStr (lx_lval y), lx_lloc y) # (3, YStr (lx_lval x), lx_lloc x) # rest"
    "us1 = us0 @ x # y # seg" "gargs f ?er seg es" "tk y = 19" "tk x = 13" "lx_lval x \<noteq> None"
    "top_state rest \<in> set bases" "stk_ok f ?er (root p) (Some 13) rest us0"
    by (rule pop_args [OF 1(5,4)])
  then obtain s where s: "lx_lval x = Some s" by blast
  let ?frs = "[(33, YStr (lx_lval z), lx_lloc z), (23, YArgs es, la'), (10, YStr (lx_lval y), lx_lloc y), (3, YStr (lx_lval x), lx_lloc x)]"
  let ?l = "(fst (lx_lloc x), snd (lx_lloc z))"
  show ?thesis
  proof (cases "f s")
    case (Some fn)
    have g: "gexpr f ?er b n (x # y # seg @ [z]) (Expr fn s es (fst ?l) (snd ?l))" for b n
      using 2(5) s Some 2(4,3) 1(3) by (rule gexpr_gargs.call) (simp add: place_def)
    show ?thesis
      by (rule reduce_to_expr [where us = us0 and seg = "x # y # seg @ [z]" and rest = rest and frs = ?frs and
          e = "Expr fn s es (fst ?l) (snd ?l)" and l = ?l])
        (use assms(1) 1(1,2) 2(1,2,7,8) s Some g in \<open>auto simp: frame_simps yyaction_def weight_def place_def\<close>)
  next
    case None
    let ?msg = "take 255 (''unknown function '' @ [CHR 0x22] @ s @ [CHR 0x22])"
    let ?p = "(yyerror ?msg p)\<lparr>yystack := rest\<rparr>"
    have red: "yyreduce f 16 p = yyerrlab1 (lx_lloc x) ?p"
      using 1(1) 2(1) s None
      by (simp add: yyreduce_def yyaction_def YYLLOC_DEFAULT_def frame_simps Let_def)
    obtain ws where ws: "us @ ws = ts" "pends p (ws @ [eof])" using assms(1) by (auto simp: ready_def splits_def)
    have a: "us0 @ (x # y # seg @ [z]) @ ws = ts" using ws(1) 1(2) 2(2) by simp
    have b: "pends ?p (ws @ [eof])" using ws(2) by (simp add: pends_def)
    have c: "stk_ok f True (root ?p) (Some 13) (yystack ?p) us0" using stk_ok_er [OF 2(8)] by simp
    have d: "side ?p" using assms(1) by (simp add: ready_def side_def)
    have e: "0 < error_count ?p" "length (yystack ?p) + 1 \<le> yystacksize ?p - 1"
      using assms(1) 1(1) 2(1) by (simp_all add: ready_def room_def)
    obtain p' where p': "yyerrlab1 (lx_lloc x) ?p = Inr (Go p')" "Inv f ts eof p'" "yyerrstatus p' = 3"
      "left_to_read p' = left_to_read ?p" "length (yystack p') \<le> length (yystack ?p) + 1" "top_state (yystack p') = 1"
      by (rule errlab1_ok [OF a b c d e])
    have "left_to_read ?p = left_to_read p" by (simp add: left_to_read_def)
    then have "(p', p) \<in> yyless"
      using p'(3-6) 1(1) 2(1) assms(1) by (auto simp: yyless_def weight_def ready_def side_def)
    then show ?thesis using red p'(1,2) by (auto simp: advances_def)
  qed
qed

lemma reduce_ok:
  assumes "ready f ts eof p us" and "(n, yystate p) \<in> set reductions"
    and "yystate p \<in> set [25, 26, 27, 28, 29] \<longrightarrow> need (la p) < lvl (yystate p)"
  shows "advances f ts eof p (yyreduce f n p)"
proof -
  have bin: "advances f ts eof p (yyreduce f m p)"
    if "yystate p = after_expr s" "s \<in> {14, 15, 16, 17, 19}" "need (la p) < lvl (after_expr s)" "aget yyr2 m = Inr 3"
      "aget yyr1 m = Inr 23" "\<And>a b c l v0 ls. yyaction f m [a, b, c] ls l v0 = build2 (opfn (sym_of s)) l a c" for m s
    by (rule reduce_binary [OF assms(1) that])
  have n5: "need (la p) < 6" by (auto simp: need_def oplevel_def split: option.splits)
  note r = reduce_2 [OF assms(1)] reduce_3 [OF assms(1)] reduce_4 [OF assms(1)] reduce_5 [OF assms(1)]
    reduce_6 [OF assms(1)] reduce_7 [OF assms(1)] reduce_13 [OF assms(1)] reduce_14 [OF assms(1)] reduce_15 [OF assms(1)]
    reduce_16 [OF assms(1)] reduce_17 [OF assms(1)] reduce_18 [OF assms(1)] reduce_19 [OF assms(1)]
  have b: "yystate p = 30 \<Longrightarrow> advances f ts eof p (yyreduce f 8 p)" "yystate p = 27 \<Longrightarrow> advances f ts eof p (yyreduce f 9 p)"
    "yystate p = 28 \<Longrightarrow> advances f ts eof p (yyreduce f 10 p)" "yystate p = 25 \<Longrightarrow> advances f ts eof p (yyreduce f 11 p)"
    "yystate p = 26 \<Longrightarrow> advances f ts eof p (yyreduce f 12 p)"
    using bin [of 19 8] bin [of 16 9] bin [of 17 10] bin [of 14 11] bin [of 15 12] assms(3) n5
    by (simp_all add: yyaction_def opfn_def lvl_def)
  show ?thesis using assms(2,3) unfolding reductions_def by (auto intro: r b)
qed

end
