(* ===== verification/Edify_Parse.thy ===== *)
theory Edify_Parse
  imports Edify_Reduce
begin

text \<open>
  Correctness of \<open>yyparse\<close>: it returns on every input and never faults, the scripts it accepts without an
  error are those of the grammar with their values, and every other script is reported.
\<close>

section \<open>One round\<close>

definition final :: "(string \<Rightarrow> 'c Function option) \<Rightarrow> lexeme list \<Rightarrow> nat \<Rightarrow> 'c parser \<Rightarrow> bool" where
  "final f ts r p \<longleftrightarrow> r \<le> 2 \<and> (if r = 0 then \<exists>e. root p = Some e \<and> gexpr f (0 < error_count p) True 0 ts e else 0 < error_count p)"

fun step_outcome :: "(string \<Rightarrow> 'c Function option) \<Rightarrow> lexeme list \<Rightarrow> lexeme \<Rightarrow> 'c parser \<Rightarrow> 'c move res \<Rightarrow> bool" where
  "step_outcome f ts eof p (Inl e) \<longleftrightarrow> False"
| "step_outcome f ts eof p (Inr (Go p')) \<longleftrightarrow> Inv f ts eof p' \<and> (p', p) \<in> yyless"
| "step_outcome f ts eof p (Inr (Halt r p')) \<longleftrightarrow> final f ts r p'"

lemma advances_outcome: "advances f ts eof p m \<Longrightarrow> step_outcome f ts eof p m"
  by (auto simp: advances_def)

lemma pends_lookahead:
  assumes "pends p (ws @ [eof])" and "yychar p \<noteq> YYEMPTY" and "toks_ok (us @ ws) eof" and "yychar p \<noteq> YYEOF"
  obtains ws' where "ws = yyglobals p # ws'" "yyinput p = map Inr (ws' @ [eof])" "yychar p = lx_char (yyglobals p)"
proof (cases ws)
  case Nil
  then show ?thesis using assms by (simp add: pends_def toks_ok_def yy_consts)
next
  case (Cons w ws')
  then show ?thesis using that [of ws'] assms by (simp add: pends_def)
qed

lemma errlab_ok:
  assumes "ready f ts eof p us" and "toks_ok ts eof" and "la p = Some t"
  shows "step_outcome f ts eof p (yyerrlab p)"
proof -
  obtain ws where ws: "us @ ws = ts" "pends p (ws @ [eof])" using assms(1) by (auto simp: ready_def splits_def)
  note st = ready_stack [OF assms(1)]
  have sd: "side p" "length (yystack p) + 1 \<le> yystacksize p - 1" using assms(1) by (auto simp: ready_def room_def)
  have ch: "yychar p \<noteq> YYEMPTY" using assms(3) by (simp add: la_def split: if_splits)
  obtain p1 where p1: "(if yyerrstatus p = 0 then yyreport p else Inr p) = Inr p1" "yystack p1 = yystack p" "yyinput p1 = yyinput p"
    "yychar p1 = yychar p" "yyglobals p1 = yyglobals p" "root p1 = root p" "0 < error_count p1" "yyerrstatus p1 = yyerrstatus p"
    "yystacksize p1 = yystacksize p"
  proof (cases "yyerrstatus p = 0")
    case True
    obtain k msg where "yysyntax_error (yystate p) (yychar p) = Inr (k, msg)"
      using report_fits top_in_states [OF st] by (metis yystate_def)
    then have "yyreport p = Inr (if 0 < k then yyerror msg p else yyerror ''syntax error'' p)" by (simp add: yyreport_def)
    then show ?thesis using that [of "if 0 < k then yyerror msg p else yyerror ''syntax error'' p"] True by (cases "0 < k") auto
  next
    case False
    then show ?thesis using that [of p] sd(1) by (simp add: side_def)
  qed
  have st1: "stk_ok f True (root p1) (la p) (yystack p1) us" using stk_ok_er [OF st] p1 by simp
  have sd1: "side p1" "length (yystack p1) + 1 \<le> yystacksize p1 - 1" using sd p1 by (auto simp: side_def)
  have go: "step_outcome f ts eof p (yyerrlab1 r0 q)"
    if q: "q = p1\<lparr>yychar := c\<rparr>" and sk: "us @ skip @ ws' = ts" "pends q (ws' @ [eof])" and
      d: "left_to_read q < left_to_read p \<or> left_to_read q = left_to_read p \<and> yyerrstatus p < 3" for q c skip ws' r0
  proof -
    have a: "stk_ok f True (root q) (la p) (yystack q) us" using st1 q by simp
    have b: "side q" using sd1 q by (simp add: side_def)
    have c: "0 < error_count q" "length (yystack q) + 1 \<le> yystacksize q - 1" using p1 sd1 q by auto
    obtain p' where "yyerrlab1 r0 q = Inr (Go p')" "Inv f ts eof p'" "yyerrstatus p' = 3" "left_to_read p' = left_to_read q"
      by (rule errlab1_ok [OF sk a b c])
    then show ?thesis using d by (auto simp: yyless_def)
  qed
  have left1: "left_to_read p1 = left_to_read p" using p1 by (simp add: left_to_read_def)
  have pend1: "pends p1 (ws @ [eof])" using ws(2) p1 by (simp add: pends_def)
  have keep: "step_outcome f ts eof p (yyerrlab1 r0 p1)" if "yyerrstatus p \<noteq> 3" for r0
    using go [of p1 "yychar p1" "[]" ws r0] ws(1) pend1 left1 sd(1) that by (auto simp: side_def)
  show ?thesis
  proof (cases "yyerrstatus p = 3")
    case False
    then show ?thesis using keep p1(1,8) by (simp add: yyerrlab_def)
  next
    case st3: True
    show ?thesis
    proof (cases "yychar p = YYEOF")
      case True
      then show ?thesis using st3 p1 by (simp add: yyerrlab_def final_def)
    next
      case False
      obtain ws' where w: "ws = yyglobals p # ws'" "yyinput p = map Inr (ws' @ [eof])" "yychar p = lx_char (yyglobals p)"
        using pends_lookahead [OF ws(2) ch _ False] assms(2) ws(1) by blast
      have pos: "0 < yychar p" using w assms(2) ws(1) by (auto simp: toks_ok_def)
      have "step_outcome f ts eof p (yyerrlab1 r0 (p1\<lparr>yychar := YYEMPTY\<rparr>))" for r0
        by (rule go [of _ YYEMPTY "[yyglobals p]" ws'])
          (use w ws(1) p1 pos in \<open>auto simp: pends_def left_to_read_def yy_consts\<close>)
      then show ?thesis using st3 p1 pos by (simp add: yyerrlab_def yy_consts)
    qed
  qed
qed

lemma shift_ok:
  assumes "ready f ts eof p us" and "toks_ok ts eof" and "yychar p \<noteq> YYEMPTY"
    and "act_ok (yystate p) (YYTRANSLATE (yychar p)) (Inr (Shift n))"
  shows "advances f ts eof p (Inr (yyshift n p))"
proof -
  let ?x = "yyglobals p"
  obtain ws where ws: "us @ ws = ts" "pends p (ws @ [eof])" using assms(1) by (auto simp: ready_def splits_def)
  note st = ready_stack [OF assms(1)]
  have n: "n \<in> set states" "yystate p \<in> set (edge_from n)" "sym_of n = YYTRANSLATE (yychar p)" "YYTRANSLATE (yychar p) \<noteq> 0"
    "YYTRANSLATE (yychar p) < 21" using assms(4) sym_of_frame by auto
  then have ne: "yychar p \<noteq> YYEOF" by (auto simp: yy_consts)
  obtain ws' where w: "ws = ?x # ws'" "yyinput p = map Inr (ws' @ [eof])" "yychar p = lx_char ?x"
    using pends_lookahead [OF ws(2) assms(3) _ ne] assms(2) ws(1) by blast
  have x: "tk ?x \<noteq> 1" "tk ?x = 13 \<longrightarrow> lx_lval ?x \<noteq> None" "tk ?x = sym_of n"
    using w assms(2) ws(1) n(3) by (auto simp: toks_ok_def tk_def)
  let ?p = "p\<lparr>yyerrstatus := yyerrstatus p - 1, yychar := YYEMPTY, yystack := (n, YStr (lx_lval ?x), lx_lloc ?x) # yystack p\<rparr>"
  have "yyshift n p = Go ?p" using ne by (simp add: yyshift_def yypush_def)
  moreover have "Inv f ts eof ?p"
  proof -
    have fr: "frame_ok f (0 < error_count p) (root p) None (n, YStr (lx_lval ?x), lx_lloc ?x) [?x]"
      using n(3,5) x by (auto simp: frame_ok_def)
    have "n \<noteq> 0" using n(3,4) by (auto simp: sym_of_def yystos_def)
    then have "stk_ok f (0 < error_count p) (root p) None ((n, YStr (lx_lval ?x), lx_lloc ?x) # yystack p) (us @ [?x])"
      using n(1,2) fr st assms(3) n(3) by (auto simp: yystate_def la_def)
    moreover have "pends ?p (ws' @ [eof])" "(us @ [?x]) @ ws' = ts" "la ?p = None"
      using w ws(1) by (simp_all add: pends_def la_def)
    ultimately have "splits f ts eof ?p (us @ [?x])" by (auto simp: splits_def)
    moreover have "side ?p" "length (yystack ?p) \<le> yystacksize ?p - 1" using assms(1) by (auto simp: ready_def room_def side_def)
    ultimately show ?thesis unfolding Inv_iff by blast
  qed
  moreover have "(?p, p) \<in> yyless" using assms(3) ne by (simp add: yyless_def left_to_read_def)
  ultimately show ?thesis by (simp add: advances_def)
qed

lemma accept_ok:
  assumes "ready f ts eof p us" and "toks_ok ts eof" and "yystate p = 6" and "la p = Some 0"
  shows "final f ts 0 p"
proof -
  obtain ws where ws: "us @ ws = ts" "pends p (ws @ [eof])" using assms(1) by (auto simp: ready_def splits_def)
  obtain v l rest us1 seg where 1: "us = us1 @ seg" "frame_ok f (0 < error_count p) (root p) (la p) (6, v, l) seg"
    "top_state rest \<in> set (edge_from 6)" "stk_ok f (0 < error_count p) (root p) (Some (sym_of 6)) rest us1"
    by (rule stk_ok_top [OF ready_stack [OF assms(1)] assms(3) [unfolded yystate_def]]) simp_all
  have "rest = []" using 1(3,4) by (cases rest) auto
  then have us: "us1 = []" using 1(4) by simp
  have "ws = []"
  proof (cases ws)
    case (Cons w ws')
    have "yychar p \<noteq> YYEMPTY" "yychar p = 0" using assms(4) YYTRANSLATE_eq_0 by (auto simp: la_def split: if_splits)
    then have "lx_char w = 0" using ws(2) Cons by (simp add: pends_def)
    then show ?thesis using assms(2) ws(1) Cons by (auto simp: toks_ok_def)
  qed
  then show ?thesis using 1 us ws(1) by (auto simp: final_def frame_ok_def)
qed

lemma perform_ok:
  assumes "ready f ts eof p us" and "toks_ok ts eof" and "la p = Some t" and "yydecide (yystate p) t = Inr a"
  shows "step_outcome f ts eof p (yyperform f a p)"
proof -
  have ch: "yychar p \<noteq> YYEMPTY" "t = YYTRANSLATE (yychar p)" using assms(3) by (auto simp: la_def split: if_splits)
  have a: "act_ok (yystate p) t (Inr a)"
    using act_ok [of "yystate p" t] top_in_states [OF ready_stack [OF assms(1)]] assms(4) ch by (simp add: yystate_def)
  show ?thesis
  proof (cases a)
    case (Shift n)
    then have "advances f ts eof p (Inr (yyshift n p))" using shift_ok [OF assms(1,2) ch(1), of n] a ch(2) by simp
    then show ?thesis using Shift by (simp add: yyperform_def advances_outcome)
  next
    case (Reduce n)
    then have "advances f ts eof p (yyreduce f n p)" using a assms(3) by (intro reduce_ok [OF assms(1)]) simp_all
    then show ?thesis using Reduce by (simp add: yyperform_def advances_outcome)
  next
    case Accept
    then show ?thesis using accept_ok [OF assms(1,2)] a assms(3) by (simp add: yyperform_def)
  next
    case Error
    then show ?thesis using errlab_ok [OF assms(1-3)] by (simp add: yyperform_def)
  qed
qed

lemma lookahead_ok:
  assumes "ready f ts eof p us" and "toks_ok ts eof"
  obtains p' t where "yylookahead p = Inr p'" "ready f ts eof p' us" "la p' = Some t" "yystack p' = yystack p"
    "p' = p \<or> left_to_read p' < left_to_read p" 
proof -
  obtain ws where ws: "us @ ws = ts" "pends p (ws @ [eof])" using assms(1) by (auto simp: ready_def splits_def)
  have pos: "x \<in> set (ws @ [eof]) \<Longrightarrow> 0 \<le> lx_char x" for x using assms(2) ws(1) by (auto simp: toks_ok_def list_all_iff intro: less_imp_le)
  note st = ready_stack [OF assms(1)]
  show ?thesis
  proof (cases "yychar p = YYEMPTY")
    case False
    then have "yychar p = lx_char (hd (ws @ [eof]))" using ws(2) by (simp add: pends_def)
    moreover have "hd (ws @ [eof]) \<in> set (ws @ [eof])" by (rule hd_in_set) simp
    ultimately have "0 \<le> yychar p" using pos by metis
    then have "yylookahead p = Inr p" using False by (auto simp: yylookahead_def yy_consts)
    then show ?thesis using that assms(1) False by (auto simp: la_def)
  next
    case True
    obtain x xs where x: "ws @ [eof] = x # xs" by (cases ws) auto
    have xpos: "0 \<le> lx_char x" using pos x by simp
    let ?p = "p\<lparr>yychar := lx_char x, yyglobals := x, yyinput := map Inr xs\<rparr>"
    have "yylookahead p = Inr ?p" using True ws(2) x xpos by (auto simp: yylookahead_def pends_def yy_consts)
    moreover have "la ?p = Some (YYTRANSLATE (lx_char x))" using xpos by (simp add: la_def yy_consts)
    moreover have "ready f ts eof ?p us"
    proof -
      have "stk_ok f (0 < error_count p) (root p) (la ?p) (yystack p) us"
        by (rule stk_ok_mono [OF st]) (use True oplevel_le xpos in \<open>simp add: la_def yy_consts\<close>)
      moreover have "pends ?p (ws @ [eof])" using x xpos by (simp add: pends_def yy_consts)
      ultimately show ?thesis using assms(1) ws(1) by (auto simp: ready_def splits_def side_def room_def)
    qed
    moreover have "left_to_read ?p < left_to_read p" using True ws(2) x by (simp add: left_to_read_def pends_def)
    ultimately show ?thesis using that by simp
  qed
qed

lemma outcome_trans:
  "step_outcome f ts eof p' m \<Longrightarrow> p' = p \<or> left_to_read p' < left_to_read p \<Longrightarrow> step_outcome f ts eof p m"
  by (cases "(f, ts, eof, p', m)" rule: step_outcome.cases) (auto simp: yyless_def)

lemma backup_ok:
  assumes "ready f ts eof p us" and "toks_ok ts eof"
  shows "step_outcome f ts eof p (yybackup f p)"
proof -
  have s: "yystate p \<in> set states" using top_in_states [OF ready_stack [OF assms(1)]] by (simp add: yystate_def)
  obtain n where n: "aget yypact (yystate p) = Inr n" using pact_ok [OF s] by (cases "aget yypact (yystate p)") simp_all
  show ?thesis
  proof (cases "n = YYPACT_NINF")
    case True
    have d: "yydefault (yystate p) = yydecide (yystate p) 0"
      using pact_ok [OF s] n True by (simp add: list_all_iff tokens_def)
    have st: "yystate p \<in> set [11, 24, 30, 33, 35, 38]"
      using ninf_states n True s by auto
    obtain a where a: "yydefault (yystate p) = Inr a" "act_ok (yystate p) 0 (Inr a)"
      using act_ok [OF s, of 0] d by (cases "yydecide (yystate p) 0") (auto simp: tokens_def)
    have no: "a \<noteq> Shift k" "a \<noteq> Accept" "a \<noteq> Error" for k
      using a st ninf_table(2) unfolding yydefault_def by (auto simp: rbind_eq_Inr_iff split: if_splits)
    then obtain m where m: "a = Reduce m" "(m, yystate p) \<in> set reductions" using a(2) by (cases a) auto
    have "advances f ts eof p (yyreduce f m p)"
      by (rule reduce_ok [OF assms(1) m(2)]) (use st in auto)
    then show ?thesis using n True a m by (simp add: yybackup_def yyperform_def advances_outcome)
  next
    case False
    obtain p' t where p': "yylookahead p = Inr p'" "ready f ts eof p' us" "la p' = Some t" "yystack p' = yystack p"
      "p' = p \<or> left_to_read p' < left_to_read p"
      by (rule lookahead_ok [OF assms])
    have t: "t = YYTRANSLATE (yychar p')" using p'(3) by (simp add: la_def split: if_splits)
    have s': "yystate p' = yystate p" using p'(4) by (simp add: yystate_def)
    obtain a where a: "yydecide (yystate p') t = Inr a"
      using act_ok [OF s, of t] t s' by (cases "yydecide (yystate p') t") auto
    have "step_outcome f ts eof p' (yyperform f a p')" by (rule perform_ok [OF p'(2) assms(2) p'(3) a])
    moreover have "yybackup f p = yyperform f a p'" using n False p'(1) a t by (simp add: yybackup_def)
    ultimately show ?thesis using outcome_trans p'(5) by metis
  qed
qed

lemma yystep_ok:
  assumes "Inv f ts eof p" and "toks_ok ts eof"
  shows "step_outcome f ts eof p (yystep f p)"
proof -
  obtain us where us: "splits f ts eof p us" "side p" "length (yystack p) \<le> yystacksize p - 1" using assms(1) by (auto simp: Inv_iff)
  consider (full) "yystacksize p - 1 \<le> length (yystack p)" "YYMAXDEPTH \<le> yystacksize p"
    | (grow) "yystacksize p - 1 \<le> length (yystack p)" "yystacksize p < YYMAXDEPTH"
    | (fits) "length (yystack p) < yystacksize p - 1" by linarith
  then show ?thesis
  proof cases
    case full
    then show ?thesis by (simp add: yystep_def yysetstate_def final_def)
  next
    case grow
    let ?n = "min YYMAXDEPTH (yystacksize p * 2)" let ?p = "p\<lparr>yystacksize := min YYMAXDEPTH (yystacksize p * 2)\<rparr>"
    have room: "length (yystack p) < ?n - 1" using us(2,3) grow by (auto simp: side_def YYINITDEPTH_def YYMAXDEPTH_def min_def)
    then have "yysetstate p = Go ?p" using grow by (simp add: yysetstate_def Let_def)
    moreover have "ready f ts eof ?p us"
    proof -
      have "pends ?p = pends p" "la ?p = la p" by (simp_all add: pends_def la_def fun_eq_iff)
      then show ?thesis using us(1,2) room grow(2) by (simp add: ready_def splits_def side_def room_def min_def)
    qed
    then have "step_outcome f ts eof ?p (yybackup f ?p)" using assms(2) by (rule backup_ok)
    moreover have "step_outcome f ts eof ?p m \<Longrightarrow> step_outcome f ts eof p m" for m
      by (cases "(f, ts, eof, ?p, m)" rule: step_outcome.cases) (auto simp: yyless_def left_to_read_def)
    ultimately show ?thesis by (simp add: yystep_def)
  next
    case fits
    then have "ready f ts eof p us" using us by (simp add: ready_def room_def)
    then show ?thesis using backup_ok [OF _ assms(2)] fits by (simp add: yystep_def yysetstate_def)
  qed
qed

text \<open>The parser returns, without a fault.\<close>

lemma wf_yyless: "wf yyless"
  unfolding yyless_def by (rule wf_measures)

lemma yyrun_ok:
  assumes "toks_ok ts eof"
  shows "Inv f ts eof p \<Longrightarrow> \<exists>r p'. yyrun f p = Some (Inr (r, p')) \<and> final f ts r p'"
proof (induction p rule: wf_induct_rule [OF wf_yyless])
  case (1 p)
  have o: "step_outcome f ts eof p (yystep f p)" using 1(2) assms by (rule yystep_ok)
  show ?case
  proof (cases "yystep f p")
    case (Inl e)
    then show ?thesis using o by simp
  next
    case (Inr m)
    show ?thesis
    proof (cases m)
      case (Go p')
      then have "\<exists>r q. yyrun f p' = Some (Inr (r, q)) \<and> final f ts r q" using 1(1) o Inr by simp
      then show ?thesis using Inr Go by (simp add: yyrun.simps [of f p])
    next
      case (Halt r p')
      then show ?thesis using Inr o by (simp add: yyrun.simps [of f p])
    qed
  qed
qed

lemma Inv_yyinit: "toks_ok ts eof \<Longrightarrow> Inv f ts eof (yyinit g (map Inr (ts @ [eof])))"
  by (simp add: Inv_def yyinit_def pends_def la_def YYINITDEPTH_def YYMAXDEPTH_def)

end
