(* ===== verification/Edify_Complete.thy ===== *)
theory Edify_Complete
  imports Edify_Parse
begin

text \<open>
  The parser accepts every script of the grammar whose expressions fit its stack. A run over a phrase, started
  in a state that can begin it and followed by a token that ends it, pushes the value of the phrase.
\<close>

section \<open>Runs without errors\<close>

definition quiet :: "'c parser \<Rightarrow> bool" where
  "quiet p \<longleftrightarrow> yyerrstatus p = 0 \<and> error_count p = 0 \<and> YYINITDEPTH \<le> yystacksize p \<and> yystacksize p \<le> YYMAXDEPTH \<and>
     length (yystack p) \<le> yystacksize p - 1"

definition shows_conf :: "'c parser \<Rightarrow> 'c frame list \<Rightarrow> lexeme list \<Rightarrow> bool" where
  "shows_conf p stk ws \<longleftrightarrow> yystack p = stk \<and> pends p ws \<and> quiet p"

definition yygo :: "(string \<Rightarrow> 'c Function option) \<Rightarrow> 'c parser \<Rightarrow> 'c parser \<Rightarrow> bool" where
  "yygo f p p' \<longleftrightarrow> yystep f p = Inr (Go p')"

lemma yygo_run: "(yygo f)\<^sup>*\<^sup>* p p' \<Longrightarrow> yyrun f p = yyrun f p'"
  by (induction rule: rtranclp_induct) (simp_all add: yygo_def yyrun.simps)

text \<open>From any parser with this stack and this pending input, a run leads to one with that.\<close>

definition evolves ::
  "(string \<Rightarrow> 'c Function option) \<Rightarrow> 'c frame list \<times> lexeme list \<Rightarrow> 'c frame list \<times> lexeme list \<Rightarrow> bool" where
  "evolves f c c' \<longleftrightarrow> (\<forall>p. shows_conf p (fst c) (snd c) \<longrightarrow>
     (\<exists>p'. (yygo f)\<^sup>*\<^sup>* p p' \<and> shows_conf p' (fst c') (snd c')))"

lemma evolves_trans [trans]: "evolves f a b \<Longrightarrow> evolves f b c \<Longrightarrow> evolves f a c"
  unfolding evolves_def by (meson rtranclp_trans)

lemma tk_pos: "tk x \<noteq> 2 \<Longrightarrow> 0 \<le> lx_char x"
  by (auto simp: tk_def YYTRANSLATE_def yy_consts split: if_splits)

lemma round:
  assumes "shows_conf p stk (w # ws)" and "tk w \<noteq> 2" and "top_state stk \<in> set states" and "length stk < 9998"
    and "yydecide (top_state stk) (tk w) = Inr a"
  obtains q where "yystep f p = yyperform f a q" "shows_conf q stk (w # ws)" "length stk < yystacksize q - 1"
    "yychar q \<noteq> YYEMPTY \<or> (\<exists>n. a = Reduce n)" "root q = root p"
proof -
  let ?n = "min YYMAXDEPTH (yystacksize p * 2)"
  define p1 where "p1 = (if yystacksize p - 1 \<le> length stk then p\<lparr>yystacksize := ?n\<rparr> else p)"
  have q: "yystack p = stk" "pends p (w # ws)" "quiet p" using assms(1) by (simp_all add: shows_conf_def)
  have p1: "yysetstate p = Go p1" "yystack p1 = stk" "pends p1 (w # ws)" "quiet p1" "length stk < yystacksize p1 - 1" "root p1 = root p"
    using q assms(4) by (auto simp: p1_def yysetstate_def quiet_def YYINITDEPTH_def YYMAXDEPTH_def Let_def min_def pends_def)
  have st: "yystate p1 = top_state stk" using p1(2) by (simp add: yystate_def)
  obtain n where n: "aget yypact (top_state stk) = Inr n" using pact_ok [OF assms(3)] by (cases "aget yypact (top_state stk)") simp_all
  show ?thesis
  proof (cases "n = YYPACT_NINF")
    case True
    have d: "yydefault (top_state stk) = Inr a"
      using pact_ok [OF assms(3)] n True assms(5) by (simp add: list_all_iff)
    then have "\<exists>m. a = Reduce m"
      using ninf_states [OF _ assms(3)] n True ninf_table(2)
      by (cases a) (auto simp: yydefault_def rbind_eq_Inr_iff split: if_splits)
    then show ?thesis
      using that [of p1] p1 n True d st by (simp add: yystep_def yybackup_def shows_conf_def)
  next
    case False
    define q where "q = (if yychar p1 = YYEMPTY then p1\<lparr>yychar := lx_char w, yyglobals := w, yyinput := map Inr ws\<rparr> else p1)"
    have pos: "0 \<le> lx_char w" using assms(2) by (rule tk_pos)
    have "yylookahead p1 = Inr q"
      using p1(3) pos by (auto simp: q_def yylookahead_def pends_def yy_consts)
    moreover have "yychar q = lx_char w" "yychar q \<noteq> YYEMPTY" "pends q (w # ws)" "yystack q = stk" "quiet q" "root q = root p"
      "yystacksize q = yystacksize p1"
      using p1 pos by (auto simp: q_def pends_def quiet_def yy_consts)
    moreover from this have "yystate q = top_state stk" by (simp add: yystate_def)
    ultimately show ?thesis
      using that [of q] p1(1,5) n False st assms(5)
      by (simp add: yystep_def yybackup_def shows_conf_def tk_def)
  qed
qed

lemma evolves_shift:
  assumes "yydecide (top_state stk) (tk w) = Inr (Shift n)" and "tk w \<notin> {0, 2}" and "top_state stk \<in> set states" and "length stk < 9998"
  shows "evolves f (stk, w # ws) ((n, YStr (lx_lval w), lx_lloc w) # stk, ws)"
  unfolding evolves_def
proof (intro allI impI)
  fix p :: "'a parser"
  assume p: "shows_conf p (fst (stk, w # ws)) (snd (stk, w # ws))"
  obtain q where q: "yystep f p = yyperform f (Shift n) q" "shows_conf q stk (w # ws)" "length stk < yystacksize q - 1"
    "yychar q \<noteq> YYEMPTY"
    by (rule round [OF _ _ assms(3,4,1), of p ws f]) (use p assms(2) in auto)
  have "lx_char w \<noteq> 0" using assms(2) by (auto simp: tk_def)
  then have ch: "yychar q \<noteq> YYEOF" using q(2,4) by (auto simp: shows_conf_def pends_def yy_consts)
  let ?p = "q\<lparr>yyerrstatus := yyerrstatus q - 1, yychar := YYEMPTY,
     yystack := (n, YStr (lx_lval (yyglobals q)), lx_lloc (yyglobals q)) # yystack q\<rparr>"
  have "yygo f p ?p" using q(1) ch by (simp add: yygo_def yyperform_def yyshift_def yypush_def)
  moreover have "shows_conf ?p ((n, YStr (lx_lval w), lx_lloc w) # stk) ws"
    using q(2-4) by (auto simp: shows_conf_def pends_def quiet_def)
  ultimately show "\<exists>p'. (yygo f)\<^sup>*\<^sup>* p p' \<and>
      shows_conf p' (fst ((n, YStr (lx_lval w), lx_lloc w) # stk, ws)) (snd ((n, YStr (lx_lval w), lx_lloc w) # stk, ws))"
    by auto
qed

lemma evolves_reduce:
  assumes "yydecide (top_state stk) (tk w) = Inr (Reduce n)" and "tk w \<noteq> 2" and "top_state stk \<in> set states" and "length stk < 9998"
    and "stk = frs @ rest" and "aget yyr2 n = Inr (int (length frs))"
    and "YYLLOC_DEFAULT (map frame_loc (rev frs)) (map frame_loc rest) = Inr l"
    and "\<And>v0. yyaction f n (map frame_val (rev frs)) (map frame_loc (rev frs)) l v0 = Inr (Yields v)"
    and "aget yyr1 n = Inr nt" and "yygoto (top_state rest) nt = Inr s"
  shows "evolves f (stk, w # ws) ((s, v, l) # rest, w # ws)"
  unfolding evolves_def
proof (intro allI impI)
  fix p :: "'a parser"
  assume p: "shows_conf p (fst (stk, w # ws)) (snd (stk, w # ws))"
  obtain q where q: "yystep f p = yyperform f (Reduce n) q" "shows_conf q stk (w # ws)" "length stk < yystacksize q - 1"
    by (rule round [OF _ _ assms(3,4,1), of p ws f]) (use p assms(2) in auto)
  let ?p = "q\<lparr>yystack := (s, v, l) # rest\<rparr>"
  have "yystack q = frs @ rest" using q(2) assms(5) by (simp add: shows_conf_def)
  then have "yyreduce f n q = Inr (Go ?p)" using assms(6-10) by (rule yyreduce_yields)
  then have "yygo f p ?p" using q(1) by (simp add: yygo_def yyperform_def)
  moreover have "shows_conf ?p ((s, v, l) # rest) (w # ws)"
    using q(2,3) assms(5) by (auto simp: shows_conf_def pends_def quiet_def)
  ultimately show "\<exists>p'. (yygo f)\<^sup>*\<^sup>* p p' \<and> shows_conf p' (fst ((s, v, l) # rest, w # ws)) (snd ((s, v, l) # rest, w # ws))"
    by auto
qed

section \<open>Runs over phrases\<close>

definition op_state :: "int \<Rightarrow> int" where
  "op_state t = (if t = 3 then 14 else if t = 4 then 15 else if t = 7 then 16 else if t = 8 then 17 else 19)"

definition op_rule :: "int \<Rightarrow> int" where
  "op_rule t = (if t = 3 then 11 else if t = 4 then 12 else if t = 7 then 9 else if t = 8 then 10 else 8)"

definition operators :: "int list" where "operators = [3, 4, 7, 8, 17]"

lemma start_table:
  "list_all (\<lambda>t. t \<in> set states \<and> yydecide t 13 = Inr (Shift 3) \<and> yydecide t 9 = Inr (Shift 2) \<and> yydecide t 18 = Inr (Shift 4) \<and>
     yydecide t 19 = Inr (Shift 5) \<and> (bstart (after_expr t) \<longrightarrow> yydecide (after_expr t) 15 = Inr (Shift 18)) \<and>
     list_all (\<lambda>x. lvl (after_expr t) \<le> oplevel x \<longrightarrow> yydecide (after_expr t) x = Inr (Shift (op_state x))) operators) bases"
  by code_simp

lemma starts:
  assumes "t \<in> set bases"
  shows "t \<in> set states" "yydecide t 13 = Inr (Shift 3)" "yydecide t 9 = Inr (Shift 2)" "yydecide t 18 = Inr (Shift 4)"
    "yydecide t 19 = Inr (Shift 5)" "bstart (after_expr t) \<Longrightarrow> yydecide (after_expr t) 15 = Inr (Shift 18)"
    "x \<in> set operators \<Longrightarrow> lvl (after_expr t) \<le> oplevel x \<Longrightarrow> yydecide (after_expr t) x = Inr (Shift (op_state x))"
  using assms start_table unfolding list_all_iff by blast+

lemma end_table:
  "list_all (\<lambda>w. w \<noteq> 2 \<and> yydecide 3 w = Inr (Reduce 3) \<and> yydecide 18 w = Inr (Reduce 5) \<and> (oplevel w = 0 \<longrightarrow> yydecide 29 w = Inr (Reduce 6)) \<and>
     yydecide 24 w = Inr (Reduce 4) \<and> yydecide 11 w = Inr (Reduce 13) \<and> yydecide 35 w = Inr (Reduce 14) \<and>
     yydecide 38 w = Inr (Reduce 15) \<and> yydecide 33 w = Inr (Reduce 16) \<and>
     list_all (\<lambda>x. oplevel w \<le> oplevel x \<longrightarrow> yydecide (after_expr (op_state x)) w = Inr (Reduce (op_rule x))) operators) follow"
  by code_simp

lemma ends:
  assumes "w \<in> set follow"
  shows "w \<noteq> 2" "yydecide 3 w = Inr (Reduce 3)" "yydecide 18 w = Inr (Reduce 5)" "oplevel w = 0 \<Longrightarrow> yydecide 29 w = Inr (Reduce 6)"
    "yydecide 24 w = Inr (Reduce 4)" "yydecide 11 w = Inr (Reduce 13)" "yydecide 35 w = Inr (Reduce 14)"
    "yydecide 38 w = Inr (Reduce 15)" "yydecide 33 w = Inr (Reduce 16)"
    "x \<in> set operators \<Longrightarrow> oplevel w \<le> oplevel x \<Longrightarrow> yydecide (after_expr (op_state x)) w = Inr (Reduce (op_rule x))"
  using assms end_table unfolding list_all_iff by blast+

lemma decide_simps [simp]:
  "yydecide 12 20 = Inr (Shift 24)" "yydecide 9 10 = Inr (Shift 21)" "yydecide 31 11 = Inr (Shift 34)" "yydecide 31 12 = Inr (Shift 35)"
  "yydecide 37 12 = Inr (Shift 38)" "yydecide 3 19 = Inr (Shift 10)" "yydecide 23 16 = Inr (Shift 32)" "yydecide 23 20 = Inr (Shift 33)"
  "yydecide 10 16 = Inr (Reduce 17)" "yydecide 10 20 = Inr (Reduce 17)" "yydecide 22 16 = Inr (Reduce 18)" "yydecide 22 20 = Inr (Reduce 18)"
  "yydecide 36 16 = Inr (Reduce 19)" "yydecide 36 20 = Inr (Reduce 19)" "yydecide 7 0 = Inr (Reduce 2)" "yydecide 6 0 = Inr Accept"
  by (code_simp)+

lemma states_simps [simp]:
  "3 \<in> set states" "6 \<in> set states" "7 \<in> set states" "9 \<in> set states" "10 \<in> set states" "11 \<in> set states" "12 \<in> set states"
  "18 \<in> set states" "22 \<in> set states" "23 \<in> set states" "24 \<in> set states" "29 \<in> set states" "31 \<in> set states" "33 \<in> set states"
  "35 \<in> set states" "36 \<in> set states" "37 \<in> set states" "38 \<in> set states"
  by (simp_all add: states_def)

lemma follow_simps [simp]:
  "0 \<in> set follow" "10 \<in> set follow" "11 \<in> set follow" "12 \<in> set follow" "15 \<in> set follow" "16 \<in> set follow" "20 \<in> set follow"
  by (simp_all add: follow_def)

lemma oplevel_follow: "0 < oplevel x \<Longrightarrow> x \<in> set operators \<and> x \<in> set follow \<and> x \<notin> {0, 2}"
  by (auto simp: oplevel_def operators_def follow_def split: if_splits)

lemma oplevel_simps [simp]:
  "oplevel 0 = 0" "oplevel 10 = 0" "oplevel 11 = 0" "oplevel 12 = 0" "oplevel 15 = 0" "oplevel 16 = 0" "oplevel 20 = 0"
  by (simp_all add: oplevel_def)

lemma operator_simps:
  assumes "x \<in> set operators"
  shows "op_state x \<in> set bases" "lvl (after_expr (op_state x)) = Suc (oplevel x)" "aget yyr2 (op_rule x) = Inr 3"
    "aget yyr1 (op_rule x) = Inr 23" "yyaction f (op_rule x) [a, b, c] ls l v0 = build2 (opfn x) l a c"
    "after_expr (op_state x) \<in> set states"
  using assms by (auto simp: operators_def op_state_def op_rule_def lvl_def oplevel_def yyaction_def opfn_def states_def)

lemma evolves_expr:
  assumes "yydecide (top_state stk) (tk w) = Inr (Reduce n)" and "tk w \<in> set follow" and "top_state stk \<in> set states"
    and "stk = frs @ rest" and "frs \<noteq> []" and "length stk < 9998" and "top_state rest \<in> set bases" and "aget yyr2 n = Inr (int (length frs))"
    and "l = (fst (frame_loc (last frs)), snd (frame_loc (hd frs)))"
    and "\<And>v0. yyaction f n (map frame_val (rev frs)) (map frame_loc (rev frs)) l v0 = Inr (Yields (YExpr e))" and "aget yyr1 n = Inr 23"
  shows "evolves f (stk, w # ws) ((after_expr (top_state rest), YExpr e, l) # rest, w # ws)"
proof -
  have "YYLLOC_DEFAULT (map frame_loc (rev frs)) (map frame_loc rest) = Inr l"
    using assms(5,9) by (simp add: YYLLOC_DEFAULT_def hd_map hd_rev last_map last_rev)
  then show ?thesis
    using evolves_reduce [OF assms(1) ends(1) [OF assms(2)] assms(3,6,4,8) _ assms(10,11)] expr_state(5) [OF assms(7)] by blast
qed

definition parses_expr :: "(string \<Rightarrow> 'c Function option) \<Rightarrow> bool \<Rightarrow> nat \<Rightarrow> lexeme list \<Rightarrow> 'c Expr \<Rightarrow> bool" where
  "parses_expr f b n ts e \<longleftrightarrow> (\<forall>stk w ws. top_state stk \<in> set bases \<longrightarrow> lvl (after_expr (top_state stk)) \<le> n \<longrightarrow>
     (b \<longrightarrow> bstart (after_expr (top_state stk))) \<longrightarrow> tk w \<in> set follow \<longrightarrow> oplevel (tk w) \<le> n \<longrightarrow> length stk + 2 * length ts \<le> 9990 \<longrightarrow>
     evolves f (stk, ts @ w # ws) ((after_expr (top_state stk), YExpr e, place ts) # stk, w # ws))"

definition parses_args :: "(string \<Rightarrow> 'c Function option) \<Rightarrow> lexeme list \<Rightarrow> 'c Expr list \<Rightarrow> bool" where
  "parses_args f ts es \<longleftrightarrow> (\<forall>stk w ws. top_state stk = 10 \<longrightarrow> tk w \<in> {16, 20} \<longrightarrow> length stk + 2 * length ts + 2 \<le> 9990 \<longrightarrow>
     (\<exists>l. evolves f (stk, ts @ w # ws) ((23, YArgs es, l) # stk, w # ws)))"

lemma parses_exprI:
  assumes "\<And>stk w ws. top_state stk \<in> set bases \<Longrightarrow> lvl (after_expr (top_state stk)) \<le> n \<Longrightarrow>
     (b \<longrightarrow> bstart (after_expr (top_state stk))) \<Longrightarrow> tk w \<in> set follow \<Longrightarrow> oplevel (tk w) \<le> n \<Longrightarrow> length stk + 2 * length ts \<le> 9990 \<Longrightarrow>
     evolves f (stk, ts @ w # ws) ((after_expr (top_state stk), YExpr e, place ts) # stk, w # ws)"
  shows "parses_expr f b n ts e"
  using assms unfolding parses_expr_def by blast

lemma parses_exprD:
  assumes "parses_expr f b n ts e" "top_state stk \<in> set bases" "lvl (after_expr (top_state stk)) \<le> n"
    "b \<longrightarrow> bstart (after_expr (top_state stk))" "tk w \<in> set follow" "oplevel (tk w) \<le> n" "length stk + 2 * length ts \<le> 9990"
  shows "evolves f (stk, ts @ w # ws) ((after_expr (top_state stk), YExpr e, place ts) # stk, w # ws)"
  using assms unfolding parses_expr_def by blast

lemma parses_lit:
  assumes "tk x = 13" and "lx_lval x = Some s"
  shows "parses_expr f b n [x] (Expr Literal s [] (fst (place [x])) (snd (place [x])))"
proof (rule parses_exprI)
  fix stk :: "'a frame list" and w ws
  assume a: "top_state stk \<in> set bases" "tk w \<in> set follow" "length stk + 2 * length [x] \<le> 9990"
  note s = starts [OF a(1)] ends [OF a(2)]
  have "evolves f (stk, x # w # ws) ((3, YStr (lx_lval x), lx_lloc x) # stk, w # ws)"
    using assms(1) a s(1,2) by (intro evolves_shift) simp_all
  also have "evolves f ((3, YStr (lx_lval x), lx_lloc x) # stk, w # ws)
      ((after_expr (top_state stk), YExpr (Expr Literal s [] (fst (place [x])) (snd (place [x]))), place [x]) # stk, w # ws)"
    using a s assms(2) by (intro evolves_expr [where n = 3 and frs = "[(3, YStr (lx_lval x), lx_lloc x)]"])
      (simp_all add: frame_simps yyaction_def)
  finally show "evolves f (stk, [x] @ w # ws) ((after_expr (top_state stk), YExpr (Expr Literal s [] (fst (place [x])) (snd (place [x]))), place [x]) # stk, w # ws)"
    by simp
qed

lemma parses_negation:
  assumes "tk x = 18" and "parses_expr f False 6 ts e" and "ts \<noteq> []"
  shows "parses_expr f b n (x # ts) (Build LogicalNotFn (place (x # ts)) [e])"
proof (rule parses_exprI)
  fix stk :: "'a frame list" and w ws
  assume a: "top_state stk \<in> set bases" "tk w \<in> set follow" "length stk + 2 * length (x # ts) \<le> 9990"
  note s = starts [OF a(1)] ends [OF a(2)]
  let ?x = "(4, YStr (lx_lval x), lx_lloc x)"
  have "evolves f (stk, x # ts @ w # ws) (?x # stk, ts @ w # ws)"
    using assms(1) a s(1,4) by (intro evolves_shift) simp_all
  also have "evolves f (?x # stk, ts @ w # ws) ((11, YExpr e, place ts) # ?x # stk, w # ws)"
    using parses_exprD [OF assms(2), of "?x # stk" w ws] a oplevel_le [of "tk w"] by simp
  also have "evolves f ((11, YExpr e, place ts) # ?x # stk, w # ws)
      ((after_expr (top_state stk), YExpr (Build LogicalNotFn (place (x # ts)) [e]), place (x # ts)) # stk, w # ws)"
    using a s assms(3) by (intro evolves_expr [where n = 13 and frs = "[(11, YExpr e, place ts), ?x]"])
      (simp_all add: frame_simps yyaction_def place_def)
  finally show "evolves f (stk, (x # ts) @ w # ws) ((after_expr (top_state stk), YExpr (Build LogicalNotFn (place (x # ts)) [e]), place (x # ts)) # stk, w # ws)"
    by simp
qed

lemma parses_paren:
  assumes "tk x = 19" and "parses_expr f True 0 ts e" and "tk z = 20"
  shows "parses_expr f b n (x # ts @ [z]) (set_place (place (x # ts @ [z])) e)"
proof (rule parses_exprI)
  fix stk :: "'a frame list" and w ws
  assume a: "top_state stk \<in> set bases" "tk w \<in> set follow" "length stk + 2 * length (x # ts @ [z]) \<le> 9990"
  note s = starts [OF a(1)] ends [OF a(2)]
  let ?l = "place (x # ts @ [z])"
  let ?x = "(5, YStr (lx_lval x), lx_lloc x)" and ?z = "(24, YStr (lx_lval z), lx_lloc z)"
  have "evolves f (stk, x # ts @ z # w # ws) (?x # stk, ts @ z # w # ws)"
    using assms(1) a s(1,5) by (intro evolves_shift) simp_all
  also have "evolves f (?x # stk, ts @ z # w # ws) ((12, YExpr e, place ts) # ?x # stk, z # w # ws)"
    using parses_exprD [OF assms(2), of "?x # stk" z "w # ws"] assms(3) a by simp
  also have "evolves f ((12, YExpr e, place ts) # ?x # stk, z # w # ws) (?z # (12, YExpr e, place ts) # ?x # stk, w # ws)"
    using assms(3) a by (intro evolves_shift) simp_all
  also have "evolves f (?z # (12, YExpr e, place ts) # ?x # stk, w # ws) ((after_expr (top_state stk), YExpr (set_place ?l e), ?l) # stk, w # ws)"
    using a s by (intro evolves_expr [where n = 4 and frs = "[?z, (12, YExpr e, place ts), ?x]"])
      (simp_all add: frame_simps yyaction_def place_def)
  finally show "evolves f (stk, (x # ts @ [z]) @ w # ws) ((after_expr (top_state stk), YExpr (set_place ?l e), ?l) # stk, w # ws)"
    by simp
qed

lemma parses_binary:
  assumes "0 < oplevel (tk x)" and "n \<le> oplevel (tk x)" and "parses_expr f b (oplevel (tk x)) ts e"
    and "parses_expr f False (Suc (oplevel (tk x))) us e'" and "ts \<noteq> []" and "us \<noteq> []"
  shows "parses_expr f b n (ts @ x # us) (Build (opfn (tk x)) (place (ts @ x # us)) [e, e'])"
proof (rule parses_exprI)
  fix stk :: "'a frame list" and w ws
  assume a: "top_state stk \<in> set bases" "lvl (after_expr (top_state stk)) \<le> n" "b \<longrightarrow> bstart (after_expr (top_state stk))"
    "tk w \<in> set follow" "oplevel (tk w) \<le> n" "length stk + 2 * length (ts @ x # us) \<le> 9990"
  have x: "tk x \<in> set operators" "tk x \<in> set follow" "tk x \<notin> {0, 2}" using oplevel_follow [OF assms(1)] by auto
  note s = starts [OF a(1)] ends [OF a(4)] and o = operator_simps [OF x(1)] and es = expr_state [OF a(1)]
  let ?l = "place (ts @ x # us)" and ?g = "after_expr (top_state stk)" and ?h = "after_expr (op_state (tk x))"
  let ?e = "(?g, YExpr e, place ts)" and ?x = "(op_state (tk x), YStr (lx_lval x), lx_lloc x)" and ?e' = "(?h, YExpr e', place us)"
  have "evolves f (stk, ts @ x # us @ w # ws) (?e # stk, x # us @ w # ws)"
    using a assms(2) x(2) by (intro parses_exprD [OF assms(3)]) simp_all
  also have "evolves f (?e # stk, x # us @ w # ws) (?x # ?e # stk, us @ w # ws)"
    using a x s(7) assms(2) es(3) by (intro evolves_shift) simp_all
  also have "evolves f (?x # ?e # stk, us @ w # ws) (?e' # ?x # ?e # stk, w # ws)"
    using parses_exprD [OF assms(4), of "?x # ?e # stk" w ws] o(1,2) a assms(2) by simp
  also have "evolves f (?e' # ?x # ?e # stk, w # ws) ((?g, YExpr (Build (opfn (tk x)) ?l [e, e']), ?l) # stk, w # ws)"
    using a(1,4-6) s(17) [OF x(1)] o(3,4,6) operator_simps(5) [OF x(1), of f] assms(2,5,6)
    by (intro evolves_expr [where n = "op_rule (tk x)" and frs = "[?e', ?x, ?e]"]) (simp_all add: frame_simps build2_def place_def)
  finally show "evolves f (stk, (ts @ x # us) @ w # ws) ((?g, YExpr (Build (opfn (tk x)) ?l [e, e']), ?l) # stk, w # ws)"
    by simp
qed

lemma parses_sequence:
  assumes "parses_expr f True 0 ts e" and "tk x = 15" and "parses_expr f False 1 us e'" and "ts \<noteq> []" and "us \<noteq> []"
  shows "parses_expr f True 0 (ts @ x # us) (Build SequenceFn (place (ts @ x # us)) [e, e'])"
proof (rule parses_exprI)
  fix stk :: "'a frame list" and w ws
  assume a: "top_state stk \<in> set bases" "lvl (after_expr (top_state stk)) \<le> 0" "True \<longrightarrow> bstart (after_expr (top_state stk))"
    "tk w \<in> set follow" "oplevel (tk w) \<le> 0" "length stk + 2 * length (ts @ x # us) \<le> 9990"
  note s = starts [OF a(1)] ends [OF a(4)] and es = expr_state [OF a(1)]
  let ?l = "place (ts @ x # us)" and ?g = "after_expr (top_state stk)"
  let ?e = "(?g, YExpr e, place ts)" and ?x = "(18, YStr (lx_lval x), lx_lloc x)" and ?e' = "(29, YExpr e', place us)"
  have "evolves f (stk, ts @ x # us @ w # ws) (?e # stk, x # us @ w # ws)"
    using a assms(2) by (intro parses_exprD [OF assms(1)]) simp_all
  also have "evolves f (?e # stk, x # us @ w # ws) (?x # ?e # stk, us @ w # ws)"
    using a assms(2) s(6) es(3) by (intro evolves_shift) simp_all
  also have "evolves f (?x # ?e # stk, us @ w # ws) (?e' # ?x # ?e # stk, w # ws)"
    using parses_exprD [OF assms(3), of "?x # ?e # stk" w ws] a by simp
  also have "evolves f (?e' # ?x # ?e # stk, w # ws) ((?g, YExpr (Build SequenceFn ?l [e, e']), ?l) # stk, w # ws)"
    using a s(11) assms(4,5)
    by (intro evolves_expr [where n = 6 and frs = "[?e', ?x, ?e]"]) (simp_all add: frame_simps yyaction_def build2_def place_def)
  finally show "evolves f (stk, (ts @ x # us) @ w # ws) ((?g, YExpr (Build SequenceFn ?l [e, e']), ?l) # stk, w # ws)"
    by simp
qed

lemma parses_semicolon:
  assumes "parses_expr f True 0 ts e" and "tk x = 15" and "ts \<noteq> []"
  shows "parses_expr f True n (ts @ [x]) (set_place (place ts) e)"
proof (rule parses_exprI)
  fix stk :: "'a frame list" and w ws
  assume a: "top_state stk \<in> set bases" "True \<longrightarrow> bstart (after_expr (top_state stk))"
    "tk w \<in> set follow" "length stk + 2 * length (ts @ [x]) \<le> 9990"
  note s = starts [OF a(1)] ends [OF a(3)] and es = expr_state [OF a(1)]
  let ?l = "place (ts @ [x])" and ?g = "after_expr (top_state stk)"
  let ?e = "(?g, YExpr e, place ts)" and ?x = "(18, YStr (lx_lval x), lx_lloc x)"
  have lv: "lvl ?g = 0" using a(2) by (auto simp: bstart_def lvl_def)
  have "evolves f (stk, ts @ x # w # ws) (?e # stk, x # w # ws)"
    using a assms(2) lv by (intro parses_exprD [OF assms(1)]) simp_all
  also have "evolves f (?e # stk, x # w # ws) (?x # ?e # stk, w # ws)"
    using a assms(2) s(6) es(3) by (intro evolves_shift) simp_all
  also have "evolves f (?x # ?e # stk, w # ws) ((?g, YExpr (set_place (place ts) e), ?l) # stk, w # ws)"
    using a s(10) assms(3)
    by (intro evolves_expr [where n = 5 and frs = "[?x, ?e]"]) (simp_all add: frame_simps yyaction_def place_def)
  finally show "evolves f (stk, (ts @ [x]) @ w # ws) ((?g, YExpr (set_place (place ts) e), ?l) # stk, w # ws)"
    by simp
qed

text \<open>A keyword or comma with the expression behind it.\<close>

lemma evolves_bracketed:
  assumes "yydecide (top_state stk) (tk x) = Inr (Shift n)" and "tk x \<notin> {0, 2}" and "top_state stk \<in> set states"
    and "parses_expr f True 0 ts e" and "n \<in> {2, 21, 32, 34}" and "tk w \<in> set follow" and "oplevel (tk w) = 0"
    and "length stk + 2 * length (x # ts) \<le> 9990"
  shows "evolves f (stk, x # ts @ w # ws) ((after_expr n, YExpr e, place ts) # (n, YStr (lx_lval x), lx_lloc x) # stk, w # ws)"
proof -
  let ?x = "(n, YStr (lx_lval x), lx_lloc x)"
  have "evolves f (stk, x # ts @ w # ws) (?x # stk, ts @ w # ws)"
    using assms(1-3,8) by (intro evolves_shift) simp_all
  also have "evolves f (?x # stk, ts @ w # ws) ((after_expr n, YExpr e, place ts) # ?x # stk, w # ws)"
    using parses_exprD [OF assms(4), of "?x # stk" w ws] assms(5-8) by auto
  finally show ?thesis .
qed

lemma parses_if:
  assumes "tk x = 9" and "parses_expr f True 0 cs c" and "tk y = 10" and "parses_expr f True 0 ts t" and "tk z = 12"
  shows "parses_expr f b n (x # cs @ y # ts @ [z]) (Build IfElseFn (place (x # cs @ y # ts @ [z])) [c, t])"
proof (rule parses_exprI)
  fix stk :: "'a frame list" and w ws
  assume a: "top_state stk \<in> set bases" "tk w \<in> set follow" "length stk + 2 * length (x # cs @ y # ts @ [z]) \<le> 9990"
  note s = starts [OF a(1)] ends [OF a(2)]
  let ?l = "place (x # cs @ y # ts @ [z])" and ?g = "after_expr (top_state stk)"
  let ?x = "(2, YStr (lx_lval x), lx_lloc x)" and ?c = "(9, YExpr c, place cs)" and ?y = "(21, YStr (lx_lval y), lx_lloc y)" and
    ?t = "(31, YExpr t, place ts)" and ?z = "(35, YStr (lx_lval z), lx_lloc z)"
  have "evolves f (stk, x # cs @ y # ts @ z # w # ws) (?c # ?x # stk, y # ts @ z # w # ws)"
    using evolves_bracketed [OF _ _ s(1) assms(2), of x 2 y "ts @ z # w # ws"] s(3) assms(1,3) a by simp
  also have "evolves f (?c # ?x # stk, y # ts @ z # w # ws) (?t # ?y # ?c # ?x # stk, z # w # ws)"
    using evolves_bracketed [OF _ _ _ assms(4), of "?c # ?x # stk" y 21 z "w # ws"] assms(3,5) a by simp
  also have "evolves f (?t # ?y # ?c # ?x # stk, z # w # ws) (?z # ?t # ?y # ?c # ?x # stk, w # ws)"
    using assms(5) a by (intro evolves_shift) simp_all
  also have "evolves f (?z # ?t # ?y # ?c # ?x # stk, w # ws) ((?g, YExpr (Build IfElseFn ?l [c, t]), ?l) # stk, w # ws)"
    using a s by (intro evolves_expr [where n = 14 and frs = "[?z, ?t, ?y, ?c, ?x]"])
      (simp_all add: frame_simps yyaction_def build2_def place_def)
  finally show "evolves f (stk, (x # cs @ y # ts @ [z]) @ w # ws) ((?g, YExpr (Build IfElseFn ?l [c, t]), ?l) # stk, w # ws)"
    by simp
qed

lemma parses_if_else:
  assumes "tk x = 9" and "parses_expr f True 0 cs c" and "tk y = 10" and "parses_expr f True 0 ts t" and "tk v = 11"
    and "parses_expr f True 0 us u" and "tk z = 12"
  shows "parses_expr f b n (x # cs @ y # ts @ v # us @ [z]) (Build IfElseFn (place (x # cs @ y # ts @ v # us @ [z])) [c, t, u])"
proof (rule parses_exprI)
  fix stk :: "'a frame list" and w ws
  assume a: "top_state stk \<in> set bases" "tk w \<in> set follow" "length stk + 2 * length (x # cs @ y # ts @ v # us @ [z]) \<le> 9990"
  note s = starts [OF a(1)] ends [OF a(2)]
  let ?l = "place (x # cs @ y # ts @ v # us @ [z])" and ?g = "after_expr (top_state stk)"
  let ?x = "(2, YStr (lx_lval x), lx_lloc x)" and ?c = "(9, YExpr c, place cs)" and ?y = "(21, YStr (lx_lval y), lx_lloc y)" and
    ?t = "(31, YExpr t, place ts)" and ?v = "(34, YStr (lx_lval v), lx_lloc v)" and ?u = "(37, YExpr u, place us)" and
    ?z = "(38, YStr (lx_lval z), lx_lloc z)"
  have "evolves f (stk, x # cs @ y # ts @ v # us @ z # w # ws) (?c # ?x # stk, y # ts @ v # us @ z # w # ws)"
    using evolves_bracketed [OF _ _ s(1) assms(2), of x 2 y "ts @ v # us @ z # w # ws"] s(3) assms(1,3) a by simp
  also have "evolves f (?c # ?x # stk, y # ts @ v # us @ z # w # ws) (?t # ?y # ?c # ?x # stk, v # us @ z # w # ws)"
    using evolves_bracketed [OF _ _ _ assms(4), of "?c # ?x # stk" y 21 v "us @ z # w # ws"] assms(3,5) a by simp
  also have "evolves f (?t # ?y # ?c # ?x # stk, v # us @ z # w # ws) (?u # ?v # ?t # ?y # ?c # ?x # stk, z # w # ws)"
    using evolves_bracketed [OF _ _ _ assms(6), of "?t # ?y # ?c # ?x # stk" v 34 z "w # ws"] assms(5,7) a by simp
  also have "evolves f (?u # ?v # ?t # ?y # ?c # ?x # stk, z # w # ws) (?z # ?u # ?v # ?t # ?y # ?c # ?x # stk, w # ws)"
    using assms(7) a by (intro evolves_shift) simp_all
  also have "evolves f (?z # ?u # ?v # ?t # ?y # ?c # ?x # stk, w # ws) ((?g, YExpr (Build IfElseFn ?l [c, t, u]), ?l) # stk, w # ws)"
    using a s by (intro evolves_expr [where n = 15 and frs = "[?z, ?u, ?v, ?t, ?y, ?c, ?x]"])
      (simp_all add: frame_simps yyaction_def build2_def place_def)
  finally show "evolves f (stk, (x # cs @ y # ts @ v # us @ [z]) @ w # ws) ((?g, YExpr (Build IfElseFn ?l [c, t, u]), ?l) # stk, w # ws)"
    by simp
qed

lemma parses_argsI:
  assumes "\<And>stk w ws. top_state stk = 10 \<Longrightarrow> tk w \<in> {16, 20} \<Longrightarrow> length stk + 2 * length ts + 2 \<le> 9990 \<Longrightarrow>
     \<exists>l. evolves f (stk, ts @ w # ws) ((23, YArgs es, l) # stk, w # ws)"
  shows "parses_args f ts es"
  using assms unfolding parses_args_def by blast

lemma parses_no_arg: "parses_args f [] []"
proof (rule parses_argsI)
  fix stk :: "'a frame list" and w ws
  assume a: "top_state stk = 10" "tk w \<in> {16, 20}" "length stk + 2 * length ([] :: lexeme list) + 2 \<le> 9990"
  then obtain fr rest where stk: "stk = fr # rest" by (cases stk) auto
  have "evolves f (stk, w # ws) ((23, YArgs [], frame_loc fr) # stk, w # ws)"
    using a stk by (intro evolves_reduce [where n = 17 and frs = "[]" and nt = 24])
      (auto simp: YYLLOC_DEFAULT_def yyaction_def)
  then show "\<exists>l. evolves f (stk, [] @ w # ws) ((23, YArgs [], l) # stk, w # ws)" by (auto simp del: split_paired_Ex)
qed

lemma parses_one_arg:
  assumes "parses_expr f True 0 ts e"
  shows "parses_args f ts [e]"
proof (rule parses_argsI)
  fix stk :: "'a frame list" and w ws
  assume a: "top_state stk = 10" "tk w \<in> {16, 20}" "length stk + 2 * length ts + 2 \<le> 9990"
  have "evolves f (stk, ts @ w # ws) ((22, YExpr e, place ts) # stk, w # ws)"
    using parses_exprD [OF assms, of stk w ws] a by auto
  also have "evolves f ((22, YExpr e, place ts) # stk, w # ws) ((23, YArgs [e], place ts) # stk, w # ws)"
    using a by (intro evolves_reduce [where n = 18 and frs = "[(22, YExpr e, place ts)]" and nt = 24])
      (auto simp: YYLLOC_DEFAULT_def yyaction_def frame_simps)
  finally show "\<exists>l. evolves f (stk, ts @ w # ws) ((23, YArgs [e], l) # stk, w # ws)" by blast
qed

lemma parses_more_args:
  assumes "parses_args f ts es" and "tk x = 16" and "parses_expr f True 0 us e"
  shows "parses_args f (ts @ x # us) (es @ [e])"
proof (rule parses_argsI)
  fix stk :: "'a frame list" and w ws
  assume a: "top_state stk = 10" "tk w \<in> {16, 20}" "length stk + 2 * length (ts @ x # us) + 2 \<le> 9990"
  obtain l where l: "evolves f (stk, ts @ x # us @ w # ws) ((23, YArgs es, l) # stk, x # us @ w # ws)"
    using assms(1,2) a unfolding parses_args_def by force
  let ?as = "(23, YArgs es, l)" and ?x = "(32, YStr (lx_lval x), lx_lloc x)" and ?e = "(36, YExpr e, place us)"
  note l
  also have "evolves f (?as # stk, x # us @ w # ws) (?e # ?x # ?as # stk, w # ws)"
    using evolves_bracketed [OF _ _ _ assms(3), of "?as # stk" x 32 w ws] assms(2) a by auto
  also have "evolves f (?e # ?x # ?as # stk, w # ws) ((23, YArgs (es @ [e]), (fst l, snd (place us))) # stk, w # ws)"
    using a by (intro evolves_reduce [where n = 19 and frs = "[?e, ?x, ?as]" and nt = 24])
      (auto simp: YYLLOC_DEFAULT_def yyaction_def frame_simps)
  finally show "\<exists>l. evolves f (stk, (ts @ x # us) @ w # ws) ((23, YArgs (es @ [e]), l) # stk, w # ws)" by auto
qed

lemma parses_call:
  assumes "tk x = 13" and "lx_lval x = Some s" and "f s = Some fn" and "tk y = 19" and "parses_args f ts es" and "tk z = 20"
  shows "parses_expr f b n (x # y # ts @ [z]) (Expr fn s es (fst (place (x # y # ts @ [z]))) (snd (place (x # y # ts @ [z]))))"
proof (rule parses_exprI)
  fix stk :: "'a frame list" and w ws
  assume a: "top_state stk \<in> set bases" "tk w \<in> set follow" "length stk + 2 * length (x # y # ts @ [z]) \<le> 9990"
  note s = starts [OF a(1)] ends [OF a(2)]
  let ?l = "place (x # y # ts @ [z])" and ?g = "after_expr (top_state stk)"
  let ?x = "(3, YStr (lx_lval x), lx_lloc x)" and ?y = "(10, YStr (lx_lval y), lx_lloc y)" and ?z = "(33, YStr (lx_lval z), lx_lloc z)"
  obtain l where args: "evolves f (?y # ?x # stk, ts @ z # w # ws) ((23, YArgs es, l) # ?y # ?x # stk, z # w # ws)"
    using assms(5,6) a unfolding parses_args_def by force
  let ?as = "(23, YArgs es, l)"
  have "evolves f (stk, x # y # ts @ z # w # ws) (?x # stk, y # ts @ z # w # ws)"
    using assms(1) a s(1,2) by (intro evolves_shift) simp_all
  also have "evolves f (?x # stk, y # ts @ z # w # ws) (?y # ?x # stk, ts @ z # w # ws)"
    using assms(4) a by (intro evolves_shift) simp_all
  also note args
  also have "evolves f (?as # ?y # ?x # stk, z # w # ws) (?z # ?as # ?y # ?x # stk, w # ws)"
    using assms(6) a by (intro evolves_shift) simp_all
  also have "evolves f (?z # ?as # ?y # ?x # stk, w # ws) ((?g, YExpr (Expr fn s es (fst ?l) (snd ?l)), ?l) # stk, w # ws)"
    using a s assms(2,3) by (intro evolves_expr [where n = 16 and frs = "[?z, ?as, ?y, ?x]"])
      (simp_all add: frame_simps yyaction_def place_def)
  finally show "evolves f (stk, (x # y # ts @ [z]) @ w # ws) ((?g, YExpr (Expr fn s es (fst ?l) (snd ?l)), ?l) # stk, w # ws)"
    by simp
qed

lemma grammar_parses:
  "gexpr f er b n ts e \<Longrightarrow> \<not> er \<longrightarrow> parses_expr f b n ts e"
  "gargs f er ts' es \<Longrightarrow> \<not> er \<longrightarrow> parses_args f ts' es"
proof (induction rule: gexpr_gargs.inducts)
  case (lit x s l b n)
  then show ?case using parses_lit by metis
next
  case (call x s fn lp ts es rp l b n)
  then show ?case using parses_call by metis
next
  case (paren lp ts e rp l b n)
  then show ?case using parses_paren by metis
next
  case (negation x ts e l b n)
  then show ?case using parses_negation gexpr_nonempty by metis
next
  case (if_then x cs c y ts t z l b n)
  then show ?case using parses_if by metis
next
  case (if_then_else x cs c y ts t w us u z l b n)
  then show ?case using parses_if_else by metis
next
  case (binary x n b ts e us e' l)
  then show ?case using parses_binary gexpr_nonempty by metis
next
  case (sequence ts e x us e' l)
  then show ?case using parses_sequence gexpr_nonempty by metis
next
  case (semicolon ts e x l n)
  then show ?case using parses_semicolon gexpr_nonempty by metis
next
  case (skipped x us e b n ts l)
  then show ?case by simp
qed (simp_all add: parses_no_arg parses_one_arg parses_more_args)

lemma yyparse_complete:
  assumes "gexpr f False True 0 ts e" and "tk eof = 0" and "2 * length ts \<le> 9990"
  shows "\<exists>p. yyparse f g (map Inr (ts @ [eof])) = Some (Inr (0, p)) \<and> error_count p = 0 \<and> root p = Some e"
proof -
  let ?p = "yyinit g (map Inr (ts @ [eof]))"
  have ini: "shows_conf ?p [] (ts @ eof # [])"
    by (simp add: shows_conf_def yyinit_def pends_def quiet_def YYINITDEPTH_def YYMAXDEPTH_def)
  have "evolves f ([], ts @ [eof]) ([(7, YExpr e, place ts)], [eof])"
    using parses_exprD [of f True 0 ts e "[]" eof "[]"] grammar_parses(1) [OF assms(1)] assms(2,3) by simp
  then obtain p1 where p1: "(yygo f)\<^sup>*\<^sup>* ?p p1" "shows_conf p1 [(7, YExpr e, place ts)] [eof]"
    using ini unfolding evolves_def by auto
  obtain q where q: "yystep f p1 = yyperform f (Reduce 2) q" "shows_conf q [(7, YExpr e, place ts)] [eof]"
      "1 < yystacksize q - 1"
    by (rule round [OF p1(2), of "Reduce 2" f]) (use assms(2) in auto)
  let ?q = "q\<lparr>yystack := [(6, YExpr e, place ts)], root := Some e\<rparr>"
  have "yyreduce f 2 q = Inr (Go ?q)"
    using q(2) by (simp add: shows_conf_def yyreduce_def YYLLOC_DEFAULT_def frame_simps yyaction_def yypush_def Let_def)
  then have 1: "yygo f p1 ?q" using q(1) by (simp add: yygo_def yyperform_def)
  have "shows_conf ?q [(6, YExpr e, place ts)] [eof]" using q(2,3) by (auto simp: shows_conf_def pends_def quiet_def)
  then obtain q' where q': "yystep f ?q = yyperform f Accept q'" "shows_conf q' [(6, YExpr e, place ts)] [eof]" "root q' = Some e"
    by (rule round [of ?q _ _ _ Accept f]) (use assms(2) in auto)
  have "yyrun f ?p = yyrun f ?q" using yygo_run [OF p1(1)] yygo_run [of f p1 ?q] 1 by auto
  also have "\<dots> = Some (Inr (0, q'))" using q'(1) by (simp add: yyrun.simps [of f ?q] yyperform_def)
  finally show ?thesis using q'(2,3) by (auto simp: yyparse_def shows_conf_def quiet_def)
qed

end
