(* ===== verification/Edify_Tokens.thy ===== *)
theory Edify_Tokens
  imports Edify_Scan Edify_Complete
begin

text \<open>
  The tokens of a script: the scanner returns, its tokens are what the parser expects, and their places
  are in the script and in order. Together with the parser: every script text is parsed.
\<close>

section \<open>One match\<close>

definition initial_rules :: "int list" where
  "initial_rules = [1, 10, 11, 12, 13, 14, 15, 16, 17, 18, 19, 20, 21, 22]"

lemma initial_lang_19: "initial_lang 19 w \<longleftrightarrow> (\<exists>c\<in>set ''+(),!;''. w = [c])"
  by (simp add: initial_lang_def)

lemma once_initial:
  assumes "yy_start L = 1" and "yy_text L \<noteq> []"
  obtains r n where "initial_rule (yy_text L) = (r, n)" "0 < n" "n \<le> length (yy_text L)" "initial_lang r (take n (yy_text L))"
    "yy_once L = yy_do_action r (take n (yy_text L)) (L\<lparr>yy_text := drop n (yy_text L)\<rparr>)"
proof -
  obtain r n where rn: "initial_rule (yy_text L) = (r, n)" by (cases "initial_rule (yy_text L)")
  moreover have "longest_match initial_lang (yy_text L) r n" by (rule longest_initial [OF assms(2) rn])
  ultimately show ?thesis
    using that [of r n] initial_match [OF assms(2)] assms(1) by (simp add: yy_once_def longest_match_def)
qed

lemma once_string:
  assumes "yy_start L = 3" and "yy_text L \<noteq> []"
  obtains r n where "string_rule (yy_text L) = (r, n)" "0 < n" "n \<le> length (yy_text L)" "string_lang r (take n (yy_text L))"
    "yy_once L = yy_do_action r (take n (yy_text L)) (L\<lparr>yy_text := drop n (yy_text L)\<rparr>)"
proof -
  obtain r n where rn: "string_rule (yy_text L) = (r, n)" by (cases "string_rule (yy_text L)")
  moreover have "longest_match string_lang (yy_text L) r n" by (rule longest_string [OF assms(2) rn])
  ultimately show ?thesis
    using that [of r n] string_match [OF assms(2)] assms(1) by (simp add: yy_once_def longest_match_def)
qed

section \<open>Calls of the scanner\<close>

definition token_list :: "int list" where
  "token_list = [258, 259, 262, 263, 264, 265, 266, 267, 268, 269, 43, 40, 41, 44, 33, 59]"

text \<open>Before a match of the call that began at position \<open>p\<close>, and after the call.\<close>

definition lex_pre :: "nat \<Rightarrow> lexer \<Rightarrow> bool" where
  "lex_pre p L \<longleftrightarrow> yy_start L \<in> {1, 3} \<and> p \<le> gPos L \<and> (yy_start L = 3 \<longrightarrow> p \<le> fst (yylloc L) \<and> fst (yylloc L) \<le> gPos L)"

definition lex_post :: "nat \<Rightarrow> lexer \<Rightarrow> int \<Rightarrow> lexer \<Rightarrow> bool" where
  "lex_post p L t L' \<longleftrightarrow> gPos L' + length (yy_text L') \<le> gPos L + length (yy_text L) \<and> p \<le> gPos L' \<and>
     (if t = 0 then yy_text L' = []
      else length (yy_text L') < length (yy_text L) \<and> yy_start L' = 1 \<and> t \<in> set token_list \<and> (t = 268 \<longrightarrow> yylval L' \<noteq> None) \<and>
        (t \<noteq> 269 \<longrightarrow> p \<le> fst (yylloc L') \<and> fst (yylloc L') \<le> snd (yylloc L') \<and> snd (yylloc L') = gPos L'))"

definition fits_buffer :: "lexer \<Rightarrow> bool" where
  "fits_buffer L \<longleftrightarrow> length (string_buffer L) + length (yy_text L) < MAX_STRING_LEN"

fun once_ok :: "nat \<Rightarrow> lexer \<Rightarrow> scanned res \<Rightarrow> bool" where
  "once_ok p L (Inl e) \<longleftrightarrow> e = OutOfBounds \<and> \<not> fits_buffer L"
| "once_ok p L (Inr (Returns t L')) \<longleftrightarrow> t \<noteq> 0 \<and> lex_post p L t L' \<and> (fits_buffer L \<longrightarrow> fits_buffer L')"
| "once_ok p L (Inr (Scans L')) \<longleftrightarrow> length (yy_text L') < length (yy_text L) \<and> lex_pre p L' \<and>
     gPos L' + length (yy_text L') \<le> gPos L + length (yy_text L) \<and> (fits_buffer L \<longrightarrow> fits_buffer L')"

lemmas lex_defs = yy_do_action_def put_char_def ADVANCE_def moves_def lex_pre_def lex_post_def fits_buffer_def token_list_def Let_def

lemma yy_once_ok:
  assumes "lex_pre p L" and "yy_text L \<noteq> []"
  shows "once_ok p L (yy_once L)"
proof (cases "yy_start L = 1")
  case True
  obtain r n where rn: "0 < n" "n \<le> length (yy_text L)" "initial_lang r (take n (yy_text L))"
    "yy_once L = yy_do_action r (take n (yy_text L)) (L\<lparr>yy_text := drop n (yy_text L)\<rparr>)"
    by (rule once_initial [OF True assms(2)])
  have n: "length (take n (yy_text L)) = n" "length (drop n (yy_text L)) = length (yy_text L) - n" using rn(2) by simp_all
  have r: "r \<in> set initial_rules" using rn(3) by (auto simp: initial_lang_def initial_rules_def)
  have hd: "of_char (hd (take n (yy_text L))) \<in> set [43, 40, 41, 44, 33, 59 :: int]" if r19: "r = 19"
  proof -
    obtain c where "c \<in> set ''+(),!;''" "take n (yy_text L) = [c]" using rn(3) initial_lang_19 unfolding r19 by blast
    then show ?thesis by auto
  qed
  have act: "once_ok p L (yy_do_action r w (L\<lparr>yy_text := ds\<rparr>))"
    if "length w = n" "length (yy_text L) = n + length ds" "r = 19 \<longrightarrow> of_char (hd w) \<in> set [43, 40, 41, 44, 33, 59 :: int]" for w ds
    using r unfolding initial_rules_def set_simps
    by (elim insertE emptyE) (use assms(1) True rn(1) that in \<open>auto simp: lex_defs\<close>)
  show ?thesis unfolding rn(4) by (rule act) (use n rn(2) hd in auto)
next
  case False
  then have s: "yy_start L = 3" using assms(1) by (simp add: lex_pre_def)
  obtain r n where rn: "0 < n" "n \<le> length (yy_text L)" "string_lang r (take n (yy_text L))"
    "yy_once L = yy_do_action r (take n (yy_text L)) (L\<lparr>yy_text := drop n (yy_text L)\<rparr>)"
    by (rule once_string [OF s assms(2)])
  have n: "length (take n (yy_text L)) = n" "length (drop n (yy_text L)) = length (yy_text L) - n" using rn(2) by simp_all
  have r: "r \<in> set [2, 3, 4, 5, 6, 7, 8, 9]" using rn(3) by (auto simp: string_lang_def)
  have act: "once_ok p L (yy_do_action r w (L\<lparr>yy_text := ds\<rparr>))" if "length w = n" "length (yy_text L) = n + length ds" for w ds
    using r unfolding set_simps
    by (elim insertE emptyE) (use assms(1) s rn(1) that in \<open>auto simp: lex_defs\<close>)
  show ?thesis unfolding rn(4) by (rule act) (use n rn(2) in auto)
qed

lemma yylex_ok:
  "lex_pre p L \<Longrightarrow> (case yylex L of Inl e \<Rightarrow> e = OutOfBounds \<and> \<not> fits_buffer L
     | Inr (t, L') \<Rightarrow> lex_post p L t L' \<and> (fits_buffer L \<longrightarrow> fits_buffer L'))"
proof (induction L rule: yylex.induct)
  case (1 L)
  show ?case
  proof (cases "yy_text L = []")
    case True
    then show ?thesis using 1(2) by (simp add: yylex.simps [of L] lex_post_def lex_pre_def)
  next
    case False
    have o: "once_ok p L (yy_once L)" by (rule yy_once_ok [OF 1(2) False])
    show ?thesis
    proof (cases "yy_once L")
      case (Inl e)
      then show ?thesis using o False by (simp add: yylex.simps [of L])
    next
      case (Inr x)
      show ?thesis
      proof (cases x)
        case (Returns t L')
        then show ?thesis using o False Inr by (simp add: yylex.simps [of L])
      next
        case (Scans L')
        then have s: "length (yy_text L') < length (yy_text L)" "lex_pre p L'"
          "gPos L' + length (yy_text L') \<le> gPos L + length (yy_text L)" "fits_buffer L \<longrightarrow> fits_buffer L'" using o Inr by simp_all
        have "yylex L = yylex L'" using False Inr Scans s(1) by (simp add: yylex.simps [of L])
        moreover have "case yylex L' of Inl e \<Rightarrow> e = OutOfBounds \<and> \<not> fits_buffer L'
          | Inr (t, L'') \<Rightarrow> lex_post p L' t L'' \<and> (fits_buffer L' \<longrightarrow> fits_buffer L'')"
          using 1(1) [OF False Inr Scans s(1,2)] .
        ultimately show ?thesis using s(1,3,4) by (auto simp: lex_post_def split: sum.splits prod.splits if_splits)
      qed
    qed
  qed
qed

section \<open>The tokens of a text\<close>

text \<open>The places of tokens from position \<open>p\<close> on; a token that is no token of the language has none.\<close>

fun in_order :: "nat \<Rightarrow> lexeme list \<Rightarrow> bool" where
  "in_order p [] \<longleftrightarrow> True"
| "in_order p (x # xs) \<longleftrightarrow> p \<le> fst (lx_lloc x) \<and> fst (lx_lloc x) \<le> snd (lx_lloc x) \<and> in_order (snd (lx_lloc x)) xs"

definition all_within :: "nat \<Rightarrow> lexeme list \<Rightarrow> bool" where
  "all_within n ts \<longleftrightarrow> list_all (\<lambda>x. snd (lx_lloc x) \<le> n) ts"

lemma token_codes:
  "list_all (\<lambda>t. 0 < t \<and> YYTRANSLATE t \<noteq> 1 \<and> (YYTRANSLATE t = 13 \<longrightarrow> t = 268) \<and> (YYTRANSLATE t = 14 \<longleftrightarrow> t = 269)) token_list"
  by code_simp

lemma token_code:
  assumes "t \<in> set token_list"
  shows "0 < t" "YYTRANSLATE t \<noteq> 1" "YYTRANSLATE t = 13 \<Longrightarrow> t = 268" "YYTRANSLATE t = 14 \<longleftrightarrow> t = 269"
  using assms token_codes unfolding list_all_iff by blast+

definition no_bad :: "lexeme list \<Rightarrow> bool" where
  "no_bad ts \<longleftrightarrow> list_all (\<lambda>x. tk x \<noteq> 14) ts"

text \<open>No call of the scanner overflows \<open>string_buffer\<close>.\<close>

definition scan_ok :: "lexeme res list \<Rightarrow> bool" where
  "scan_ok xs \<longleftrightarrow> list_all (\<lambda>x. case x of Inl e \<Rightarrow> False | Inr _ \<Rightarrow> True) xs"

lemma lexemes_step:
  assumes "yy_start L = 1"
  obtains (fault) "lexemes L = [Inl OutOfBounds]" "\<not> fits_buffer L"
  | (stop) L' where "yylex L = Inr (0, L')" "lexemes L = [Inr (lexeme_of 0 L')]"
  | (token) t L' where "yylex L = Inr (t, L')" "t \<noteq> 0" "lex_post (gPos L) L t L'" "fits_buffer L \<longrightarrow> fits_buffer L'"
      "lexemes L = Inr (lexeme_of t L') # lexemes L'"
proof -
  have pre: "lex_pre (gPos L) L" using assms by (simp add: lex_pre_def)
  show ?thesis
  proof (cases "yylex L")
    case (Inl e)
    then show ?thesis using yylex_ok [OF pre] by (intro fault) (simp_all add: lexemes.simps [of L])
  next
    case (Inr x)
    obtain t L' where x: "x = (t, L')" by (cases x)
    have post: "lex_post (gPos L) L t L'" "fits_buffer L \<longrightarrow> fits_buffer L'" using yylex_ok [OF pre] Inr x by simp_all
    show ?thesis
    proof (cases "t = 0")
      case True
      then show ?thesis using Inr x by (intro stop) (simp_all add: lexemes.simps [of L])
    next
      case False
      moreover have "length (yy_text L') < length (yy_text L)" using post(1) False by (simp add: lex_post_def)
      ultimately show ?thesis using Inr x post by (intro token) (simp_all add: lexemes.simps [of L])
    qed
  qed
qed

lemma short_text_scans: "yy_start L = 1 \<Longrightarrow> fits_buffer L \<Longrightarrow> scan_ok (lexemes L)"
proof (induction L rule: lexemes.induct)
  case (1 L)
  from 1(2) show ?case
  proof (cases rule: lexemes_step)
    case (token t L')
    then show ?thesis using 1(1) [OF token(1) refl] 1(3) by (simp add: scan_ok_def lex_post_def)
  qed (use 1(3) in \<open>simp_all add: scan_ok_def\<close>)
qed

lemma lexemes_ok:
  "yy_start L = 1 \<Longrightarrow> scan_ok (lexemes L) \<Longrightarrow>
   \<exists>ts eof. lexemes L = map Inr (ts @ [eof]) \<and> toks_ok ts eof \<and> length ts \<le> length (yy_text L) \<and>
     (no_bad ts \<longrightarrow> in_order (gPos L) ts \<and> all_within (gPos L + length (yy_text L)) ts)"
proof (induction L rule: lexemes.induct)
  case (1 L)
  from 1(2) show ?case
  proof (cases rule: lexemes_step)
    case fault
    then show ?thesis using 1(3) by (simp add: scan_ok_def)
  next
    case (stop L')
    then show ?thesis
      by (intro exI [of _ "[]"] exI [of _ "lexeme_of 0 L'"]) (simp add: all_within_def toks_ok_def lexeme_of_def)
  next
    case (token t L')
    let ?x = "lexeme_of t L'"
    have p: "length (yy_text L') < length (yy_text L)" "yy_start L' = 1" "t \<in> set token_list" "t = 268 \<longrightarrow> yylval L' \<noteq> None"
      "gPos L' + length (yy_text L') \<le> gPos L + length (yy_text L)"
      "t \<noteq> 269 \<longrightarrow> gPos L \<le> fst (yylloc L') \<and> fst (yylloc L') \<le> snd (yylloc L') \<and> snd (yylloc L') = gPos L'"
      using token(2,3) by (auto simp: lex_post_def)
    have sc: "scan_ok (lexemes L')" using token(5) 1(3) by (simp add: scan_ok_def)
    obtain ts eof where ts: "lexemes L' = map Inr (ts @ [eof])" "toks_ok ts eof" "length ts \<le> length (yy_text L')"
      "no_bad ts \<longrightarrow> in_order (gPos L') ts \<and> all_within (gPos L' + length (yy_text L')) ts"
      using 1(1) [OF token(1) refl _ p(2) sc] token(2) p(1) by auto
    have "lexemes L = map Inr ((?x # ts) @ [eof])" using ts(1) token(5) by simp
    moreover have "toks_ok (?x # ts) eof"
      using ts(2) token_code [OF p(3)] p(4) by (auto simp: toks_ok_def lexeme_of_def tk_def)
    moreover have "in_order (gPos L) (?x # ts) \<and> all_within (gPos L + length (yy_text L)) (?x # ts)" if "no_bad (?x # ts)"
    proof -
      have "t \<noteq> 269" using that token_code(4) [OF p(3)] by (auto simp: no_bad_def lexeme_of_def tk_def)
      moreover have "no_bad ts" using that by (simp add: no_bad_def)
      ultimately show ?thesis using ts(4) p(5,6) by (auto simp: lexeme_of_def all_within_def list_all_iff)
    qed
    ultimately show ?thesis using ts(3) p(1) by (intro exI [of _ "?x # ts"] exI [of _ eof]) simp
  qed
qed

section \<open>The places of an expression\<close>

lemma in_order_append: "in_order p (ts @ us) \<Longrightarrow> in_order p ts \<and> in_order p us"
proof (induction ts arbitrary: p)
  case (Cons x ts)
  have mono: "in_order q us \<Longrightarrow> q' \<le> q \<Longrightarrow> in_order q' us" for q q' us by (cases us) auto
  show ?case using Cons mono [of "snd (lx_lloc x)" us p] by auto
qed simp

lemma in_order_place:
  assumes "in_order p ts" and "ts \<noteq> []" and "all_within n ts"
  shows "fst (place ts) \<le> snd (place ts)" "snd (place ts) \<le> n"
proof -
  have "p \<le> fst (lx_lloc (hd ts)) \<and> fst (lx_lloc (hd ts)) \<le> snd (lx_lloc (last ts))"
    using assms(1,2)
  proof (induction ts arbitrary: p)
    case (Cons x ts)
    then show ?case by (cases ts) (auto intro: order_trans)
  qed simp
  then show "fst (place ts) \<le> snd (place ts)" by (simp add: place_def)
  show "snd (place ts) \<le> n" using assms(2,3) by (simp add: place_def all_within_def list_all_iff)
qed

text \<open>Every node lies in the script.\<close>

fun well_placed :: "nat \<Rightarrow> 'c Expr \<Rightarrow> bool" where
  "well_placed n (Expr fn name xs a b) \<longleftrightarrow> a \<le> b \<and> b \<le> n \<and> list_all (well_placed n) xs"

text \<open>Every node has a function of \<open>F\<close> and the arguments it reads unchecked.\<close>

fun calls_ok :: "(nat \<times> 'c Function) set \<Rightarrow> 'c Expr \<Rightarrow> bool" where
  "calls_ok F (Expr fn name xs a b) \<longleftrightarrow> (\<exists>n \<le> length xs. (n, fn) \<in> F) \<and> list_all (calls_ok F) xs"

lemma well_placed_range: "well_placed (length sc) x \<Longrightarrow> placed sc (ex_start x) (ex_end x)"
  by (cases x) (simp add: placed_def)

lemma script_overI: "calls_ok F x \<Longrightarrow> well_placed (length sc) x \<Longrightarrow> script_over F sc x"
proof (induction F x rule: calls_ok.induct)
  case (1 F fn name xs a b)
  then obtain n where "n \<le> length xs" "(n, fn) \<in> F" by auto
  moreover have "script_over F sc x \<and> placed sc (ex_start x) (ex_end x)" if "x \<in> set xs" for x
    using 1 that by (auto simp: list_all_iff well_placed_range)
  ultimately show ?case by (intro script_over.node)
qed

lemma well_placed_set_place: "well_placed n e \<Longrightarrow> fst l \<le> snd l \<Longrightarrow> snd l \<le> n \<Longrightarrow> well_placed n (set_place l e)"
  by (cases e) simp

lemma all_within_append [simp]: "all_within n (ts @ us) \<longleftrightarrow> all_within n ts \<and> all_within n us"
  "all_within n (x # us) \<longleftrightarrow> snd (lx_lloc x) \<le> n \<and> all_within n us" "all_within n []"
  by (simp_all add: all_within_def)

end
