(* ===== verification/Edify_Script.thy ===== *)
theory Edify_Script
  imports Edify_Tokens
begin

text \<open>
  From the text of a script to its expression: \<open>yy_scan_string\<close> and \<open>yyparse\<close> together. A script that the
  grammar reads gives its expression, and every other one is reported. The expression lies in the script, as
  the functions that cut the text of their arguments out of it expect.
\<close>

section \<open>Scanner and parser\<close>

text \<open>
  The parser calls the scanner for each look-ahead token, so that the globals afterwards are those after as
  many calls as it has read tokens.
\<close>

definition parse_script :: "'c fn_table \<Rightarrow> string \<Rightarrow> lexer \<Rightarrow> (nat \<times> 'c parser \<times> lexer) res" where
  "parse_script table script L =
     (let L1 = yy_scan_string script L; xs = lexemes L1 in
      case yyparse (FindFunction table) (lexeme_of 0 L1) xs of
        None \<Rightarrow> Inl Diverges
      | Some (Inl e) \<Rightarrow> Inl e
      | Some (Inr (r, p)) \<Rightarrow> Inr (r, p, lex_calls (length xs - length (yyinput p)) L1))"

text \<open>The tokens of a script and what the grammar makes of them.\<close>

definition script_tokens :: "string \<Rightarrow> lexeme res list" where
  "script_tokens script = lexemes (yy_scan_string script (lexer_init []))"

definition script_expr :: "'c fn_table \<Rightarrow> string \<Rightarrow> 'c Expr \<Rightarrow> bool" where
  "script_expr table script e \<longleftrightarrow>
     (\<exists>ts eof. script_tokens script = map Inr (ts @ [eof]) \<and> gexpr (FindFunction table) False True 0 ts e)"

section \<open>The places of an expression\<close>

lemma gexpr_no_bad: "gexpr f er b n ts e \<Longrightarrow> er = False \<Longrightarrow> no_bad ts"
  and gargs_no_bad: "gargs f er ts' es \<Longrightarrow> er = False \<Longrightarrow> no_bad ts'"
proof (induction rule: gexpr_gargs.inducts)
  case (binary x n b ts e us e' l)
  then have "tk x \<noteq> 14" by (auto simp: oplevel_def split: if_splits)
  then show ?case using binary by (simp add: no_bad_def)
qed (simp_all add: no_bad_def)

definition spanned :: "nat \<Rightarrow> lexeme list \<Rightarrow> bool" where
  "spanned k ts \<longleftrightarrow> in_order 0 ts \<and> all_within k ts"

lemma spanned_append: "spanned k (ts @ us) \<Longrightarrow> spanned k ts \<and> spanned k us"
  using in_order_append [of 0 ts us] by (simp add: spanned_def)

lemma spanned_Cons: "spanned k (x # us) \<Longrightarrow> spanned k us"
  using spanned_append [of k "[x]" us] by simp

lemma spanned_place: "spanned k ts \<Longrightarrow> ts \<noteq> [] \<Longrightarrow> fst (place ts) \<le> snd (place ts) \<and> snd (place ts) \<le> k"
  using in_order_place [of 0 ts k] by (simp add: spanned_def)

lemmas spanned_dests = spanned_append spanned_Cons

lemma gexpr_placed:
  "gexpr f er b n ts e \<Longrightarrow> er = False \<Longrightarrow> spanned k ts \<Longrightarrow> well_placed k e"
  "gargs f er ts' es \<Longrightarrow> er = False \<Longrightarrow> spanned k ts' \<Longrightarrow> list_all (well_placed k) es"
proof (induction rule: gexpr_gargs.inducts)
  case (lit x s l b n)
  then show ?case using spanned_place [of k "[x]"] by simp
next
  case (call x s fn lp ts es rp l b n)
  then show ?case using spanned_place [of k "x # lp # ts @ [rp]"] by (auto dest!: spanned_dests)
next
  case (paren lp ts e rp l b n)
  then show ?case using spanned_place [of k "lp # ts @ [rp]"] by (auto dest!: spanned_dests intro!: well_placed_set_place)
next
  case (negation x ts e l b n)
  then show ?case using spanned_place [of k "x # ts"] by (auto simp: Build_def dest!: spanned_dests)
next
  case (if_then x cs c y ts t z l b n)
  then show ?case using spanned_place [of k "x # cs @ y # ts @ [z]"] by (auto simp: Build_def dest!: spanned_dests)
next
  case (if_then_else x cs c y ts t w us u z l b n)
  then show ?case using spanned_place [of k "x # cs @ y # ts @ w # us @ [z]"] by (auto simp: Build_def dest!: spanned_dests)
next
  case (binary x n b ts e us e' l)
  then show ?case using spanned_place [of k "ts @ x # us"] by (auto simp: Build_def dest!: spanned_dests)
next
  case (sequence ts e x us e' l)
  then show ?case using spanned_place [of k "ts @ x # us"] by (auto simp: Build_def dest!: spanned_dests)
next
  case (semicolon ts e x l n)
  moreover have "ts \<noteq> []" using gexpr_nonempty semicolon(1) by blast
  ultimately show ?case using spanned_place [of k ts] by (auto dest!: spanned_dests intro!: well_placed_set_place)
qed (auto dest!: spanned_dests)

section \<open>Scripts are parsed\<close>

text \<open>The parser's verdict: it accepts with the expression of the grammar, and otherwise has counted an error.\<close>

definition verdict :: "('c Expr \<Rightarrow> bool) \<Rightarrow> nat \<Rightarrow> 'c parser \<Rightarrow> bool" where
  "verdict G r p \<longleftrightarrow> r \<le> 2 \<and> (\<forall>e. G e \<longleftrightarrow> r = 0 \<and> error_count p = 0 \<and> root p = Some e) \<and> (r = 0 \<longrightarrow> root p \<noteq> None) \<and>
     (r \<noteq> 0 \<longrightarrow> 0 < error_count p)"

lemma parse_tokens:
  assumes "toks_ok ts eof" and "2 * length ts \<le> 9990"
  obtains r p where "yyparse f g (map Inr (ts @ [eof])) = Some (Inr (r, p))" "verdict (gexpr f False True 0 ts) r p"
proof -
  obtain r p where p: "yyparse f g (map Inr (ts @ [eof])) = Some (Inr (r, p))" "final f ts r p"
    using yyrun_ok [OF assms(1) Inv_yyinit [OF assms(1)]] unfolding yyparse_def by blast
  have "tk eof = 0" using assms(1) YYTRANSLATE_0 by (simp add: toks_ok_def tk_def)
  then have c: "r = 0 \<and> error_count p = 0 \<and> root p = Some e" if ge: "gexpr f False True 0 ts e" for e
    using yyparse_complete [OF ge _ assms(2), of eof g] p(1) by auto
  have d: "gexpr f False True 0 ts e" if "r = 0 \<and> error_count p = 0 \<and> root p = Some e" for e
    using p(2) that by (simp add: final_def)
  have "verdict (gexpr f False True 0 ts) r p"
    unfolding verdict_def
  proof (intro conjI allI)
    show "gexpr f False True 0 ts e \<longleftrightarrow> r = 0 \<and> error_count p = 0 \<and> root p = Some e" for e using c d by blast
  qed (use p(2) in \<open>auto simp: final_def split: if_splits\<close>)
  with p(1) show ?thesis by (rule that)
qed

lemma script_tokens_ok:
  assumes "scan_ok (script_tokens script)"
  obtains ts eof where "script_tokens script = map Inr (ts @ [eof])" "toks_ok ts eof" "length ts \<le> length script"
    "no_bad ts \<longrightarrow> spanned (length script) ts"
proof -
  let ?L = "yy_scan_string script (lexer_init [])"
  have L: "yy_start ?L = 1" "gPos ?L = 0" "length (yy_text ?L) \<le> length script"
    by (simp_all add: yy_scan_string_def lexer_init_def length_takeWhile_le)
  obtain ts eof where ts: "lexemes ?L = map Inr (ts @ [eof])" "toks_ok ts eof" "length ts \<le> length (yy_text ?L)"
    "no_bad ts \<longrightarrow> in_order (gPos ?L) ts \<and> all_within (gPos ?L + length (yy_text ?L)) ts"
    using lexemes_ok [OF L(1)] assms unfolding script_tokens_def by blast
  have "all_within (length script) ts" if "all_within (length (yy_text ?L)) ts"
    using that L(3) by (auto simp: all_within_def list_all_iff)
  then show ?thesis using that [of ts eof] ts L by (auto simp: script_tokens_def spanned_def)
qed

lemma parse_script_ok:
  assumes "scan_ok (script_tokens script)" and "length (script_tokens script) \<le> 4996"
  obtains r p L where "parse_script table script (lexer_init []) = Inr (r, p, L)" "verdict (script_expr table script) r p"
proof -
  obtain ts eof where ts: "script_tokens script = map Inr (ts @ [eof])" "toks_ok ts eof"
    by (rule script_tokens_ok [OF assms(1)])
  let ?L = "yy_scan_string script (lexer_init [])"
  have n: "2 * length ts \<le> 9990" using assms(2) ts(1) by simp
  obtain r p where p: "yyparse (FindFunction table) (lexeme_of 0 ?L) (map Inr (ts @ [eof])) = Some (Inr (r, p))"
    "verdict (gexpr (FindFunction table) False True 0 ts) r p"
    by (rule parse_tokens [OF ts(2) n])
  have "script_expr table script = gexpr (FindFunction table) False True 0 ts"
    using ts(1) by (auto simp: script_expr_def fun_eq_iff inj_map_eq_map simp del: map_append)
  then show ?thesis
    using that [of r p] p ts(1) by (simp add: parse_script_def script_tokens_def Let_def del: map_append)
qed

lemma script_expr_placed:
  assumes "script_expr table script e"
  shows "well_placed (length script) e"
proof -
  obtain ts eof where ts: "script_tokens script = map Inr (ts @ [eof])" "gexpr (FindFunction table) False True 0 ts e"
    using assms by (auto simp: script_expr_def)
  then have "scan_ok (script_tokens script)" by (simp add: scan_ok_def list_all_iff)
  then obtain ts' eof' where ts': "script_tokens script = map Inr (ts' @ [eof'])" "no_bad ts' \<longrightarrow> spanned (length script) ts'"
    by (rule script_tokens_ok) blast
  have "ts' = ts" using ts(1) ts'(1) by (simp add: inj_map_eq_map del: map_append)
  then show ?thesis using gexpr_placed(1) [OF ts(2)] gexpr_no_bad [OF ts(2)] ts'(2) by simp
qed

text \<open>The grammar is unambiguous.\<close>

lemma script_expr_unique:
  assumes "script_expr table script e" and "script_expr table script e'" and "length (script_tokens script) \<le> 4996"
  shows "e' = e"
proof -
  have "scan_ok (script_tokens script)" using assms(1) by (auto simp: script_expr_def scan_ok_def list_all_iff)
  from parse_script_ok [OF this assms(3), of table] assms(1,2) show ?thesis unfolding verdict_def by (metis option.inject)
qed

lemma short_script_scans: "length script < MAX_STRING_LEN \<Longrightarrow> scan_ok (script_tokens script)"
  unfolding script_tokens_def
  by (rule short_text_scans)
    (auto simp: yy_scan_string_def lexer_init_def fits_buffer_def intro: le_less_trans [OF length_takeWhile_le])

section \<open>String literals\<close>

definition escape_char :: "char \<Rightarrow> string" where
  "escape_char c =
     (if c = newline then [CHR 0x5C, CHR ''n''] else if c = CHR 0x09 then [CHR 0x5C, CHR ''t'']
      else if c = CHR 0x22 then [CHR 0x5C, CHR 0x22] else if c = CHR 0x5C then [CHR 0x5C, CHR 0x5C]
      else if c = CHR 0x0D then [CHR 0x5C, CHR ''x'', CHR ''0'', CHR ''d''] else [c])"

definition literal_of :: "string \<Rightarrow> string" where
  "literal_of s = CHR 0x22 # concat (map escape_char s) @ [CHR 0x22]"

definition escape_rule :: "char \<Rightarrow> int" where
  "escape_rule c = (if c = newline then 3 else if c = CHR 0x09 then 4 else if c = CHR 0x22 then 5 else if c = CHR 0x5C then 6
     else if c = CHR 0x0D then 7 else 9)"

lemma escape_scanned: "string_rule (escape_char c @ cs) = (escape_rule c, length (escape_char c))"
  by (simp add: escape_char_def escape_rule_def ishex_def newline_def)

lemma escaped_return: "char_of (digits_base 16 0 ''0d'') = CHR 0x0D"
  by code_simp

text \<open>In a literal, \<open>yylex\<close> goes on behind an escaped character with the character stored.\<close>

lemma once_in_string:
  assumes "yy_start L = 3" and "yy_text L = escape_char c @ cs"
  shows "\<exists>L'. yy_once L = put_char c L' \<and> yy_start L' = 3 \<and> yy_text L' = cs \<and> string_buffer L' = string_buffer L"
proof -
  have ne: "yy_text L \<noteq> []" using assms(2) by (simp add: escape_char_def)
  have m: "yy_once L = yy_do_action (escape_rule c) (escape_char c) (L\<lparr>yy_text := cs\<rparr>)"
    using string_match [OF ne] escape_scanned assms by (simp add: yy_once_def)
  consider "c = newline" | "c = CHR 0x09" | "c = CHR 0x22" | "c = CHR 0x5C" | "c = CHR 0x0D"
    | "c \<notin> {newline, CHR 0x09, CHR 0x22, CHR 0x5C, CHR 0x0D}" by blast
  then have "yy_do_action (escape_rule c) (escape_char c) K = put_char c (moves (length (escape_char c)) K)" for K
    by cases (simp_all add: yy_do_action_def escape_rule_def escape_char_def newline_def Let_def escaped_return [simplified])
  with m show ?thesis using assms(1) by (auto simp: moves_def)
qed

lemma scan_string_rest:
  "yy_start L = 3 \<Longrightarrow> yy_text L = concat (map escape_char s) @ CHR 0x22 # cs \<Longrightarrow> length (string_buffer L) \<le> MAX_STRING_LEN \<Longrightarrow>
   (length (string_buffer L) + length s < MAX_STRING_LEN \<longrightarrow>
      (\<exists>L'. yylex L = Inr (268, L') \<and> yylval L' = Some (cstr (string_buffer L @ s)) \<and> yy_text L' = cs \<and> yy_start L' = 1)) \<and>
   (MAX_STRING_LEN \<le> length (string_buffer L) + length s \<longrightarrow> yylex L = Inl OutOfBounds)"
proof (induction s arbitrary: L)
  case Nil
  have "yy_once L = yy_do_action 2 [CHR 0x22] (L\<lparr>yy_text := cs\<rparr>)"
    using Nil string_match [of "yy_text L"] by (simp add: yy_once_def)
  then show ?case
    using Nil by (auto simp: yylex.simps [of L] yy_do_action_def moves_def Let_def)
next
  case (Cons c s)
  have t: "yy_text L = escape_char c @ concat (map escape_char s) @ CHR 0x22 # cs" using Cons.prems(2) by simp
  obtain L' where L': "yy_once L = put_char c L'" "yy_start L' = 3" "yy_text L' = concat (map escape_char s) @ CHR 0x22 # cs"
    "string_buffer L' = string_buffer L"
    using once_in_string [OF Cons.prems(1) t] by blast
  have shrink: "yy_text L \<noteq> []" "length (yy_text L') < length (yy_text L)" using L'(3) t by (auto simp: escape_char_def)
  show ?case
  proof (cases "length (string_buffer L) < MAX_STRING_LEN")
    case True
    let ?L = "L'\<lparr>string_buffer := string_buffer L @ [c]\<rparr>"
    have "yylex L = yylex ?L" using True L' shrink by (simp add: yylex.simps [of L] put_char_def)
    then show ?thesis using Cons.IH [of ?L] L' True by simp
  next
    case False
    then show ?thesis using L' shrink by (simp add: yylex.simps [of L] put_char_def)
  qed
qed

section \<open>A script of one word\<close>

definition demo_token :: "int \<Rightarrow> string option \<Rightarrow> nat \<Rightarrow> lexeme" where
  "demo_token t v a = \<lparr>lx_char = t, lx_lval = v, lx_lloc = (a, a + 1), lx_line = 1, lx_col = a\<rparr>"

lemma demo_a_tokens: "script_tokens ''a'' = map Inr ([demo_token 268 (Some ''a'') 0\<lparr>lx_col := 2\<rparr>] @ [demo_token 0 (Some ''a'') 0\<lparr>lx_col := 2\<rparr>])"
  by code_simp

lemma demo_a: "script_expr table ''a'' (Expr Literal ''a'' [] 0 1)"
  unfolding script_expr_def
proof (intro exI conjI)
  have "tk (demo_token 268 (Some ''a'') 0\<lparr>lx_col := 2\<rparr>) = 13" by code_simp
  from lit [OF this, of "''a''" False "(0, 1)" "FindFunction table" True 0]
  show "gexpr (FindFunction table) False True 0 [demo_token 268 (Some ''a'') 0\<lparr>lx_col := 2\<rparr>] (Expr Literal ''a'' [] 0 1)"
    by (simp add: demo_token_def place_def)
qed (rule demo_a_tokens)

section \<open>Properties\<close>

text \<open>
  C10. The parser implements the grammar. On the tokens of a script, followed by the end of the input, \<open>yyparse\<close>
  returns; it reports success without an error and with the expression \<open>e\<close> exactly if the grammar, with the precedences
  and associativities that are declared, reads the tokens as \<open>e\<close>, and if it fails it has counted an error. The bound
  on the number of tokens keeps the stack below \<open>YYMAXDEPTH\<close>.
\<close>

theorem yyparse_correct:
  assumes "toks_ok ts eof" and "length ts \<le> 4995"
  shows "\<exists>r p. yyparse f g (map Inr (ts @ [eof])) = Some (Inr (r, p)) \<and>
    (\<forall>e. gexpr f False True 0 ts e \<longleftrightarrow> r = 0 \<and> error_count p = 0 \<and> root p = Some e) \<and> (r \<noteq> 0 \<longrightarrow> 0 < error_count p)"
  using parse_tokens [OF assms(1), of f g] assms(2) unfolding verdict_def by fastforce

definition demo_sum :: "lexeme list" where
  "demo_sum = [demo_token 268 (Some ''a'') 0, demo_token 43 None 1, demo_token 268 (Some ''b'') 2]"

lemma demo_sum_ok: "toks_ok demo_sum (demo_token 0 None 3)"
  by code_simp

theorem yyparse_correct_witness:
  "\<exists>r p. yyparse (\<lambda>_. None) (demo_token 0 None 0) (map Inr (demo_sum @ [demo_token 0 None 3])) = Some (Inr (r, p)) \<and>
    (gexpr (\<lambda>_. None) False True 0 demo_sum (Build ConcatFn (0, 3) [lit ''a'' 0, lit ''b'' 2 :: unit Expr]) \<longleftrightarrow>
     r = 0 \<and> error_count p = 0 \<and> root p = Some (Build ConcatFn (0, 3) [lit ''a'' 0, lit ''b'' 2 :: unit Expr]))"
proof -
  have "length demo_sum \<le> 4995" by (simp add: demo_sum_def)
  from yyparse_correct [OF demo_sum_ok this, of "\<lambda>_. None :: unit Function option" "demo_token 0 None 0"] show ?thesis by blast
qed

text \<open>
  C16. The parser returns on every list of tokens, however long or wrong: the error recovery always ends, no table, stack
  or union is read where it has no such value, a result of 0 comes with a root, and every other result with an error.
\<close>

theorem yyparse_total:
  assumes "toks_ok ts eof"
  shows "\<exists>r p. yyparse f g (map Inr (ts @ [eof])) = Some (Inr (r, p)) \<and> r \<le> 2 \<and> (r = 0 \<longrightarrow> root p \<noteq> None) \<and>
    (r \<noteq> 0 \<longrightarrow> 0 < error_count p)"
  using yyrun_ok [OF assms Inv_yyinit [OF assms], of f g] by (auto simp: yyparse_def final_def split: if_splits)

theorem yyparse_total_witness:
  "\<exists>r p. yyparse (\<lambda>_. None :: unit Function option) (demo_token 0 None 0) (map Inr (demo_sum @ [demo_token 0 None 3])) =
     Some (Inr (r, p)) \<and> r \<le> 2"
  using yyparse_total [OF demo_sum_ok, of "\<lambda>_. None" "demo_token 0 None 0"] by blast


definition demo_script :: string where
  "demo_script = ''if ab == a + b then c; d endif''"

lemma demo_script_tokens: "length (script_tokens demo_script) = 12"
  by code_simp


text \<open>
  C15. The scanner takes the longest match. On a text that is not empty, the loop over the compressed tables of the scanner finds
  the rule and the length of the longest prefix that a pattern of the start condition matches, and the first
  such rule if there are several.
\<close>

theorem scanner_longest_match:
  assumes "cs \<noteq> []"
  shows "(\<exists>r n. yy_match 1 cs 0 None = Inr (r, n) \<and> longest_match initial_lang cs r n) \<and>
    (\<exists>r n. yy_match 3 cs 0 None = Inr (r, n) \<and> longest_match string_lang cs r n)"
  using initial_match [OF assms] string_match [OF assms] longest_initial [OF assms] longest_string [OF assms] by (metis surj_pair)

theorem scanner_longest_match_witness:
  "\<exists>r n. yy_match 1 ''iff'' 0 None = Inr (r, n) \<and> longest_match initial_lang ''iff'' r n"
  using scanner_longest_match [of "''iff''"] by blast

text \<open>
  C35. The report of a syntax error fits into the 128 bytes of \<open>yymsgbuf\<close>: in every state and for every look-ahead token,
  the size that \<open>yysyntax_error\<close> computes is at most 128, and the text with its terminator has that size at most.
\<close>

theorem syntax_error_fits:
  assumes "s \<in> set states"
  shows "\<exists>k msg. yysyntax_error s c = Inr (k, msg) \<and> k \<le> 128 \<and> (0 < k \<longrightarrow> length msg < k)"
  using assms by (rule report_fits)

theorem syntax_error_fits_witness: "\<exists>k msg. yysyntax_error 0 41 = Inr (k, msg) \<and> k \<le> 128"
  using syntax_error_fits [of 0 41] by (auto simp: states_def)

text \<open>
  C17. Any string can be written as a literal, and literals are bounded. The scanner reads the literal of a string
  without a terminator back as the string, if it is shorter than \<open>string_buffer\<close>; any longer string overflows the buffer.
\<close>

theorem literal_round_trip:
  assumes "yy_start L = 1" and "yy_text L = literal_of s @ cs" and "nul \<notin> set s"
  shows "if length s < MAX_STRING_LEN
    then \<exists>L'. yylex L = Inr (268, L') \<and> yylval L' = Some s \<and> yy_text L' = cs \<and> yy_start L' = 1
    else yylex L = Inl OutOfBounds"
proof -
  let ?L = "moves 1 (L\<lparr>yy_text := concat (map escape_char s) @ CHR 0x22 # cs, yy_start := 3, string_buffer := [], yylloc := (gPos L, snd (yylloc L))\<rparr>)"
  have "yy_match 1 (yy_text L) 0 None = Inr (1, 1)"
    using initial_match [of "yy_text L"] assms(2) by (simp add: literal_of_def isword_def isblank_def newline_def)
  then have "yy_once L = Inr (Scans ?L)"
    using assms(1,2) by (simp add: yy_once_def yy_do_action_def literal_of_def moves_def Let_def)
  then have "yylex L = yylex ?L" using assms(2) by (simp add: yylex.simps [of L] literal_of_def moves_def)
  moreover have "cstr s = s" using assms(3) by (auto simp: cstr_def takeWhile_eq_all_conv)
  ultimately show ?thesis using scan_string_rest [of ?L s cs] by (simp add: moves_def MAX_STRING_LEN_def not_less)
qed

theorem literal_round_trip_witness:
  "\<exists>L'. yylex (lexer_init (literal_of [newline, CHR 0x22, CHR ''a''])) = Inr (268, L') \<and> yylval L' = Some [newline, CHR 0x22, CHR ''a'']"
  using literal_round_trip [of "lexer_init (literal_of [newline, CHR 0x22, CHR ''a''])" "[newline, CHR 0x22, CHR ''a'']" "[]"]
  by (auto simp: lexer_init_def MAX_STRING_LEN_def nul_def newline_def)

end
