(* ===== verification/Edify_Install.thy ===== *)
theory Edify_Install
  imports Edify_Script
begin

text \<open>
  The functions the ad-hoc network scripts use, \<^verbatim>\<open>src/jni/adhoc-edify/install.c\<close>, and the program
  that runs a script, \<^verbatim>\<open>src/jni/adhoc-edify/adhoc.c\<close>. The cookie of the interpreter is the
  \<open>world\<close>: the files, properties and processes the functions look at, what the system answers to
  a call, and what has been done so far.
\<close>

section \<open>The world\<close>

datatype syscall =
    InitModule string int string   \<comment> \<open>image, length, options\<close>
  | DeleteModule string
  | Kill int int                   \<comment> \<open>process id, signal\<close>
  | System string

datatype wifi_op = LoadDriver | UnloadDriver

record world =
  w_files :: "string \<rightharpoonup> string"                  \<comment> \<open>what can be opened for reading\<close>
  w_locked :: "string \<Rightarrow> bool"                    \<comment> \<open>what cannot be written or unlinked\<close>
  w_short :: "string \<Rightarrow> nat option"              \<comment> \<open>a \<open>read\<close> that delivers fewer bytes than asked for\<close>
  w_props :: "string \<rightharpoonup> string"
  w_proc :: "string list option"                  \<comment> \<open>the entries of \<open>/proc\<close>\<close>
  w_kill :: "int \<Rightarrow> int \<Rightarrow> int"
  w_init_module :: "string \<Rightarrow> int \<Rightarrow> string \<Rightarrow> int"  \<comment> \<open>the resulting \<open>errno\<close>\<close>
  w_delete_module :: "string \<Rightarrow> int"
  w_system :: "string \<Rightarrow> int"
  w_driver :: "wifi_op \<Rightarrow> int option"            \<comment> \<open>\<open>None\<close>: the symbol is not found\<close>
  w_errno :: string                               \<comment> \<open>\<open>strerror(errno)\<close>\<close>
  w_frac :: "string \<Rightarrow> string"                   \<comment> \<open>\<open>%f\<close> of \<open>strtod\<close>\<close>
  w_date :: string
  w_action :: string
  w_pipe :: string                                \<comment> \<open>written to \<open>cmd_pipe\<close>\<close>
  w_log :: string                                 \<comment> \<open>written to \<open>log_fd\<close>\<close>
  w_calls :: "syscall list"

definition upd :: "(world \<Rightarrow> world) \<Rightarrow> world State \<Rightarrow> world State" where
  "upd f s = s\<lparr>st_cookie := f (st_cookie s)\<rparr>"

definition call :: "syscall \<Rightarrow> world \<Rightarrow> world" where
  "call c w = w\<lparr>w_calls := w_calls w @ [c]\<rparr>"

definition to_pipe :: "string \<Rightarrow> world \<Rightarrow> world" where
  "to_pipe t w = w\<lparr>w_pipe := w_pipe w @ t\<rparr>"

definition READ_BUF_SIZE :: nat where "READ_BUF_SIZE = 50"

definition arg_error :: "string \<Rightarrow> nat \<Rightarrow> string \<Rightarrow> nat \<Rightarrow> string" where
  "arg_error name n unit argc =
     name @ ''() expects '' @ show_nat n @ '' '' @ unit @ '', got '' @ show_nat argc"

section \<open>Kernel modules\<close>

text \<open>
  \<open>read_file\<close>: the buffer and the size, if the caller is told one; \<open>None\<close> for a null pointer. When
  \<open>read\<close> delivers less than the file's size, the buffer is returned and the size is not set.
\<close>

definition read_file :: "string \<Rightarrow> world \<Rightarrow> (string \<times> nat option) option" where
  "read_file filename w =
     (case w_files w filename of
        None \<Rightarrow> None
      | Some c \<Rightarrow>
          Some (c, case w_short w filename of
                     Some n \<Rightarrow> if n \<noteq> length c then None else Some (length c)
                   | None \<Rightarrow> Some (length c)))"

definition InsModuleFn :: "world Function" where
  "InsModuleFn name argv =
     (if length argv \<noteq> 2 then ErrorAbort (arg_error name 2 ''args'' (length argv))
      else with_args (ReadArgs 2 argv) (\<lambda>vs s.
        let module_name = vs ! 0; options = vs ! 1 in
        case read_file module_name (st_cookie s) of
          None \<Rightarrow> ret '''' s
        | Some (img, sz) \<Rightarrow>
            let len = (case sz of None \<Rightarrow> 2147483647 - 4095 | Some n \<Rightarrow> int n);
                rc = w_init_module (st_cookie s) img len options
            in ret (truth (rc = 0)) (upd (call (InitModule img len options)) s)))"

definition RmModuleFn :: "world Function" where
  "RmModuleFn name argv =
     (if length argv \<noteq> 1 then ErrorAbort (arg_error name 1 ''arg'' (length argv))
      else with_args (ReadArgs 1 argv) (\<lambda>vs s.
        ret (truth (w_delete_module (st_cookie s) (vs ! 0) = 0)) (upd (call (DeleteModule (vs ! 0))) s)))"

text \<open>
  The loop over \<open>/proc/modules\<close>: \<open>mname\<close> keeps its value when a piece of a line has no word, and
  is uninitialised at first.
\<close>

fun modules_loop :: "string \<Rightarrow> string list \<Rightarrow> string option \<Rightarrow> bool \<Rightarrow> bool res" where
  "modules_loop module_name [] mname found = Inr found"
| "modules_loop module_name (b # bs) mname found =
     (let mname' = (if first_word b = [] then mname else Some (first_word b)) in
      case mname' of
        None \<Rightarrow> Inl Uninitialised
      | Some m \<Rightarrow> modules_loop module_name bs mname' (found \<or> strstr m module_name))"

definition ModuleLoadedFn :: "world Function" where
  "ModuleLoadedFn name argv =
     (if length argv \<noteq> 1 then ErrorAbort (arg_error name 1 ''arg'' (length argv))
      else with_args (ReadArgs 1 argv) (\<lambda>vs s.
        case w_files (st_cookie s) ''/proc/modules'' of
          None \<Rightarrow> ret '''' (emit (Stderr (''Can't open /proc/modules for read '' @ [newline])) s)
        | Some c \<Rightarrow>
            rbind (modules_loop (vs ! 0) (fgets_all READ_BUF_SIZE c) None False) (\<lambda>found.
              ret (truth found) s)))"

section \<open>Processes\<close>

definition kill_process :: "int \<Rightarrow> int \<Rightarrow> world State \<Rightarrow> int \<times> world State" where
  "kill_process pid sig s = (w_kill (st_cookie s) pid sig, upd (call (Kill pid sig)) s)"

definition kill_processes_by_pidfile :: "int \<Rightarrow> string \<Rightarrow> world State \<Rightarrow> int \<times> world State" where
  "kill_processes_by_pidfile parameter pidfile s =
     (case w_files (st_cookie s) pidfile of
        None \<Rightarrow> (-1, s)
      | Some c \<Rightarrow>
          if c = [] then (-1, s)
          else let buffer = fgets (READ_BUF_SIZE - 1) c;
                   (sig, s1) = kill_process (strtol0 buffer) parameter s
               in if sig \<noteq> 0
                  then (-1, emit (Stderr (''Unable to kill process ('' @ buffer @ '')'' @ [newline])) s1)
                  else (0, s1))"

text \<open>The loop over the entries of \<open>/proc\<close>; \<open>filename\<close> has \<open>READ_BUF_SIZE\<close> characters.\<close>

fun proc_loop :: "int \<Rightarrow> string \<Rightarrow> string list \<Rightarrow> int \<Rightarrow> world State \<Rightarrow> (int \<times> world State) res" where
  "proc_loop parameter processName [] returncode s = Inr (returncode, s)"
| "proc_loop parameter processName (d_name # ds) returncode s =
     (if strcmp d_name ''..'' = 0 then proc_loop parameter processName ds returncode s
      else
        let filename = ''/proc/'' @ d_name @ ''/status'' in
        if READ_BUF_SIZE < length filename + 1 then Inl OutOfBounds
        else case w_files (st_cookie s) filename of
          None \<Rightarrow> proc_loop parameter processName ds returncode s
        | Some c \<Rightarrow>
            if c = [] then proc_loop parameter processName ds returncode s
            else
              let buffer = fgets (READ_BUF_SIZE - 1) c; name = first_word (after_word buffer) in
              if name = [] then Inl Uninitialised
              else if strstr name processName
              then let (sig, s1) = kill_process (strtol0 d_name) parameter s in
                   if sig \<noteq> 0
                   then proc_loop parameter processName ds (-1)
                          (emit (Stderr (''Unable to kill process '' @ name @ '' ('' @ d_name @ '')'' @ [newline])) s1)
                   else proc_loop parameter processName ds returncode s1
              else proc_loop parameter processName ds returncode s)"

definition kill_processes_by_name :: "int \<Rightarrow> string \<Rightarrow> world State \<Rightarrow> (int \<times> world State) res" where
  "kill_processes_by_name parameter processName s =
     (case w_proc (st_cookie s) of
        None \<Rightarrow> Inl NullDeref
      | Some ds \<Rightarrow> proc_loop parameter processName ds 0 s)"

definition KillProcessFn :: "world Function" where
  "KillProcessFn name argv =
     (if length argv \<noteq> 1 then ErrorAbort (arg_error name 1 ''arg'' (length argv))
      else with_args (ReadArgs 1 argv) (\<lambda>vs s.
        rbind (kill_processes_by_name 2 (vs ! 0) s) (\<lambda>(_, s1).
        rbind (kill_processes_by_name 9 (vs ! 0) s1) (\<lambda>(_, s2). ret ''t'' s2))))"

definition KillProcessByPIDFn :: "world Function" where
  "KillProcessByPIDFn name argv =
     (if length argv \<noteq> 1 then ErrorAbort (arg_error name 1 ''arg'' (length argv))
      else with_args (ReadArgs 1 argv) (\<lambda>vs s.
        ret ''t'' (snd (kill_processes_by_pidfile 9 (vs ! 0) (snd (kill_processes_by_pidfile 2 (vs ! 0) s))))))"

section \<open>Files\<close>

definition file_exists :: "string \<Rightarrow> world \<Rightarrow> int" where
  "file_exists filename w = (if w_files w filename = None then -1 else 0)"

definition FileExistsFn :: "world Function" where
  "FileExistsFn name argv =
     (if length argv \<noteq> 1 then ErrorAbort (arg_error name 1 ''arg'' (length argv))
      else with_args (ReadArgs 1 argv) (\<lambda>vs s.
        if file_exists (vs ! 0) (st_cookie s) = -1 then ret '''' s else ret ''t'' s))"

definition UnlinkFileFn :: "world Function" where
  "UnlinkFileFn name argv =
     (if length argv \<noteq> 1 then ErrorAbort (arg_error name 1 ''arg'' (length argv))
      else with_args (ReadArgs 1 argv) (\<lambda>vs s.
        if w_files (st_cookie s) (vs ! 0) = None \<or> w_locked (st_cookie s) (vs ! 0) then ret '''' s
        else ret ''t'' (upd (\<lambda>w. w\<lparr>w_files := (w_files w)(vs ! 0 := None)\<rparr>) s)))"

text \<open>\<open>fopen(..., "w")\<close> truncates; \<open>fwrite\<close> of an object of size 0 returns 0.\<close>

definition WriteFileFn :: "world Function" where
  "WriteFileFn name argv =
     (if length argv \<noteq> 2 then ErrorAbort (arg_error name 2 ''args'' (length argv))
      else with_args (ReadArgs 2 argv) (\<lambda>vs s.
        let filename = vs ! 0; line = vs ! 1 in
        if w_locked (st_cookie s) filename
        then ret '''' (emit (Stderr (''Can't open '' @ filename @ '' for write '' @ [newline])) s)
        else ret (truth (line \<noteq> [])) (upd (\<lambda>w. w\<lparr>w_files := (w_files w)(filename \<mapsto> line)\<rparr>) s)))"

definition mac_command :: "string \<Rightarrow> string" where
  "mac_command mac =
     ''/data/data/org.servalproject/bin/iptables -t nat -I PREROUTING -m mac --mac-source '' @ mac @
     '' -j ACCEPT''"

text \<open>The loop over the MAC addresses; \<open>command\<close> has 100 characters.\<close>

fun macs_loop :: "string list \<Rightarrow> int \<Rightarrow> world State \<Rightarrow> (int \<times> world State) res" where
  "macs_loop [] returncode s = Inr (returncode, s)"
| "macs_loop (b # bs) returncode s =
     (if returncode \<noteq> 0 then Inr (returncode, s)
      else
        let buffer = (if first_word b = [] then b else first_word b); command = mac_command buffer in
        if 100 < length command + 1 then Inl OutOfBounds
        else macs_loop bs (w_system (st_cookie s) command) (upd (call (System command)) s))"

definition WhiteListMacsFn :: "world Function" where
  "WhiteListMacsFn name argv =
     (if length argv \<noteq> 1 then ErrorAbort (arg_error name 1 ''arg'' (length argv))
      else with_args (ReadArgs 1 argv) (\<lambda>vs s.
        if file_exists (vs ! 0) (st_cookie s) = 0
        then case w_files (st_cookie s) (vs ! 0) of
               None \<Rightarrow> ret '''' (emit (Stderr (''Can't open '' @ (vs ! 0) @ '' for read '' @ [newline])) s)
             | Some c \<Rightarrow> rbind (macs_loop (fgets_all 20 c) 0 s) (\<lambda>(rc, s1). ret (truth (rc = 0)) s1)
        else ret (truth True) s))"

section \<open>Progress and properties\<close>

definition ShowProgressFn :: "world Function" where
  "ShowProgressFn name argv =
     (if length argv \<noteq> 2 then ErrorAbort (arg_error name 2 ''args'' (length argv))
      else with_args (ReadArgs 2 argv) (\<lambda>vs s.
        ret (vs ! 0) (upd (\<lambda>w. to_pipe (''progress '' @ w_frac w (vs ! 0) @ '' '' @
                                show_int (fst (strtol10 (vs ! 1))) @ [newline]) w) s)))"

definition SetProgressFn :: "world Function" where
  "SetProgressFn name argv =
     (if length argv \<noteq> 1 then ErrorAbort (arg_error name 1 ''arg'' (length argv))
      else with_args (ReadArgs 1 argv) (\<lambda>vs s.
        ret (vs ! 0) (upd (\<lambda>w. to_pipe (''set_progress '' @ w_frac w (vs ! 0) @ [newline]) w) s)))"

definition PROPERTY_VALUE_MAX :: nat where "PROPERTY_VALUE_MAX = 92"

text \<open>\<open>property_get\<close> gives at most \<open>PROPERTY_VALUE_MAX - 1\<close> characters.\<close>

definition property_get :: "string \<Rightarrow> world \<Rightarrow> string" where
  "property_get key w = take (PROPERTY_VALUE_MAX - 1) (case w_props w key of None \<Rightarrow> '''' | Some v \<Rightarrow> v)"

definition property_set :: "string \<Rightarrow> string \<Rightarrow> world \<Rightarrow> world" where
  "property_set key v w = w\<lparr>w_props := (w_props w)(key \<mapsto> v)\<rparr>"

definition GetPropFn :: "world Function" where
  "GetPropFn name argv =
     (if length argv \<noteq> 1 then ErrorAbort (arg_error name 1 ''arg'' (length argv))
      else ebind (eval_at argv 0) (\<lambda>key s. ret (property_get key (st_cookie s)) s))"

text \<open>Both arguments are evaluated, also when the first has given null.\<close>

definition SetPropFn :: "world Function" where
  "SetPropFn name argv =
     (if length argv \<noteq> 2 then ErrorAbort (arg_error name 2 ''arg'' (length argv))
      else (\<lambda>s. rbind (eval_at argv 0 s) (\<lambda>(key, s1). rbind (eval_at argv 1 s1) (\<lambda>(val, s2).
        case (key, val) of
          (Some k, Some v) \<Rightarrow> ret '''' (upd (property_set k v) s2)
        | _ \<Rightarrow> Inr (None, s2)))))"

section \<open>The configuration file\<close>

definition conf_name :: string where
  "conf_name = ''/data/data/org.servalproject/conf/adhoc.conf''"

definition MAX_FILE_GETPROP_SIZE :: nat where "MAX_FILE_GETPROP_SIZE = 65536"

datatype cfg_result = Skip | Malformed string | Found string

text \<open>One line of the file: blank lines, comments and other keys are skipped.\<close>

definition cfg_line :: "string \<Rightarrow> string \<Rightarrow> cfg_result" where
  "cfg_line key l =
     (let line = dropWhile isspace l in
      if line = [] \<or> hd line = CHR ''#'' then Skip
      else if CHR ''='' \<notin> set line then Malformed line
      else if strcmp key (rtrim (takeWhile (\<lambda>c. c \<noteq> CHR ''='') line)) \<noteq> 0 then Skip
      else Found (rtrim (dropWhile isspace (tl (dropWhile (\<lambda>c. c \<noteq> CHR ''='') line)))))"

fun cfg_loop :: "string \<Rightarrow> string list \<Rightarrow> cfg_result" where
  "cfg_loop key [] = Skip"
| "cfg_loop key (l # ls) = (case cfg_line key l of Skip \<Rightarrow> cfg_loop key ls | r \<Rightarrow> r)"

text \<open>
  \<open>getcfg(key)\<close>. The do-while loop looks at the first token before it tests it, so that a file
  without any line is read through a null pointer.
\<close>

definition GetCfgFn :: "world Function" where
  "GetCfgFn name argv =
     with_args (ReadArgs 1 argv) (\<lambda>vs s.
       let w = st_cookie s in
       case w_files w conf_name of
         None \<Rightarrow> ErrorAbort (name @ '': failed to stat '' @ [CHR 0x22] @ conf_name @ [CHR 0x22] @ '': '' @ w_errno w) s
       | Some c \<Rightarrow>
           if MAX_FILE_GETPROP_SIZE < length c
           then ErrorAbort (conf_name @ '' too large for '' @ name @ '' (max '' @
                  show_nat MAX_FILE_GETPROP_SIZE @ '')'') s
           else if w_short w conf_name \<noteq> None
           then ErrorAbort (name @ '': failed to read '' @ show_nat (length c + 1) @ '' bytes from '' @ conf_name) s
           else
             let ls = strtok_all newline (takeWhile (\<lambda>c. c \<noteq> nul) c) in
             if ls = [] then Inl NullDeref
             else (case cfg_loop (vs ! 0) ls of
                    Skip \<Rightarrow> ret '''' s
                  | Found v \<Rightarrow> ret v s
                  | Malformed l \<Rightarrow>
                      ErrorAbort (name @ '': malformed line '' @ [CHR 0x22] @ l @ [CHR 0x22] @ '': '' @
                        conf_name @ '' not a prop file?'') s))"

section \<open>Messages and programs\<close>

definition ui_lines :: "string \<Rightarrow> string" where
  "ui_lines t = concat (map (\<lambda>l. ''ui_print '' @ l @ [newline]) (strtok_all newline t)) @
     ''ui_print'' @ [newline]"

text \<open>
  \<open>strtok\<close> has put a NUL behind the first line of the buffer that is returned.
\<close>

definition UIPrintFn :: "world Function" where
  "UIPrintFn name argv =
     with_args (ReadVarArgs argv) (\<lambda>vs s.
       let buffer = concat vs;
           rest = dropWhile (\<lambda>c. c = newline) buffer
       in ret (takeWhile (\<lambda>c. c = newline) buffer @ takeWhile (\<lambda>c. c \<noteq> newline) rest)
            (upd (to_pipe (ui_lines buffer)) s))"

definition GetActionFn :: "world Function" where
  "GetActionFn name argv s = ret (w_action (st_cookie s)) s"

definition quoted :: "string \<Rightarrow> string" where
  "quoted t = [CHR 0x22] @ t @ [CHR 0x22]"

definition log_line :: "string \<Rightarrow> string \<Rightarrow> string \<Rightarrow> string" where
  "log_line date message outcome =
     ''<div class='' @ quoted ''date'' @ ''>'' @ date @ ''</div><div class='' @ quoted ''action'' @ ''>'' @
     message @ ''...</div><div class='' @ quoted ''output'' @ ''></div><div class='' @ quoted outcome @
     ''>'' @ outcome @ ''</div><hr>''"

definition write_log :: "string \<Rightarrow> string \<Rightarrow> world State \<Rightarrow> world State" where
  "write_log status message s =
     upd (\<lambda>w. if strcmp status ''t'' = 0
               then w\<lparr>w_log := w_log w @ log_line (w_date w) message ''done''\<rparr>
               else (property_set ''tether.status'' ''failed'' w)
                      \<lparr>w_log := w_log w @ log_line (w_date w) message ''failed''\<rparr>) s"

definition LogFn :: "world Function" where
  "LogFn name argv =
     (if length argv \<noteq> 1 \<and> length argv \<noteq> 2 then ErrorAbort (name @ ''() expects 1 or 2 args'')
      else if length argv = 1
      then with_args (ReadArgs 1 argv) (\<lambda>vs s. ret '''' (write_log ''t'' (vs ! 0) s))
      else with_args (ReadArgs 2 argv) (\<lambda>vs s. ret '''' (write_log (vs ! 0) (vs ! 1) s)))"

text \<open>\<open>WEXITSTATUS\<close> of a wait status.\<close>

definition WEXITSTATUS :: "int \<Rightarrow> int" where
  "WEXITSTATUS status = drop_bit 8 status AND 0xFF"

definition RunProgramFn :: "world Function" where
  "RunProgramFn name argv =
     (if length argv \<noteq> 1 then ErrorAbort (name @ ''() expects 1 arg'')
      else with_args (ReadArgs 1 argv) (\<lambda>vs s.
        let cmd = vs ! 0;
            s1 = emit (Stderr (''about to run: ['' @ cmd @ '']'' @ [newline])) s;
            st = w_system (st_cookie s) cmd;
            status = (if st \<noteq> -1 then WEXITSTATUS st else st)
        in ret (truth (status = 0)) (upd (call (System cmd)) s1)))"

definition wifi_driver :: "wifi_op \<Rightarrow> string \<Rightarrow> world Function" where
  "wifi_driver op verb name argv =
     (if length argv \<noteq> 0 then ErrorAbort (arg_error name 0 ''arg'' (length argv))
      else (\<lambda>s. case w_driver (st_cookie s) op of
             None \<Rightarrow> ErrorAbort ''libhardware_legacy is not available.'' s
           | Some r \<Rightarrow>
               if r \<noteq> 0
               then ErrorAbort (''Unable to '' @ verb @ '' wifi-driver: '' @ w_errno (st_cookie s)) s
               else ret ''t'' s))"

definition LoadWifiFn :: "world Function" where
  "LoadWifiFn = wifi_driver LoadDriver ''load''"

definition UnloadWifiFn :: "world Function" where
  "UnloadWifiFn = wifi_driver UnloadDriver ''unload''"

definition install_functions :: "(string \<times> world Function) list" where
  "install_functions =
    [(''insmod'', InsModuleFn), (''rmmod'', RmModuleFn), (''module_loaded'', ModuleLoadedFn),
     (''kill_process'', KillProcessFn), (''kill_pidfile'', KillProcessByPIDFn),
     (''file_exists'', FileExistsFn), (''file_write'', WriteFileFn), (''file_unlink'', UnlinkFileFn),
     (''load_wifi'', LoadWifiFn), (''unload_wifi'', UnloadWifiFn), (''log'', LogFn),
     (''whitelist_macs'', WhiteListMacsFn), (''show_progress'', ShowProgressFn),
     (''set_progress'', SetProgressFn), (''getprop'', GetPropFn), (''setprop'', SetPropFn),
     (''getcfg'', GetCfgFn), (''action'', GetActionFn), (''ui_print'', UIPrintFn),
     (''run_program'', RunProgramFn)]"

definition RegisterInstallFunctions :: "world fn_table \<Rightarrow> world fn_table" where
  "RegisterInstallFunctions = register_all install_functions"

section \<open>Running a script\<close>

definition SCRIPT_NAME :: string where
  "SCRIPT_NAME = ''/data/data/org.servalproject/conf/adhoc.edify''"

text \<open>The table \<open>main\<close> sets up before it parses.\<close>

definition adhoc_table :: "world fn_table" where
  "adhoc_table = FinishRegistration (RegisterInstallFunctions (RegisterBuiltins empty_table))"

text \<open>\<open>main\<close> of \<open>adhoc.c\<close>. The result is the exit status and the final state.\<close>

definition adhoc_main :: "string list \<Rightarrow> world \<Rightarrow> (int \<times> world State) res" where
  "adhoc_main argv w =
     (let s0 = \<lparr>st_cookie = w, st_script = '''', st_errmsg = None, st_out = []\<rparr> in
      if length argv < 3 then Inl NullDeref
      else case w_files w SCRIPT_NAME of
        None \<Rightarrow> Inr (1, emit (Stderr (''Could not stat '' @ SCRIPT_NAME @ '': '' @ w_errno w)) s0)
      | Some script \<Rightarrow>
          if 128000 < length script
          then Inr (1, emit (Stderr (SCRIPT_NAME @ '' too large (max 128k)'')) s0)
          else if w_short w SCRIPT_NAME \<noteq> None
          then Inr (1, emit (Stderr (''Failed to read '' @ show_nat (length script + 1) @ '' bytes from '' @
                 SCRIPT_NAME)) s0)
          else
            rbind (parse_script adhoc_table script (lexer_init [])) (\<lambda>(error, p, L).
            if error \<noteq> 0 \<or> error_count p > 0
            then Inr (6, emit (Stderr (show_nat (error_count p) @ '' parse errors'' @ [newline]))
                   (s0\<lparr>st_out := map Stdout (yyprinted p)\<rparr>))
            else case root p of
              None \<Rightarrow> Inl Uninitialised
            | Some e \<Rightarrow>
              let state = \<lparr>st_cookie = w\<lparr>w_action := argv ! 1\<rparr>, st_script = script, st_errmsg = None,
                st_out = map Stdout (yyprinted p)\<rparr> in
              rbind (Evaluate e state) (\<lambda>(result, s).
                case result of
                  None \<Rightarrow>
                    (case st_errmsg s of
                       None \<Rightarrow>
                         Inr (7, upd (to_pipe (''ui_print script aborted (no error message)'' @ [newline]))
                                (emit (Stderr (''script aborted (no error message)'' @ [newline])) s))
                     | Some m \<Rightarrow>
                         Inr (7, upd (to_pipe (ui_lines m))
                                (emit (Stderr (''script aborted: '' @ m @ [newline])) s)))
                | Some r \<Rightarrow> Inr (0, emit (Stderr (''script result was ['' @ r @ '']'' @ [newline])) s))))"

section \<open>The functions keep the contract\<close>

definition any_world :: "world \<Rightarrow> bool" where
  "any_world w \<longleftrightarrow> True"

text \<open>What a function does once it has its strings: it returns one, and no message changes.\<close>

definition keeps :: "world action \<Rightarrow> bool" where
  "keeps a \<longleftrightarrow> (\<forall>s. \<exists>r s'. a s = Inr (Some r, s') \<and> st_script s' = st_script s \<and> st_errmsg s' = st_errmsg s)"

lemma good_keeps:
  assumes "keeps a"
  shows "good any_world sc a"
proof (rule goodI)
  fix s :: "world State"
  assume "st_script s = sc"
  moreover obtain r s' where "a s = Inr (Some r, s')" "st_script s' = st_script s" "st_errmsg s' = st_errmsg s"
    using assms unfolding keeps_def by blast
  ultimately show "\<exists>r s'. a s = Inr (r, s') \<and> st_script s' = sc \<and> any_world (st_cookie s') \<and>
      (st_errmsg s \<noteq> None \<or> r = None \<longrightarrow> st_errmsg s' \<noteq> None)" by (simp add: any_world_def)
qed

lemma good_checked:
  assumes "list_all (good_arg any_world sc) argv" and "\<And>vs. keeps (f vs)"
  shows "good any_world sc (if length argv \<noteq> n then ErrorAbort m else with_args (ReadArgs n argv) f)"
proof (cases "length argv = n")
  case True
  then show ?thesis
    using good_with_args [OF good_ReadArgs [OF _ assms(1)], of n f] good_keeps [OF assms(2)] by simp
qed (simp add: good_ErrorAbort)

lemma keeps_ret [simp]: "keeps (\<lambda>s. ret (v s) s)" "keeps (ret u)"
  by (simp_all add: keeps_def ret_def)

lemma keeps_effect [simp]:
  assumes "\<And>s. st_script (g s) = st_script s" and "\<And>s. st_errmsg (g s) = st_errmsg s"
  shows "keeps (\<lambda>s. ret (v s) (g s))"
  using assms by (simp add: keeps_def ret_def)

lemma upd_same [simp]: "st_script (upd f s) = st_script s" "st_errmsg (upd f s) = st_errmsg s"
  by (simp_all add: upd_def)

lemma emit_same [simp]: "st_script (emit x s) = st_script s" "st_errmsg (emit x s) = st_errmsg s"
  by (simp_all add: emit_def)

lemma write_log_same [simp]:
  "st_script (write_log a b s) = st_script s" "st_errmsg (write_log a b s) = st_errmsg s"
  by (simp_all add: write_log_def)

lemma pidfile_same [simp]:
  "st_script (snd (kill_processes_by_pidfile p f s)) = st_script s"
  "st_errmsg (snd (kill_processes_by_pidfile p f s)) = st_errmsg s"
  by (simp_all add: kill_processes_by_pidfile_def kill_process_def Let_def split: option.split)

lemma keeps_if [simp]:
  assumes "keeps a" "keeps b"
  shows "keeps (\<lambda>s. if c s then a s else b s)"
  using assms by (simp add: keeps_def)

lemma keeps_insmod:
  "keeps (\<lambda>s. case read_file m (st_cookie s) of None \<Rightarrow> ret '''' s
     | Some (img, sz) \<Rightarrow> ret (v img sz s) (upd (h img sz) s))"
  by (simp add: keeps_def ret_def split: option.split)

interpretation insmod_fn: edify_function 0 InsModuleFn any_world
  unfolding InsModuleFn_def Let_def by unfold_locales (rule good_checked, assumption, rule keeps_insmod)

interpretation rmmod_fn: edify_function 0 RmModuleFn any_world
  unfolding RmModuleFn_def by unfold_locales (rule good_checked, assumption, simp)

interpretation pidfile_fn: edify_function 0 KillProcessByPIDFn any_world
  unfolding KillProcessByPIDFn_def by unfold_locales (rule good_checked, assumption, simp)

interpretation exists_fn: edify_function 0 FileExistsFn any_world
  unfolding FileExistsFn_def by unfold_locales (rule good_checked, assumption, simp)

interpretation unlink_fn: edify_function 0 UnlinkFileFn any_world
  unfolding UnlinkFileFn_def by unfold_locales (rule good_checked, assumption, simp)

interpretation write_fn: edify_function 0 WriteFileFn any_world
  unfolding WriteFileFn_def Let_def by unfold_locales (rule good_checked, assumption, simp)

interpretation show_fn: edify_function 0 ShowProgressFn any_world
  unfolding ShowProgressFn_def by unfold_locales (rule good_checked, assumption, simp)

interpretation set_fn: edify_function 0 SetProgressFn any_world
  unfolding SetProgressFn_def by unfold_locales (rule good_checked, assumption, simp)

interpretation run_fn: edify_function 0 RunProgramFn any_world
  unfolding RunProgramFn_def Let_def by unfold_locales (rule good_checked, assumption, simp)

interpretation action_fn: edify_function 0 GetActionFn any_world
  by unfold_locales (simp add: GetActionFn_def [abs_def] good_keeps)

interpretation ui_fn: edify_function 0 UIPrintFn any_world
  unfolding UIPrintFn_def Let_def
  by unfold_locales (rule good_with_args, erule good_ReadVarArgs, rule good_keeps, simp)

interpretation getprop_fn: edify_function 0 GetPropFn any_world
proof
  fix argv :: "world arg list" and sc name
  assume a: "list_all (good_arg any_world sc) argv"
  show "good any_world sc (GetPropFn name argv)"
  proof (cases "length argv = 1")
    case True
    then have "good any_world sc (eval_at argv 0)" using a by (intro good_eval_at) simp_all
    then show ?thesis
      using True by (simp add: GetPropFn_def good_ebind good_keeps)
  qed (simp add: GetPropFn_def good_ErrorAbort)
qed

lemma good_read_keeps:
  "n \<le> length argv \<Longrightarrow> list_all (good_arg any_world sc) argv \<Longrightarrow> (\<And>vs. keeps (f vs)) \<Longrightarrow>
    good any_world sc (with_args (ReadArgs n argv) f)"
  by (rule good_with_args [OF good_ReadArgs]) (auto intro: good_keeps)

interpretation log_fn: edify_function 0 LogFn any_world
  by unfold_locales (simp add: LogFn_def good_ErrorAbort good_read_keeps)

interpretation load_fn: edify_function 0 LoadWifiFn any_world
  unfolding LoadWifiFn_def wifi_driver_def
  by unfold_locales (auto simp: good_def ErrorAbort_def fail_with_def ret_def split: option.split)

interpretation unload_fn: edify_function 0 UnloadWifiFn any_world
  unfolding UnloadWifiFn_def wifi_driver_def
  by unfold_locales (auto simp: good_def ErrorAbort_def fail_with_def ret_def split: option.split)

interpretation setprop_fn: edify_function 0 SetPropFn any_world
proof
  fix argv :: "world arg list" and sc name
  assume a: "list_all (good_arg any_world sc) argv"
  show "good any_world sc (SetPropFn name argv)"
  proof (cases "length argv = 2")
    case len: True
    show ?thesis
    proof (rule goodI)
      fix s :: "world State"
      assume s: "st_script s = sc" "any_world (st_cookie s)"
      have g: "good any_world sc (eval_at argv 0)" "good any_world sc (eval_at argv 1)"
        using a len by (simp_all add: good_eval_at)
      obtain k s1 where 1: "eval_at argv 0 s = Inr (k, s1)" "st_script s1 = sc" "any_world (st_cookie s1)"
        "st_errmsg s \<noteq> None \<or> k = None \<longrightarrow> st_errmsg s1 \<noteq> None" using g(1) s by (rule goodE)
      obtain v s2 where 2: "eval_at argv 1 s1 = Inr (v, s2)" "st_script s2 = sc" "any_world (st_cookie s2)"
        "st_errmsg s1 \<noteq> None \<or> v = None \<longrightarrow> st_errmsg s2 \<noteq> None" using g(2) 1(2,3) by (rule goodE)
      show "\<exists>r s'. SetPropFn name argv s = Inr (r, s') \<and> st_script s' = sc \<and> any_world (st_cookie s') \<and>
          (st_errmsg s \<noteq> None \<or> r = None \<longrightarrow> st_errmsg s' \<noteq> None)"
        using 1 2 len
        by (cases k; cases v) (auto simp: SetPropFn_def ret_def any_world_def simp del: One_nat_def)
    qed
  qed (simp add: SetPropFn_def good_ErrorAbort)
qed

definition total_functions :: "(nat \<times> world Function) set" where
  "total_functions = core_functions \<union>
    {(0, InsModuleFn), (0, RmModuleFn), (0, KillProcessByPIDFn), (0, FileExistsFn), (0, UnlinkFileFn),
     (0, WriteFileFn), (0, ShowProgressFn), (0, SetProgressFn), (0, RunProgramFn), (0, GetActionFn),
     (0, UIPrintFn), (0, GetPropFn), (0, SetPropFn), (0, LogFn), (0, LoadWifiFn), (0, UnloadWifiFn)}"

lemma total_functions_ok: "(n, fn) \<in> total_functions \<Longrightarrow> edify_function n fn any_world"
  unfolding total_functions_def
  by (elim UnE insertE emptyE; (erule core_functions_ok | clarify, intro_locales))

section \<open>Properties\<close>


definition demo_world :: world where
  "demo_world = \<lparr>w_files = [SCRIPT_NAME \<mapsto> ''a''], w_locked = (\<lambda>_. False), w_short = (\<lambda>_. None),
     w_props = Map.empty, w_proc = None, w_kill = (\<lambda>_ _. 0), w_init_module = (\<lambda>_ _ _. 0),
     w_delete_module = (\<lambda>_. 0), w_system = (\<lambda>_. 0), w_driver = (\<lambda>_. None), w_errno = '''',
     w_frac = (\<lambda>v. v), w_date = '''', w_action = '''', w_pipe = '''', w_log = '''', w_calls = []\<rparr>"


section \<open>The configuration file is looked up as written\<close>

text \<open>A string that starts and ends with a visible character, or is empty.\<close>

definition trimmed :: "string \<Rightarrow> bool" where
  "trimmed t \<longleftrightarrow> t = [] \<or> \<not> isspace (hd t) \<and> \<not> isspace (last t)"

definition cfg_key :: "string \<Rightarrow> bool" where
  "cfg_key k \<longleftrightarrow> k \<noteq> [] \<and> trimmed k \<and> hd k \<noteq> CHR ''#'' \<and> CHR ''='' \<notin> set k \<and> newline \<notin> set k \<and> nul \<notin> set k"

definition cfg_value :: "string \<Rightarrow> bool" where
  "cfg_value v \<longleftrightarrow> trimmed v \<and> newline \<notin> set v \<and> nul \<notin> set v"

text \<open>A line with blanks around the key and the value, and a file of such lines.\<close>

definition cfg_print_line :: "string \<Rightarrow> string \<Rightarrow> string \<times> string \<Rightarrow> string" where
  "cfg_print_line b1 b2 kv = fst kv @ b1 @ ''='' @ b2 @ snd kv"

definition cfg_print :: "string \<Rightarrow> string \<Rightarrow> (string \<times> string) list \<Rightarrow> string" where
  "cfg_print b1 b2 kvs = concat (map (\<lambda>kv. cfg_print_line b1 b2 kv @ [newline]) kvs)"

definition blanks :: "string \<Rightarrow> bool" where
  "blanks b \<longleftrightarrow> set b \<subseteq> {CHR '' '', CHR 0x09}"

lemma rtrim_trimmed: "trimmed t \<Longrightarrow> rtrim t = t"
  by (cases t rule: rev_cases) (auto simp: trimmed_def rtrim_def)

lemma rtrim_blanks: "trimmed t \<Longrightarrow> list_all isspace b \<Longrightarrow> rtrim (t @ b) = t"
  using rtrim_trimmed [of t] dropWhile_append2 [of "rev b" isspace "rev t"] by (simp add: rtrim_def list_all_iff)

lemma dropWhile_blanks: "trimmed t \<Longrightarrow> list_all isspace b \<Longrightarrow> dropWhile isspace (b @ t) = t"
  by (cases t) (auto simp: trimmed_def list_all_iff dropWhile_append2)

lemma blanks_space: "blanks b \<Longrightarrow> list_all isspace b"
  by (auto simp: blanks_def list_all_iff isspace_def)

lemma blanks_no: "blanks b \<Longrightarrow> CHR ''='' \<notin> set b \<and> newline \<notin> set b \<and> nul \<notin> set b"
  by (auto simp: blanks_def newline_def nul_def)

lemma cfg_line_print:
  assumes "cfg_key k" "cfg_value v" "blanks b1" "blanks b2"
  shows "cfg_line key (cfg_print_line b1 b2 (k, v)) = (if key = k then Found v else Skip)"
proof -
  let ?l = "k @ b1 @ CHR ''='' # b2 @ v"
  from assms(1) obtain c cs where k: "k = c # cs" "\<not> isspace c" "c \<noteq> CHR ''#''"
    by (cases k) (auto simp: cfg_key_def trimmed_def)
  have no: "CHR ''='' \<notin> set (k @ b1)" using assms(1,3) blanks_no by (auto simp: cfg_key_def)
  have "takeWhile (\<lambda>c. c \<noteq> CHR ''='') ((k @ b1) @ CHR ''='' # b2 @ v) = k @ b1"
    using no by (rule takeWhile_until)
  moreover have "dropWhile (\<lambda>c. c \<noteq> CHR ''='') ((k @ b1) @ CHR ''='' # b2 @ v) = CHR ''='' # b2 @ v"
    using no by (subst dropWhile_append2) fastforce+
  moreover have "rtrim (k @ b1) = k" "dropWhile isspace (b2 @ v) = v" "rtrim v = v"
    using assms blanks_space rtrim_blanks dropWhile_blanks rtrim_trimmed
    by (auto simp: cfg_key_def cfg_value_def)
  ultimately show ?thesis
    using k by (simp add: cfg_line_def cfg_print_line_def)
qed

lemma cfg_loop_print:
  assumes "\<forall>(k, v)\<in>set kvs. cfg_key k \<and> cfg_value v" and "blanks b1" "blanks b2"
  shows "cfg_loop key (map (cfg_print_line b1 b2) kvs) =
    (case map_of kvs key of None \<Rightarrow> Skip | Some v \<Rightarrow> Found v)"
  using assms by (induction kvs) (auto simp: cfg_line_print)

lemma strtok_print:
  assumes "\<forall>l\<in>set ls. l \<noteq> [] \<and> newline \<notin> set l"
  shows "strtok_all newline (concat (map (\<lambda>l. l @ [newline]) ls)) = ls"
  using assms by (induction ls) (simp_all add: strtok_all_token)

lemma concat_map_print: "cfg_print b1 b2 kvs = concat (map (\<lambda>l. l @ [newline]) (map (cfg_print_line b1 b2) kvs))"
  by (simp add: cfg_print_def comp_def)

lemma cfg_print_chars:
  assumes "\<forall>(k, v)\<in>set kvs. cfg_key k \<and> cfg_value v" and "blanks b1" "blanks b2"
  shows "nul \<notin> set (cfg_print b1 b2 kvs)"
    and "\<forall>l\<in>set (map (cfg_print_line b1 b2) kvs). l \<noteq> [] \<and> newline \<notin> set l"
  using assms blanks_no [OF assms(2)] blanks_no [OF assms(3)]
  by (auto simp: cfg_print_def cfg_print_line_def cfg_key_def cfg_value_def nul_def newline_def)

lemma ReadArgs_one: "ReadArgs 1 [pure_arg u a b] s = Inr (Some [u], s)"
  by (simp add: ReadArgs_def ret_def)

text \<open>
  C26. \<open>getcfg\<close> looks a key up: for a configuration file of at most 64 kB written as lines
  \<open>key = value\<close>, with any blanks around the equality sign, it returns the value of the first line
  with the key, without surrounding blanks, and the empty string if there is none.
\<close>

theorem getcfg_looks_up:
  assumes "\<forall>(k, v)\<in>set kvs. cfg_key k \<and> cfg_value v" and "blanks b1" "blanks b2" and "kvs \<noteq> []"
    and "w_files (st_cookie s) conf_name = Some (cfg_print b1 b2 kvs)"
    and "length (cfg_print b1 b2 kvs) \<le> MAX_FILE_GETPROP_SIZE" and "w_short (st_cookie s) conf_name = None"
  shows "GetCfgFn name [pure_arg key a b] s =
    ret (case map_of kvs key of None \<Rightarrow> '''' | Some v \<Rightarrow> v) s"
proof -
  let ?c = "cfg_print b1 b2 kvs"
  have "takeWhile (\<lambda>c. c \<noteq> nul) ?c = ?c"
    using cfg_print_chars(1) [OF assms(1-3)] by (simp add: takeWhile_eq_all_conv) metis
  moreover have "strtok_all newline ?c = map (cfg_print_line b1 b2) kvs"
    unfolding concat_map_print by (rule strtok_print [OF cfg_print_chars(2) [OF assms(1-3)]])
  ultimately have ls: "strtok_all newline (takeWhile (\<lambda>c. c \<noteq> nul) ?c) = map (cfg_print_line b1 b2) kvs"
    by (simp only:)
  show ?thesis
    using assms(4-7) ls cfg_loop_print [OF assms(1-3), of key] ReadArgs_one [of key a b s]
    by (simp add: GetCfgFn_def with_args_def Let_def split: option.split)
qed

definition demo_conf :: "world State" where
  "demo_conf = \<lparr>st_cookie = demo_world\<lparr>w_files := [conf_name \<mapsto> cfg_print '' '' '' '' [(''ssid'', ''mesh''), (''mode'', '''')]]\<rparr>,
     st_script = '''', st_errmsg = None, st_out = []\<rparr>"

theorem getcfg_looks_up_witness:
  "GetCfgFn ''getcfg'' [pure_arg ''ssid'' 0 4] demo_conf = ret ''mesh'' demo_conf"
  using getcfg_looks_up [of "[(''ssid'', ''mesh''), (''mode'', '''')]" "'' ''" "'' ''" demo_conf "''getcfg''" "''ssid''" 0 4]
  by (simp add: demo_conf_def demo_world_def cfg_key_def cfg_value_def trimmed_def blanks_def isspace_def
      newline_def nul_def cfg_print_def cfg_print_line_def MAX_FILE_GETPROP_SIZE_def)

text \<open>
  \<open>whitelist_macs\<close> overruns its command buffer. The fixed part of the command has 93 characters, so
  that with a MAC address of 17 the \<open>sprintf\<close> writes 111 bytes into 100; this happens for the
  first line of every file that starts with a MAC address.
\<close>

lemma whitelist_macs_overflows:
  assumes "w_files (st_cookie s) f = Some (mac @ newline # rest)" and "length mac = 17"
    and "list_all (\<lambda>c. \<not> isspace c) mac"
  shows "WhiteListMacsFn name [pure_arg f a b] s = Inl OutOfBounds"
proof -
  let ?c = "mac @ newline # rest"
  have sp: "isspace newline" by (simp add: isspace_def newline_def)
  then have nl: "newline \<notin> set mac" using assms(3) by (auto simp: list_all_iff)
  have "fgets 20 ?c = mac @ [newline]"
    using takeWhile_until [OF nl, of rest] assms(2) by (simp add: fgets_def)
  moreover have "first_word (mac @ [newline]) = mac"
  proof -
    have "dropWhile isspace (mac @ [newline]) = mac @ [newline]"
      using assms(2,3) by (cases mac) auto
    then show ?thesis
      using takeWhile_dropWhile_split(1) [OF assms(3), of "[newline]"] sp by (simp add: first_word_def)
  qed
  moreover have "fgets_all 20 ?c = fgets 20 ?c # fgets_all 20 (drop (length (fgets 20 ?c)) ?c)"
    by (subst fgets_all.simps) simp
  moreover have "mac \<noteq> []" using assms(2) by auto
  ultimately have "macs_loop (fgets_all 20 ?c) 0 s = Inl OutOfBounds"
    using assms(2) by (simp add: mac_command_def Let_def)
  then show ?thesis
    using assms(1) ReadArgs_one [of f a b s]
    by (simp add: WhiteListMacsFn_def with_args_def file_exists_def)
qed

definition demo_macs :: "world State" where
  "demo_macs = \<lparr>st_cookie = demo_world\<lparr>w_files := [''m'' \<mapsto> ''00:11:22:33:44:55'' @ newline # []]\<rparr>,
     st_script = '''', st_errmsg = None, st_out = []\<rparr>"

theorem whitelist_macs_overflows_witness:
  "WhiteListMacsFn ''whitelist_macs'' [pure_arg ''m'' 0 1] demo_macs = Inl OutOfBounds"
  using whitelist_macs_overflows [of demo_macs "''m''" "''00:11:22:33:44:55''" "[]" "''whitelist_macs''" 0 1]
  by (simp add: demo_macs_def isspace_def)

section \<open>Further facts on single functions\<close>

text \<open>A configuration file without a line makes \<open>getcfg\<close> read through a null pointer.\<close>

lemma getcfg_empty_faults:
  assumes "w_files (st_cookie s) conf_name = Some []" and "w_short (st_cookie s) conf_name = None"
  shows "GetCfgFn name [pure_arg key a b] s = Inl NullDeref"
  using assms ReadArgs_one [of key a b s] by (simp add: GetCfgFn_def with_args_def MAX_FILE_GETPROP_SIZE_def)

text \<open>A short read hands the kernel almost 2 GB as the length of a smaller module image.\<close>

lemma insmod_short_read:
  assumes "w_files (st_cookie s) f = Some c" and "w_short (st_cookie s) f = Some n" and "n \<noteq> length c"
  shows "\<exists>r s'. InsModuleFn name [pure_arg f a b, pure_arg opts a' b'] s = Inr (r, s') \<and>
    last (w_calls (st_cookie s')) = InitModule c 2147479552 opts"
  using assms ReadArgs_pure [of f a b opts a' b' s]
  by (simp add: InsModuleFn_def with_args_def read_file_def ret_def upd_def call_def)

text \<open>A program killed by a signal counts as successful: only the exit code of the status is tested.\<close>

lemma run_program_signalled:
  assumes "w_system (st_cookie s) cmd = sig" and "0 < sig" and "sig < 128"
  shows "\<exists>s'. RunProgramFn name [pure_arg cmd a b] s = Inr (Some ''t'', s')"
proof -
  have "WEXITSTATUS sig = 0"
    using assms(2,3) by (simp add: WEXITSTATUS_def drop_bit_eq_div)
  then show ?thesis
    using assms(1,2) ReadArgs_one [of cmd a b s]
    by (simp add: RunProgramFn_def with_args_def ret_def truth_def)
qed

text \<open>A pid file that does not start with a number makes \<open>kill_pidfile\<close> signal its own process group.\<close>

lemma kill_pidfile_group:
  assumes "w_files (st_cookie s) f = Some (c # cs)" and "\<not> isspace c" and "xdigit_val c \<ge> 10"
    and "c \<noteq> CHR ''-''" and "c \<noteq> CHR ''+''" and "c \<noteq> newline"
  shows "Kill 0 p \<in> set (w_calls (st_cookie (snd (kill_processes_by_pidfile p f s))))"
proof -
  have c0: "c \<noteq> CHR ''0''" using assms(3) by (auto simp: xdigit_val_def)
  obtain r where "fgets 49 (c # cs) = c # r"
    using assms(6) by (simp add: fgets_def take_Cons')
  moreover have "strtol0 (c # r) = 0"
  proof -
    have d: "digits_base 10 0 (c # r) = 0" using assms(3) by simp
    have rs: "read_sign (dropWhile isspace (c # r)) = (False, c # r)" using assms by (simp add: read_sign_def)
    show ?thesis
      unfolding strtol0_def rs using c0 d
      by (simp add: LONG_MAX_def LONG_MIN_def split: list.split del: digits_base.simps)
  qed
  ultimately show ?thesis
    using assms(1) by (simp add: kill_processes_by_pidfile_def READ_BUF_SIZE_def kill_process_def
        upd_def call_def emit_def Let_def)
qed

end
