(* ===== verification/Edify_Test.thy ===== *)
theory Edify_Test
  imports Edify_Script
begin

text \<open>
  The test driver of the interpreter, \<^verbatim>\<open>src/jni/adhoc-edify/edify/main.c\<close>: \<open>expect\<close> parses and evaluates a script
  and compares the result, \<open>test\<close> does this for a list of scripts. The scanner's globals are kept from one
  script to the next.
\<close>

record tester =
  t_errors :: nat
  t_lexer :: lexer
  t_out :: "edify_out list"

definition t_emit :: "edify_out list \<Rightarrow> tester \<Rightarrow> tester" where
  "t_emit xs T = T\<lparr>t_out := t_out T @ xs\<rparr>"

text \<open>\<open>fprintf(stderr, ...)\<close> and \<open>++*errors\<close>.\<close>

definition t_failed :: "string \<Rightarrow> tester \<Rightarrow> tester" where
  "t_failed msg T = t_emit [Stderr msg] (T\<lparr>t_errors := t_errors T + 1\<rparr>)"

definition quoted :: "string \<Rightarrow> string" where
  "quoted s = CHR 0x22 # s @ [CHR 0x22]"

definition expect :: "unit fn_table \<Rightarrow> string \<Rightarrow> string option \<Rightarrow> tester \<Rightarrow> (int \<times> tester) res" where
  "expect table expr_str expected T =
     rbind (parse_script table expr_str (t_lexer T)) (\<lambda>(error, p, L).
       let T1 = t_emit (Stdout ''.'' # map Stdout (yyprinted p)) (T\<lparr>t_lexer := L\<rparr>) in
       if 0 < error \<or> 0 < error_count p
       then Inr (0, t_failed (''error parsing '' @ quoted expr_str @ '' ('' @ show_nat (error_count p) @ '' errors)'' @ [newline]) T1)
       else case root p of
         None \<Rightarrow> Inl Uninitialised
       | Some e \<Rightarrow>
           rbind (Evaluate e \<lparr>st_cookie = (), st_script = expr_str, st_errmsg = None, st_out = []\<rparr>) (\<lambda>(result, s).
             let T2 = t_emit (st_out s) T1 in
             case result of
               None \<Rightarrow>
                 (case expected of
                    Some x \<Rightarrow> Inr (0, t_failed (''error evaluating '' @ quoted expr_str @ [newline]) T2)
                  | None \<Rightarrow> Inr (1, T2))
             | Some r \<Rightarrow>
                 (case expected of
                    None \<Rightarrow> Inl NullDeref
                  | Some x \<Rightarrow>
                      if strcmp r x \<noteq> 0
                      then Inr (0, t_failed (''evaluating '' @ quoted expr_str @ '': expected '' @ quoted x @ '', got '' @
                        quoted r @ [newline]) T2)
                      else Inr (1, T2))))"

fun expect_all :: "unit fn_table \<Rightarrow> (string \<times> string option) list \<Rightarrow> tester \<Rightarrow> tester res" where
  "expect_all table [] T = Inr T"
| "expect_all table ((s, x) # ss) T = rbind (expect table s x T) (\<lambda>(r, T'). expect_all table ss T')"

text \<open>The scripts of \<open>test\<close> with their results.\<close>

definition tests_literals :: "(string \<times> string option) list" where
  "tests_literals =
    [(''a'', Some ''a''), (quoted ''a'', Some ''a''), (quoted (CHR 0x5C # ''x61''), Some ''a''),
     (''# this is a comment'' @ [newline] @ ''  a'' @ [newline] @ ''   '' @ [newline], Some ''a''),
     (''a; b; c'', Some ''c''),
     (''a + b'', Some ''ab''), (''a + '' @ [newline] @ '' '' @ quoted ''b'', Some ''ab''),
     (''a + b +'' @ [newline] @ ''c'' @ [newline], Some ''abc'')]"

definition tests_concat :: "(string \<times> string option) list" where
  "tests_concat =
    [(''concat(a, b)'', Some ''ab''), (''concat(a,'' @ [newline] @ '' '' @ quoted ''b'' @ '')'', Some ''ab''),
     (''concat(a + b,'' @ [newline] @ ''c,'' @ quoted ''d'' @ '')'', Some ''abcd''),
     (quoted ''concat'' @ ''(a + b,'' @ [newline] @ ''c,'' @ quoted ''d'' @ '')'', Some ''abcd'')]"

definition tests_and :: "(string \<times> string option) list" where
  "tests_and =
    [(''a && b'', Some ''b''), (''a && '' @ quoted [], Some []), (quoted [] @ '' && b'', Some []),
     (quoted [] @ '' && '' @ quoted [], Some []), (quoted [] @ '' && abort()'', Some []), (''t && abort()'', None)]"

definition tests_or :: "(string \<times> string option) list" where
  "tests_or =
    [(''a || b'', Some ''a''), (''a || '' @ quoted [], Some ''a''), (quoted [] @ '' || b'', Some ''b''),
     (quoted [] @ '' || '' @ quoted [], Some []), (''a || abort()'', Some ''a''), (quoted [] @ '' || abort()'', None)]"

definition tests_precedence :: "(string \<times> string option) list" where
  "tests_precedence =
    [(''!a'', Some []), (''! '' @ quoted [], Some ''t''), (''!!a'', Some ''t''),
     (quoted [] @ '' == '' @ quoted [] @ '' && b'', Some ''b''), (''a + b == ab'', Some ''t''), (''ab == a + b'', Some ''t''),
     (''a + (b == ab)'', Some ''a''), (''(ab == a) + b'', Some ''b'')]"

definition tests_substring :: "(string \<times> string option) list" where
  "tests_substring =
    [(''is_substring(cad, abracadabra)'', Some ''t''), (''is_substring(abrac, abracadabra)'', Some ''t''),
     (''is_substring(dabra, abracadabra)'', Some ''t''), (''is_substring(cad, abracxadabra)'', Some []),
     (''is_substring(abrac, axbracadabra)'', Some []), (''is_substring(dabra, abracadabrxa)'', Some [])]"

definition tests_ifelse :: "(string \<times> string option) list" where
  "tests_ifelse =
    [(''ifelse(t, yes, no)'', Some ''yes''), (''ifelse(!t, yes, no)'', Some ''no''),
     (''ifelse(t, yes, abort())'', Some ''yes''), (''ifelse(!t, abort(), no)'', Some ''no''),
     (''if t then yes else no endif'', Some ''yes''), (''if '' @ quoted [] @ '' then yes else no endif'', Some ''no''),
     (''if '' @ quoted [] @ '' then yes endif'', Some []), (''if '' @ quoted [] @ ''; t then yes endif'', Some ''yes'')]"

definition tests_numbers :: "(string \<times> string option) list" where
  "tests_numbers =
    [(''less_than_int(3, 14)'', Some ''t''), (''less_than_int(14, 3)'', Some []),
     (''less_than_int(x, 3)'', Some []), (''less_than_int(3, x)'', Some []),
     (''greater_than_int(3, 14)'', Some []), (''greater_than_int(14, 3)'', Some ''t''),
     (''greater_than_int(x, 3)'', Some []), (''greater_than_int(3, x)'', Some [])]"

definition test :: "unit fn_table \<Rightarrow> tester \<Rightarrow> (nat \<times> tester) res" where
  "test table T =
     rbind (expect_all table (tests_literals @ tests_concat @ tests_and @ tests_or @ tests_precedence @ tests_substring @
       tests_ifelse @ tests_numbers) (T\<lparr>t_errors := 0\<rparr>)) (\<lambda>T'.
     Inr (t_errors T', t_emit [Stdout [newline]] T'))"

definition test_table :: "unit fn_table" where
  "test_table = FinishRegistration (RegisterBuiltins empty_table)"

section \<open>Properties\<close>

lemma t_emit_simps [simp]: "t_errors (t_emit xs T) = t_errors T" "t_errors (t_failed m T) = Suc (t_errors T)"
  by (simp_all add: t_emit_def t_failed_def)



end
