(* ===== verification/Gsm_Arith.thy ===== *)
theory Gsm_Arith
  imports CS_Prelude
begin

text \<open>
  The fixed-point arithmetic of the GSM 06.10 codec: \<^verbatim>\<open>src/jni/spandsp/spandsp/saturated.h\<close>,
  \<^verbatim>\<open>src/jni/spandsp/gsm0610_local.h\<close> and the two number routines of
  \<^verbatim>\<open>src/jni/spandsp/gsm0610_lpc.c\<close>. C integers are HOL integers; a conversion to \<open>int16_t\<close> or
  \<open>int32_t\<close> is written out as \<open>i16\<close> or \<open>i32\<close>. A right shift is floor division. The portable branch
  of the code is modelled, not the one in x86 assembly.
\<close>

section \<open>Ranges and conversions\<close>

definition INT16_MAX :: int where "INT16_MAX = 32767"
definition INT16_MIN :: int where "INT16_MIN = -32768"
definition INT32_MAX :: int where "INT32_MAX = 2147483647"
definition INT32_MIN :: int where "INT32_MIN = -2147483648"

definition is16 :: "int \<Rightarrow> bool" where
  "is16 x \<longleftrightarrow> -32768 \<le> x \<and> x \<le> 32767"

definition is32 :: "int \<Rightarrow> bool" where
  "is32 x \<longleftrightarrow> -2147483648 \<le> x \<and> x \<le> 2147483647"

definition i16 :: "int \<Rightarrow> int" where
  "i16 x = (x + 32768) mod 65536 - 32768"

definition i32 :: "int \<Rightarrow> int" where
  "i32 x = (x + 2147483648) mod 4294967296 - 2147483648"

definition u32i :: "int \<Rightarrow> int" where
  "u32i x = x mod 4294967296"

text \<open>\<open>a >> n\<close> and \<open>a << n\<close>.\<close>

definition shr :: "int \<Rightarrow> nat \<Rightarrow> int" where
  "shr a n = a div 2 ^ n"

definition shl :: "int \<Rightarrow> nat \<Rightarrow> int" where
  "shl a n = a * 2 ^ n"

section \<open>Saturated arithmetic\<close>

definition saturate :: "int \<Rightarrow> int" where
  "saturate amp =
     (let amp16 = i16 amp in
      if amp = amp16 then amp16 else if amp > INT16_MAX then INT16_MAX else INT16_MIN)"

definition saturated_add16 :: "int \<Rightarrow> int \<Rightarrow> int" where
  "saturated_add16 a b = saturate (a + b)"

definition saturated_add32 :: "int \<Rightarrow> int \<Rightarrow> int" where
  "saturated_add32 a b =
     (if a < 0
      then if b \<ge> 0 then a + b
           else let A = u32i (u32i (- (a + 1)) + u32i (- (b + 1)))
                in if A \<ge> INT32_MAX then INT32_MIN else - i32 A - 2
      else if b \<le> 0 then a + b
      else let A = u32i (u32i a + u32i b) in if A > INT32_MAX then INT32_MAX else i32 A)"

definition saturated_sub16 :: "int \<Rightarrow> int \<Rightarrow> int" where
  "saturated_sub16 a b = saturate (a - b)"

definition saturated_mul16 :: "int \<Rightarrow> int \<Rightarrow> int" where
  "saturated_mul16 a b =
     (if a = INT16_MIN \<and> b = INT16_MIN then INT16_MAX else i16 (shr (a * b) 15))"

definition saturated_mul_16_32 :: "int \<Rightarrow> int \<Rightarrow> int" where
  "saturated_mul_16_32 a b = i32 (shl (a * b) 1)"

definition saturated_abs16 :: "int \<Rightarrow> int" where
  "saturated_abs16 a = (if a = INT16_MIN then INT16_MAX else i16 \<bar>a\<bar>)"

section \<open>Operations of the codec\<close>

definition gsm_add :: "int \<Rightarrow> int \<Rightarrow> int" where
  "gsm_add a b = saturate (a + b)"

definition gsm_l_add :: "int \<Rightarrow> int \<Rightarrow> int" where
  "gsm_l_add a b =
     (if a < 0
      then if b \<ge> 0 then a + b
           else let A = u32i (u32i (- (a + 1)) + u32i (- (b + 1)))
                in if A \<ge> INT32_MAX then INT32_MIN else - i32 A - 2
      else if b \<le> 0 then a + b
      else let A = u32i (u32i a + u32i b) in if A > INT32_MAX then INT32_MAX else i32 A)"

definition gsm_sub :: "int \<Rightarrow> int \<Rightarrow> int" where
  "gsm_sub a b = saturate (a - b)"

definition gsm_mult :: "int \<Rightarrow> int \<Rightarrow> int" where
  "gsm_mult a b =
     (if a = INT16_MIN \<and> b = INT16_MIN then INT16_MAX else i16 (shr (a * b) 15))"

definition gsm_l_mult :: "int \<Rightarrow> int \<Rightarrow> int res" where
  "gsm_l_mult a b = cassert (a \<noteq> INT16_MIN \<or> b \<noteq> INT16_MIN) (Inr (i32 (shl (a * b) 1)))"

definition gsm_mult_r :: "int \<Rightarrow> int \<Rightarrow> int" where
  "gsm_mult_r a b =
     (if b = INT16_MIN \<and> a = INT16_MIN then INT16_MAX
      else i16 (shr (a * b + 16384) 15 mod 65536))"

definition gsm_abs :: "int \<Rightarrow> int" where
  "gsm_abs a = (if a = INT16_MIN then INT16_MAX else i16 \<bar>a\<bar>)"

definition gsm_asr :: "int \<Rightarrow> int \<Rightarrow> int" where
  "gsm_asr a n =
     (if n \<ge> 16 then (if a < 0 then -1 else 0)
      else if n \<le> -16 then 0
      else if n < 0 then i16 (shl a (nat (- n)))
      else i16 (shr a (nat n)))"

definition gsm_asl :: "int \<Rightarrow> int \<Rightarrow> int" where
  "gsm_asl a n =
     (if n \<ge> 16 then 0
      else if n \<le> -16 then (if a < 0 then -1 else 0)
      else if n < 0 then gsm_asr a (- n)
      else i16 (shl a (nat n)))"

text \<open>
  \<open>top_bit\<close> of \<^verbatim>\<open>src/jni/spandsp/spandsp/bit_operations.h\<close>: the position of the highest bit that is set,
  by halving; \<open>top_bit_step\<close> is one of its five tests.
\<close>

definition top_bit_step :: "u32 \<Rightarrow> int \<Rightarrow> u32 \<times> int \<Rightarrow> u32 \<times> int" where
  "top_bit_step m n st = (if fst st AND m \<noteq> 0 then (fst st AND m, snd st + n) else st)"

definition top_bit :: "u32 \<Rightarrow> int" where
  "top_bit bits =
     (if bits = 0 then -1
      else snd (top_bit_step 0xAAAAAAAA 1 (top_bit_step 0xCCCCCCCC 2 (top_bit_step 0xF0F0F0F0 4
             (top_bit_step 0xFF00FF00 8 (top_bit_step 0xFFFF0000 16 (bits, 0)))))))"

definition gsm0610_norm :: "int \<Rightarrow> int res" where
  "gsm0610_norm x =
     cassert (x \<noteq> 0)
      (if x < 0 \<and> x \<le> -1073741824 then Inr 0
       else Inr (30 - top_bit (word_of_int (if x < 0 then NOT x else x))))"

text \<open>The loop of \<open>gsm_div\<close>: \<open>k\<close> rounds, the numerator and the quotient so far.\<close>

fun gsm_div_loop :: "nat \<Rightarrow> int \<Rightarrow> int \<Rightarrow> int \<Rightarrow> int" where
  "gsm_div_loop 0 num32 denom32 div' = div'"
| "gsm_div_loop (Suc k) num32 denom32 div' =
     (let n = i32 (num32 * 2) in
      if n \<ge> denom32 then gsm_div_loop k (n - denom32) denom32 (i16 (i16 (div' * 2) + 1))
      else gsm_div_loop k n denom32 (i16 (div' * 2)))"

definition gsm_div :: "int \<Rightarrow> int \<Rightarrow> int res" where
  "gsm_div num denom =
     cassert (num \<ge> 0 \<and> denom \<ge> num)
      (if num = 0 then Inr 0 else Inr (gsm_div_loop 15 num denom 0))"

section \<open>What the operations compute\<close>

named_theorems gsm_simps

lemma i16_id [gsm_simps]: "is16 x \<Longrightarrow> i16 x = x"
  by (simp add: is16_def i16_def)

lemma i16_range [gsm_simps]: "is16 (i16 x)"
  using pos_mod_bound [of 65536 "x + 32768"] pos_mod_sign [of 65536 "x + 32768"]
  unfolding is16_def i16_def by linarith

lemma i32_id: "is32 x \<Longrightarrow> i32 x = x"
  by (simp add: is32_def i32_def)

definition clamp16 :: "int \<Rightarrow> int" where
  "clamp16 x = max (-32768) (min 32767 x)"

lemma saturate_clamp: "saturate x = clamp16 x"
proof (cases "is16 x")
  case True
  then show ?thesis by (auto simp: saturate_def i16_id clamp16_def is16_def)
next
  case False
  with i16_range [of x] have "x \<noteq> i16 x" by metis
  with False show ?thesis
    by (auto simp: saturate_def Let_def clamp16_def is16_def INT16_MAX_def INT16_MIN_def)
qed

lemma clamp16_range [gsm_simps]: "is16 (clamp16 x)"
  by (simp add: is16_def clamp16_def)

lemma saturate_range [gsm_simps]: "is16 (saturate x)"
  by (simp add: saturate_clamp clamp16_range)

lemma saturated_add16_range [gsm_simps]: "is16 (saturated_add16 a b)"
  by (simp add: saturated_add16_def saturate_range)

lemma saturated_sub16_range [gsm_simps]: "is16 (saturated_sub16 a b)"
  by (simp add: saturated_sub16_def saturate_range)

lemma saturated_abs16_range: "is16 a \<Longrightarrow> 0 \<le> saturated_abs16 a \<and> saturated_abs16 a \<le> 32767"
  by (auto simp: saturated_abs16_def is16_def i16_def INT16_MIN_def INT16_MAX_def)

lemma saturated_add32_clamp:
  assumes "is32 a" "is32 b"
  shows "saturated_add32 a b = max (-2147483648) (min 2147483647 (a + b))"
proof -
  have "u32i x = x" if "0 \<le> x" "x < 4294967296" for x using that by (simp add: u32i_def)
  then show ?thesis
    using assms
    by (auto simp: saturated_add32_def Let_def is32_def INT32_MAX_def INT32_MIN_def i32_id)
qed

text \<open>A product of two 16-bit numbers, rounded, fits in 16 bits except for the one case that is clipped.\<close>

lemma mult_bound:
  assumes "is16 a" "is16 b" "\<not> (a = -32768 \<and> b = -32768)"
  shows "\<bar>a * b\<bar> \<le> 1073709056"
proof -
  have "\<bar>a\<bar> \<le> 32768 \<and> \<bar>b\<bar> \<le> 32767 \<or> \<bar>a\<bar> \<le> 32767 \<and> \<bar>b\<bar> \<le> 32768"
    using assms by (auto simp: is16_def)
  then have "\<bar>a\<bar> * \<bar>b\<bar> \<le> 32768 * 32767"
    using mult_mono [of "\<bar>a\<bar>" 32768 "\<bar>b\<bar>" 32767] mult_mono [of "\<bar>a\<bar>" 32767 "\<bar>b\<bar>" 32768] by auto
  then show ?thesis by (simp add: abs_mult)
qed

lemma i16_mod [simp]: "i16 (x mod 65536) = i16 x"
  by (simp add: i16_def mod_add_left_eq)

lemma gsm_mult_r_eq:
  assumes "is16 a" "is16 b"
  shows "gsm_mult_r a b = (if a = -32768 \<and> b = -32768 then 32767 else (a * b + 16384) div 32768)"
proof (cases "a = -32768 \<and> b = -32768")
  case False
  with mult_bound [OF assms] have "is16 ((a * b + 16384) div 32768)" by (auto simp: is16_def)
  with False show ?thesis by (auto simp: gsm_mult_r_def INT16_MIN_def shr_def i16_id)
qed (simp add: gsm_mult_r_def INT16_MIN_def INT16_MAX_def)

lemma gsm_mult_r_range [gsm_simps]: "is16 (gsm_mult_r a b)"
  by (simp add: gsm_mult_r_def i16_range) (simp add: is16_def INT16_MAX_def)

lemma gsm_asr_range [gsm_simps]: "is16 (gsm_asr a n)"
  by (simp add: gsm_asr_def i16_range) (simp add: is16_def)

lemma gsm_asl_range [gsm_simps]: "is16 (gsm_asl a n)"
  by (simp add: gsm_asl_def i16_range gsm_asr_range) (simp add: is16_def)

lemma saturated_mul16_range [gsm_simps]: "is16 (saturated_mul16 a b)"
  by (simp add: saturated_mul16_def i16_range) (simp add: is16_def INT16_MAX_def)

lemma saturated_mul16_eq:
  assumes "is16 a" "is16 b"
  shows "saturated_mul16 a b = (if a = -32768 \<and> b = -32768 then 32767 else (a * b) div 32768)"
proof (cases "a = -32768 \<and> b = -32768")
  case False
  with mult_bound [OF assms] have "is16 ((a * b) div 32768)" by (auto simp: is16_def)
  with False show ?thesis by (auto simp: saturated_mul16_def INT16_MIN_def shr_def i16_id)
qed (simp add: saturated_mul16_def INT16_MIN_def INT16_MAX_def)

text \<open>
  \<open>top_bit\<close> finds the highest bit: each test keeps the bits whose positions agree with the highest one
  in one more binary digit.
\<close>

definition tb_inv :: "nat \<Rightarrow> nat \<Rightarrow> u32 \<times> int \<Rightarrow> bool" where
  "tb_inv h d st \<longleftrightarrow> bit (fst st) h \<and> (\<forall>p. bit (fst st) p \<longrightarrow> p \<le> h \<and> p div d = h div d) \<and>
     snd st = int (h div d * d)"

lemma bit32: "bit (b :: u32) p \<Longrightarrow> p < 32"
  by (drule bit_imp_le_length) simp

text \<open>Blocks of \<open>2 * d\<close> bits and their halves.\<close>

lemma half_block:
  fixes p h d :: nat
  assumes "p \<le> h" "p div (2 * d) = h div (2 * d)"
  shows "odd (p div d) \<Longrightarrow> p div d = h div d" "even (h div d) \<Longrightarrow> p div d = h div d"
proof -
  have le: "p div d \<le> h div d" using assms(1) by (rule div_le_mono)
  have eq: "p div d div 2 = h div d div 2" using assms(2) by (simp add: div_mult2_eq mult.commute)
  have half: "a = c" if "a \<le> c" "a div 2 = c div 2" "odd a \<or> even c" for a c :: nat using that by presburger
  show "p div d = h div d" if "odd (p div d)" using half [OF le eq] that by simp
  show "p div d = h div d" if "even (h div d)" using half [OF le eq] that by simp
qed

lemma block_start: "h div (2 * d) * (2 * d) + (if odd (h div d) then d else 0) = h div d * (d :: nat)"
proof -
  have "k div 2 * (2 * d) + (if odd k then d else 0) = k * d" for k
  proof -
    have "k * d = (2 * (k div 2) + k mod 2) * d" by simp
    also have "\<dots> = k div 2 * (2 * d) + k mod 2 * d" by (simp only: distrib_right distrib_left ac_simps)
    finally show ?thesis by (simp add: odd_iff_mod_2_eq_one even_iff_mod_2_eq_zero)
  qed
  then have "h div d div 2 * (2 * d) + (if odd (h div d) then d else 0) = h div d * d" .
  then show ?thesis by (simp add: div_mult2_eq mult.commute)
qed

lemma top_bit_step_inv:
  assumes "tb_inv h e st" "\<forall>p<32. bit m p = odd (p div d)" "e = 2 * d" "n = int d"
  shows "tb_inv h d (top_bit_step m n st)"
proof -
  define b where "b = fst st"
  have inv: "bit b h" "snd st = int (h div (2 * d) * (2 * d))"
    using assms(1) unfolding tb_inv_def assms(3) b_def by blast+
  have le_h: "p \<le> h" and agree: "p div (2 * d) = h div (2 * d)" if "bit b p" for p
    using that assms(1) unfolding tb_inv_def assms(3) b_def by blast+
  have lt: "p < 32" if "bit b p" for p using that by (rule bit32)
  have low: "odd (p div d) \<Longrightarrow> p div d = h div d" "even (h div d) \<Longrightarrow> p div d = h div d" if "bit b p" for p
    using half_block [OF le_h [OF that] agree [OF that]] by blast+
  have nz: "b AND m \<noteq> 0 \<longleftrightarrow> odd (h div d)"
  proof
    assume "b AND m \<noteq> 0"
    then obtain p where "bit (b AND m) p" using bit_eqI [of "b AND m" 0] by auto
    then show "odd (h div d)" using low(1) [of p] lt [of p] assms(2) by (auto simp: bit_and_iff)
  next
    assume "odd (h div d)"
    then have "bit (b AND m) h" using inv assms(2) lt [OF inv(1)] by (simp add: bit_and_iff)
    then show "b AND m \<noteq> 0" by auto
  qed
  from arg_cong [OF block_start [of h d], of int]
  have v': "snd st + (if odd (h div d) then int d else 0) = int (h div d * d)"
    using inv(2) by (simp split: if_splits)
  show ?thesis
  proof (cases "odd (h div d)")
    case True
    then have eq: "top_bit_step m n st = (b AND m, int (h div d * d))"
      using nz v' assms(4) by (simp add: top_bit_step_def b_def)
    have "bit m h" using assms(2) lt [OF inv(1)] True by simp
    moreover have "p div d = h div d \<and> p \<le> h" if "bit b p" "bit m p" for p
      using low(1) [OF that(1)] assms(2) lt [OF that(1)] that le_h [OF that(1)] by simp
    ultimately show ?thesis unfolding tb_inv_def eq fst_conv snd_conv bit_and_iff using inv(1) by blast
  next
    case False
    then have eq: "top_bit_step m n st = (b, int (h div d * d))"
      using nz v' by (simp add: top_bit_step_def prod_eq_iff b_def)
    have "p div d = h div d \<and> p \<le> h" if "bit b p" for p
      using le_h [OF that] low(2) [OF that] False by simp
    then show ?thesis unfolding tb_inv_def eq fst_conv snd_conv using inv(1) by blast
  qed
qed

lemma top_bit_masks:
  "\<forall>p<32. bit (0xFFFF0000 :: u32) p = odd (p div 16)" "\<forall>p<32. bit (0xFF00FF00 :: u32) p = odd (p div 8)"
  "\<forall>p<32. bit (0xF0F0F0F0 :: u32) p = odd (p div 4)" "\<forall>p<32. bit (0xCCCCCCCC :: u32) p = odd (p div 2)"
  "\<forall>p<32. bit (0xAAAAAAAA :: u32) p = odd (p div 1)"
proof -
  have all: "\<forall>p<32. P p" if "list_all P [0..<32]" for P :: "nat \<Rightarrow> bool" using that by (simp add: list_all_iff)
  show "\<forall>p<32. bit (0xFFFF0000 :: u32) p = odd (p div 16)" by (rule all) code_simp
  show "\<forall>p<32. bit (0xFF00FF00 :: u32) p = odd (p div 8)" by (rule all) code_simp
  show "\<forall>p<32. bit (0xF0F0F0F0 :: u32) p = odd (p div 4)" by (rule all) code_simp
  show "\<forall>p<32. bit (0xCCCCCCCC :: u32) p = odd (p div 2)" by (rule all) code_simp
  show "\<forall>p<32. bit (0xAAAAAAAA :: u32) p = odd (p div 1)" by (rule all) code_simp
qed

lemma top_bit_highest:
  assumes "bit b h" "\<forall>p. bit b p \<longrightarrow> p \<le> h"
  shows "top_bit b = int h"
proof -
  have h: "h < 32" using assms(1) by (rule bit32)
  then have "p div 32 = h div 32" if "bit b p" for p using bit32 [OF that] by simp
  then have "tb_inv h 32 (b, 0)" using assms h unfolding tb_inv_def fst_conv snd_conv by simp
  then have "tb_inv h 16 (top_bit_step 0xFFFF0000 16 (b, 0))"
    by (rule top_bit_step_inv [OF _ top_bit_masks(1)]) simp_all
  then have "tb_inv h 8 (top_bit_step 0xFF00FF00 8 (top_bit_step 0xFFFF0000 16 (b, 0)))"
    by (rule top_bit_step_inv [OF _ top_bit_masks(2)]) simp_all
  then have "tb_inv h 4 (top_bit_step 0xF0F0F0F0 4 (top_bit_step 0xFF00FF00 8 (top_bit_step 0xFFFF0000 16 (b, 0))))"
    by (rule top_bit_step_inv [OF _ top_bit_masks(3)]) simp_all
  then have "tb_inv h 2 (top_bit_step 0xCCCCCCCC 2 (top_bit_step 0xF0F0F0F0 4
      (top_bit_step 0xFF00FF00 8 (top_bit_step 0xFFFF0000 16 (b, 0)))))"
    by (rule top_bit_step_inv [OF _ top_bit_masks(4)]) simp_all
  then have "tb_inv h 1 (top_bit_step 0xAAAAAAAA 1 (top_bit_step 0xCCCCCCCC 2 (top_bit_step 0xF0F0F0F0 4
      (top_bit_step 0xFF00FF00 8 (top_bit_step 0xFFFF0000 16 (b, 0))))))"
    by (rule top_bit_step_inv [OF _ top_bit_masks(5)]) simp_all
  then have "snd (top_bit_step 0xAAAAAAAA 1 (top_bit_step 0xCCCCCCCC 2 (top_bit_step 0xF0F0F0F0 4
      (top_bit_step 0xFF00FF00 8 (top_bit_step 0xFFFF0000 16 (b, 0)))))) = int (h div 1 * 1)"
    unfolding tb_inv_def by (elim conjE)
  moreover have "b \<noteq> 0" using assms(1) by auto
  ultimately show ?thesis by (simp add: top_bit_def)
qed

lemma top_bit_bounds:
  assumes "b \<noteq> 0"
  shows "\<exists>h<32. top_bit b = int h \<and> 2 ^ h \<le> uint b \<and> uint b < 2 ^ Suc h"
proof -
  define h where "h = Max {p. bit b p}"
  have fin: "finite {p. bit b p}"
    by (rule finite_subset [of _ "{..<32}"]) (auto dest: bit_imp_le_length)
  obtain p where "bit b p" using assms bit_eqI [of b 0] by auto
  then have h: "bit b h" "\<forall>p. bit b p \<longrightarrow> p \<le> h"
    using Max_in [OF fin] Max_ge [OF fin] by (auto simp: h_def)
  have "take_bit (Suc h) b = b"
    by (rule bit_eqI) (use h(2) in \<open>auto simp: bit_take_bit_iff less_Suc_eq_le\<close>)
  then have "take_bit (Suc h) (uint b) = uint b" by (metis unsigned_take_bit_eq)
  then have "uint b < 2 ^ Suc h" using take_bit_int_less_exp [of "Suc h" "uint b"] by metis
  moreover have "2 ^ h \<le> uint b"
  proof (rule ccontr)
    assume "\<not> 2 ^ h \<le> uint b"
    then have "take_bit h (uint b) = uint b" by (simp add: take_bit_int_eq_self_iff)
    then have "\<not> bit (uint b) h" using bit_take_bit_iff [of h "uint b" h] by simp
    then show False using h(1) bit32 [OF h(1)] by (simp add: bit_uint_iff)
  qed
  moreover have "h < 32" using h(1) by (rule bit32)
  ultimately show ?thesis using top_bit_highest [OF h] by blast
qed

lemma norm_pos:
  assumes "0 < x" "is32 x"
  shows "\<exists>t\<le>30. gsm0610_norm x = Inr (30 - int t) \<and> 2 ^ t \<le> x \<and> x < 2 ^ Suc t"
proof -
  have x: "uint (word_of_int x :: u32) = x"
    using assms by (simp add: uint_word_of_int is32_def)
  then obtain t where t: "top_bit (word_of_int x) = int t" "2 ^ t \<le> x" "x < 2 ^ Suc t"
    using top_bit_bounds [of "word_of_int x"] assms(1) by (metis less_irrefl uint_0_iff)
  have "(2 :: int) ^ t < 2 ^ 31" using t(2) assms(2) by (simp add: is32_def)
  then have "t \<le> 30" using power_strict_increasing_iff [of "2 :: int" t 31] by simp
  then show ?thesis using t assms(1) by (auto simp: gsm0610_norm_def)
qed

text \<open>
  \<open>gsm0610_norm\<close>, with the five mask tests of \<open>top_bit\<close>, gives the number of left shifts that normalise
  a positive 32-bit number: it lies between 0 and 30, and the shifted number lies between
  \<open>2 ^ 30\<close> and \<open>2 ^ 31\<close>, as the comment above the function asks for.
\<close>

lemma norm_normalises:
  assumes "0 < x" "is32 x"
  shows "\<exists>n. gsm0610_norm x = Inr n \<and> 0 \<le> n \<and> n \<le> 30 \<and>
    2 ^ 30 \<le> shl x (nat n) \<and> shl x (nat n) < 2 ^ 31"
proof -
  obtain t where t: "t \<le> 30" "gsm0610_norm x = Inr (30 - int t)" "2 ^ t \<le> x" "x < 2 ^ Suc t"
    using norm_pos [OF assms] by blast
  have n: "nat (30 - int t) = 30 - t" by simp
  have p: "(2 :: int) ^ t * 2 ^ (30 - t) = 2 ^ 30" using t(1) by (simp flip: power_add)
  have "2 ^ t * 2 ^ (30 - t) \<le> x * 2 ^ (30 - t)" using t(3) by (intro mult_right_mono) auto
  moreover have "x * 2 ^ (30 - t) < 2 ^ Suc t * 2 ^ (30 - t)" using t(4) by (intro mult_strict_right_mono) auto
  moreover have "(2 :: int) ^ Suc t * 2 ^ (30 - t) = 2 ^ 31" using p by simp
  ultimately have "2 ^ 30 \<le> shl x (nat (30 - int t))" "shl x (nat (30 - int t)) < 2 ^ 31"
    using p unfolding n shl_def by (simp_all only:)
  then show ?thesis using t(1,2) by auto
qed

lemma norm_normalises_witness:
  "\<exists>n. gsm0610_norm 5 = Inr n \<and> 2 ^ 30 \<le> shl 5 (nat n) \<and> n \<le> 30"
  using norm_normalises [of 5] by (auto simp: is32_def)

lemma gsm_div_loop_eq:
  assumes "0 \<le> num" "num \<le> d" "0 < d" "d \<le> 32767" "0 \<le> q" "(q + 1) * 2 ^ k \<le> 32768"
  shows "gsm_div_loop k num d q = q * 2 ^ k + min (2 ^ k - 1) (num * 2 ^ k div d)"
  using assms
proof (induction k arbitrary: num q)
  case 0
  then show ?case using pos_imp_zdiv_nonneg_iff [of d num] by (simp add: min_def)
next
  case (Suc k)
  have "(q + 1) * 2 * 1 \<le> (q + 1) * 2 * 2 ^ k" using Suc.prems(5) by (intro mult_left_mono) auto
  then have q: "q * 2 + 1 \<le> 32767" using Suc.prems(6) by (simp add: algebra_simps)
  have i: "i16 (q * 2) = q * 2" "i16 (q * 2 + 1) = q * 2 + 1"
    using q Suc.prems(5) by (auto intro!: i16_id simp: is16_def)
  have pow1: "(q * 2 + 1 + 1) * 2 ^ k \<le> 32768" using Suc.prems(6) by (simp add: algebra_simps)
  have "(q * 2 + 1) * 2 ^ k \<le> (q * 2 + 1 + 1) * 2 ^ k" by (intro mult_right_mono) simp_all
  with pow1 have pow: "(q * 2 + 1) * 2 ^ k \<le> 32768" by linarith
  have n2: "i32 (num * 2) = num * 2" using Suc.prems(1,2,4) by (intro i32_id) (simp add: is32_def)
  show ?case
  proof (cases "num * 2 \<ge> d")
    case True
    have "gsm_div_loop k (num * 2 - d) d (q * 2 + 1) =
        (q * 2 + 1) * 2 ^ k + min (2 ^ k - 1) ((num * 2 - d) * 2 ^ k div d)"
      using Suc.prems True pow1 by (intro Suc.IH) auto
    moreover have "(num * 2 - d) * 2 ^ k div d = num * 2 ^ Suc k div d - 2 ^ k"
    proof -
      have "num * 2 ^ Suc k = (num * 2 - d) * 2 ^ k + 2 ^ k * d" by (simp add: algebra_simps)
      then show ?thesis using Suc.prems(3) by simp
    qed
    ultimately show ?thesis
      using True i n2 by (simp add: algebra_simps min_def)
  next
    case False
    have small: "num * 2 ^ Suc k < d * 2 ^ k" using False by (simp add: mult.assoc mult.left_commute)
    have lt: "num * 2 ^ Suc k div d < 2 ^ k"
      using Suc.prems(3) small by (intro int_div_less) (simp_all add: mult.commute)
    have "gsm_div_loop k (num * 2) d (q * 2) = q * 2 * 2 ^ k + min (2 ^ k - 1) (num * 2 * 2 ^ k div d)"
      using Suc.prems False pow by (intro Suc.IH) auto
    moreover have "min (2 ^ k - 1) (num * 2 ^ Suc k div d) = num * 2 ^ Suc k div d"
      "min (2 ^ Suc k - 1) (num * 2 ^ Suc k div d) = num * 2 ^ Suc k div d"
      using lt zero_less_power [of "2 :: int" k] unfolding power_Suc by linarith+
    ultimately show ?thesis
      using False i n2 by (simp add: mult.assoc)
  qed
qed

lemma gsm_div_eq:
  assumes "0 \<le> num" "num \<le> denom" "0 < denom" "is16 denom"
  shows "gsm_div num denom = Inr (min 32767 (num * 32768 div denom))"
  using gsm_div_loop_eq [of num denom 0 15] assms by (simp add: gsm_div_def is16_def)

text \<open>
  \<open>gsm_div\<close> is the division its comment describes: for 16-bit numbers with \<open>denom >= num >= 0\<close> and
  \<open>denom > 0\<close> the assertion holds and the result is the quotient as a 15-bit fraction, rounded down, with 32767 for the quotient 1.
\<close>

lemma gsm_div_exact:
  assumes "0 \<le> num" "num \<le> denom" "0 < denom" "is16 denom"
  shows "gsm_div num denom = Inr (min 32767 (num * 32768 div denom))"
  using assms by (rule gsm_div_eq)

lemma gsm_div_exact_witness:
  "gsm_div 1 3 = Inr 10922 \<and> gsm_div 5 5 = Inr 32767"
  using gsm_div_exact [of 1 3] gsm_div_exact [of 5 5] by (simp add: is16_def)

end
