(* ===== verification/Gsm_Pack.thy ===== *)
theory Gsm_Pack
  imports Gsm_Arith
begin

text \<open>
  The packings of a GSM 06.10 frame, from \<^verbatim>\<open>src/jni/spandsp/gsm0610_encode.c\<close> and
  \<^verbatim>\<open>src/jni/spandsp/gsm0610_decode.c\<close>: one parameter per byte, the 33-byte packing of VoIP, and the
  65-byte packing of two frames of the WAV49 format. Bytes are integers from 0 to 255; the
  shift register of WAV49 has 16 bits.
\<close>

section \<open>Frames\<close>

record gsm0610_frame_t =
  LARc :: "int list"
  Nc :: "int list"
  bc :: "int list"
  Mc :: "int list"
  xmaxc :: "int list"
  xMc :: "int list list"

definition GSM0610_MAGIC :: int where "GSM0610_MAGIC = 13"

definition u8i :: "int \<Rightarrow> int" where
  "u8i x = x mod 256"

definition lsl :: "int \<Rightarrow> nat \<Rightarrow> int" where
  "lsl x n = push_bit n x"

definition asr :: "int \<Rightarrow> nat \<Rightarrow> int" where
  "asr x n = drop_bit n x"

section \<open>One byte per parameter\<close>

definition gsm0610_pack_none :: "gsm0610_frame_t \<Rightarrow> int list" where
  "gsm0610_pack_none s =
     map (\<lambda>j. u8i (LARc s ! j)) [0..<8] @
     concat (map (\<lambda>j. [u8i (Nc s ! j), u8i (bc s ! j), u8i (Mc s ! j), u8i (xmaxc s ! j)] @
                      map (\<lambda>k. u8i (xMc s ! j ! k)) [0..<13]) [0..<4])"

definition gsm0610_unpack_none :: "int list \<Rightarrow> gsm0610_frame_t" where
  "gsm0610_unpack_none c =
     \<lparr>LARc = map (\<lambda>j. c ! j) [0..<8],
      Nc = map (\<lambda>j. c ! (8 + 17 * j)) [0..<4],
      bc = map (\<lambda>j. c ! (8 + 17 * j + 1)) [0..<4],
      Mc = map (\<lambda>j. c ! (8 + 17 * j + 2)) [0..<4],
      xmaxc = map (\<lambda>j. c ! (8 + 17 * j + 3)) [0..<4],
      xMc = map (\<lambda>j. map (\<lambda>k. c ! (8 + 17 * j + 4 + k)) [0..<13]) [0..<4]\<rparr>"

section \<open>VoIP\<close>

definition voip_head :: "int list \<Rightarrow> int list" where
  "voip_head L =
    [u8i (lsl (GSM0610_MAGIC AND 0xF) 4 OR (asr (L ! 0) 2 AND 0xF)),
     u8i (lsl (L ! 0 AND 0x3) 6 OR (L ! 1 AND 0x3F)),
     u8i (lsl (L ! 2 AND 0x1F) 3 OR (asr (L ! 3) 2 AND 0x7)),
     u8i (lsl (L ! 3 AND 0x3) 6 OR lsl (L ! 4 AND 0xF) 2 OR (asr (L ! 5) 2 AND 0x3)),
     u8i (lsl (L ! 5 AND 0x3) 6 OR lsl (L ! 6 AND 0x7) 3 OR (L ! 7 AND 0x7))]"

definition voip_sub :: "int \<Rightarrow> int \<Rightarrow> int \<Rightarrow> int \<Rightarrow> int list \<Rightarrow> int list" where
  "voip_sub n b m xm x =
    [u8i (lsl (n AND 0x7F) 1 OR (asr b 1 AND 0x1)),
     u8i (lsl (b AND 0x1) 7 OR lsl (m AND 0x3) 5 OR (asr xm 1 AND 0x1F)),
     u8i (lsl (xm AND 0x1) 7 OR lsl (x ! 0 AND 0x7) 4 OR lsl (x ! 1 AND 0x7) 1 OR (asr (x ! 2) 2 AND 0x1)),
     u8i (lsl (x ! 2 AND 0x3) 6 OR lsl (x ! 3 AND 0x7) 3 OR (x ! 4 AND 0x7)),
     u8i (lsl (x ! 5 AND 0x7) 5 OR lsl (x ! 6 AND 0x7) 2 OR (asr (x ! 7) 1 AND 0x3)),
     u8i (lsl (x ! 7 AND 0x1) 7 OR lsl (x ! 8 AND 0x7) 4 OR lsl (x ! 9 AND 0x7) 1 OR (asr (x ! 10) 2 AND 0x1)),
     u8i (lsl (x ! 10 AND 0x3) 6 OR lsl (x ! 11 AND 0x7) 3 OR (x ! 12 AND 0x7))]"

definition gsm0610_pack_voip :: "gsm0610_frame_t \<Rightarrow> int list" where
  "gsm0610_pack_voip s =
     voip_head (LARc s) @
     concat (map (\<lambda>i. voip_sub (Nc s ! i) (bc s ! i) (Mc s ! i) (xmaxc s ! i) (xMc s ! i)) [0..<4])"

definition unvoip_head_bytes :: "int \<Rightarrow> int \<Rightarrow> int \<Rightarrow> int \<Rightarrow> int \<Rightarrow> int list" where
  "unvoip_head_bytes c0 c1 c2 c3 c4 =
    [lsl (c0 AND 0xF) 2 OR (asr c1 6 AND 0x3),
     c1 AND 0x3F,
     asr c2 3 AND 0x1F,
     lsl (c2 AND 0x7) 2 OR (asr c3 6 AND 0x3),
     asr c3 2 AND 0xF,
     lsl (c3 AND 0x3) 2 OR (asr c4 6 AND 0x3),
     asr c4 3 AND 0x7,
     c4 AND 0x7]"

definition unvoip_head :: "int list \<Rightarrow> int list" where
  "unvoip_head c = unvoip_head_bytes (c ! 0) (c ! 1) (c ! 2) (c ! 3) (c ! 4)"

definition unvoip_bytes ::
  "int \<Rightarrow> int \<Rightarrow> int \<Rightarrow> int \<Rightarrow> int \<Rightarrow> int \<Rightarrow> int \<Rightarrow> int \<times> int \<times> int \<times> int \<times> int list" where
  "unvoip_bytes c0 c1 c2 c3 c4 c5 c6 =
    (asr c0 1 AND 0x7F,
     lsl (c0 AND 0x1) 1 OR (asr c1 7 AND 0x1),
     asr c1 5 AND 0x3,
     lsl (c1 AND 0x1F) 1 OR (asr c2 7 AND 0x1),
     [asr c2 4 AND 0x7,
      asr c2 1 AND 0x7,
      lsl (c2 AND 0x1) 2 OR (asr c3 6 AND 0x3),
      asr c3 3 AND 0x7,
      c3 AND 0x7,
      asr c4 5 AND 0x7,
      asr c4 2 AND 0x7,
      lsl (c4 AND 0x3) 1 OR (asr c5 7 AND 0x1),
      asr c5 4 AND 0x7,
      asr c5 1 AND 0x7,
      lsl (c5 AND 0x1) 2 OR (asr c6 6 AND 0x3),
      asr c6 3 AND 0x7,
      c6 AND 0x7])"

definition unvoip_sub :: "int list \<Rightarrow> int \<times> int \<times> int \<times> int \<times> int list" where
  "unvoip_sub c = unvoip_bytes (c ! 0) (c ! 1) (c ! 2) (c ! 3) (c ! 4) (c ! 5) (c ! 6)"

definition frame_of :: "int list \<Rightarrow> (int \<times> int \<times> int \<times> int \<times> int list) list \<Rightarrow> gsm0610_frame_t" where
  "frame_of L subs =
     \<lparr>LARc = L, Nc = map fst subs, bc = map (fst \<circ> snd) subs, Mc = map (fst \<circ> snd \<circ> snd) subs,
      xmaxc = map (fst \<circ> snd \<circ> snd \<circ> snd) subs, xMc = map (snd \<circ> snd \<circ> snd \<circ> snd) subs\<rparr>"

definition gsm0610_unpack_voip :: "int list \<Rightarrow> gsm0610_frame_t" where
  "gsm0610_unpack_voip c =
     frame_of (unvoip_head c) (map (\<lambda>i. unvoip_sub (drop (5 + 7 * i) c)) [0..<4])"

section \<open>Fields of a byte\<close>

definition bits :: "nat \<Rightarrow> int \<Rightarrow> bool" where
  "bits n x \<longleftrightarrow> take_bit n x = x"

lemma bits_iff: "bits n x \<longleftrightarrow> 0 \<le> x \<and> x < 2 ^ n"
  unfolding bits_def by (rule take_bit_int_eq_self_iff)

lemma bits_bit: "bits n x \<Longrightarrow> bit x k \<Longrightarrow> k < n"
  by (metis bits_def bit_take_bit_iff)

lemma bit_masked:
  "bit ((x :: int) AND 1) k \<longleftrightarrow> k < 1 \<and> bit x k" "bit (x AND 3) k \<longleftrightarrow> k < 2 \<and> bit x k"
  "bit (x AND 7) k \<longleftrightarrow> k < 3 \<and> bit x k" "bit (x AND 15) k \<longleftrightarrow> k < 4 \<and> bit x k"
  "bit (x AND 31) k \<longleftrightarrow> k < 5 \<and> bit x k" "bit (x AND 63) k \<longleftrightarrow> k < 6 \<and> bit x k"
  "bit (x AND 127) k \<longleftrightarrow> k < 7 \<and> bit x k"
proof -
  have m: "bit (x AND mask n) k \<longleftrightarrow> k < n \<and> bit x k" for n
    by (auto simp: bit_and_iff bit_mask_iff)
  show "bit ((x :: int) AND 1) k \<longleftrightarrow> k < 1 \<and> bit x k" "bit (x AND 3) k \<longleftrightarrow> k < 2 \<and> bit x k"
    "bit (x AND 7) k \<longleftrightarrow> k < 3 \<and> bit x k" "bit (x AND 15) k \<longleftrightarrow> k < 4 \<and> bit x k"
    "bit (x AND 31) k \<longleftrightarrow> k < 5 \<and> bit x k" "bit (x AND 63) k \<longleftrightarrow> k < 6 \<and> bit x k"
    "bit (x AND 127) k \<longleftrightarrow> k < 7 \<and> bit x k"
    using m [of 1] m [of 2] m [of 3] m [of 4] m [of 5] m [of 6] m [of 7]
    by (simp_all add: mask_eq_exp_minus_1)
qed

lemma bit_u8i: "bit (u8i x) k \<longleftrightarrow> k < 8 \<and> bit x k"
  by (simp add: u8i_def bit_take_bit_iff flip: take_bit_eq_mod [of 8, simplified])

lemma bit_lsl: "bit (lsl x n) k \<longleftrightarrow> n \<le> k \<and> bit x (k - n)"
  by (simp add: lsl_def bit_push_bit_iff)

lemma bit_asr: "bit (asr x n) k \<longleftrightarrow> bit x (k + n)"
  by (simp add: asr_def bit_drop_bit_eq add.commute)

lemmas field_bits = bit_or_iff bit_masked bit_u8i bit_lsl bit_asr bit_take_bit_iff

text \<open>Equality of two bytes' worth of bits, position by position.\<close>

lemma byte_eqI:
  assumes "\<And>k. 8 \<le> k \<Longrightarrow> \<not> bit (x :: int) k" and "\<And>k. 8 \<le> k \<Longrightarrow> \<not> bit y k"
    and "bit x 0 = bit y 0" "bit x 1 = bit y 1" "bit x 2 = bit y 2" "bit x 3 = bit y 3"
    "bit x 4 = bit y 4" "bit x 5 = bit y 5" "bit x 6 = bit y 6" "bit x 7 = bit y 7"
  shows "x = y"
proof (rule bit_eqI)
  fix k :: nat
  consider "8 \<le> k" | "k = 0" | "k = 1" | "k = 2" | "k = 3" | "k = 4" | "k = 5" | "k = 6" | "k = 7"
    by linarith
  then show "bit x k = bit y k" using assms by cases auto
qed

lemma nth5: "(a # b # c # d # e # r) ! 0 = a" "(a # b # c # d # e # r) ! 1 = b" "(a # b # c # d # e # r) ! 2 = c"
  "(a # b # c # d # e # r) ! 3 = d" "(a # b # c # d # e # r) ! 4 = e"
  "(a # b # c # d # e # f # g # r) ! 5 = f" "(a # b # c # d # e # f # g # r) ! 6 = g"
  by simp_all

lemma voip_sub_fields:
  "unvoip_sub (voip_sub n b m xm x @ r) =
    (take_bit 7 n, take_bit 2 b, take_bit 2 m, take_bit 6 xm,
     [take_bit 3 (x ! 0), take_bit 3 (x ! 1), take_bit 3 (x ! 2), take_bit 3 (x ! 3), take_bit 3 (x ! 4),
      take_bit 3 (x ! 5), take_bit 3 (x ! 6), take_bit 3 (x ! 7), take_bit 3 (x ! 8), take_bit 3 (x ! 9),
      take_bit 3 (x ! 10), take_bit 3 (x ! 11), take_bit 3 (x ! 12)])"
  unfolding unvoip_sub_def voip_sub_def append.simps nth5 unvoip_bytes_def prod.inject list.inject
  by (intro conjI refl; rule byte_eqI; simp only: field_bits; simp; auto simp: numeral_2_eq_2)
lemma voip_head_fields:
  "unvoip_head (voip_head L @ r) =
    [take_bit 6 (L ! 0), take_bit 6 (L ! 1), take_bit 5 (L ! 2), take_bit 5 (L ! 3), take_bit 4 (L ! 4),
     take_bit 4 (L ! 5), take_bit 3 (L ! 6), take_bit 3 (L ! 7)]"
  unfolding unvoip_head_def voip_head_def append.simps nth5 unvoip_head_bytes_def list.inject
  by (intro conjI refl; rule byte_eqI; simp only: field_bits; simp; auto simp: numeral_2_eq_2 numeral_3_eq_3)

section \<open>Frames in range\<close>

text \<open>The widths of the parameters: 6, 6, 5, 5, 4, 4, 3, 3 bits for the log area ratios, and so on.\<close>

definition lar_widths :: "nat list" where
  "lar_widths = [6, 6, 5, 5, 4, 4, 3, 3]"

definition frame_ok :: "gsm0610_frame_t \<Rightarrow> bool" where
  "frame_ok s \<longleftrightarrow> list_all2 bits lar_widths (LARc s) \<and>
     length (Nc s) = 4 \<and> list_all (bits 7) (Nc s) \<and> length (bc s) = 4 \<and> list_all (bits 2) (bc s) \<and>
     length (Mc s) = 4 \<and> list_all (bits 2) (Mc s) \<and> length (xmaxc s) = 4 \<and> list_all (bits 6) (xmaxc s) \<and>
     length (xMc s) = 4 \<and> list_all (\<lambda>x. length x = 13 \<and> list_all (bits 3) x) (xMc s)"

lemma list4: "length xs = 4 \<Longrightarrow> xs = [xs ! 0, xs ! 1, xs ! 2, xs ! 3]"
  by (auto simp: length_Suc_conv numeral_eq_Suc)

lemma list13: "length xs = 13 \<Longrightarrow> xs = [xs ! 0, xs ! 1, xs ! 2, xs ! 3, xs ! 4, xs ! 5, xs ! 6, xs ! 7,
    xs ! 8, xs ! 9, xs ! 10, xs ! 11, xs ! 12]"
  by (auto simp: length_Suc_conv numeral_eq_Suc)

lemma upt4: "[0..<4] = [0, 1, 2, 3 :: nat]"
  by (simp add: upt_rec)

lemma take3_list:
  assumes "length x = 13" "list_all (bits 3) x"
  shows "[take_bit 3 (x ! 0), take_bit 3 (x ! 1), take_bit 3 (x ! 2), take_bit 3 (x ! 3), take_bit 3 (x ! 4),
      take_bit 3 (x ! 5), take_bit 3 (x ! 6), take_bit 3 (x ! 7), take_bit 3 (x ! 8), take_bit 3 (x ! 9),
      take_bit 3 (x ! 10), take_bit 3 (x ! 11), take_bit 3 (x ! 12)] = x"
  using assms list13 [OF assms(1)] by (simp add: list_all_length bits_def)

lemma voip_sub_ok:
  assumes "bits 7 n" "bits 2 b" "bits 2 m" "bits 6 xm" "length x = 13" "list_all (bits 3) x"
  shows "unvoip_sub (voip_sub n b m xm x @ r) = (n, b, m, xm, x)"
  using assms(1-4) unfolding voip_sub_fields take3_list [OF assms(5,6)] by (simp add: bits_def)

lemma lar_list:
  assumes "list_all2 bits lar_widths L"
  shows "[take_bit 6 (L ! 0), take_bit 6 (L ! 1), take_bit 5 (L ! 2), take_bit 5 (L ! 3), take_bit 4 (L ! 4),
     take_bit 4 (L ! 5), take_bit 3 (L ! 6), take_bit 3 (L ! 7)] = L"
  using assms by (auto simp: lar_widths_def list_all2_Cons1 bits_def)

lemma length_voip [simp]: "length (voip_head L) = 5" "length (voip_sub n b m xm x) = 7"
  by (simp_all add: voip_head_def voip_sub_def)

definition sub_at :: "gsm0610_frame_t \<Rightarrow> nat \<Rightarrow> int \<times> int \<times> int \<times> int \<times> int list" where
  "sub_at s i = (Nc s ! i, bc s ! i, Mc s ! i, xmaxc s ! i, xMc s ! i)"

lemma frame_of_subs: "frame_ok s \<Longrightarrow> frame_of (LARc s) (map (sub_at s) [0..<4]) = s"
  using list4 [of "Nc s"] list4 [of "bc s"] list4 [of "Mc s"] list4 [of "xmaxc s"] list4 [of "xMc s"]
  by (simp add: frame_of_def upt4 frame_ok_def sub_at_def)

lemma voip_unpack_pack:
  assumes "frame_ok s"
  shows "gsm0610_unpack_voip (gsm0610_pack_voip s @ rest) = s \<and> length (gsm0610_pack_voip s) = 33 \<and>
    (\<forall>c\<in>set (gsm0610_pack_voip s). 0 \<le> c \<and> c < 256)"
proof -
  define h where "h = voip_head (LARc s)"
  define v where "v i = voip_sub (Nc s ! i) (bc s ! i) (Mc s ! i) (xmaxc s ! i) (xMc s ! i)" for i
  have len: "length h = 5" "length (v i) = 7" for i by (simp_all add: h_def v_def)
  have p: "gsm0610_pack_voip s = h @ v 0 @ v 1 @ v 2 @ v 3"
    by (simp add: gsm0610_pack_voip_def upt4 h_def v_def)
  have u: "unvoip_sub (v i @ r) = sub_at s i" if "i < 4" for i r
    using assms that unfolding v_def sub_at_def by (intro voip_sub_ok) (auto simp: frame_ok_def list_all_length)
  have hd: "unvoip_head (h @ r) = LARc s" for r
    unfolding h_def voip_head_fields by (rule lar_list) (use assms in \<open>simp add: frame_ok_def\<close>)
  have "gsm0610_unpack_voip ((h @ v 0 @ v 1 @ v 2 @ v 3) @ rest) =
      frame_of (LARc s) (map (sub_at s) [0..<4])"
    using hd u by (simp add: gsm0610_unpack_voip_def upt4 len)
  also have "\<dots> = s" using assms by (rule frame_of_subs)
  finally have "gsm0610_unpack_voip (gsm0610_pack_voip s @ rest) = s" by (simp only: p)
  moreover have "\<forall>c\<in>set (h @ v 0 @ v 1 @ v 2 @ v 3). 0 \<le> c \<and> c < 256"
    by (auto simp: h_def v_def voip_head_def voip_sub_def u8i_def)
  ultimately show ?thesis using len by (simp add: p)
qed

text \<open>
  The VoIP packing loses nothing: a frame whose parameters are within their widths packs into 33
  bytes, each from 0 to 255, and unpacking those bytes, whatever follows them, gives the frame
  back.
\<close>

lemma voip_round_trip:
  assumes "frame_ok s"
  shows "gsm0610_unpack_voip (gsm0610_pack_voip s @ rest) = s \<and> length (gsm0610_pack_voip s) = 33 \<and>
    (\<forall>c\<in>set (gsm0610_pack_voip s). 0 \<le> c \<and> c < 256)"
  using assms by (rule voip_unpack_pack)

definition demo_frame :: gsm0610_frame_t where
  "demo_frame = \<lparr>LARc = [63, 1, 31, 2, 15, 3, 7, 4], Nc = [40, 120, 77, 50], bc = [0, 1, 2, 3], Mc = [3, 2, 1, 0],
     xmaxc = [63, 0, 21, 42], xMc = [[0, 1, 2, 3, 4, 5, 6, 7, 0, 1, 2, 3, 4], [7, 7, 7, 7, 7, 7, 7, 7, 7, 7, 7, 7, 7],
       [0, 0, 0, 0, 0, 0, 0, 0, 0, 0, 0, 0, 0], [5, 2, 5, 2, 5, 2, 5, 2, 5, 2, 5, 2, 5]]\<rparr>"

lemma demo_frame_ok: "frame_ok demo_frame"
  by (simp add: frame_ok_def demo_frame_def lar_widths_def bits_iff)

theorem voip_round_trip_witness:
  "gsm0610_unpack_voip (gsm0610_pack_voip demo_frame @ [9]) = demo_frame"
  using voip_round_trip [OF demo_frame_ok, of "[9]"] by simp

section \<open>What the codec relies on\<close>

text \<open>
  The contract of a packing: what is packed can be unpacked, a packed block has a fixed size, and
  (in the second locale) whatever is unpacked has its parameters within their widths.
\<close>

locale frame_packing =
  fixes pack :: "'f \<Rightarrow> int list" and unpack :: "int list \<Rightarrow> 'f" and block :: nat and ok :: "'f \<Rightarrow> bool"
  assumes unpack_pack: "ok f \<Longrightarrow> unpack (pack f) = f"
    and length_pack: "ok f \<Longrightarrow> length (pack f) = block"
    and block_pos: "0 < block"
begin

text \<open>The first block of a stream of packed frames, and the rest of the stream.\<close>

lemma first_block:
  assumes "ok f"
  shows "block \<le> length (pack f @ rest)" "unpack (take block (pack f @ rest)) = f" "drop block (pack f @ rest) = rest"
  using assms by (simp_all add: length_pack unpack_pack)

lemma pack_inj: "ok f \<Longrightarrow> ok g \<Longrightarrow> pack f = pack g \<Longrightarrow> f = g"
  by (metis unpack_pack)

lemma length_stream: "list_all ok fs \<Longrightarrow> length (concat (map pack fs)) = block * length fs"
  by (induction fs) (simp_all add: length_pack)

end

locale masked_packing = frame_packing +
  assumes unpack_ok: "ok (unpack c)"
begin

lemma any_block_repacks: "unpack (pack (unpack c)) = unpack c"
  by (simp add: unpack_pack unpack_ok)

end

lemma bitsI: "(\<And>k. bit x k \<Longrightarrow> k < n) \<Longrightarrow> bits n x"
  unfolding bits_def by (rule bit_eqI) (auto simp: bit_take_bit_iff)

text \<open>The parameters of a sub-frame within their widths.\<close>

definition sub_bits :: "int \<times> int \<times> int \<times> int \<times> int list \<Rightarrow> bool" where
  "sub_bits t = (case t of (n, b, m, xm, x) \<Rightarrow> bits 7 n \<and> bits 2 b \<and> bits 2 m \<and> bits 6 xm \<and>
     length x = 13 \<and> list_all (bits 3) x)"

lemma frame_of_bits:
  assumes "list_all2 bits lar_widths L" "length subs = 4" "list_all sub_bits subs"
  shows "frame_ok (frame_of L subs)"
  using assms by (auto simp: frame_ok_def frame_of_def list_all_iff sub_bits_def)

lemma unvoip_sub_bits: "sub_bits (unvoip_sub d)"
  unfolding sub_bits_def unvoip_sub_def unvoip_bytes_def split_conv list.pred_inject length_Cons
  by (intro conjI; (simp; fail)?; rule bitsI; simp only: field_bits; auto)

lemma unpack_voip_ok: "frame_ok (gsm0610_unpack_voip c)"
proof -
  have "list_all2 bits lar_widths (unvoip_head c)"
    unfolding unvoip_head_def unvoip_head_bytes_def lar_widths_def list_all2_Cons
    by (intro conjI; (simp; fail)?; rule bitsI; simp only: field_bits; auto)
  then show ?thesis
    unfolding gsm0610_unpack_voip_def by (rule frame_of_bits) (simp_all add: list_all_iff unvoip_sub_bits)
qed

lemma u8i_bits: "bits n x \<Longrightarrow> n \<le> 8 \<Longrightarrow> u8i x = x"
proof -
  assume "bits n x" "n \<le> 8"
  moreover from this have "(2 :: int) ^ n \<le> 2 ^ 8" by (intro power_increasing) auto
  ultimately show "u8i x = x" by (simp add: u8i_def bits_iff)
qed

text \<open>With parameters within their widths the casts of \<open>gsm0610_pack_none\<close> change nothing: a list of eight and four lists of 17.\<close>

definition sub_params :: "gsm0610_frame_t \<Rightarrow> nat \<Rightarrow> int list" where
  "sub_params s j = [Nc s ! j, bc s ! j, Mc s ! j, xmaxc s ! j] @ xMc s ! j"

lemma pack_none_params:
  assumes "frame_ok s"
  shows "length (LARc s) = 8" "\<And>j. j < 4 \<Longrightarrow> length (sub_params s j) = 17"
    "gsm0610_pack_none s = LARc s @ concat (map (sub_params s) [0..<4])"
proof -
  show l: "length (LARc s) = 8" using assms by (auto simp: frame_ok_def lar_widths_def dest: list_all2_lengthD)
  have "u8i (LARc s ! i) = LARc s ! i" if "i < 8" for i
  proof (rule u8i_bits)
    show "bits (lar_widths ! i) (LARc s ! i)" using assms that l by (auto simp: frame_ok_def intro: list_all2_nthD2)
    show "lar_widths ! i \<le> 8" using that by (auto simp: lar_widths_def nth_Cons' split: if_splits)
  qed
  then have L: "map (\<lambda>j. u8i (LARc s ! j)) [0..<8] = LARc s" using l by (auto intro: nth_equalityI)
  have b: "bits 7 (Nc s ! j)" "bits 2 (bc s ! j)" "bits 2 (Mc s ! j)" "bits 6 (xmaxc s ! j)" "length (xMc s ! j) = 13"
    "\<And>k. k < 13 \<Longrightarrow> bits 3 (xMc s ! j ! k)" if "j < 4" for j using assms that by (auto simp: frame_ok_def list_all_length)
  then show "length (sub_params s j) = 17" if "j < 4" for j using that by (simp add: sub_params_def)
  have "map (\<lambda>k. u8i (xMc s ! j ! k)) [0..<13] = xMc s ! j" if "j < 4" for j
    by (rule nth_equalityI) (use b(5) [OF that] u8i_bits [OF b(6) [OF that]] in simp_all)
  then have "[u8i (Nc s ! j), u8i (bc s ! j), u8i (Mc s ! j), u8i (xmaxc s ! j)] @ map (\<lambda>k. u8i (xMc s ! j ! k)) [0..<13] =
      sub_params s j" if "j < 4" for j
    using that u8i_bits [OF b(1)] u8i_bits [OF b(2)] u8i_bits [OF b(3)] u8i_bits [OF b(4)] by (simp add: sub_params_def)
  then show "gsm0610_pack_none s = LARc s @ concat (map (sub_params s) [0..<4])"
    unfolding gsm0610_pack_none_def L by (intro arg_cong [of _ _ "\<lambda>z. LARc s @ concat z"] map_cong) simp_all
qed

lemma none_unpack_pack:
  assumes "frame_ok s"
  shows "gsm0610_unpack_none (gsm0610_pack_none s @ rest) = s" "length (gsm0610_pack_none s) = 76"
proof -
  note l = pack_none_params(1,2) [OF assms]
  have p: "gsm0610_pack_none s = LARc s @ sub_params s 0 @ sub_params s 1 @ sub_params s 2 @ sub_params s 3"
    using pack_none_params(3) [OF assms] by (simp add: upt4)
  then show "length (gsm0610_pack_none s) = 76" using l by simp
  define c where "c = gsm0610_pack_none s @ rest"
  have c: "c ! (8 + 17 * j + i) = sub_params s j ! i" if "j < 4" "i < 17" for j i
  proof -
    consider "j = 0" | "j = 1" | "j = 2" | "j = 3" using \<open>j < 4\<close> by linarith
    then show ?thesis using \<open>i < 17\<close> l by cases (simp_all add: c_def p nth_append)
  qed
  have n: "c ! (8 + 17 * j) = Nc s ! j" "c ! (8 + 17 * j + 1) = bc s ! j" "c ! (8 + 17 * j + 2) = Mc s ! j"
    "c ! (8 + 17 * j + 3) = xmaxc s ! j" "map (\<lambda>k. c ! (8 + 17 * j + 4 + k)) [0..<13] = xMc s ! j" if "j < 4" for j
  proof -
    show "c ! (8 + 17 * j) = Nc s ! j" "c ! (8 + 17 * j + 1) = bc s ! j" "c ! (8 + 17 * j + 2) = Mc s ! j"
      "c ! (8 + 17 * j + 3) = xmaxc s ! j"
      using c [OF that, of 0] c [OF that, of 1] c [OF that, of 2] c [OF that, of 3] by (simp_all add: sub_params_def)
    have "c ! (8 + 17 * j + 4 + k) = xMc s ! j ! k" if "k < 13" for k
      using c [OF \<open>j < 4\<close>, of "4 + k"] that by (simp add: sub_params_def add.assoc)
    then show "map (\<lambda>k. c ! (8 + 17 * j + 4 + k)) [0..<13] = xMc s ! j"
      using l(2) [OF that] by (intro nth_equalityI) (simp_all add: sub_params_def)
  qed
  have "map (\<lambda>j. c ! j) [0..<8] = LARc s" using l(1) by (intro nth_equalityI) (simp_all add: c_def p nth_append)
  then have "gsm0610_unpack_none c = frame_of (LARc s) (map (sub_at s) [0..<4])"
    using n by (simp add: gsm0610_unpack_none_def frame_of_def sub_at_def)
  then show "gsm0610_unpack_none (gsm0610_pack_none s @ rest) = s" using frame_of_subs [OF assms] by (simp add: c_def)
qed

interpretation voip: masked_packing gsm0610_pack_voip gsm0610_unpack_voip 33 frame_ok
proof
  fix f assume "frame_ok f"
  then show "gsm0610_unpack_voip (gsm0610_pack_voip f) = f" "length (gsm0610_pack_voip f) = 33"
    using voip_unpack_pack [of f "[]"] by simp_all
qed (simp_all add: unpack_voip_ok)

interpretation none: frame_packing gsm0610_pack_none gsm0610_unpack_none 76 frame_ok
  using none_unpack_pack(1) [of _ "[]"] none_unpack_pack(2) by unfold_locales simp_all

end
