(* ===== verification/Gsm_Wav49.thy ===== *)
theory Gsm_Wav49
  imports Gsm_Pack
begin

text \<open>
  The WAV49 packing of two frames into 65 bytes, \<open>gsm0610_pack_wav49\<close> of
  \<^verbatim>\<open>src/jni/spandsp/gsm0610_encode.c\<close> and \<open>gsm0610_unpack_wav49\<close> of
  \<^verbatim>\<open>src/jni/spandsp/gsm0610_decode.c\<close>. Both work with a 16-bit shift register: the packer shifts
  parameters in at the top and takes bytes from within, the unpacker adds bytes at the top and
  takes parameters from the bottom. The state is the register and the bytes written so far, or
  still to be read.
\<close>

section \<open>The shift register\<close>

type_synonym wstate = "int \<times> int list"
type_synonym subframe = "int \<times> int \<times> int \<times> int \<times> int list"

definition u16i :: "int \<Rightarrow> int" where
  "u16i x = x mod 65536"

text \<open>\<open>sr = (sr >> w) | (x << (16 - w))\<close> and \<open>*c++ = (uint8_t) (sr >> k)\<close>.\<close>

definition push :: "nat \<Rightarrow> int \<Rightarrow> wstate \<Rightarrow> wstate" where
  "push w x st = (u16i (asr (fst st) w OR lsl x (16 - w)), snd st)"

definition out :: "nat \<Rightarrow> wstate \<Rightarrow> wstate" where
  "out k st = (fst st, snd st @ [u8i (asr (fst st) k)])"

text \<open>\<open>sr = *c++\<close>, \<open>sr |= (uint16_t) *c++ << k\<close>, and \<open>sr & mask\<close> followed by \<open>sr >>= w\<close>.\<close>

definition load0 :: "wstate \<Rightarrow> wstate" where
  "load0 st = (hd (snd st), tl (snd st))"

definition load :: "nat \<Rightarrow> wstate \<Rightarrow> wstate" where
  "load k st = (u16i (fst st OR lsl (hd (snd st)) k), tl (snd st))"

definition get :: "int \<Rightarrow> nat \<Rightarrow> wstate \<Rightarrow> int \<times> wstate" where
  "get msk w st = (fst st AND msk, (asr (fst st) w, snd st))"

section \<open>Packing\<close>

definition wav49_head1 :: "int list \<Rightarrow> wstate \<Rightarrow> wstate" where
  "wav49_head1 L st =
     (let st = push 6 (L ! 0) st;
          st = push 6 (L ! 1) st;
          st = out 4 st;
          st = push 5 (L ! 2) st;
          st = out 7 st;
          st = push 5 (L ! 3) st;
          st = push 4 (L ! 4) st;
          st = out 6 st;
          st = push 4 (L ! 5) st;
          st = push 3 (L ! 6) st;
          st = out 7 st;
          st = push 3 (L ! 7) st
      in st)"

definition wav49_sub1 :: "int \<Rightarrow> int \<Rightarrow> int \<Rightarrow> int \<Rightarrow> int list \<Rightarrow> wstate \<Rightarrow> wstate" where
  "wav49_sub1 n b m xm x st =
     (let st = push 7 n st;
          st = out 5 st;
          st = push 2 b st;
          st = push 2 m st;
          st = push 6 xm st;
          st = out 3 st;
          st = push 3 (x ! 0) st;
          st = out 8 st;
          st = push 3 (x ! 1) st;
          st = push 3 (x ! 2) st;
          st = push 3 (x ! 3) st;
          st = out 7 st;
          st = push 3 (x ! 4) st;
          st = push 3 (x ! 5) st;
          st = push 3 (x ! 6) st;
          st = out 6 st;
          st = push 3 (x ! 7) st;
          st = push 3 (x ! 8) st;
          st = out 8 st;
          st = push 3 (x ! 9) st;
          st = push 3 (x ! 10) st;
          st = push 3 (x ! 11) st;
          st = out 7 st;
          st = push 3 (x ! 12) st
      in st)"

definition wav49_head2 :: "int list \<Rightarrow> wstate \<Rightarrow> wstate" where
  "wav49_head2 L st =
     (let st = push 6 (L ! 0) st;
          st = out 6 st;
          st = push 6 (L ! 1) st;
          st = out 8 st;
          st = push 5 (L ! 2) st;
          st = push 5 (L ! 3) st;
          st = out 6 st;
          st = push 4 (L ! 4) st;
          st = push 4 (L ! 5) st;
          st = out 6 st;
          st = push 3 (L ! 6) st;
          st = push 3 (L ! 7) st;
          st = out 8 st
      in st)"

definition wav49_sub2 :: "int \<Rightarrow> int \<Rightarrow> int \<Rightarrow> int \<Rightarrow> int list \<Rightarrow> wstate \<Rightarrow> wstate" where
  "wav49_sub2 n b m xm x st =
     (let st = push 7 n st;
          st = push 2 b st;
          st = out 7 st;
          st = push 2 m st;
          st = push 6 xm st;
          st = out 7 st;
          st = push 3 (x ! 0) st;
          st = push 3 (x ! 1) st;
          st = push 3 (x ! 2) st;
          st = out 6 st;
          st = push 3 (x ! 3) st;
          st = push 3 (x ! 4) st;
          st = out 8 st;
          st = push 3 (x ! 5) st;
          st = push 3 (x ! 6) st;
          st = push 3 (x ! 7) st;
          st = out 7 st;
          st = push 3 (x ! 8) st;
          st = push 3 (x ! 9) st;
          st = push 3 (x ! 10) st;
          st = out 6 st;
          st = push 3 (x ! 11) st;
          st = push 3 (x ! 12) st;
          st = out 8 st
      in st)"

definition wav49_subs ::
  "(int \<Rightarrow> int \<Rightarrow> int \<Rightarrow> int \<Rightarrow> int list \<Rightarrow> wstate \<Rightarrow> wstate) \<Rightarrow> gsm0610_frame_t \<Rightarrow> wstate \<Rightarrow> wstate" where
  "wav49_subs sub s st =
     fold (\<lambda>i. sub (Nc s ! i) (bc s ! i) (Mc s ! i) (xmaxc s ! i) (xMc s ! i)) [0..<4] st"

definition gsm0610_pack_wav49 :: "gsm0610_frame_t \<Rightarrow> gsm0610_frame_t \<Rightarrow> int list" where
  "gsm0610_pack_wav49 s s' =
     snd (wav49_subs wav49_sub2 s' (wav49_head2 (LARc s')
           (wav49_subs wav49_sub1 s (wav49_head1 (LARc s) (0, [])))))"

section \<open>Unpacking\<close>

definition unwav49_head1 :: "wstate \<Rightarrow> int list \<times> wstate" where
  "unwav49_head1 st =
     (let st = load0 st;
          (l0, st) = get 0x3F 6 st;
          st = load 2 st;
          (l1, st) = get 0x3F 6 st;
          st = load 4 st;
          (l2, st) = get 0x1F 5 st;
          (l3, st) = get 0x1F 5 st;
          st = load 2 st;
          (l4, st) = get 0xF 4 st;
          (l5, st) = get 0xF 4 st;
          st = load 2 st;
          (l6, st) = get 0x7 3 st;
          (l7, st) = get 0x7 3 st
      in ([l0, l1, l2, l3, l4, l5, l6, l7], st))"

definition unwav49_sub1 :: "wstate \<Rightarrow> subframe \<times> wstate" where
  "unwav49_sub1 st =
     (let st = load 4 st;
          (n, st) = get 0x7F 7 st;
          (b, st) = get 0x3 2 st;
          (m, st) = get 0x3 2 st;
          st = load 1 st;
          (xm, st) = get 0x3F 6 st;
          (x0, st) = get 0x7 3 st;
          st = load0 st;
          (x1, st) = get 0x7 3 st;
          (x2, st) = get 0x7 3 st;
          st = load 2 st;
          (x3, st) = get 0x7 3 st;
          (x4, st) = get 0x7 3 st;
          (x5, st) = get 0x7 3 st;
          st = load 1 st;
          (x6, st) = get 0x7 3 st;
          (x7, st) = get 0x7 3 st;
          (x8, st) = get 0x7 3 st;
          st = load0 st;
          (x9, st) = get 0x7 3 st;
          (x10, st) = get 0x7 3 st;
          st = load 2 st;
          (x11, st) = get 0x7 3 st;
          (x12, st) = get 0x7 3 st
      in ((n, b, m, xm, [x0, x1, x2, x3, x4, x5, x6, x7, x8, x9, x10, x11, x12]), st))"

definition unwav49_head2 :: "wstate \<Rightarrow> int list \<times> wstate" where
  "unwav49_head2 st =
     (let st = load 4 st;
          (l0, st) = get 0x3F 6 st;
          (l1, st) = get 0x3F 6 st;
          st = load0 st;
          (l2, st) = get 0x1F 5 st;
          st = load 3 st;
          (l3, st) = get 0x1F 5 st;
          (l4, st) = get 0xF 4 st;
          st = load 2 st;
          (l5, st) = get 0xF 4 st;
          (l6, st) = get 0x7 3 st;
          (l7, st) = get 0x7 3 st
      in ([l0, l1, l2, l3, l4, l5, l6, l7], st))"

definition unwav49_sub2 :: "wstate \<Rightarrow> subframe \<times> wstate" where
  "unwav49_sub2 st =
     (let st = load0 st;
          (n, st) = get 0x7F 7 st;
          st = load 1 st;
          (b, st) = get 0x3 2 st;
          (m, st) = get 0x3 2 st;
          st = load 5 st;
          (xm, st) = get 0x3F 6 st;
          (x0, st) = get 0x7 3 st;
          (x1, st) = get 0x7 3 st;
          st = load 1 st;
          (x2, st) = get 0x7 3 st;
          (x3, st) = get 0x7 3 st;
          (x4, st) = get 0x7 3 st;
          st = load0 st;
          (x5, st) = get 0x7 3 st;
          (x6, st) = get 0x7 3 st;
          st = load 2 st;
          (x7, st) = get 0x7 3 st;
          (x8, st) = get 0x7 3 st;
          (x9, st) = get 0x7 3 st;
          st = load 1 st;
          (x10, st) = get 0x7 3 st;
          (x11, st) = get 0x7 3 st;
          (x12, st) = get 0x7 3 st
      in ((n, b, m, xm, [x0, x1, x2, x3, x4, x5, x6, x7, x8, x9, x10, x11, x12]), st))"

fun unwav49_subs :: "nat \<Rightarrow> (wstate \<Rightarrow> subframe \<times> wstate) \<Rightarrow> wstate \<Rightarrow> subframe list \<times> wstate" where
  "unwav49_subs 0 sub st = ([], st)"
| "unwav49_subs (Suc k) sub st =
     (let (x, st1) = sub st; (xs, st2) = unwav49_subs k sub st1 in (x # xs, st2))"

definition gsm0610_unpack_wav49 :: "int list \<Rightarrow> gsm0610_frame_t \<times> gsm0610_frame_t" where
  "gsm0610_unpack_wav49 c =
     (let (L, st1) = unwav49_head1 (0, c);
          (subs, st2) = unwav49_subs 4 unwav49_sub1 st1;
          (L', st3) = unwav49_head2 st2;
          (subs', st4) = unwav49_subs 4 unwav49_sub2 st3
      in (frame_of L subs, frame_of L' subs'))"

section \<open>The bit stream both sides agree on\<close>

text \<open>A list of parameters with their widths, the first in the lowest bits.\<close>

fun enc :: "(nat \<times> int) list \<Rightarrow> int" where
  "enc [] = 0"
| "enc ((w, x) # l) = x + 2 ^ w * enc l"

definition len :: "(nat \<times> int) list \<Rightarrow> nat" where
  "len l = sum_list (map fst l)"

fun bytes_of :: "nat \<Rightarrow> int \<Rightarrow> int list" where
  "bytes_of 0 T = []"
| "bytes_of (Suc n) T = T mod 256 # bytes_of n (T div 256)"

lemma len_simps [simp]: "len [] = 0" "len ((w, x) # l) = w + len l" "len (l @ l') = len l + len l'"
  by (simp_all add: len_def)

lemma enc_append: "enc (l @ l') = enc l + 2 ^ len l * enc l'"
  by (induction l rule: enc.induct) (simp_all add: algebra_simps power_add)

lemma enc_range: "\<forall>(w, x)\<in>set l. bits w x \<Longrightarrow> 0 \<le> enc l \<and> enc l < 2 ^ len l"
proof (induction l rule: enc.induct)
  case (2 w x l)
  then have IH: "0 \<le> enc l" "enc l \<le> 2 ^ len l - 1" and x: "0 \<le> x" "x < 2 ^ w" by (auto simp: bits_iff)
  have "2 ^ w * enc l \<le> 2 ^ w * (2 ^ len l - 1)" using IH by (intro mult_left_mono) auto
  then show ?case using IH x by (simp add: power_add right_diff_distrib)
qed simp

lemma bytes_of_snoc: "bytes_of (Suc n) T = bytes_of n T @ [T div 2 ^ (8 * n) mod 256]"
proof (induction n arbitrary: T)
  case (Suc n)
  have "T div 256 div 2 ^ (8 * n) = T div 2 ^ (8 * Suc n)"
    using zdiv_zmult2_eq [of "2 ^ (8 * n)" T 256] by (simp add: power_add mult.commute)
  then show ?case using Suc [of "T div 256"] by simp
qed simp

lemma length_bytes_of [simp]: "length (bytes_of n T) = n"
  by (induction n arbitrary: T) simp_all

lemma bytes_of_low: "8 * n \<le> k \<Longrightarrow> bytes_of n (T + 2 ^ k * y) = bytes_of n T"
proof (induction n arbitrary: T k)
  case (Suc n)
  then obtain j where k: "k = 8 + j" using le_Suc_ex [of 8 k] by auto
  have "T + 2 ^ k * y = T + 256 * (2 ^ j * y)" by (simp add: k power_add)
  moreover have "bytes_of n (T div 256 + 2 ^ j * y) = bytes_of n (T div 256)" using Suc k by simp
  ultimately show ?case by (simp only: bytes_of.simps) (simp add: add.commute)
qed simp

text \<open>Disjoint bits add up.\<close>

lemma or_add:
  assumes "0 \<le> a" "a < 2 ^ n"
  shows "a OR lsl b n = a + 2 ^ n * b"
proof -
  have "a AND lsl b n = 0"
  proof (rule bit_eqI)
    fix k
    have "bits n a" using assms by (simp add: bits_iff)
    then show "bit (a AND lsl b n) k = bit 0 k" using bits_bit by (fastforce simp: bit_and_iff bit_lsl)
  qed
  then have "a OR lsl b n = a + lsl b n" by (simp add: disjunctive_add_eq_or)
  then show ?thesis by (simp add: lsl_def push_bit_eq_mult mult.commute)
qed

lemma asr_div: "asr x n = x div 2 ^ n"
  by (simp add: asr_def drop_bit_eq_div)

text \<open>The packer's state after the parameters \<open>l\<close> and \<open>j\<close> bytes.\<close>

definition wr :: "(nat \<times> int) list \<Rightarrow> nat \<Rightarrow> wstate" where
  "wr l j = (enc l * 65536 div 2 ^ len l, bytes_of j (enc l))"

definition in_range :: "(nat \<times> int) list \<Rightarrow> bool" where
  "in_range l \<longleftrightarrow> (\<forall>(w, x)\<in>set l. bits w x)"

lemma in_range_append [simp]: "in_range (l @ l') \<longleftrightarrow> in_range l \<and> in_range l'"
  by (auto simp: in_range_def)

lemma in_range_Cons [simp]: "in_range ((w, x) # l) \<longleftrightarrow> bits w x \<and> in_range l" "in_range []"
  by (auto simp: in_range_def)

lemma register_range: "in_range l \<Longrightarrow> 0 \<le> enc l * 65536 div 2 ^ len l \<and> enc l * 65536 div 2 ^ len l < 65536"
  using enc_range [of l] by (auto simp: in_range_def pos_imp_zdiv_nonneg_iff intro!: int_div_less)

lemma push_wr:
  assumes "in_range l" "bits w x" "w \<le> 16" "8 * j \<le> len l"
  shows "push w x (wr l j) = wr (l @ [(w, x)]) j"
proof -
  define T where "T = enc l"
  define sr where "sr = T * 65536 div 2 ^ len l"
  have sr: "0 \<le> sr" "sr < 65536" using register_range [OF assms(1)] by (auto simp: sr_def T_def)
  have x: "0 \<le> x" "x < 2 ^ w" using assms(2) by (auto simp: bits_iff)
  have p: "(2 :: int) ^ (16 - w) * 2 ^ w = 65536" using assms(3) by (simp flip: power_add)
  have lo: "0 \<le> sr div 2 ^ w" "sr div 2 ^ w < 2 ^ (16 - w)"
    using sr p by (auto simp: pos_imp_zdiv_nonneg_iff intro!: int_div_less)
  have "2 ^ (16 - w) * x \<le> 2 ^ (16 - w) * (2 ^ w - 1)" using x by (intro mult_left_mono) auto
  then have hi: "0 \<le> 2 ^ (16 - w) * x" "sr div 2 ^ w + 2 ^ (16 - w) * x < 65536"
    using lo x p by (simp_all add: right_diff_distrib)
  have "(T + 2 ^ len l * x) * 65536 = T * 65536 + 2 ^ (16 - w) * x * (2 ^ len l * 2 ^ w)"
    unfolding p [symmetric] by (simp add: algebra_simps)
  then have "(T + 2 ^ len l * x) * 65536 div (2 ^ len l * 2 ^ w) =
      T * 65536 div (2 ^ len l * 2 ^ w) + 2 ^ (16 - w) * x"
    by (simp only: div_mult_self1) simp
  then have "(T + 2 ^ len l * x) * 65536 div (2 ^ len l * 2 ^ w) = sr div 2 ^ w + 2 ^ (16 - w) * x"
    using zdiv_zmult2_eq [of "2 ^ w" "T * 65536" "2 ^ len l"] by (simp add: sr_def)
  moreover have "bytes_of j (T + 2 ^ len l * x) = bytes_of j T" using assms(4) by (rule bytes_of_low)
  ultimately have "wr (l @ [(w, x)]) j = (sr div 2 ^ w + 2 ^ (16 - w) * x, bytes_of j T)"
    by (simp add: wr_def enc_append power_add T_def)
  moreover have "push w x (wr l j) = (u16i (sr div 2 ^ w + 2 ^ (16 - w) * x), bytes_of j T)"
    using lo by (simp add: push_def wr_def asr_div or_add sr_def T_def)
  ultimately show ?thesis using hi lo(1) by (simp add: u16i_def)
qed

lemma out_wr:
  assumes "len l + k = 8 * j + 16"
  shows "out k (wr l j) = wr l (Suc j)"
proof -
  have "enc l * 65536 div 2 ^ len l div 2 ^ k = enc l * 65536 div 2 ^ (8 * j + 16)"
    unfolding assms [symmetric] by (simp add: power_add zdiv_zmult2_eq)
  also have "\<dots> = enc l div 2 ^ (8 * j)"
    by (simp add: power_add)
  finally show ?thesis
    unfolding wr_def out_def bytes_of_snoc by (simp add: asr_div u8i_def)
qed

text \<open>The unpacker's state with the parameters \<open>l\<close> still to come, \<open>a\<close> bits of them in the register.\<close>

definition rd :: "(nat \<times> int) list \<Rightarrow> nat \<Rightarrow> nat \<Rightarrow> int list \<Rightarrow> wstate" where
  "rd l a n rest = (enc l mod 2 ^ a, bytes_of n (enc l div 2 ^ a) @ rest)"

lemma mod_split: "(T :: int) mod 2 ^ a + 2 ^ a * (T div 2 ^ a mod 2 ^ b) = T mod 2 ^ (a + b)"
  by (simp add: power_add zmod_zmult2_eq mult.commute)

lemma load0_rd: "load0 (rd l 0 (Suc n) rest) = rd l 8 n rest"
  by (simp add: load0_def rd_def)

lemma load_rd:
  assumes "a \<le> 8"
  shows "load a (rd l a (Suc n) rest) = rd l (a + 8) n rest"
proof -
  have "(2 :: int) ^ (a + 8) \<le> 2 ^ 16" using assms by (intro power_increasing) auto
  then have "enc l mod 2 ^ (a + 8) mod 65536 = enc l mod 2 ^ (a + 8)"
    using pos_mod_bound [of "2 ^ (a + 8)" "enc l"] by (intro mod_pos_pos_trivial) (simp_all del: pos_mod_bound)
  moreover have "enc l mod 2 ^ a + 2 ^ a * (enc l div 2 ^ a mod 256) = enc l mod 2 ^ (a + 8)"
    using mod_split [of "enc l" a 8] by simp
  moreover have "enc l div 2 ^ a div 256 = enc l div 2 ^ (a + 8)"
    by (simp add: power_add zdiv_zmult2_eq)
  ultimately show ?thesis
    by (simp add: load_def rd_def or_add u16i_def)
qed

lemma get_rd:
  assumes "bits w x" "w \<le> a" "msk = 2 ^ w - 1"
  shows "get msk w (rd ((w, x) # l) a n rest) = (x, rd l (a - w) n rest)"
proof -
  define b where "b = a - w"
  have a: "a = w + b" using assms(2) by (simp add: b_def)
  have x: "0 \<le> x" "x < 2 ^ w" using assms(1) by (auto simp: bits_iff)
  have d: "(x + 2 ^ w * enc l) div 2 ^ w = enc l" "(x + 2 ^ w * enc l) mod 2 ^ w = x" using x by simp_all
  have "msk = mask w" using assms(3) by (simp add: mask_eq_exp_minus_1)
  then have "(x + 2 ^ w * enc l) mod 2 ^ a AND msk = x"
    using d by (simp add: a power_add flip: take_bit_eq_mask) (simp add: take_bit_eq_mod mod_mod_cancel)
  moreover have "(x + 2 ^ w * enc l) mod 2 ^ a div 2 ^ w = enc l mod 2 ^ b"
    using d x by (simp add: a power_add zmod_zmult2_eq)
  moreover have "(x + 2 ^ w * enc l) div 2 ^ a = enc l div 2 ^ b"
    using d by (simp add: a power_add zdiv_zmult2_eq)
  ultimately show ?thesis
    by (simp add: get_def rd_def asr_div b_def)
qed

section \<open>The segments of the stream\<close>

definition lar_fields :: "int list \<Rightarrow> (nat \<times> int) list" where
  "lar_fields L = [(6, L ! 0), (6, L ! 1), (5, L ! 2), (5, L ! 3), (4, L ! 4), (4, L ! 5), (3, L ! 6), (3, L ! 7)]"

definition sub_fields :: "int \<Rightarrow> int \<Rightarrow> int \<Rightarrow> int \<Rightarrow> int list \<Rightarrow> (nat \<times> int) list" where
  "sub_fields n b m xm x =
     [(7, n), (2, b), (2, m), (6, xm), (3, x ! 0), (3, x ! 1), (3, x ! 2), (3, x ! 3), (3, x ! 4), (3, x ! 5),
      (3, x ! 6), (3, x ! 7), (3, x ! 8), (3, x ! 9), (3, x ! 10), (3, x ! 11), (3, x ! 12)]"

lemma len_fields [simp]: "len (lar_fields L) = 36" "len (sub_fields n b m xm x) = 56"
  by (simp_all add: lar_fields_def sub_fields_def)

lemma head1_wr:
  assumes "in_range l" "in_range (lar_fields L)" "len l = 8 * j"
  shows "wav49_head1 L (wr l j) = wr (l @ lar_fields L) (j + 4)"
  using assms by (simp add: wav49_head1_def lar_fields_def push_wr out_wr) (simp add: eval_nat_numeral)

lemma sub1_wr:
  assumes "in_range l" "in_range (sub_fields n b m xm x)" "len l = 8 * j + 4"
  shows "wav49_sub1 n b m xm x (wr l j) = wr (l @ sub_fields n b m xm x) (j + 7)"
  using assms by (simp add: wav49_sub1_def sub_fields_def push_wr out_wr) (simp add: eval_nat_numeral)

lemma head2_wr:
  assumes "in_range l" "in_range (lar_fields L)" "len l = 8 * j + 4"
  shows "wav49_head2 L (wr l j) = wr (l @ lar_fields L) (j + 5)"
  using assms by (simp add: wav49_head2_def lar_fields_def push_wr out_wr) (simp add: eval_nat_numeral)

lemma sub2_wr:
  assumes "in_range l" "in_range (sub_fields n b m xm x)" "len l = 8 * j"
  shows "wav49_sub2 n b m xm x (wr l j) = wr (l @ sub_fields n b m xm x) (j + 7)"
  using assms by (simp add: wav49_sub2_def sub_fields_def push_wr out_wr) (simp add: eval_nat_numeral)

lemma list8: "length L = 8 \<Longrightarrow> L = [L ! 0, L ! 1, L ! 2, L ! 3, L ! 4, L ! 5, L ! 6, L ! 7]"
  by (auto simp: length_Suc_conv eval_nat_numeral)

lemma head1_rd:
  assumes "in_range (lar_fields L)" "length L = 8"
  shows "unwav49_head1 (rd (lar_fields L @ l) 0 (n + 5) rest) = (L, rd l 4 n rest)"
  using assms(1) list8 [OF assms(2), symmetric]
  by (simp add: unwav49_head1_def lar_fields_def load0_rd load_rd get_rd eval_nat_numeral)

lemma sub1_rd:
  assumes "in_range (sub_fields b1 b2 b3 b4 x)" "length x = 13"
  shows "unwav49_sub1 (rd (sub_fields b1 b2 b3 b4 x @ l) 4 (n + 7) rest) = ((b1, b2, b3, b4, x), rd l 4 n rest)"
  using assms(1) list13 [OF assms(2), symmetric]
  by (simp add: unwav49_sub1_def sub_fields_def load0_rd load_rd get_rd eval_nat_numeral)

lemma head2_rd:
  assumes "in_range (lar_fields L)" "length L = 8"
  shows "unwav49_head2 (rd (lar_fields L @ l) 4 (n + 4) rest) = (L, rd l 0 n rest)"
  using assms(1) list8 [OF assms(2), symmetric]
  by (simp add: unwav49_head2_def lar_fields_def load0_rd load_rd get_rd eval_nat_numeral)

lemma sub2_rd:
  assumes "in_range (sub_fields b1 b2 b3 b4 x)" "length x = 13"
  shows "unwav49_sub2 (rd (sub_fields b1 b2 b3 b4 x @ l) 0 (n + 7) rest) = ((b1, b2, b3, b4, x), rd l 0 n rest)"
  using assms(1) list13 [OF assms(2), symmetric]
  by (simp add: unwav49_sub2_def sub_fields_def load0_rd load_rd get_rd eval_nat_numeral)

definition subs_fields :: "gsm0610_frame_t \<Rightarrow> (nat \<times> int) list" where
  "subs_fields s = concat (map (\<lambda>i. sub_fields (Nc s ! i) (bc s ! i) (Mc s ! i) (xmaxc s ! i) (xMc s ! i)) [0..<4])"

lemma len_subs_fields [simp]: "len (subs_fields s) = 224"
  by (simp add: subs_fields_def upt4)

lemma frame_ok_fields:
  assumes "frame_ok s"
  shows "length (LARc s) = 8" "in_range (lar_fields (LARc s))" "in_range (subs_fields s)"
    "i < 4 \<Longrightarrow> length (xMc s ! i) = 13"
    "i < 4 \<Longrightarrow> in_range (sub_fields (Nc s ! i) (bc s ! i) (Mc s ! i) (xmaxc s ! i) (xMc s ! i))"
proof -
  show "length (LARc s) = 8" "in_range (lar_fields (LARc s))"
    using assms by (auto simp: frame_ok_def lar_widths_def list_all2_Cons1 lar_fields_def)
  show len: "length (xMc s ! i) = 13" if "i < 4" for i
    using assms that by (auto simp: frame_ok_def list_all_length)
  show sub: "in_range (sub_fields (Nc s ! i) (bc s ! i) (Mc s ! i) (xmaxc s ! i) (xMc s ! i))" if "i < 4" for i
    using assms that len [OF that] by (auto simp: frame_ok_def list_all_length sub_fields_def)
  show "in_range (subs_fields s)"
    using sub [of 0] sub [of 1] sub [of 2] sub [of 3] by (simp add: subs_fields_def upt4)
qed

lemma subs1_wr:
  assumes "frame_ok s" "in_range l" "len l = 8 * j + 4"
  shows "wav49_subs wav49_sub1 s (wr l j) = wr (l @ subs_fields s) (j + 28)"
  using assms(2,3) frame_ok_fields(5) [OF assms(1)]
  by (simp add: wav49_subs_def subs_fields_def upt4 sub1_wr add.commute)

lemma subs2_wr:
  assumes "frame_ok s" "in_range l" "len l = 8 * j"
  shows "wav49_subs wav49_sub2 s (wr l j) = wr (l @ subs_fields s) (j + 28)"
  using assms(2,3) frame_ok_fields(5) [OF assms(1)]
  by (simp add: wav49_subs_def subs_fields_def upt4 sub2_wr add.commute)

lemma unwav49_subs_rd:
  assumes "\<And>i n l. i < 4 \<Longrightarrow> sub (rd (f i @ l) a (n + 7) rest) = (sub_at s i, rd l a n rest)" "i + k \<le> 4"
  shows "unwav49_subs k sub (rd (concat (map f [i..<i + k]) @ l) a (n + 7 * k) rest) =
    (map (sub_at s) [i..<i + k], rd l a n rest)"
  using assms(2)
proof (induction k arbitrary: i)
  case (Suc k)
  have u: "[i..<i + Suc k] = i # [Suc i..<Suc i + k]" by (simp add: upt_rec)
  have n: "n + 7 * Suc k = n + 7 * k + 7" by simp
  have "sub (rd (f i @ concat (map f [Suc i..<Suc i + k]) @ l) a (n + 7 * k + 7) rest) =
      (sub_at s i, rd (concat (map f [Suc i..<Suc i + k]) @ l) a (n + 7 * k) rest)"
    using Suc.prems by (intro assms(1)) simp
  then show ?case
    using Suc.IH [of "Suc i"] Suc.prems unfolding u n by simp
qed simp

lemma subs1_rd:
  assumes "frame_ok s"
  shows "unwav49_subs 4 unwav49_sub1 (rd (subs_fields s @ l) 4 (n + 28) rest) =
    (map (sub_at s) [0..<4], rd l 4 n rest)"
  using unwav49_subs_rd [of unwav49_sub1 _ 4 rest s 0 4 l n] frame_ok_fields(4,5) [OF assms]
  by (simp add: subs_fields_def sub1_rd sub_at_def)

lemma subs2_rd:
  assumes "frame_ok s"
  shows "unwav49_subs 4 unwav49_sub2 (rd (subs_fields s @ l) 0 (n + 28) rest) =
    (map (sub_at s) [0..<4], rd l 0 n rest)"
  using unwav49_subs_rd [of unwav49_sub2 _ 0 rest s 0 4 l n] frame_ok_fields(4,5) [OF assms]
  by (simp add: subs_fields_def sub2_rd sub_at_def)

definition stream2 :: "gsm0610_frame_t \<Rightarrow> gsm0610_frame_t \<Rightarrow> (nat \<times> int) list" where
  "stream2 s s' = lar_fields (LARc s) @ subs_fields s @ lar_fields (LARc s') @ subs_fields s'"

lemma pack_wav49_stream:
  assumes "frame_ok s" "frame_ok s'"
  shows "gsm0610_pack_wav49 s s' = bytes_of 65 (enc (stream2 s s'))"
proof -
  note f = frame_ok_fields(2,3) [OF assms(1)] frame_ok_fields(2,3) [OF assms(2)]
  have "(0, []) = wr [] 0" by (simp add: wr_def)
  then have "gsm0610_pack_wav49 s s' = snd (wr (stream2 s s') 65)"
    using f assms by (simp add: gsm0610_pack_wav49_def head1_wr subs1_wr head2_wr subs2_wr stream2_def)
  then show ?thesis by (simp add: wr_def)
qed

lemma wav49_unpack_pack:
  assumes "frame_ok s" "frame_ok s'"
  shows "gsm0610_unpack_wav49 (gsm0610_pack_wav49 s s' @ rest) = (s, s') \<and>
    length (gsm0610_pack_wav49 s s') = 65 \<and> (\<forall>c\<in>set (gsm0610_pack_wav49 s s'). 0 \<le> c \<and> c < 256)"
proof -
  note f = frame_ok_fields(1,2) [OF assms(1)] frame_ok_fields(1,2) [OF assms(2)]
  have n: "65 = 28 + 4 + 28 + (5::nat)" by simp
  have "(0, gsm0610_pack_wav49 s s' @ rest) = rd (stream2 s s') 0 65 rest"
    using pack_wav49_stream [OF assms] by (simp add: rd_def)
  also have "\<dots> = rd (lar_fields (LARc s) @ subs_fields s @ lar_fields (LARc s') @ subs_fields s' @ [])
      0 (0 + 28 + 4 + 28 + 5) rest" by (simp add: stream2_def)
  finally have "gsm0610_unpack_wav49 (gsm0610_pack_wav49 s s' @ rest) =
      (frame_of (LARc s) (map (sub_at s) [0..<4]), frame_of (LARc s') (map (sub_at s') [0..<4]))"
    unfolding gsm0610_unpack_wav49_def
    by (simp only: head1_rd [OF f(2,1)] head2_rd [OF f(4,3)] subs1_rd [OF assms(1)] subs2_rd [OF assms(2)]
        Let_def split_conv)
  moreover have "\<forall>c\<in>set (bytes_of k T). 0 \<le> c \<and> c < 256" for k T
    by (induction k arbitrary: T) auto
  ultimately show ?thesis
    using pack_wav49_stream [OF assms] by (simp add: frame_of_subs assms)
qed

text \<open>
  C20. The WAV49 packing loses nothing either: two frames whose parameters are within their widths
  pack into 65 bytes, each from 0 to 255 (the second frame starts in the middle of a byte), and
  unpacking those bytes, whatever follows them, gives both frames back.
\<close>

theorem wav49_round_trip:
  assumes "frame_ok s" "frame_ok s'"
  shows "gsm0610_unpack_wav49 (gsm0610_pack_wav49 s s' @ rest) = (s, s') \<and>
    length (gsm0610_pack_wav49 s s') = 65 \<and> (\<forall>c\<in>set (gsm0610_pack_wav49 s s'). 0 \<le> c \<and> c < 256)"
  using assms by (rule wav49_unpack_pack)

theorem wav49_round_trip_witness:
  "gsm0610_unpack_wav49 (gsm0610_pack_wav49 demo_frame demo_frame @ [9]) = (demo_frame, demo_frame)"
  using wav49_round_trip [OF demo_frame_ok demo_frame_ok, of "[9]"] by simp

section \<open>Every 65 bytes unpack\<close>

lemma bits_and: "msk = 2 ^ w - 1 \<Longrightarrow> bits w (x AND msk)"
  by (simp add: bits_def take_bit_eq_mask mask_eq_exp_minus_1 ac_simps)

text \<open>Rules that go through an unpacker step by step, for a property \<open>Q\<close> of what it unpacks.\<close>

lemma get_sat:
  assumes "msk = 2 ^ w - 1" "\<And>x st'. bits w x \<Longrightarrow> Q (fst (k x st'))"
  shows "Q (fst (case get msk w st of (x, st') \<Rightarrow> k x st'))"
  using assms(2) [OF bits_and [OF assms(1)]] by (simp add: get_def)

lemma let_sat: "(\<And>st. Q (fst (k st))) \<Longrightarrow> Q (fst (Let st k))"
  by simp

lemma unwav49_sub_bits: "sub_bits (fst (unwav49_sub1 st))" "sub_bits (fst (unwav49_sub2 st))"
  unfolding unwav49_sub1_def unwav49_sub2_def
  by ((rule let_sat [where Q = sub_bits] get_sat [where Q = sub_bits], simp?)+, simp add: sub_bits_def)+

lemma unwav49_head_bits:
  "list_all2 bits lar_widths (fst (unwav49_head1 st))" "list_all2 bits lar_widths (fst (unwav49_head2 st))"
  unfolding unwav49_head1_def unwav49_head2_def
  by ((rule let_sat [where Q = "list_all2 bits lar_widths"] get_sat [where Q = "list_all2 bits lar_widths"], simp?)+,
      simp add: lar_widths_def)+

lemma unwav49_subs_bits:
  assumes "\<And>st. sub_bits (fst (sub st))"
  shows "length (fst (unwav49_subs n sub st)) = n" "list_all sub_bits (fst (unwav49_subs n sub st))"
  using assms by (induction n arbitrary: st) (simp_all add: split_beta Let_def)

lemma unpack_wav49_ok: "frame_ok (fst (gsm0610_unpack_wav49 c))" "frame_ok (snd (gsm0610_unpack_wav49 c))"
  unfolding gsm0610_unpack_wav49_def Let_def split_beta fst_conv snd_conv
  by (rule frame_of_bits; simp add: unwav49_head_bits unwav49_subs_bits unwav49_sub_bits)+

interpretation wav49: masked_packing "\<lambda>(f, g). gsm0610_pack_wav49 f g" gsm0610_unpack_wav49 65
  "\<lambda>(f, g). frame_ok f \<and> frame_ok g"
proof
  fix p :: "gsm0610_frame_t \<times> gsm0610_frame_t"
  assume "case p of (f, g) \<Rightarrow> frame_ok f \<and> frame_ok g"
  then show "gsm0610_unpack_wav49 (case p of (f, g) \<Rightarrow> gsm0610_pack_wav49 f g) = p"
    "length (case p of (f, g) \<Rightarrow> gsm0610_pack_wav49 f g) = 65"
    using wav49_unpack_pack [of "fst p" "snd p" "[]"] by (simp_all add: split_beta)
qed (simp_all add: split_beta unpack_wav49_ok)

end
