(* ===== verification/Gsm_Array.thy ===== *)
theory Gsm_Array
  imports Gsm_Arith
begin

text \<open>
  Arrays of 16-bit samples, as lists: the predicate that fixes their length and range, how the
  list operations keep it, and the loop for the largest magnitude that three routines of the
  codec share.
\<close>

definition arr :: "nat \<Rightarrow> int list \<Rightarrow> bool" where
  "arr n xs \<longleftrightarrow> length xs = n \<and> list_all is16 xs"

lemma arr_length: "arr n xs \<Longrightarrow> length xs = n"
  by (simp add: arr_def)

lemma arr_nth: "arr n xs \<Longrightarrow> i < n \<Longrightarrow> is16 (xs ! i)"
  by (simp add: arr_def list_all_length)

lemma arrI: "length xs = n \<Longrightarrow> (\<And>i. i < n \<Longrightarrow> is16 (xs ! i)) \<Longrightarrow> arr n xs"
  by (simp add: arr_def list_all_length)

lemma arr_update: "arr n xs \<Longrightarrow> is16 x \<Longrightarrow> arr n (xs[i := x])"
  by (cases "i < length xs") (auto simp: arr_def list_all_length nth_list_update list_update_beyond)

lemma arr_map: "length xs = n \<Longrightarrow> (\<And>x. x \<in> set xs \<Longrightarrow> is16 (f x)) \<Longrightarrow> arr n (map f xs)"
  by (auto simp: arr_def list_all_iff)

lemma arr_set: "arr n xs \<Longrightarrow> x \<in> set xs \<Longrightarrow> is16 x"
  by (auto simp: arr_def list_all_iff)

lemma arr_append: "arr n xs \<Longrightarrow> arr m ys \<Longrightarrow> k = n + m \<Longrightarrow> arr k (xs @ ys)"
  by (simp add: arr_def)

lemma arr_take: "arr n xs \<Longrightarrow> m \<le> n \<Longrightarrow> arr m (take m xs)"
  by (auto simp: arr_def list_all_iff dest: in_set_takeD)

lemma arr_drop: "arr n xs \<Longrightarrow> arr (n - m) (drop m xs)"
  by (auto simp: arr_def list_all_iff dest: in_set_dropD)

lemma arr_replicate: "arr n (replicate n 0)"
  by (simp add: arr_def list_all_iff is16_def)

lemma arr_Cons [simp]: "arr (Suc n) (x # xs) \<longleftrightarrow> is16 x \<and> arr n xs" "arr 0 xs \<longleftrightarrow> xs = []"
  by (auto simp: arr_def)

lemma arr_is16: "is16 0" "is16 1" "is16 32767"
  by (simp_all add: is16_def)

text \<open>A property that every round of a loop keeps holds after the loop.\<close>

lemma fold_inv:
  assumes "P s" "\<And>x s. x \<in> set xs \<Longrightarrow> P s \<Longrightarrow> P (f x s)"
  shows "P (fold f xs s)"
  using assms by (induction xs arbitrary: s) auto

text \<open>Loops that fill a segment of an array: the next element of a segment that is partly written,
  a fill that reads only before the segment or from it what is not yet overwritten, and a shift of the array in place.\<close>

lemma update_segment:
  assumes "length ys = k" "m + k < length xs"
  shows "(take m xs @ ys @ drop (m + k) xs)[m + k := v] = take m xs @ (ys @ [v]) @ drop (m + Suc k) xs"
  using assms by (simp add: list_update_append upd_conv_take_nth_drop Cons_nth_drop_Suc [symmetric])

lemma drop_split:
  assumes "n \<le> m" "m \<le> length xs"
  shows "drop n xs = drop n (take m xs) @ drop m xs"
proof -
  have "drop n (take m xs @ drop m xs) = drop n (take m xs) @ drop m xs"
    using assms by (simp del: append_take_drop_id)
  then show ?thesis by simp
qed

lemma fold_fill:
  assumes "\<And>k D. k < n \<Longrightarrow> take b D = take b dp \<Longrightarrow> drop (b + k) D = drop (b + k) dp \<Longrightarrow> length D = length dp \<Longrightarrow>
      f k D = D[b + k := g k]" "b + n \<le> length dp"
  shows "fold f [0..<n] dp = take b dp @ map g [0..<n] @ drop (b + n) dp"
proof -
  have "m \<le> n \<Longrightarrow> fold f [0..<m] dp = take b dp @ map g [0..<m] @ drop (b + m) dp" for m
  proof (induction m)
    case (Suc m)
    define D where "D = take b dp @ map g [0..<m] @ drop (b + m) dp"
    have "take b D = take b dp" "drop (b + m) D = drop (b + m) dp" "length D = length dp"
      using assms(2) Suc.prems by (simp_all add: D_def)
    then have "f m D = D[b + m := g m]" using Suc.prems by (intro assms(1)) simp_all
    also have "\<dots> = take b dp @ (map g [0..<m] @ [g m]) @ drop (b + Suc m) dp"
      unfolding D_def using Suc.prems assms(2) by (intro update_segment) simp_all
    finally show ?case using Suc by (simp add: D_def)
  qed simp
  then show ?thesis by simp
qed

lemma fold_shift:
  assumes "0 < c" "n + c \<le> length xs"
  shows "fold (\<lambda>k xs. xs[k := xs ! (k + c)]) [0..<n] xs = take n (drop c xs) @ drop n xs"
  using assms(2)
proof (induction n)
  case (Suc n)
  have "(take n (drop c xs) @ drop n xs) ! (n + c) = xs ! (n + c)" using Suc.prems assms(1) by (simp add: nth_append)
  moreover have "(take n (drop c xs) @ drop n xs)[n := v] = take n (drop c xs) @ [v] @ drop (Suc n) xs" for v
    using Suc.prems assms(1) by (simp add: list_update_append Cons_nth_drop_Suc [symmetric])
  moreover have "take (Suc n) (drop c xs) = take n (drop c xs) @ [xs ! (n + c)]"
    using Suc.prems by (simp add: take_Suc_conv_app_nth add.commute)
  ultimately show ?case using Suc by simp
qed simp

section \<open>The largest magnitude\<close>

text \<open>\<open>temp = saturated_abs16(xs[k]); if (temp > m) m = temp;\<close> for every \<open>k\<close>.\<close>

definition max_abs :: "int list \<Rightarrow> int" where
  "max_abs xs = foldl (\<lambda>m x. let temp = saturated_abs16 x in if temp > m then temp else m) 0 xs"

lemma saturated_abs16_eq: "is16 x \<Longrightarrow> saturated_abs16 x = min 32767 \<bar>x\<bar>"
  by (auto simp: saturated_abs16_def is16_def i16_def INT16_MIN_def INT16_MAX_def)

lemma max_abs_bounds:
  assumes "list_all is16 xs"
  shows "0 \<le> max_abs xs \<and> max_abs xs \<le> 32767 \<and> (\<forall>x\<in>set xs. saturated_abs16 x \<le> max_abs xs)"
proof -
  have "m \<le> foldl (\<lambda>m x. let temp = saturated_abs16 x in if temp > m then temp else m) m xs \<and>
      foldl (\<lambda>m x. let temp = saturated_abs16 x in if temp > m then temp else m) m xs \<le> 32767 \<and>
      (\<forall>x\<in>set xs. saturated_abs16 x \<le> foldl (\<lambda>m x. let temp = saturated_abs16 x in if temp > m then temp else m) m xs)"
    if "m \<le> 32767" for m
    using assms that
  proof (induction xs arbitrary: m)
    case (Cons x xs)
    define m' where "m' = (let temp = saturated_abs16 x in if temp > m then temp else m)"
    have m': "m \<le> m'" "saturated_abs16 x \<le> m'" "m' \<le> 32767"
      using saturated_abs16_range [of x] Cons.prems by (auto simp: m'_def Let_def)
    have "list_all is16 xs" using Cons.prems by simp
    from Cons.IH [OF this m'(3)] m' show ?case
      unfolding foldl.simps m'_def [symmetric] by (auto intro: order.trans)
  qed simp
  from this [of 0] show ?thesis by (simp add: max_abs_def)
qed

lemma max_abs_le:
  assumes "list_all is16 xs" "x \<in> set xs"
  shows "x \<le> max_abs xs" "- max_abs xs - 1 \<le> x" "x \<noteq> -32768 \<Longrightarrow> - max_abs xs \<le> x"
proof -
  have "is16 x" using assms by (auto simp: list_all_iff)
  then have "min 32767 \<bar>x\<bar> \<le> max_abs xs" "-32768 \<le> x" "x \<le> 32767"
    using max_abs_bounds [OF assms(1)] assms(2) by (auto simp: saturated_abs16_eq is16_def)
  then show "x \<le> max_abs xs" "- max_abs xs - 1 \<le> x" "x \<noteq> -32768 \<Longrightarrow> - max_abs xs \<le> x" by linarith+
qed

end
