(* ===== verification/Gsm_Rpe.thy ===== *)
theory Gsm_Rpe
  imports Gsm_Array "HOL-Library.While_Combinator"
begin

text \<open>
  The regular pulse excitation of the codec, \<^verbatim>\<open>src/jni/spandsp/gsm0610_rpe.c\<close>: the weighting filter, the
  choice of the grid, the quantiser of the 13 samples and its inverse, and the two entry points.
  Assertions are checks that can fail, reads of the coefficient tables at computed indices are
  bounds-checked, and the loop that normalises the mantissa may fail to end; the lemmas show that none
  of this happens for the values the encoder computes or a packed frame can carry.
\<close>

section \<open>Weighting filter and grid selection\<close>

text \<open>\<open>e\<close> is the array \<open>e[50]\<close> of the state; the code's pointer starts at its sixth element.\<close>

definition weighting_filter :: "int list \<Rightarrow> int list" where
  "weighting_filter e =
     map (\<lambda>k. saturate (shr (i32 (4096 + e ! k * -134 + e ! (k + 1) * -374 + e ! (k + 3) * 2054 +
       e ! (k + 4) * 5741 + e ! (k + 5) * 8192 + e ! (k + 6) * 5741 + e ! (k + 7) * 2054 +
       e ! (k + 9) * -374 + e ! (k + 10) * -134)) 13)) [0..<40]"

text \<open>The macro \<open>STEP(m, i)\<close> of the grid selection.\<close>

definition grid_step :: "int list \<Rightarrow> nat \<Rightarrow> int \<Rightarrow> nat \<Rightarrow> int" where
  "grid_step x m L_result i = (let L_temp = shr (x ! (m + 3 * i)) 2 in i32 (L_result + L_temp * L_temp))"

text \<open>The comparisons that keep the largest energy so far in \<open>EM\<close> and its grid in \<open>Mc\<close>.\<close>

definition grid_pick :: "int \<Rightarrow> int \<Rightarrow> int \<Rightarrow> int \<Rightarrow> nat" where
  "grid_pick L0 L1 L2 L3 =
     (let (Mc, EM) = (0, L0);
          (Mc, EM) = (if L1 > EM then (1, L1) else (Mc, EM));
          (Mc, EM) = (if L2 > EM then (2, L2) else (Mc, EM));
          (Mc, EM) = (if L3 > EM then (3, L3) else (Mc, EM))
      in Mc)"

definition rpe_grid_selection :: "int list \<Rightarrow> int list \<times> int" where
  "rpe_grid_selection x =
     (let L_common_0_3 = foldl (grid_step x 0) 0 [1..<13];
          L0 = i32 (shl (grid_step x 0 L_common_0_3 0) 1);
          L1 = i32 (shl (foldl (grid_step x 1) 0 [0..<13]) 1);
          L2 = i32 (shl (foldl (grid_step x 2) 0 [0..<13]) 1);
          L3 = i32 (shl (grid_step x 3 L_common_0_3 12) 1);
          Mc = grid_pick L0 L1 L2 L3
      in (map (\<lambda>i. x ! (Mc + 3 * i)) [0..<13], int Mc))"

section \<open>The quantiser\<close>

definition apcm_quantization_xmaxc_to_exp_mant :: "int \<Rightarrow> (int \<times> int) res" where
  "apcm_quantization_xmaxc_to_exp_mant xmaxc =
     (let exp = (if xmaxc > 15 then i16 (shr xmaxc 3 - 1) else 0);
          mant = i16 (xmaxc - shl exp 3)
      in rbind
          (if mant = 0 then Inr (-4, 7)
           else case while_option (\<lambda>(exp, mant). mant \<le> 7)
                       (\<lambda>(exp, mant). (i16 (exp - 1), i16 (shl mant 1 OR 1))) (exp, mant) of
                  None \<Rightarrow> Inl Diverges
                | Some (exp, mant) \<Rightarrow> Inr (exp, i16 (mant - 8)))
          (\<lambda>(exp, mant).
            cassert (exp \<ge> -4 \<and> exp \<le> 6) (cassert (mant \<ge> 0 \<and> mant \<le> 7) (Inr (exp, mant)))))"

definition gsm_NRFAC :: "int list" where
  "gsm_NRFAC = [29128, 26215, 23832, 21846, 20165, 18725, 17476, 16384]"

text \<open>The loop that finds the exponent of \<open>xmax\<close>.\<close>

fun xmax_exp :: "nat \<Rightarrow> int \<Rightarrow> bool \<Rightarrow> int \<Rightarrow> int res" where
  "xmax_exp 0 temp itest exp = Inr exp"
| "xmax_exp (Suc k) temp itest exp =
     (let itest = (itest \<or> temp \<le> 0) in
      cassert (exp \<le> 5) (xmax_exp k (shr temp 1) itest (if itest then exp else i16 (exp + 1))))"

definition apcm_quantization :: "int list \<Rightarrow> (int list \<times> int \<times> int \<times> int) res" where
  "apcm_quantization xM =
     (let xmax = max_abs xM in
      rbind (xmax_exp 6 (shr xmax 9) False 0) (\<lambda>exp.
      cassert (exp \<le> 6 \<and> exp \<ge> 0)
      (let temp = i16 (exp + 5) in
      cassert (temp \<le> 11 \<and> temp \<ge> 0)
      (let xmaxc = saturated_add16 (shr xmax (nat temp)) (i16 (shl exp 3)) in
      rbind (apcm_quantization_xmaxc_to_exp_mant xmaxc) (\<lambda>(exp, mant).
      cassert (exp \<le> 4096 \<and> exp \<ge> -4096) (cassert (mant \<ge> 0 \<and> mant \<le> 7)
      (let temp1 = i16 (6 - exp) in
      rbind (aget gsm_NRFAC mant) (\<lambda>temp2.
      rbind (rmap (\<lambda>x.
          cassert (temp1 \<ge> 0 \<and> temp1 < 16)
          (let temp = i16 (shl x (nat temp1));
               temp = saturated_mul16 temp temp2;
               temp = shr temp 12
           in Inr (i16 (temp + 4)))) xM) (\<lambda>xMc.
      Inr (xMc, mant, exp, xmaxc))))))))))"

definition gsm_FAC :: "int list" where
  "gsm_FAC = [18431, 20479, 22527, 24575, 26623, 28671, 30719, 32767]"

definition apcm_inverse_quantization :: "int list \<Rightarrow> int \<Rightarrow> int \<Rightarrow> int list res" where
  "apcm_inverse_quantization xMc mant exp =
     rbind (aget gsm_FAC mant) (\<lambda>temp1.
      let temp2 = saturated_sub16 6 exp;
          temp3 = gsm_asl 1 (saturated_sub16 temp2 1)
      in rmap (\<lambda>x.
          cassert (x \<ge> 0 \<and> x \<le> 7)
          (let temp = i16 (shl x 1 - 7) in
           cassert (temp \<le> 7 \<and> temp \<ge> -7)
           (let temp = i16 (shl temp 12);
                temp = gsm_mult_r temp1 temp;
                temp = saturated_add16 temp temp3
            in Inr (gsm_asr temp temp2)))) xMc)"

text \<open>
  The \<open>switch\<close> into the loop of \<open>rpe_grid_positioning\<close>: a round entered at label \<open>l\<close> writes the zeros
  from that label on and a sample; the later rounds write both zeros.
\<close>

fun grid_rounds :: "int \<Rightarrow> int list \<Rightarrow> int list" where
  "grid_rounds l [] = []"
| "grid_rounds l (x # xs) =
     (if l \<ge> 2 then [0] else []) @ (if l \<ge> 1 then [0] else []) @ [x] @ grid_rounds 2 xs"

definition rpe_grid_positioning :: "int \<Rightarrow> int list \<Rightarrow> int list res" where
  "rpe_grid_positioning Mc xMp =
     cassert (0 \<le> Mc \<and> Mc \<le> 3)
      (Inr ((if Mc = 3 then [0] else []) @ grid_rounds Mc xMp @ replicate (nat (3 - Mc)) 0))"

section \<open>Entry points\<close>

text \<open>The result of the encoder: \<open>xmaxc\<close>, \<open>Mc\<close>, \<open>xMc\<close> and the array \<open>e\<close> with the reconstructed residual in it.\<close>

definition gsm0610_rpe_encoding :: "int list \<Rightarrow> (int \<times> int \<times> int list \<times> int list) res" where
  "gsm0610_rpe_encoding e =
     (let x = weighting_filter e;
          (xM, Mc) = rpe_grid_selection x
      in rbind (apcm_quantization xM) (\<lambda>(xMc, mant, exp, xmaxc).
         rbind (apcm_inverse_quantization xMc mant exp) (\<lambda>xMp.
         rbind (rpe_grid_positioning Mc xMp) (\<lambda>ep.
         Inr (xmaxc, Mc, xMc, take 5 e @ ep @ drop 45 e)))))"

definition gsm0610_rpe_decoding :: "int \<Rightarrow> int \<Rightarrow> int list \<Rightarrow> int list res" where
  "gsm0610_rpe_decoding xmaxc Mcr xMcr =
     rbind (apcm_quantization_xmaxc_to_exp_mant xmaxc) (\<lambda>(exp, mant).
     rbind (apcm_inverse_quantization xMcr mant exp) (\<lambda>xMp.
     rpe_grid_positioning Mcr xMp))"

section \<open>Ranges\<close>

lemma weighting_filter_arr: "arr 40 (weighting_filter e)"
  unfolding weighting_filter_def by (rule arr_map) (simp_all add: saturate_range)

lemma grid_pick_best:
  fixes E :: "nat \<Rightarrow> int"
  shows "grid_pick (E 0) (E 1) (E 2) (E 3) \<le> 3 \<and>
    (\<forall>m\<le>3. E m \<le> E (grid_pick (E 0) (E 1) (E 2) (E 3))) \<and>
    (\<forall>m<grid_pick (E 0) (E 1) (E 2) (E 3). E m < E (grid_pick (E 0) (E 1) (E 2) (E 3)))"
proof -
  have all: "(\<forall>m\<le>3. P m) \<longleftrightarrow> P 0 \<and> P 1 \<and> P 2 \<and> P 3" for P :: "nat \<Rightarrow> bool"
    by (auto simp: numeral_eq_Suc le_Suc_eq)
  have less: "(\<forall>m<1. P m) \<longleftrightarrow> P 0" "(\<forall>m<2. P m) \<longleftrightarrow> P 0 \<and> P 1" "(\<forall>m<3. P m) \<longleftrightarrow> P 0 \<and> P 1 \<and> P 2"
    for P :: "nat \<Rightarrow> bool" by (auto simp: numeral_eq_Suc less_Suc_eq)
  show ?thesis unfolding all grid_pick_def by (auto simp: less)
qed

lemma grid_pick_le: "grid_pick L0 L1 L2 L3 \<le> 3"
  by (auto simp: grid_pick_def Let_def)

lemma grid_selection_cases:
  obtains Mc where "Mc \<le> 3" "rpe_grid_selection x = (map (\<lambda>i. x ! (Mc + 3 * i)) [0..<13], int Mc)"
  using grid_pick_le unfolding rpe_grid_selection_def Let_def by blast

text \<open>Exponent and mantissa of the 64 codes, and the largest sample that can have the code.\<close>

definition exp_mant :: "int \<Rightarrow> int \<times> int" where
  "exp_mant v =
     (if v > 15 then (v div 8 - 1, v mod 8) else if v \<ge> 8 then (0, v - 8) else if v \<ge> 4 then (-1, 2 * v - 7)
      else if v \<ge> 2 then (-2, 4 * v - 5) else if v = 1 then (-3, 7) else (-4, 7))"

definition code_max :: "int \<Rightarrow> int" where
  "code_max v = (if v \<le> 15 then 32 * v + 31 else (9 + v mod 8) * 2 ^ nat (v div 8 + 4) - 1)"

lemma codes64: "list_all P (map int [0..<64]) \<Longrightarrow> 0 \<le> v \<Longrightarrow> v \<le> 63 \<Longrightarrow> P v"
proof -
  assume a: "list_all P (map int [0..<64])" and v: "0 \<le> v" "v \<le> 63"
  then have "v \<in> int ` {0..<64}" by (intro image_eqI [of _ _ "nat v"]) auto
  with a show "P v" by (auto simp: list_all_iff)
qed

lemma xmaxc_to_exp_mant_eq:
  assumes "0 \<le> v" "v \<le> 63"
  shows "apcm_quantization_xmaxc_to_exp_mant v = Inr (exp_mant v)"
  by (rule codes64 [OF _ assms]) code_simp
lemma xmax_exp_eq:
  assumes "0 \<le> xmax" "xmax \<le> 32767"
  obtains e where "xmax_exp 6 (shr xmax 9) False 0 = Inr (int e)" "e \<le> 6" "e = 0 \<Longrightarrow> xmax < 512"
    "0 < e \<Longrightarrow> 2 ^ (e + 8) \<le> xmax \<and> xmax < 2 ^ (e + 9)"
proof -
  define t where "t = shr xmax 9"
  have t: "0 \<le> t" "t \<le> 63" "512 * t \<le> xmax" "xmax < 512 * (t + 1)"
    using assms by (auto simp: t_def shr_def)
  have "\<exists>e\<in>set [0..<7]. xmax_exp 6 t False 0 = Inr (int e) \<and> (e = 0 \<longrightarrow> t = 0) \<and> (0 < e \<longrightarrow> 2 ^ (e - 1) \<le> t \<and> t < 2 ^ e)"
    by (rule codes64 [OF _ t(1,2)]) code_simp
  then obtain e where e: "e \<le> 6" "xmax_exp 6 t False 0 = Inr (int e)" "e = 0 \<longrightarrow> t = 0"
    "0 < e \<longrightarrow> 2 ^ (e - 1) \<le> t \<and> t < 2 ^ e" by auto
  have "2 ^ (e + 8) \<le> xmax \<and> xmax < 2 ^ (e + 9)" if pos: "0 < e"
  proof -
    obtain k where k: "e = Suc k" using pos by (cases e) auto
    have "(2 :: int) ^ (e + 8) = 512 * 2 ^ k" "(2 :: int) ^ (e + 9) = 512 * 2 ^ e" by (simp_all add: k power_add)
    then show ?thesis using e(4) pos t(3,4) k by simp
  qed
  moreover have "xmax < 512" if "e = 0" using e(3) t(4) that by simp
  ultimately show thesis using that [of e] e(1,2) unfolding t_def by blast
qed

lemma xmaxc_bounds:
  assumes "0 \<le> xmax" "xmax \<le> 32767" "xmax_exp 6 (shr xmax 9) False 0 = Inr e"
  shows "0 \<le> e \<and> e \<le> 6 \<and> (let v = saturated_add16 (shr xmax (nat (i16 (e + 5)))) (i16 (shl e 3)) in
    0 \<le> v \<and> v \<le> 63 \<and> xmax \<le> code_max v)"
proof -
  obtain n where n: "e = int n" "n \<le> 6" "n = 0 \<Longrightarrow> xmax < 512" "0 < n \<Longrightarrow> 2 ^ (n + 8) \<le> xmax \<and> xmax < 2 ^ (n + 9)"
    using xmax_exp_eq [OF assms(1,2)] assms(3) by (metis Inr_inject)
  define q where "q = xmax div 2 ^ (n + 5)"
  have q0: "0 \<le> q" using assms(1) by (simp add: q_def pos_imp_zdiv_nonneg_iff)
  have m: "xmax mod 2 ^ (n + 5) < 2 ^ (n + 5)" by simp
  have "xmax = q * 2 ^ (n + 5) + xmax mod 2 ^ (n + 5)" by (simp only: q_def div_mult_mod_eq)
  with m have "xmax < q * 2 ^ (n + 5) + 2 ^ (n + 5)" by linarith
  with q0 have q: "0 \<le> q" "xmax < (q + 1) * 2 ^ (n + 5)" by (simp_all add: distrib_right)
  have q15: "q \<le> 15"
    using n(3,4) int_div_less [of "2 ^ (n + 5)" xmax 16] by (cases "n = 0") (auto simp: q_def power_add)
  have q8: "8 \<le> q" if "0 < n"
  proof -
    have "8 * 2 ^ (n + 5) \<le> xmax" using n(4) that by (simp add: power_add)
    then show ?thesis unfolding q_def by (intro int_le_div) simp_all
  qed
  have i: "i16 (e + 5) = e + 5" "i16 (shl e 3) = 8 * e" using n(1,2) by (simp_all add: i16_id is16_def shl_def)
  have s: "nat (e + 5) = n + 5" using n(1) by simp
  have v: "saturated_add16 (shr xmax (nat (i16 (e + 5)))) (i16 (shl e 3)) = q + 8 * int n"
    unfolding i s shr_def q_def [symmetric] saturated_add16_def saturate_clamp clamp16_def
    using q(1) q15 n(1,2) by simp
  have "xmax \<le> code_max (q + 8 * int n)"
  proof (cases "n = 0")
    case True
    then show ?thesis using q q15 by (simp add: code_max_def)
  next
    case False
    then have d: "(q + 8 * int n) div 8 = int n + 1" "(q + 8 * int n) mod 8 = q - 8"
      using q8 q15 False by presburger+
    have "nat (int n + 1 + 4) = n + 5" by simp
    then show ?thesis using False q q8 d by (simp add: code_max_def add.commute)
  qed
  then show ?thesis unfolding v Let_def using n(1,2) q(1) q15 by simp
qed

text \<open>Every code with its table entries scales the samples it can have into the range of three bits.\<close>

definition code_scales :: "int \<Rightarrow> bool" where
  "code_scales v =
     (let (exp, mant) = exp_mant v; B = code_max v * 2 ^ nat (6 - exp); f = gsm_NRFAC ! nat mant
      in -4 \<le> exp \<and> exp \<le> 6 \<and> 0 \<le> mant \<and> mant \<le> 7 \<and> B \<le> 32767 \<and> 0 \<le> f \<and> f \<le> 32767 \<and>
         B * f div 32768 div 4096 \<le> 3 \<and> -4 \<le> (- B) * f div 32768 div 4096)"

lemma all_codes_scale: "0 \<le> v \<Longrightarrow> v \<le> 63 \<Longrightarrow> code_scales v"
  by (erule (1) codes64 [rotated]) code_simp

lemma quantised_sample:
  assumes "0 \<le> v" "v \<le> 63" "exp_mant v = (exp, mant)" "- code_max v \<le> x \<or> x = -32768 \<and> v = 63" "x \<le> code_max v"
  shows "let t = shr (saturated_mul16 (i16 (shl x (nat (i16 (6 - exp))))) (gsm_NRFAC ! nat mant)) 12
    in 0 \<le> i16 (t + 4) \<and> i16 (t + 4) \<le> 7"
proof (cases "- code_max v \<le> x")
  case True
  define p :: int where "p = 2 ^ nat (6 - exp)"
  define f where "f = gsm_NRFAC ! nat mant"
  define B where "B = code_max v * p"
  have s: "-4 \<le> exp" "exp \<le> 6" "B \<le> 32767" "0 \<le> f" "f \<le> 32767" "B * f div 32768 div 4096 \<le> 3"
    "-4 \<le> (- B) * f div 32768 div 4096"
    using all_codes_scale [OF assms(1,2)] by (simp_all add: code_scales_def assms(3) B_def p_def f_def Let_def)
  have p: "0 < p" by (simp add: p_def)
  have x: "- B \<le> x * p" "x * p \<le> B"
    using mult_right_mono [OF True, of p] mult_right_mono [OF assms(5), of p] p by (simp_all add: B_def)
  then have x16: "is16 (x * p)" using s(3) by (simp add: is16_def)
  have "(x * p) * f div 32768 div 4096 \<le> B * f div 32768 div 4096"
    using x s(4) by (intro zdiv_mono1 mult_right_mono) simp_all
  moreover have "(- B) * f div 32768 div 4096 \<le> (x * p) * f div 32768 div 4096"
    using x s(4) by (intro zdiv_mono1 mult_right_mono) simp_all
  moreover have "saturated_mul16 (x * p) f = x * p * f div 32768"
    using saturated_mul16_eq [OF x16, of f] s(4,5) by (simp add: is16_def)
  moreover have "i16 (6 - exp) = 6 - exp" using s(1,2) by (simp add: i16_id is16_def)
  ultimately show ?thesis
    using s(6,7) x16 by (simp add: shl_def shr_def i16_id is16_def f_def [symmetric] p_def [symmetric])
next
  case False
  then have x: "x = -32768" "v = 63" using assms(4) by auto
  then have "exp = 6" "mant = 7" using assms(3) by (simp_all add: exp_mant_def)
  then show ?thesis
    using x(1) by (simp add: gsm_NRFAC_def shl_def shr_def i16_id is16_def saturated_mul16_eq Let_def)
qed

lemma quantization_ok:
  assumes "arr 13 xM"
  shows "\<exists>xMc mant exp xmaxc. apcm_quantization xM = Inr (xMc, mant, exp, xmaxc) \<and> 0 \<le> xmaxc \<and> xmaxc \<le> 63 \<and>
    exp_mant xmaxc = (exp, mant) \<and> length xMc = 13 \<and> list_all (\<lambda>x. 0 \<le> x \<and> x \<le> 7) xMc"
proof -
  define xmax where "xmax = max_abs xM"
  have all16: "list_all is16 xM" using assms by (simp add: arr_def)
  then have xm: "0 \<le> xmax" "xmax \<le> 32767" using max_abs_bounds by (auto simp: xmax_def)
  obtain n where n: "xmax_exp 6 (shr xmax 9) False 0 = Inr n" using xmax_exp_eq [OF xm] by blast
  define v where "v = saturated_add16 (shr xmax (nat (i16 (n + 5)))) (i16 (shl n 3))"
  have e: "0 \<le> n" "n \<le> 6" "0 \<le> v" "v \<le> 63" "xmax \<le> code_max v"
    using xmaxc_bounds [OF xm n] by (simp_all add: v_def Let_def)
  have t: "i16 (n + 5) = n + 5" using e(1,2) by (simp add: i16_id is16_def)
  have v': "saturated_add16 (shr xmax (nat (n + 5))) (i16 (shl n 3)) = v" by (simp add: v_def t)
  obtain exp mant where em: "exp_mant v = (exp, mant)" by fastforce
  have s: "-4 \<le> exp" "exp \<le> 6" "0 \<le> mant" "mant \<le> 7"
    using all_codes_scale [OF e(3,4)] by (simp_all add: code_scales_def em Let_def)
  have t1: "i16 (6 - exp) = 6 - exp" using s by (simp add: i16_id is16_def)
  have g: "aget gsm_NRFAC mant = Inr (gsm_NRFAC ! nat mant)" using s by (simp add: aget_def gsm_NRFAC_def)
  define F where "F x = cassert (i16 (6 - exp) \<ge> 0 \<and> i16 (6 - exp) < 16)
    (let temp = i16 (shl x (nat (i16 (6 - exp)))); temp = saturated_mul16 temp (gsm_NRFAC ! nat mant);
         temp = shr temp 12 in Inr (i16 (temp + 4)) :: int res)" for x
  have "\<exists>xMc. rmap F xM = Inr xMc \<and> length xMc = length xM \<and> list_all (\<lambda>x. 0 \<le> x \<and> x \<le> 7) xMc"
  proof (rule rmap_ok)
    fix x assume x: "x \<in> set xM"
    have "- code_max v \<le> x \<or> x = -32768 \<and> v = 63"
    proof (cases "x = -32768")
      case True
      then have "xmax = 32767" using max_abs_bounds [OF all16] x xm(2)
        by (force simp: xmax_def saturated_abs16_def INT16_MIN_def INT16_MAX_def)
      then have "v = 63" using n unfolding v_def
        by (simp add: shr_def shl_def i16_def saturated_add16_def saturate_def numeral_eq_Suc split: if_splits)
      then show ?thesis using True by simp
    next
      case False
      then show ?thesis using max_abs_le(3) [OF all16 x] e(5) by (simp add: xmax_def)
    qed
    moreover have "x \<le> code_max v" using max_abs_le(1) [OF all16 x] e(5) by (simp add: xmax_def)
    ultimately show "\<exists>y. F x = Inr y \<and> 0 \<le> y \<and> y \<le> 7"
      using quantised_sample [OF e(3,4) em] s t1 by (simp add: F_def Let_def)
  qed
  then obtain xMc where "rmap F xM = Inr xMc" "length xMc = 13" "list_all (\<lambda>x. 0 \<le> x \<and> x \<le> 7) xMc"
    using arr_length [OF assms] by auto
  moreover have "apcm_quantization xM = rbind (rmap F xM) (\<lambda>xMc. Inr (xMc, mant, exp, v))"
    using n e(1,2) s t g xmaxc_to_exp_mant_eq [OF e(3,4)]
    by (simp add: apcm_quantization_def xmax_def [symmetric] v' em F_def [abs_def] Let_def)
  ultimately show ?thesis using e(3,4) em by auto
qed

lemma inverse_quantization_ok:
  assumes "0 \<le> mant" "mant \<le> 7" "length xMc = n" "list_all (\<lambda>x. 0 \<le> x \<and> x \<le> 7) xMc"
  shows "\<exists>xMp. apcm_inverse_quantization xMc mant exp = Inr xMp \<and> arr n xMp"
proof -
  have g: "aget gsm_FAC mant = Inr (gsm_FAC ! nat mant)" using assms(1,2) by (simp add: aget_def gsm_FAC_def)
  have i: "i16 (shl x (Suc 0) - 7) = 2 * x - 7" if "0 \<le> x" "x \<le> 7" for x
    using that by (simp add: i16_id is16_def shl_def)
  have "\<exists>xMp. apcm_inverse_quantization xMc mant exp = Inr xMp \<and> length xMp = length xMc \<and> list_all is16 xMp"
    unfolding apcm_inverse_quantization_def g rbind_simps Let_def
    by (rule rmap_ok) (use assms(4) in \<open>auto simp: list_all_iff i gsm_asr_range\<close>)
  then show ?thesis using assms(3) by (simp add: arr_def)
qed

lemma length_grid_rounds:
  assumes "0 \<le> l" "xs \<noteq> []"
  shows "length (grid_rounds l xs) = nat (min l 2) + 3 * length xs - 2"
proof -
  have two: "length (grid_rounds 2 ys) = 3 * length ys" for ys by (induction ys) simp_all
  then show ?thesis using assms by (cases xs) (auto simp: min_def)
qed

lemma grid_rounds_set: "set (grid_rounds l xs) \<subseteq> insert 0 (set xs)"
  by (induction l xs rule: grid_rounds.induct) auto

lemma grid_positioning_ok:
  assumes "0 \<le> m" "m \<le> 3" "arr 13 xMp"
  shows "\<exists>ep. rpe_grid_positioning m xMp = Inr ep \<and> arr 40 ep"
proof -
  have l: "length xMp = 13" "xMp \<noteq> []" using arr_length [OF assms(3)] by auto
  have "length (grid_rounds m xMp) = nat (min m 2) + 37" using length_grid_rounds [OF assms(1) l(2)] l(1) by simp
  then have "length ((if m = 3 then [0] else []) @ grid_rounds m xMp @ replicate (nat (3 - m)) 0) = 40"
    using assms(1,2) by (auto simp: min_def)
  then show ?thesis
    using assms grid_rounds_set [of m xMp] arr_set [OF assms(3)]
    by (auto simp: rpe_grid_positioning_def arr_def list_all_iff is16_def)
qed

lemma exp_mant_range: "0 \<le> v \<Longrightarrow> v \<le> 63 \<Longrightarrow> exp_mant v = (exp, mant) \<Longrightarrow> 0 \<le> mant \<and> mant \<le> 7"
  using all_codes_scale [of v] by (simp add: code_scales_def Let_def)

lemma rpe_decoding_ok:
  assumes "0 \<le> v" "v \<le> 63" "0 \<le> m" "m \<le> 3" "length x = 13" "list_all (\<lambda>x. 0 \<le> x \<and> x \<le> 7) x"
  shows "\<exists>erp. gsm0610_rpe_decoding v m x = Inr erp \<and> arr 40 erp"
proof -
  obtain exp mant where em: "exp_mant v = (exp, mant)" by fastforce
  obtain xMp where "apcm_inverse_quantization x mant exp = Inr xMp" "arr 13 xMp"
    using inverse_quantization_ok exp_mant_range [OF assms(1,2) em] assms(5,6) by blast
  then show ?thesis
    using grid_positioning_ok [OF assms(3,4)] xmaxc_to_exp_mant_eq [OF assms(1,2)] em
    by (auto simp: gsm0610_rpe_decoding_def)
qed

lemma rpe_selection_ok:
  assumes "arr 50 e"
  obtains m xM where "m \<le> 3" "rpe_grid_selection (weighting_filter e) = (xM, int m)" "arr 13 xM"
proof -
  define x where "x = weighting_filter e"
  obtain m where m: "m \<le> 3" "rpe_grid_selection x = (map (\<lambda>i. x ! (m + 3 * i)) [0..<13], int m)"
    by (rule grid_selection_cases)
  have "arr 13 (map (\<lambda>i. x ! (m + 3 * i)) [0..<13])"
    by (rule arr_map) (use m(1) arr_nth [OF weighting_filter_arr] in \<open>simp_all add: x_def\<close>)
  with m that show thesis by (simp add: x_def)
qed

lemma quantise_and_back:
  assumes "arr 13 xM" "0 \<le> m" "m \<le> 3"
  obtains xMc mant exp v xMp ep where "apcm_quantization xM = Inr (xMc, mant, exp, v)" "0 \<le> v" "v < 64"
    "exp_mant v = (exp, mant)" "length xMc = 13" "list_all (\<lambda>x. 0 \<le> x \<and> x < 8) xMc"
    "apcm_inverse_quantization xMc mant exp = Inr xMp" "rpe_grid_positioning m xMp = Inr ep" "arr 40 ep"
proof -
  obtain xMc mant exp v where
    q: "apcm_quantization xM = Inr (xMc, mant, exp, v)" "0 \<le> v" "v \<le> 63"
      "exp_mant v = (exp, mant)" "length xMc = 13" "list_all (\<lambda>x. 0 \<le> x \<and> x \<le> 7) xMc"
    using quantization_ok [OF assms(1)] by (elim exE conjE)
  have mant: "0 \<le> mant" "mant \<le> 7" using exp_mant_range [OF q(2-4)] by simp_all
  obtain xMp where p: "apcm_inverse_quantization xMc mant exp = Inr xMp" "arr 13 xMp"
    using inverse_quantization_ok [OF mant q(5,6), of exp] by (elim exE conjE)
  obtain ep where ep: "rpe_grid_positioning m xMp = Inr ep" "arr 40 ep"
    using grid_positioning_ok [OF assms(2,3) p(2)] by (elim exE conjE)
  have "v < 64" "list_all (\<lambda>x. 0 \<le> x \<and> x < 8) xMc" using q(3,6) by (auto simp: list_all_iff)
  then show thesis using that q(1,2,4,5) p(1) ep by blast
qed

lemma rpe_encoding_decoding:
  assumes "arr 50 e"
  shows "\<exists>xmaxc Mc xMc e'. gsm0610_rpe_encoding e = Inr (xmaxc, Mc, xMc, e') \<and> arr 50 e' \<and>
    0 \<le> xmaxc \<and> xmaxc < 64 \<and> 0 \<le> Mc \<and> Mc < 4 \<and> length xMc = 13 \<and> list_all (\<lambda>x. 0 \<le> x \<and> x < 8) xMc \<and>
    gsm0610_rpe_decoding xmaxc Mc xMc = Inr (take 40 (drop 5 e')) \<and>
    take 5 e' = take 5 e \<and> drop 45 e' = drop 45 e"
proof -
  obtain m xM where m: "m \<le> 3" "rpe_grid_selection (weighting_filter e) = (xM, int m)" "arr 13 xM"
    by (rule rpe_selection_ok [OF assms])
  obtain xMc mant exp v xMp ep where q: "apcm_quantization xM = Inr (xMc, mant, exp, v)" "0 \<le> v" "v < 64"
    "exp_mant v = (exp, mant)" "length xMc = 13" "list_all (\<lambda>x. 0 \<le> x \<and> x < 8) xMc"
    "apcm_inverse_quantization xMc mant exp = Inr xMp" "rpe_grid_positioning (int m) xMp = Inr ep" "arr 40 ep"
    by (rule quantise_and_back [OF m(3), of "int m"]) (use m(1) in simp_all)
  define e' where "e' = take 5 e @ ep @ drop 45 e"
  have len: "length ep = 40" "length e = 50" using q(9) assms by (simp_all add: arr_def)
  have b: "arr 45 (ep @ drop 45 e)" by (rule arr_append [OF q(9) arr_drop [OF assms]]) simp
  have a: "arr 5 (take 5 e)" by (rule arr_take [OF assms]) simp
  have 1: "arr 50 e'" unfolding e'_def by (rule arr_append [OF a b]) simp
  have 2: "gsm0610_rpe_encoding e = Inr (v, int m, xMc, e')"
    using q(1,7,8) m(2) by (simp add: gsm0610_rpe_encoding_def e'_def Let_def)
  have 3: "gsm0610_rpe_decoding v (int m) xMc = Inr (take 40 (drop 5 e'))"
    using xmaxc_to_exp_mant_eq [of v] q(2,3,4,7,8) len by (simp add: gsm0610_rpe_decoding_def e'_def)
  have 4: "take 5 e' = take 5 e" "drop 45 e' = drop 45 e" using len by (simp_all add: e'_def)
  show ?thesis
    by (rule exI [of _ v], rule exI [of _ "int m"], rule exI [of _ xMc], rule exI [of _ e'])
      (use 1 2 3 4 q(2,3,5,6) m(1) in simp)
qed

text \<open>
  C21. The RPE encoder and decoder agree. On any 16-bit residual the encoder passes all its
  assertions, stays inside its tables, and its parameters fit their fields: \<open>xmaxc\<close> in 6 bits, \<open>Mc\<close> in 2,
  each of the 13 \<open>xMc\<close> in 3. And the decoder, given just these parameters, reconstructs exactly the
  residual that the encoder has put back into \<open>e\<close> for its own prediction.
\<close>

theorem rpe_encoder_decoder_agree:
  assumes "arr 50 e"
  shows "\<exists>xmaxc Mc xMc e'. gsm0610_rpe_encoding e = Inr (xmaxc, Mc, xMc, e') \<and> arr 50 e' \<and>
    0 \<le> xmaxc \<and> xmaxc < 64 \<and> 0 \<le> Mc \<and> Mc < 4 \<and> length xMc = 13 \<and> list_all (\<lambda>x. 0 \<le> x \<and> x < 8) xMc \<and>
    gsm0610_rpe_decoding xmaxc Mc xMc = Inr (take 40 (drop 5 e')) \<and>
    take 5 e' = take 5 e \<and> drop 45 e' = drop 45 e"
  by (rule rpe_encoding_decoding [OF assms])

theorem rpe_encoder_decoder_agree_witness:
  "\<exists>xmaxc Mc xMc e'. gsm0610_rpe_encoding (replicate 50 0) = Inr (xmaxc, Mc, xMc, e') \<and>
    gsm0610_rpe_decoding xmaxc Mc xMc = Inr (take 40 (drop 5 e'))"
  using rpe_encoder_decoder_agree [OF arr_replicate] by blast

section \<open>Which grid is chosen\<close>

definition grid_energy :: "int list \<Rightarrow> nat \<Rightarrow> int" where
  "grid_energy x m = 2 * (\<Sum>i\<leftarrow>[0..<13]. (x ! (m + 3 * i) div 4) ^ 2)"

lemma grid_square:
  assumes "arr 40 x" "p < 40"
  shows "0 \<le> (x ! p div 4) ^ 2 \<and> (x ! p div 4) ^ 2 \<le> 67108864"
proof -
  define t where "t = x ! p div 4"
  have "\<bar>t\<bar> \<le> 8192" using arr_nth [OF assms] by (auto simp: t_def is16_def)
  then have "\<bar>t\<bar> * \<bar>t\<bar> \<le> 8192 * 8192" by (intro mult_mono) auto
  then show ?thesis by (simp add: t_def [symmetric] power2_eq_square abs_mult [symmetric])
qed

text \<open>The partial sums stay below \<open>2 ^ 30\<close>, so neither they nor the doubling at the end wraps.\<close>

lemma grid_fold:
  assumes "arr 40 x" "\<And>i. i \<in> set is \<Longrightarrow> m + 3 * i < 40" "0 \<le> L" "L + 67108864 * int (length is) \<le> 1073741823"
  shows "foldl (grid_step x m) L is = L + (\<Sum>i\<leftarrow>is. (x ! (m + 3 * i) div 4) ^ 2) \<and>
    is32 (2 * (L + (\<Sum>i\<leftarrow>is. (x ! (m + 3 * i) div 4) ^ 2)))"
  using assms(2-4)
proof (induction "is" arbitrary: L)
  case (Cons i "is")
  define q where "q = (x ! (m + 3 * i) div 4) ^ 2"
  have q: "0 \<le> q" "q \<le> 67108864" using grid_square [OF assms(1), of "m + 3 * i"] Cons.prems(1) by (simp_all add: q_def)
  have "is32 (L + q)" using q Cons.prems(2,3) unfolding is32_def by simp
  then have "grid_step x m L i = L + q" by (simp add: grid_step_def shr_def q_def i32_id power2_eq_square Let_def)
  then show ?case
    using Cons.IH [of "L + q"] q Cons.prems by (simp add: q_def [symmetric] add.assoc)
qed (simp add: is32_def)

lemma grid_sum:
  assumes "arr 40 x" "m \<le> 3" "set is \<subseteq> {..<13}" "length is = 13"
  shows "i32 (shl (foldl (grid_step x m) 0 is) 1) = 2 * (\<Sum>i\<leftarrow>is. (x ! (m + 3 * i) div 4) ^ 2)"
proof -
  have "m + 3 * i < 40" if "i \<in> set is" for i using that assms(2,3) by (auto simp: subset_iff dest!: spec [of _ i])
  from grid_fold [OF assms(1) this, where L = 0] assms(4)
  have "foldl (grid_step x m) 0 is = (\<Sum>i\<leftarrow>is. (x ! (m + 3 * i) div 4) ^ 2)"
    "is32 (2 * (\<Sum>i\<leftarrow>is. (x ! (m + 3 * i) div 4) ^ 2))" by simp_all
  then show ?thesis by (simp add: shl_def i32_id mult.commute)
qed

text \<open>
  The grid of the RPE encoder is the one with the largest energy, the first of them if several have
  it, and the 13 samples are those of that grid; the sums of squares do not overflow 32 bits.
  Grids 0 and 3 share a partial sum in the code; here the energy is a plain sum.
\<close>

lemma grid_selection_maximal:
  assumes "arr 40 x" "rpe_grid_selection x = (xM, Mc)"
  shows "0 \<le> Mc \<and> Mc \<le> 3 \<and> xM = map (\<lambda>i. x ! (nat Mc + 3 * i)) [0..<13] \<and>
    (\<forall>m\<le>3. grid_energy x m \<le> grid_energy x (nat Mc)) \<and> (\<forall>m<nat Mc. grid_energy x m < grid_energy x (nat Mc))"
proof -
  define common where "common = foldl (grid_step x 0) 0 [1..<13]"
  have sum: "i32 (shl (foldl (grid_step x m) 0 [0..<13]) 1) = grid_energy x m" if "m \<le> 3" for m
    using grid_sum [OF assms(1) that, of "[0..<13]"] by (simp add: grid_energy_def lessThan_atLeast0)
  have "grid_step x 0 common 0 = foldl (grid_step x 0) 0 ([1..<13] @ [0])" by (simp add: common_def)
  then have L0: "i32 (shl (grid_step x 0 common 0) 1) = grid_energy x 0"
    using grid_sum [OF assms(1), of 0 "[1..<13] @ [0]"] by (simp add: grid_energy_def upt_rec)
  have "common = foldl (grid_step x 0) 0 (map Suc [0..<12])" by (simp add: common_def map_Suc_upt)
  also have "\<dots> = foldl (grid_step x 3) 0 [0..<12]" by (simp add: foldl_map grid_step_def [abs_def])
  finally have "grid_step x 3 common 12 = foldl (grid_step x 3) 0 [0..<13]" by (simp add: numeral_eq_Suc)
  then have L3: "i32 (shl (grid_step x 3 common 12) 1) = grid_energy x 3" using sum [of 3] by simp
  have sum12: "i32 (shl (foldl (grid_step x 1) 0 [0..<13]) 1) = grid_energy x 1"
    "i32 (shl (foldl (grid_step x 2) 0 [0..<13]) 1) = grid_energy x 2" by (rule sum, simp)+
  define M where "M = grid_pick (grid_energy x 0) (grid_energy x 1) (grid_energy x 2) (grid_energy x 3)"
  have "rpe_grid_selection x = (map (\<lambda>i. x ! (M + 3 * i)) [0..<13], int M)"
    unfolding rpe_grid_selection_def Let_def common_def [symmetric] L0 L3 sum12
    by (simp add: M_def)
  then have "xM = map (\<lambda>i. x ! (M + 3 * i)) [0..<13]" "Mc = int M" using assms(2) by simp_all
  then show ?thesis using grid_pick_best [of "grid_energy x", folded M_def] by simp
qed

theorem grid_selection_maximal_witness:
  "let x = replicate 38 0 @ [100, 200]; (xM, Mc) = rpe_grid_selection x in Mc = 3 \<and> grid_energy x 2 \<le> grid_energy x 3"
proof -
  have "arr 40 (replicate 38 0 @ [100, 200])" by (simp add: arr_def is16_def list_all_iff)
  moreover have "rpe_grid_selection (replicate 38 0 @ [100, 200]) = (replicate 12 0 @ [200], 3)" by code_simp
  ultimately show ?thesis using grid_selection_maximal by (fastforce simp: Let_def)
qed

end
