(* ===== verification/Gsm_State.thy ===== *)
theory Gsm_State
  imports Gsm_Array
begin

text \<open>
  The state of a GSM 06.10 encoder or decoder, \<open>struct gsm0610_state_s\<close> of
  \<^verbatim>\<open>src/jni/spandsp/spandsp/private/gsm0610.h\<close>, its initialisation, and its invariant: the lengths
  and ranges of all arrays, the narrower range of the last downscaled sample, that the offset filter's
  memory is this sample less an average within the same range, the lag of the
  long-term filter, and the zero margins of the excitation array.
\<close>

definition GSM0610_PACKING_NONE :: int where "GSM0610_PACKING_NONE = 0"
definition GSM0610_PACKING_WAV49 :: int where "GSM0610_PACKING_WAV49 = 1"
definition GSM0610_PACKING_VOIP :: int where "GSM0610_PACKING_VOIP = 2"

definition GSM0610_FRAME_LEN :: nat where "GSM0610_FRAME_LEN = 160"

record gsm0610_state_t =
  s_packing :: int
  s_dp0 :: "int list"
  s_z1 :: int
  s_L_z2 :: int
  s_mp :: int
  s_u :: "int list"
  s_LARpp :: "int list list"
  s_j :: nat
  s_nrp :: int
  s_v :: "int list"
  s_msr :: int
  s_e :: "int list"

text \<open>\<open>memset\<close> to zero, then the lag and the packing; the caller provides the memory.\<close>

definition gsm0610_init :: "int \<Rightarrow> gsm0610_state_t" where
  "gsm0610_init packing =
     \<lparr>s_packing = packing, s_dp0 = replicate 280 0, s_z1 = 0, s_L_z2 = 0, s_mp = 0,
      s_u = replicate 8 0, s_LARpp = replicate 2 (replicate 8 0), s_j = 0,
      s_nrp = 40, s_v = replicate 9 0, s_msr = 0, s_e = replicate 50 0\<rparr>"

definition gsm0610_set_packing :: "gsm0610_state_t \<Rightarrow> int \<Rightarrow> gsm0610_state_t \<times> int" where
  "gsm0610_set_packing s packing = (s\<lparr>s_packing := packing\<rparr>, 0)"

section \<open>Invariant\<close>

definition codec_ok :: "gsm0610_state_t \<Rightarrow> bool" where
  "codec_ok s \<longleftrightarrow> arr 280 (s_dp0 s) \<and> -16384 \<le> s_z1 s \<and> s_z1 s \<le> 16380 \<and> -536870912 \<le> s_z1 s * 32768 - s_L_z2 s \<and> s_z1 s * 32768 - s_L_z2 s \<le> 536739840 \<and> is16 (s_mp s) \<and>
     arr 8 (s_u s) \<and> length (s_LARpp s) = 2 \<and> list_all (arr 8) (s_LARpp s) \<and> s_j s \<le> 1 \<and>
     40 \<le> s_nrp s \<and> s_nrp s \<le> 120 \<and> arr 9 (s_v s) \<and> is16 (s_msr s) \<and>
     arr 50 (s_e s) \<and> take 5 (s_e s) = replicate 5 0 \<and> drop 45 (s_e s) = replicate 5 0"

lemma codec_ok_init: "codec_ok (gsm0610_init p)"
  by (simp add: codec_ok_def gsm0610_init_def arr_replicate is32_def is16_def list_all_iff)

lemma packing_init [simp]: "s_packing (gsm0610_init p) = p"
  by (simp add: gsm0610_init_def)

lemma codec_ok_set_packing: "codec_ok s \<Longrightarrow> codec_ok (fst (gsm0610_set_packing s p))"
  by (simp add: codec_ok_def gsm0610_set_packing_def)

end
