(* ===== verification/Gsm_Short_Term.thy ===== *)
theory Gsm_Short_Term
  imports Gsm_State
begin

text \<open>
  The short-term filters, \<^verbatim>\<open>src/jni/spandsp/gsm0610_short_term.c\<close>: decoding of the log area ratios, their
  interpolation between frames, the conversion to reflection coefficients, the lattice analysis
  filter of the encoder and the synthesis filter of the decoder.
\<close>

section \<open>Log area ratios\<close>

text \<open>The macro \<open>STEP(B, MIC, INVA)\<close> and its eight uses.\<close>

definition lar_decode_step :: "int \<times> int \<times> int \<Rightarrow> int \<Rightarrow> int" where
  "lar_decode_step c x =
     (case c of (B, MIC, INVA) \<Rightarrow>
       let temp1 = i16 (shl (saturated_add16 x MIC) 10);
           temp1 = saturated_sub16 temp1 (i16 (shl B 1));
           temp1 = gsm_mult_r INVA temp1
       in saturated_add16 temp1 temp1)"

definition lar_decode_consts :: "(int \<times> int \<times> int) list" where
  "lar_decode_consts =
     [(0, -32, 13107), (0, -32, 13107), (2048, -16, 13107), (-2560, -16, 13107),
      (94, -8, 19223), (-1792, -8, 17476), (-341, -4, 31454), (-1144, -4, 29708)]"

definition decode_log_area_ratios :: "int list \<Rightarrow> int list" where
  "decode_log_area_ratios LARc = map (\<lambda>i. lar_decode_step (lar_decode_consts ! i) (LARc ! i)) [0..<8]"

definition coefficients_0_12 :: "int list \<Rightarrow> int list \<Rightarrow> int list" where
  "coefficients_0_12 LARpp_j_1 LARpp_j =
     map (\<lambda>i. let p = saturated_add16 (shr (LARpp_j_1 ! i) 2) (shr (LARpp_j ! i) 2)
              in saturated_add16 p (shr (LARpp_j_1 ! i) 1)) [0..<8]"

definition coefficients_13_26 :: "int list \<Rightarrow> int list \<Rightarrow> int list" where
  "coefficients_13_26 LARpp_j_1 LARpp_j =
     map (\<lambda>i. saturated_add16 (shr (LARpp_j_1 ! i) 1) (shr (LARpp_j ! i) 1)) [0..<8]"

definition coefficients_27_39 :: "int list \<Rightarrow> int list \<Rightarrow> int list" where
  "coefficients_27_39 LARpp_j_1 LARpp_j =
     map (\<lambda>i. let p = saturated_add16 (shr (LARpp_j_1 ! i) 2) (shr (LARpp_j ! i) 2)
              in saturated_add16 p (shr (LARpp_j ! i) 1)) [0..<8]"

definition coefficients_40_159 :: "int list \<Rightarrow> int list" where
  "coefficients_40_159 LARpp_j = map (\<lambda>i. LARpp_j ! i) [0..<8]"

text \<open>The three branches that both signs share, and the loop body.\<close>

definition larp_ramp :: "int \<Rightarrow> int" where
  "larp_ramp temp =
     (if temp < 11059 then i16 (shl temp 1)
      else if temp < 20070 then i16 (temp + 11059)
      else saturated_add16 (shr temp 2) 26112)"

definition larp_to_rp1 :: "int \<Rightarrow> int" where
  "larp_to_rp1 x =
     (let temp = x in
      if temp < 0
      then let temp = (if temp = INT16_MIN then INT16_MAX else i16 (- temp)) in i16 (- larp_ramp temp)
      else larp_ramp temp)"

definition larp_to_rp :: "int list \<Rightarrow> int list" where
  "larp_to_rp LARp = map larp_to_rp1 LARp"

section \<open>Filters\<close>

text \<open>
  One sample through the analysis lattice: reflection coefficients and delay line side by side, the
  two running values \<open>di\<close> and \<open>u_out\<close>; the results are the new delay line and the last \<open>di\<close>.
\<close>

fun lattice :: "int list \<Rightarrow> int list \<Rightarrow> int \<Rightarrow> int \<Rightarrow> int list \<times> int" where
  "lattice (rpi # rp) (ui # u) di u_out =
     (let u_out' = saturate (ui + shr (rpi * di + 0x4000) 15);
          di' = saturate (di + shr (rpi * ui + 0x4000) 15);
          (u', d) = lattice rp u di' u_out'
      in (i16 u_out # u', d))"
| "lattice _ _ di u_out = ([], di)"

fun short_term_analysis_filtering :: "int list \<Rightarrow> int list \<Rightarrow> int list \<Rightarrow> int list \<times> int list" where
  "short_term_analysis_filtering rp u [] = (u, [])"
| "short_term_analysis_filtering rp u (x # amp) =
     (let (u', di) = lattice rp u x x;
          (u'', amp') = short_term_analysis_filtering rp u' amp
      in (u'', i16 di # amp'))"

text \<open>The rounded product as this function writes it out, and one round \<open>i\<close> of its inner loop.\<close>

definition sts_mult :: "int \<Rightarrow> int \<Rightarrow> int" where
  "sts_mult a b =
     (if a = INT16_MIN \<and> b = INT16_MIN then INT16_MAX else i16 (i16 (shr (a * b + 16384) 15) mod 65536))"

definition sts_round :: "int list \<Rightarrow> nat \<Rightarrow> int list \<times> int \<Rightarrow> int list \<times> int" where
  "sts_round rrp i st =
     (let (v, sri) = st;
          tmp1 = rrp ! i;
          tmp2 = sts_mult tmp1 (v ! i);
          sri = saturated_sub16 sri tmp2;
          tmp1 = sts_mult tmp1 sri
      in (v[Suc i := saturated_add16 (v ! i) tmp1], sri))"

fun short_term_synthesis_filtering :: "int list \<Rightarrow> int list \<Rightarrow> int list \<Rightarrow> int list \<times> int list" where
  "short_term_synthesis_filtering rrp v [] = (v, [])"
| "short_term_synthesis_filtering rrp v (w # wt) =
     (let (v, sri) = fold (sts_round rrp) [7, 6, 5, 4, 3, 2, 1, 0] (v, w);
          (v', sr) = short_term_synthesis_filtering rrp (v[0 := sri]) wt
      in (v', sri # sr))"

section \<open>Entry points\<close>

definition gsm0610_short_term_analysis_filter ::
  "gsm0610_state_t \<Rightarrow> int list \<Rightarrow> int list \<Rightarrow> gsm0610_state_t \<times> int list" where
  "gsm0610_short_term_analysis_filter s LARc amp =
     (let j = s_j s;
          j' = j XOR 1;
          LARpp_j = decode_log_area_ratios LARc;
          LARpp_j_1 = s_LARpp s ! j';
          LARp = larp_to_rp (coefficients_0_12 LARpp_j_1 LARpp_j);
          (u1, a1) = short_term_analysis_filtering LARp (s_u s) (take 13 amp);
          LARp = larp_to_rp (coefficients_13_26 LARpp_j_1 LARpp_j);
          (u2, a2) = short_term_analysis_filtering LARp u1 (take 14 (drop 13 amp));
          LARp = larp_to_rp (coefficients_27_39 LARpp_j_1 LARpp_j);
          (u3, a3) = short_term_analysis_filtering LARp u2 (take 13 (drop 27 amp));
          LARp = larp_to_rp (coefficients_40_159 LARpp_j);
          (u4, a4) = short_term_analysis_filtering LARp u3 (take 120 (drop 40 amp))
      in (s\<lparr>s_LARpp := (s_LARpp s)[j := LARpp_j], s_j := j', s_u := u4\<rparr>, a1 @ a2 @ a3 @ a4))"

definition gsm0610_short_term_synthesis_filter ::
  "gsm0610_state_t \<Rightarrow> int list \<Rightarrow> int list \<Rightarrow> gsm0610_state_t \<times> int list" where
  "gsm0610_short_term_synthesis_filter s LARcr wt =
     (let j = s_j s;
          j' = j XOR 1;
          LARpp_j = decode_log_area_ratios LARcr;
          LARpp_j_1 = s_LARpp s ! j';
          LARp = larp_to_rp (coefficients_0_12 LARpp_j_1 LARpp_j);
          (v1, a1) = short_term_synthesis_filtering LARp (s_v s) (take 13 wt);
          LARp = larp_to_rp (coefficients_13_26 LARpp_j_1 LARpp_j);
          (v2, a2) = short_term_synthesis_filtering LARp v1 (take 14 (drop 13 wt));
          LARp = larp_to_rp (coefficients_27_39 LARpp_j_1 LARpp_j);
          (v3, a3) = short_term_synthesis_filtering LARp v2 (take 13 (drop 27 wt));
          LARp = larp_to_rp (coefficients_40_159 LARpp_j);
          (v4, a4) = short_term_synthesis_filtering LARp v3 (take 120 (drop 40 wt))
      in (s\<lparr>s_LARpp := (s_LARpp s)[j := LARpp_j], s_j := j', s_v := v4\<rparr>, a1 @ a2 @ a3 @ a4))"

section \<open>Ranges\<close>

lemma decode_lar_arr: "arr 8 (decode_log_area_ratios LARc)"
  unfolding decode_log_area_ratios_def
  by (rule arr_map) (auto simp: lar_decode_step_def Let_def saturated_add16_range split: prod.splits)

lemma coefficients_arr:
  "arr 8 (coefficients_0_12 a b)" "arr 8 (coefficients_13_26 a b)" "arr 8 (coefficients_27_39 a b)"
  by (auto simp: coefficients_0_12_def coefficients_13_26_def coefficients_27_39_def Let_def saturated_add16_range
      intro!: arr_map)

lemma coefficients_40_159_arr: "arr 8 b \<Longrightarrow> arr 8 (coefficients_40_159 b)"
  unfolding coefficients_40_159_def by (rule arr_map) (auto intro: arr_nth)

lemma larp_ramp_range: "0 \<le> x \<Longrightarrow> x \<le> 32767 \<Longrightarrow> 0 \<le> larp_ramp x \<and> larp_ramp x \<le> 32767"
  by (auto simp: larp_ramp_def shl_def shr_def i16_id is16_def saturated_add16_def saturate_clamp clamp16_def)

lemma larp_to_rp1_bound:
  assumes "is16 x"
  shows "\<bar>larp_to_rp1 x\<bar> \<le> 32767"
proof (cases "x < 0")
  case True
  define t where "t = (if x = INT16_MIN then INT16_MAX else i16 (- x))"
  have "0 \<le> t" "t \<le> 32767" using assms True by (auto simp: t_def INT16_MIN_def INT16_MAX_def i16_id is16_def)
  from larp_ramp_range [OF this] show ?thesis using True by (simp add: larp_to_rp1_def t_def [symmetric] i16_id is16_def)
next
  case False
  then show ?thesis using larp_ramp_range [of x] assms by (simp add: larp_to_rp1_def is16_def)
qed

lemma larp_to_rp_arr: "arr 8 p \<Longrightarrow> arr 8 (larp_to_rp p)"
  unfolding larp_to_rp_def
  by (rule arr_map) (auto simp: arr_length is16_def dest!: arr_set larp_to_rp1_bound [unfolded is16_def, OF conjI])

lemma lattice_arr:
  "length rp = n \<Longrightarrow> arr n u \<Longrightarrow> is16 di \<Longrightarrow> arr n (fst (lattice rp u di uo)) \<and> is16 (snd (lattice rp u di uo))"
proof (induction rp u di uo arbitrary: n rule: lattice.induct)
  case (1 rpi rp ui u di u_out)
  then obtain k where n: "n = Suc k" by auto
  with 1 show ?case by (auto simp: Let_def saturate_range i16_range split: prod.splits)
qed auto

lemma analysis_filtering_arr:
  "length rp = 8 \<Longrightarrow> arr 8 u \<Longrightarrow> arr n amp \<Longrightarrow> arr 8 (fst (short_term_analysis_filtering rp u amp)) \<and>
    arr n (snd (short_term_analysis_filtering rp u amp))"
proof (induction rp u amp arbitrary: n rule: short_term_analysis_filtering.induct)
  case (2 rp u x amp)
  then obtain k where n: "n = Suc k" "is16 x" "arr k amp" by (cases n) auto
  obtain u' di where l: "lattice rp u x x = (u', di)" by fastforce
  have "arr 8 u'" using lattice_arr [OF 2(2,3) n(2), of x] l by simp
  from 2(1) [OF l [symmetric] refl 2(2) this n(3)] show ?case
    using n(1) by (simp add: l i16_range case_prod_beta)
qed simp

lemma sts_round_arr:
  assumes "arr 9 (fst st)" "is16 (snd st)"
  shows "arr 9 (fst (sts_round rrp i st)) \<and> is16 (snd (sts_round rrp i st))"
  using assms by (auto simp: sts_round_def Let_def saturated_sub16_range saturated_add16_range case_prod_beta intro!: arr_update)

lemma synthesis_filtering_arr:
  "arr 9 v \<Longrightarrow> arr n wt \<Longrightarrow> arr 9 (fst (short_term_synthesis_filtering rrp v wt)) \<and>
    arr n (snd (short_term_synthesis_filtering rrp v wt))"
proof (induction rrp v wt arbitrary: n rule: short_term_synthesis_filtering.induct)
  case (2 rrp v w wt)
  then obtain k where n: "n = Suc k" "is16 w" "arr k wt" by (cases n) auto
  obtain v' sri where f: "fold (sts_round rrp) [7, 6, 5, 4, 3, 2, 1, 0] (v, w) = (v', sri)" by fastforce
  have "arr 9 (fst (fold (sts_round rrp) [7, 6, 5, 4, 3, 2, 1, 0] (v, w))) \<and>
      is16 (snd (fold (sts_round rrp) [7, 6, 5, 4, 3, 2, 1, 0] (v, w)))"
    by (rule fold_inv) (use 2(2) n(2) sts_round_arr in auto)
  then have v': "arr 9 (v'[0 := sri])" "is16 sri" unfolding f by (simp_all add: arr_update)
  from 2(1) [OF f [symmetric] refl v'(1) n(3)] v'(2) show ?case
    using n(1) by (simp only: short_term_synthesis_filtering.simps f Let_def case_prod_beta fst_conv snd_conv arr_Cons simp_thms)
qed simp

lemma sections_arr:
  assumes "arr 160 x"
  shows "arr 13 (take 13 x)" "arr 14 (take 14 (drop 13 x))" "arr 13 (take 13 (drop 27 x))" "arr 120 (take 120 (drop 40 x))"
  using arr_drop [OF assms, of 13] arr_drop [OF assms, of 27] arr_drop [OF assms, of 40]
  by (auto intro!: arr_take assms)

lemma sections_append:
  assumes "arr 13 a" "arr 14 b" "arr 13 c" "arr 120 d"
  shows "arr 160 (a @ b @ c @ d)"
  using assms by (simp add: arr_def)

text \<open>What both filters keep of the state: the two sets of log area ratios and the index of the older one.\<close>

lemma lar_state_ok:
  assumes "codec_ok s"
  shows "arr 8 (s_LARpp s ! (s_j s XOR 1))"
    "length ((s_LARpp s)[s_j s := x]) = 2" "s_j s XOR 1 \<le> 1"
    "arr 8 x \<Longrightarrow> list_all (arr 8) ((s_LARpp s)[s_j s := x])"
proof -
  have c: "length (s_LARpp s) = 2" "list_all (arr 8) (s_LARpp s)" "s_j s \<le> 1" using assms by (simp_all add: codec_ok_def)
  then have j: "s_j s = 0 \<or> s_j s = 1" by auto
  then show "s_j s XOR 1 \<le> 1" by auto
  then show "arr 8 (s_LARpp s ! (s_j s XOR 1))" using c by (simp add: list_all_length)
  show "length ((s_LARpp s)[s_j s := x]) = 2" using c by simp
  show "list_all (arr 8) ((s_LARpp s)[s_j s := x])" if "arr 8 x"
    using that c set_update_subset_insert [of "s_LARpp s" "s_j s" x] by (auto simp: list_all_iff)
qed

lemma rp_lengths:
  "length (larp_to_rp (coefficients_0_12 a b)) = 8" "length (larp_to_rp (coefficients_13_26 a b)) = 8"
  "length (larp_to_rp (coefficients_27_39 a b)) = 8" "length (larp_to_rp (coefficients_40_159 b)) = 8"
  by (simp_all add: larp_to_rp_def coefficients_0_12_def coefficients_13_26_def coefficients_27_39_def coefficients_40_159_def)

lemma analysis_filter_ok:
  assumes "codec_ok s" "arr 160 amp" "gsm0610_short_term_analysis_filter s LARc amp = (s', d)"
  shows "codec_ok s' \<and> arr 160 d \<and> s_packing s' = s_packing s \<and> s_dp0 s' = s_dp0 s \<and> s_e s' = s_e s \<and>
    s_LARpp s' = (s_LARpp s)[s_j s := decode_log_area_ratios LARc] \<and> s_j s' = s_j s XOR 1"
proof -
  define L where "L = decode_log_area_ratios LARc"
  define M where "M = s_LARpp s ! (s_j s XOR 1)"
  note x = sections_arr [OF assms(2)]
  obtain u1 a1 where 1: "short_term_analysis_filtering (larp_to_rp (coefficients_0_12 M L)) (s_u s) (take 13 amp) = (u1, a1)"
    by fastforce
  obtain u2 a2 where 2: "short_term_analysis_filtering (larp_to_rp (coefficients_13_26 M L)) u1 (take 14 (drop 13 amp)) = (u2, a2)"
    by fastforce
  obtain u3 a3 where 3: "short_term_analysis_filtering (larp_to_rp (coefficients_27_39 M L)) u2 (take 13 (drop 27 amp)) = (u3, a3)"
    by fastforce
  obtain u4 a4 where 4: "short_term_analysis_filtering (larp_to_rp (coefficients_40_159 L)) u3 (take 120 (drop 40 amp)) = (u4, a4)"
    by fastforce
  have u: "arr 8 (s_u s)" using assms(1) by (simp add: codec_ok_def)
  have a1: "arr 8 u1" "arr 13 a1" using analysis_filtering_arr [OF rp_lengths(1) u x(1), of M L] 1 by simp_all
  have a2: "arr 8 u2" "arr 14 a2" using analysis_filtering_arr [OF rp_lengths(2) a1(1) x(2), of M L] 2 by simp_all
  have a3: "arr 8 u3" "arr 13 a3" using analysis_filtering_arr [OF rp_lengths(3) a2(1) x(3), of M L] 3 by simp_all
  have a4: "arr 8 u4" "arr 120 a4" using analysis_filtering_arr [OF rp_lengths(4) a3(1) x(4), of L] 4 by simp_all
  have "s' = s\<lparr>s_LARpp := (s_LARpp s)[s_j s := L], s_j := s_j s XOR 1, s_u := u4\<rparr>" "d = a1 @ a2 @ a3 @ a4"
    using assms(3)
    unfolding gsm0610_short_term_analysis_filter_def Let_def L_def [symmetric] M_def [symmetric] 1 2 3 4 split_conv by auto
  then show ?thesis
    using assms(1) lar_state_ok [OF assms(1)] decode_lar_arr [of LARc, folded L_def] a4(1)
      sections_append [OF a1(2) a2(2) a3(2) a4(2)] by (simp add: codec_ok_def L_def)
qed

lemma synthesis_filter_ok:
  assumes "codec_ok s" "arr 160 wt" "gsm0610_short_term_synthesis_filter s LARc wt = (s', d)"
  shows "codec_ok s' \<and> arr 160 d \<and> s_packing s' = s_packing s \<and> s_dp0 s' = s_dp0 s \<and>
    s_LARpp s' = (s_LARpp s)[s_j s := decode_log_area_ratios LARc] \<and> s_j s' = s_j s XOR 1"
proof -
  define L where "L = decode_log_area_ratios LARc"
  define M where "M = s_LARpp s ! (s_j s XOR 1)"
  note x = sections_arr [OF assms(2)]
  obtain v1 a1 where 1: "short_term_synthesis_filtering (larp_to_rp (coefficients_0_12 M L)) (s_v s) (take 13 wt) = (v1, a1)"
    by fastforce
  obtain v2 a2 where 2: "short_term_synthesis_filtering (larp_to_rp (coefficients_13_26 M L)) v1 (take 14 (drop 13 wt)) = (v2, a2)"
    by fastforce
  obtain v3 a3 where 3: "short_term_synthesis_filtering (larp_to_rp (coefficients_27_39 M L)) v2 (take 13 (drop 27 wt)) = (v3, a3)"
    by fastforce
  obtain v4 a4 where 4: "short_term_synthesis_filtering (larp_to_rp (coefficients_40_159 L)) v3 (take 120 (drop 40 wt)) = (v4, a4)"
    by fastforce
  have v: "arr 9 (s_v s)" using assms(1) by (simp add: codec_ok_def)
  have a1: "arr 9 v1" "arr 13 a1" using synthesis_filtering_arr [OF v x(1)] 1 by (metis fst_conv snd_conv)+
  have a2: "arr 9 v2" "arr 14 a2" using synthesis_filtering_arr [OF a1(1) x(2)] 2 by (metis fst_conv snd_conv)+
  have a3: "arr 9 v3" "arr 13 a3" using synthesis_filtering_arr [OF a2(1) x(3)] 3 by (metis fst_conv snd_conv)+
  have a4: "arr 9 v4" "arr 120 a4" using synthesis_filtering_arr [OF a3(1) x(4)] 4 by (metis fst_conv snd_conv)+
  have "s' = s\<lparr>s_LARpp := (s_LARpp s)[s_j s := L], s_j := s_j s XOR 1, s_v := v4\<rparr>" "d = a1 @ a2 @ a3 @ a4"
    using assms(3)
    unfolding gsm0610_short_term_synthesis_filter_def Let_def L_def [symmetric] M_def [symmetric] 1 2 3 4 split_conv by auto
  then show ?thesis
    using assms(1) lar_state_ok [OF assms(1)] decode_lar_arr [of LARc, folded L_def] a4(1)
      sections_append [OF a1(2) a2(2) a3(2) a4(2)] by (simp add: codec_ok_def L_def)
qed

end
