(* ===== verification/Gsm_Lpc.thy ===== *)
theory Gsm_Lpc
  imports Gsm_Short_Term
begin

text \<open>
  Linear prediction, \<^verbatim>\<open>src/jni/spandsp/gsm0610_lpc.c\<close>: autocorrelation with dynamic scaling, the Schur
  recursion for the reflection coefficients, their conversion to log area ratios and the coding of
  these. The branch without MMX is modelled. The autocorrelation scales the signal in place and
  scales it back, so the routine returns the signal too.
\<close>

section \<open>Autocorrelation\<close>

text \<open>
  The sums for sample \<open>i\<close>: the first product of a lag is assigned, the later ones are added. The
  first nine samples are unrolled in the code.
\<close>

definition acf_step :: "int list \<Rightarrow> nat \<Rightarrow> int list \<Rightarrow> int list" where
  "acf_step amp i L_ACF =
     map (\<lambda>k. if k > i then L_ACF ! k
              else if k = i then i32 (amp ! i * amp ! (i - k))
              else i32 (L_ACF ! k + amp ! i * amp ! (i - k))) [0..<9]"

definition acf_scale :: "int \<Rightarrow> int res" where
  "acf_scale smax =
     (if smax = 0 then Inr 0
      else cassert (smax > 0) (rbind (gsm0610_norm (shl smax 16)) (\<lambda>n. Inr (i16 (4 - n)))))"

definition autocorrelation :: "int list \<Rightarrow> (int list \<times> int list) res" where
  "autocorrelation amp =
     rbind (acf_scale (max_abs amp)) (\<lambda>scalauto.
      let amp = (if scalauto > 0 then map (\<lambda>x. gsm_mult_r x (shr 16384 (nat (scalauto - 1)))) amp else amp);
          L_ACF = fold (acf_step amp) [0..<160] (replicate 9 0);
          L_ACF = map (\<lambda>x. i32 (shl x 1)) L_ACF
      in if scalauto > 0
         then cassert (scalauto \<le> 4) (Inr (map (\<lambda>x. i16 (shl x (nat scalauto))) amp, L_ACF))
         else Inr (amp, L_ACF))"

section \<open>Reflection coefficients\<close>

definition schur_step :: "int \<Rightarrow> nat \<Rightarrow> int list \<times> int list \<Rightarrow> int list \<times> int list" where
  "schur_step r m PK =
     (let (P, K) = PK;
          P' = P[m := saturated_add16 (P ! (m + 1)) (gsm_mult_r (K ! m) r)];
          K' = K[m := saturated_add16 (K ! m) (gsm_mult_r (P' ! (m + 1)) r)]
      in (P', K'))"

text \<open>The loop over \<open>n\<close>; the first argument is \<open>9 - n\<close>, the result the coefficients from \<open>r[n - 1]\<close> on.\<close>

fun schur_loop :: "nat \<Rightarrow> int list \<Rightarrow> int list \<Rightarrow> int list res" where
  "schur_loop 0 P K = Inr []"
| "schur_loop (Suc k) P K =
     (let temp = saturated_abs16 (P ! 1) in
      if P ! 0 < temp then Inr (replicate (Suc k) 0)
      else rbind (gsm_div temp (P ! 0)) (\<lambda>r.
        cassert (r \<ge> 0)
        (let r = (if P ! 1 > 0 then i16 (- r) else r) in
         cassert (r \<noteq> INT16_MIN)
         (if k = 0 then Inr [r]
          else let P = P[0 := saturated_add16 (P ! 0) (gsm_mult_r (P ! 1) r)];
                   (P, K) = fold (schur_step r) [1..<Suc k] (P, K)
               in rbind (schur_loop k P K) (\<lambda>rs. Inr (r # rs))))))"

text \<open>\<open>K[0]\<close> and \<open>K[8]\<close> are never read.\<close>

definition reflection_coefficients :: "int list \<Rightarrow> int list res" where
  "reflection_coefficients L_ACF =
     (if L_ACF ! 0 = 0 then Inr (replicate 8 0)
      else cassert (L_ACF ! 0 \<noteq> 0) (rbind (gsm0610_norm (L_ACF ! 0)) (\<lambda>temp.
        cassert (temp \<ge> 0 \<and> temp < 32)
        (let ACF = map (\<lambda>i. i16 (shr (i32 (shl (L_ACF ! i) (nat temp))) 16)) [0..<9];
             K = 0 # map (\<lambda>i. ACF ! i) [1..<8] @ [0];
             P = ACF
         in schur_loop 8 P K))))"

section \<open>Log area ratios\<close>

definition rp_to_lar1 :: "int \<Rightarrow> int res" where
  "rp_to_lar1 r =
     (let temp = saturated_abs16 r in
      cassert (temp \<ge> 0)
      (rbind (if temp < 22118 then Inr (shr temp 1)
              else if temp < 31130 then cassert (temp \<ge> 11059) (Inr (i16 (temp - 11059)))
              else cassert (temp \<ge> 26112) (Inr (i16 (shl (i16 (temp - 26112)) 2)))) (\<lambda>temp.
       let r' = (if r < 0 then i16 (- temp) else temp) in
       cassert (r' \<noteq> INT16_MIN) (Inr r'))))"

definition transform_to_log_area_ratios :: "int list \<Rightarrow> int list res" where
  "transform_to_log_area_ratios r = rmap rp_to_lar1 r"

text \<open>The macro \<open>STEP(A, B, MAC, MIC)\<close> and its eight uses.\<close>

definition lar_code_step :: "int \<times> int \<times> int \<times> int \<Rightarrow> int \<Rightarrow> int" where
  "lar_code_step c x =
     (case c of (A, B, MAC, MIC) \<Rightarrow>
       let temp = saturated_mul16 A x;
           temp = saturated_add16 temp B;
           temp = saturated_add16 temp 256;
           temp = shr temp 9
       in i16 (if temp > MAC then MAC - MIC else if temp < MIC then 0 else temp - MIC))"

definition lar_code_consts :: "(int \<times> int \<times> int \<times> int) list" where
  "lar_code_consts =
     [(20480, 0, 31, -32), (20480, 0, 31, -32), (20480, 2048, 15, -16), (20480, -2560, 15, -16),
      (13964, 94, 7, -8), (15360, -1792, 7, -8), (8534, -341, 3, -4), (9036, -1144, 3, -4)]"

definition quantization_and_coding :: "int list \<Rightarrow> int list" where
  "quantization_and_coding LAR = map (\<lambda>i. lar_code_step (lar_code_consts ! i) (LAR ! i)) [0..<8]"

definition gsm0610_lpc_analysis :: "int list \<Rightarrow> (int list \<times> int list) res" where
  "gsm0610_lpc_analysis amp =
     rbind (autocorrelation amp) (\<lambda>(amp, L_ACF).
     rbind (reflection_coefficients L_ACF) (\<lambda>r.
     rbind (transform_to_log_area_ratios r) (\<lambda>LAR.
     Inr (amp, quantization_and_coding LAR))))"

section \<open>No assertion fails\<close>

lemma norm_any:
  assumes "x \<noteq> 0" "is32 x"
  shows "returns (gsm0610_norm x) (\<lambda>n. 0 \<le> n \<and> n < 32)"
proof (cases "x < 0")
  case False
  then obtain t where "t \<le> 30" "gsm0610_norm x = Inr (30 - int t)" using norm_pos [of x] assms by auto
  then show ?thesis by simp
next
  case True
  define w :: u32 where "w = word_of_int (NOT x)"
  show ?thesis
  proof (cases "x \<le> -1073741824 \<or> x = -1")
    case True
    then show ?thesis by (auto simp: gsm0610_norm_def top_bit_def)
  next
    case False
    have n: "NOT x = - x - 1" by (simp add: not_int_def)
    then have "0 < NOT x" "is32 (NOT x)" using False \<open>x < 0\<close> by (auto simp: is32_def)
    from norm_pos [OF this] obtain t where t: "t \<le> 30" "gsm0610_norm (NOT x) = Inr (30 - int t)" by auto
    then have "top_bit (word_of_int (NOT x)) = int t" using \<open>0 < NOT x\<close> \<open>x < 0\<close> unfolding gsm0610_norm_def by (simp del: bit.double_compl)
    then show ?thesis using t(1) False \<open>x < 0\<close> by (simp add: gsm0610_norm_def)
  qed
qed

lemma schur_step_arr:
  assumes "arr 9 (fst PK)" "arr 9 (snd PK)"
  shows "arr 9 (fst (schur_step r m PK)) \<and> arr 9 (snd (schur_step r m PK))"
  using assms by (auto simp: schur_step_def Let_def case_prod_beta saturated_add16_range intro!: arr_update)

lemma schur_loop_ok:
  assumes "arr 9 P" "arr 9 K"
  shows "returns (schur_loop k P K) (\<lambda>r. length r = k \<and> list_all is16 r)"
  using assms
proof (induction k P K rule: schur_loop.induct)
  case (2 k P K)
  define temp where "temp = saturated_abs16 (P ! 1)"
  have P16: "is16 (P ! 0)" "is16 (P ! 1)" using arr_nth [OF 2(2)] by simp_all
  then have temp: "0 \<le> temp" using saturated_abs16_range by (simp add: temp_def)
  show ?case
  proof (cases "P ! 0 < temp")
    case True
    then show ?thesis unfolding schur_loop.simps Let_def temp_def [symmetric] by (simp add: list_all_iff is16_def)
  next
    case False
    have d: "returns (gsm_div temp (P ! 0)) (\<lambda>r. 0 \<le> r \<and> r \<le> 32767)"
    proof (cases "P ! 0 = 0")
      case True
      then show ?thesis using False temp by (simp add: gsm_div_def)
    next
      case nz: False
      then show ?thesis
        using gsm_div_eq [of temp "P ! 0"] False temp P16 by (simp add: pos_imp_zdiv_nonneg_iff min_def)
    qed
    then obtain r0 where r0: "gsm_div temp (P ! 0) = Inr r0" "0 \<le> r0" "r0 \<le> 32767" by (auto elim: returnsE)
    define r where "r = (if P ! 1 > 0 then i16 (- r0) else r0)"
    have r: "is16 r" "r \<noteq> INT16_MIN" using r0 by (auto simp: r_def i16_id is16_def INT16_MIN_def)
    define P0 where "P0 = P[0 := saturated_add16 (P ! 0) (gsm_mult_r (P ! 1) r)]"
    obtain P1 K1 where PK: "fold (schur_step r) [1..<Suc k] (P0, K) = (P1, K1)" by fastforce
    have P0: "arr 9 P0" unfolding P0_def by (intro arr_update 2(2) saturated_add16_range)
    have "(\<lambda>PK. arr 9 (fst PK) \<and> arr 9 (snd PK)) (fold (schur_step r) [1..<Suc k] (P0, K))"
      by (rule fold_inv) (use P0 2(3) in \<open>simp_all add: schur_step_arr\<close>)
    then have a: "arr 9 P1" "arr 9 K1" by (simp_all only: PK fst_conv snd_conv)
    have IH: "returns (schur_loop k P1 K1) (\<lambda>r. length r = k \<and> list_all is16 r)" if "k \<noteq> 0"
      using 2(1) [OF refl False [unfolded temp_def] refl that refl PK [symmetric, unfolded P0_def r_def] refl a]
      by blast
    have "schur_loop (Suc k) P K = (if k = 0 then Inr [r] else rbind (schur_loop k P1 K1) (\<lambda>rs. Inr (r # rs)))"
      unfolding schur_loop.simps Let_def temp_def [symmetric] r0(1) rbind_simps r_def [symmetric] P0_def [symmetric] PK split_conv
      using False r0(2) r(2) by simp
    then show ?thesis using IH r(1) by (auto elim!: returns_mono)
  qed
qed simp
section \<open>The autocorrelation is exact\<close>

lemma acf_scale_ok:
  assumes "0 \<le> smax" "smax \<le> 32767"
  shows "returns (acf_scale smax) (\<lambda>sc. sc \<le> 4 \<and> smax < 2 ^ (11 + nat sc))"
proof (cases "smax = 0")
  case False
  then have "0 < shl smax 16" "is32 (shl smax 16)" using assms by (simp_all add: shl_def is32_def)
  from norm_pos [OF this] obtain t where t: "t \<le> 30" "gsm0610_norm (shl smax 16) = Inr (30 - int t)"
    "2 ^ t \<le> shl smax 16" "shl smax 16 < 2 ^ Suc t" by blast
  have i: "i16 (int t - 26) = int t - 26" using t(1) by (simp add: i16_id is16_def)
  have "smax < 2 ^ (11 + nat (int t - 26))"
  proof (cases "26 \<le> t")
    case True
    then obtain d where "t = 26 + d" using le_Suc_ex by blast
    then have "(2 :: int) ^ Suc t = 2 ^ (11 + (t - 26)) * 65536" by (simp add: power_add)
    moreover have "nat (int t - 26) = t - 26" by simp
    ultimately show ?thesis using t(4) by (simp add: shl_def)
  next
    case False
    then have "(2 :: int) ^ Suc t \<le> 2 ^ 26" by (intro power_increasing) auto
    then show ?thesis using t(4) False by (simp add: shl_def)
  qed
  then show ?thesis using False assms t(1,2) by (simp add: acf_scale_def i)
qed (simp add: acf_scale_def)

text \<open>The scaled signal: rounded division by a power of two.\<close>

definition acf_scaled :: "nat \<Rightarrow> int list \<Rightarrow> int list" where
  "acf_scaled sc amp = map (\<lambda>x. if sc = 0 then x else (x + 2 ^ (sc - 1)) div 2 ^ sc) amp"

lemma acf_scaled_code:
  assumes "list_all is16 amp" "0 < sc" "sc \<le> 4"
  shows "map (\<lambda>x. gsm_mult_r x (shr 16384 (nat (int sc - 1)))) amp = acf_scaled sc amp"
  unfolding acf_scaled_def
proof (rule map_cong [OF refl])
  fix x assume "x \<in> set amp"
  then have x: "is16 x" using assms(1) by (auto simp: list_all_iff)
  define c :: int where "c = 2 ^ (15 - sc)"
  obtain k where k: "sc = Suc k" "k \<le> 3" using assms(2,3) by (cases sc) auto
  have c: "2 ^ k * c = 16384" "2 ^ sc * c = 32768" "0 < c"
    using k by (simp_all add: c_def flip: power_add)
  have "shr 16384 (nat (int sc - 1)) = c" using c(1) by (simp add: shr_def k flip: c(1))
  moreover have "is16 c" using k(2) by (auto simp: c_def k(1) is16_def numeral_eq_Suc le_Suc_eq)
  moreover have "(x * c + 16384) div 32768 = ((x + 2 ^ k) * c) div (2 ^ sc * c)"
    using c by (simp add: algebra_simps)
  ultimately show "gsm_mult_r x (shr 16384 (nat (int sc - 1))) = (if sc = 0 then x else (x + 2 ^ (sc - 1)) div 2 ^ sc)"
    using gsm_mult_r_eq [OF x, of c] c(3) k(1) by simp
qed

lemma acf_scaled_bound:
  assumes "list_all is16 amp" "sc \<le> 4" "max_abs amp < 2 ^ (11 + sc)" "y \<in> set (acf_scaled sc amp)"
  shows "\<bar>y\<bar> \<le> 2048"
proof -
  obtain x where x: "x \<in> set amp" "y = (if sc = 0 then x else (x + 2 ^ (sc - 1)) div 2 ^ sc)"
    using assms(4) unfolding acf_scaled_def set_map by blast
  have b: "x \<le> max_abs amp" "- max_abs amp - 1 \<le> x" using max_abs_le [OF assms(1) x(1)] by simp_all
  consider "sc = 0" | "sc = 1" | "sc = 2" | "sc = 3" | "sc = 4" using assms(2) by linarith
  then show ?thesis using x(2) b assms(3) by cases auto
qed

definition acf_sum :: "int list \<Rightarrow> nat \<Rightarrow> nat \<Rightarrow> int" where
  "acf_sum s k n = (\<Sum>i\<leftarrow>[k..<n]. s ! i * s ! (i - k))"

lemma acf_sum_simps:
  "k \<le> n \<Longrightarrow> acf_sum s k (Suc n) = acf_sum s k n + s ! n * s ! (n - k)"
  "n \<le> k \<Longrightarrow> acf_sum s k n = 0"
  by (simp_all add: acf_sum_def)

lemma product_bound:
  assumes "\<bar>a\<bar> \<le> 2048" "\<bar>b\<bar> \<le> (2048 :: int)"
  shows "\<bar>a * b\<bar> \<le> 4194304"
  using mult_mono [OF assms] by (simp add: abs_mult)

lemma acf_sum_bound:
  assumes "\<forall>x\<in>set s. \<bar>x\<bar> \<le> 2048" "n \<le> length s"
  shows "\<bar>acf_sum s k n\<bar> \<le> 4194304 * int n"
  using assms(2)
proof (induction n)
  case (Suc n)
  show ?case
  proof (cases "k \<le> n")
    case True
    have "\<bar>s ! n * s ! (n - k)\<bar> \<le> 4194304" using Suc.prems assms(1) by (intro product_bound) auto
    then show ?thesis using Suc True by (simp add: acf_sum_simps)
  qed (simp add: acf_sum_simps)
qed (simp add: acf_sum_def)

lemma acf_fold:
  assumes "\<forall>x\<in>set s. \<bar>x\<bar> \<le> 2048" "length s = 160" "n \<le> 160"
  shows "fold (acf_step s) [0..<n] (replicate 9 0) = map (\<lambda>k. acf_sum s k n) [0..<9]"
  using assms(3)
proof (induction n)
  case 0
  then show ?case by (simp add: acf_sum_def map_replicate_const)
next
  case (Suc n)
  have i: "i32 (acf_sum s k (Suc n)) = acf_sum s k (Suc n)" for k
    using acf_sum_bound [OF assms(1), of "Suc n" k] Suc.prems assms(2) by (intro i32_id) (auto simp: is32_def abs_le_iff)
  have step: "(if k > n then acf_sum s k n else if k = n then i32 (s ! n * s ! (n - k))
      else i32 (acf_sum s k n + s ! n * s ! (n - k))) = acf_sum s k (Suc n)" for k
    using i [of k] by (auto simp: acf_sum_simps)
  have "acf_step s n (map (\<lambda>k. acf_sum s k n) [0..<9]) = map (\<lambda>k. acf_sum s k (Suc n)) [0..<9]"
    unfolding acf_step_def step [symmetric] by (rule map_cong) simp_all
  then show ?case using Suc by simp
qed

lemma autocorrelation_eq:
  assumes "arr 160 amp"
  shows "\<exists>sc\<le>4. max_abs amp < 2 ^ (11 + sc) \<and>
    autocorrelation amp = Inr (map (\<lambda>x. i16 (x * 2 ^ sc)) (acf_scaled sc amp),
      map (\<lambda>k. 2 * acf_sum (acf_scaled sc amp) k 160) [0..<9])"
proof -
  have a: "list_all is16 amp" "length amp = 160" using assms by (simp_all add: arr_def)
  obtain sc where sc: "acf_scale (max_abs amp) = Inr sc" "sc \<le> 4" "max_abs amp < 2 ^ (11 + nat sc)"
    using acf_scale_ok max_abs_bounds [OF a(1)] by (auto elim!: returnsE)
  define s where "s = acf_scaled (nat sc) amp"
  have s: "(if sc > 0 then map (\<lambda>x. gsm_mult_r x (shr 16384 (nat (sc - 1)))) amp else amp) = s"
  proof (cases "sc > 0")
    case True
    then show ?thesis using acf_scaled_code [OF a(1), of "nat sc"] sc(2) by (simp add: s_def)
  qed (simp add: s_def acf_scaled_def)
  have b: "\<forall>x\<in>set s. \<bar>x\<bar> \<le> 2048" using acf_scaled_bound [OF a(1) _ sc(3)] sc(2) by (auto simp: s_def)
  have l: "length s = 160" using a(2) by (simp add: s_def acf_scaled_def)
  have "i32 (2 * acf_sum s k 160) = 2 * acf_sum s k 160" for k
    using acf_sum_bound [OF b, of 160 k] l by (intro i32_id) (auto simp: is32_def)
  then have L: "map (\<lambda>x. i32 (shl x 1)) (fold (acf_step s) [0..<160] (replicate 9 0)) = map (\<lambda>k. 2 * acf_sum s k 160) [0..<9]"
    using acf_fold [OF b l, of 160] by (simp add: shl_def mult.commute)
  have z: "map (\<lambda>x. i16 (x * 2 ^ nat sc)) s = s" if "\<not> 0 < sc"
    by (rule map_idI) (use that b in \<open>auto simp: i16_id is16_def abs_le_iff\<close>)
  have "autocorrelation amp = Inr (map (\<lambda>x. i16 (x * 2 ^ nat sc)) s, map (\<lambda>k. 2 * acf_sum s k 160) [0..<9])"
    unfolding autocorrelation_def sc(1) rbind_simps Let_def s L using sc(2) z by (simp add: shl_def)
  then show ?thesis using sc(2,3) unfolding s_def by (intro exI [of _ "nat sc"] conjI) simp_all
qed

text \<open>
  C24. The autocorrelation does what its comment says. For some scaling by at most 4 bits, chosen so that the
  scaled samples lie within 2048, every lag has exactly twice the plain sum of products of
  the scaled signal: none of the 32-bit sums overflows, no assertion fails, and the unrolled head of the
  loop starts every sum at the right sample. The signal is handed back scaled down and up again.
\<close>

theorem autocorrelation_exact:
  assumes "arr 160 amp"
  shows "\<exists>sc\<le>4. (\<forall>y\<in>set (acf_scaled sc amp). \<bar>y\<bar> \<le> 2048) \<and>
    autocorrelation amp = Inr (map (\<lambda>x. i16 (x * 2 ^ sc)) (acf_scaled sc amp),
      map (\<lambda>k. 2 * acf_sum (acf_scaled sc amp) k 160) [0..<9])"
proof -
  obtain sc where sc: "sc \<le> 4" "max_abs amp < 2 ^ (11 + sc)"
    "autocorrelation amp = Inr (map (\<lambda>x. i16 (x * 2 ^ sc)) (acf_scaled sc amp),
      map (\<lambda>k. 2 * acf_sum (acf_scaled sc amp) k 160) [0..<9])" using autocorrelation_eq [OF assms] by blast
  moreover have "\<forall>y\<in>set (acf_scaled sc amp). \<bar>y\<bar> \<le> 2048"
    using acf_scaled_bound [OF _ sc(1,2)] assms by (auto simp: arr_def)
  ultimately show ?thesis by blast
qed

theorem autocorrelation_exact_witness:
  "\<exists>sc\<le>4. autocorrelation (replicate 160 1000) = Inr (map (\<lambda>x. i16 (x * 2 ^ sc)) (acf_scaled sc (replicate 160 1000)),
      map (\<lambda>k. 2 * acf_sum (acf_scaled sc (replicate 160 1000)) k 160) [0..<9])"
proof -
  have "arr 160 (replicate 160 1000)" by (simp add: arr_def list_all_iff is16_def)
  from autocorrelation_exact [OF this] show ?thesis by blast
qed

text \<open>Scaling back can overflow: the largest sample comes back with the opposite sign.\<close>

lemma autocorrelation_flips_sign:
  assumes "arr 160 amp" "autocorrelation amp = Inr (amp', L)" "i < 160" "amp ! i = 32767"
  shows "amp' ! i = -32768"
proof -
  have l: "list_all is16 amp" "length amp = 160" using assms(1) by (simp_all add: arr_def)
  have "amp ! i \<in> set amp" using assms(3) l(2) by simp
  then have m: "32767 \<le> max_abs amp" using max_abs_le(1) [OF l(1)] assms(4) by metis
  obtain sc where sc: "sc \<le> 4" "max_abs amp < 2 ^ (11 + sc)"
    "amp' = map (\<lambda>x. i16 (x * 2 ^ sc)) (acf_scaled sc amp)" using autocorrelation_eq [OF assms(1)] assms(2) by auto
  have "(2 :: int) ^ (11 + sc) \<le> 2 ^ 14" if "sc \<le> 3" using that by (intro power_increasing) auto
  then have "sc = 4" using sc(1,2) m by force
  then show ?thesis using sc(3) assms(3,4) l(2) by (simp add: acf_scaled_def i16_def)
qed

section \<open>The analysis returns codes in range\<close>

lemma i32_range: "is32 (i32 x)"
  using pos_mod_bound [of 4294967296 "x + 2147483648"] pos_mod_sign [of 4294967296 "x + 2147483648"]
  unfolding is32_def i32_def by linarith

lemma autocorrelation_ok:
  assumes "arr 160 amp"
  shows "returns (autocorrelation amp) (\<lambda>(amp', L). arr 160 amp' \<and> length L = 9 \<and> list_all is32 L)"
proof -
  obtain sc where sc: "sc \<le> 4" "\<forall>y\<in>set (acf_scaled sc amp). \<bar>y\<bar> \<le> 2048"
    "autocorrelation amp = Inr (map (\<lambda>x. i16 (x * 2 ^ sc)) (acf_scaled sc amp),
      map (\<lambda>k. 2 * acf_sum (acf_scaled sc amp) k 160) [0..<9])"
    using autocorrelation_eq [OF assms] acf_scaled_bound [of amp] assms unfolding arr_def by metis
  have l: "length (acf_scaled sc amp) = 160" using assms by (simp add: acf_scaled_def arr_def)
  have "is32 (2 * acf_sum (acf_scaled sc amp) k 160)" for k
    using acf_sum_bound [OF sc(2), of 160 k] l by (auto simp: is32_def abs_le_iff)
  then show ?thesis using l by (auto simp: sc(3) list_all_iff i16_range intro!: arr_map)
qed

lemma reflection_coefficients_ok:
  assumes "length L = 9" "list_all is32 L"
  shows "returns (reflection_coefficients L) (arr 8)"
proof (cases "L ! 0 = 0")
  case True
  then show ?thesis by (simp add: reflection_coefficients_def arr_replicate)
next
  case False
  have "is32 (L ! 0)" using assms by (simp add: list_all_length)
  from norm_any [OF False this] obtain n where n: "gsm0610_norm (L ! 0) = Inr n" "0 \<le> n" "n < 32" by (auto elim: returnsE)
  define ACF where "ACF = map (\<lambda>i. i16 (shr (i32 (shl (L ! i) (nat n))) 16)) [0..<9]"
  have A: "arr 9 ACF" unfolding ACF_def by (rule arr_map) (simp_all add: i16_range)
  have K: "arr 9 (0 # map (\<lambda>i. ACF ! i) [1..<8] @ [0])"
    using arr_nth [OF A] by (auto simp: arr_def list_all_iff is16_def)
  have "reflection_coefficients L = schur_loop 8 ACF (0 # map (\<lambda>i. ACF ! i) [1..<8] @ [0])"
    unfolding reflection_coefficients_def Let_def n(1) rbind_simps ACF_def [symmetric] using False n by simp
  then show ?thesis using schur_loop_ok [OF A K, of 8] by (simp add: arr_def [abs_def])
qed

text \<open>The coefficient's magnitude, as a function of the reflection coefficient's.\<close>

definition lar_mag :: "int \<Rightarrow> int" where
  "lar_mag t = (if t < 22118 then t div 2 else if t < 31130 then t - 11059 else (t - 26112) * 4)"

lemma lar_mag_range: "0 \<le> t \<Longrightarrow> t \<le> 32767 \<Longrightarrow> 0 \<le> lar_mag t \<and> lar_mag t \<le> 26620"
  by (auto simp: lar_mag_def)

lemma rp_to_lar1_eq:
  assumes "is16 r"
  shows "rp_to_lar1 r = Inr (if r < 0 then - lar_mag (min 32767 \<bar>r\<bar>) else lar_mag r)"
proof -
  define t where "t = saturated_abs16 r"
  have t: "t = min 32767 \<bar>r\<bar>" "0 \<le> t" "t \<le> 32767" using assms by (auto simp: t_def saturated_abs16_eq)
  have m: "(if t < 22118 then Inr (shr t 1) else if t < 31130 then cassert (t \<ge> 11059) (Inr (i16 (t - 11059)))
      else cassert (t \<ge> 26112) (Inr (i16 (shl (i16 (t - 26112)) 2)))) = Inr (lar_mag t)"
    using t(2,3) by (auto simp: lar_mag_def shr_def shl_def i16_id is16_def)
  have i: "i16 (- lar_mag t) = - lar_mag t" "- lar_mag t \<noteq> INT16_MIN" "lar_mag t \<noteq> INT16_MIN"
    using lar_mag_range [OF t(2,3)] by (auto simp: i16_id is16_def INT16_MIN_def)
  have "r \<ge> 0 \<Longrightarrow> t = r" using t(1) assms by (auto simp: is16_def)
  then show ?thesis
    unfolding rp_to_lar1_def Let_def t_def [symmetric] m rbind_simps t(1) [symmetric]
    using t(2) i by (cases "r < 0") auto
qed

lemma transform_ok: "arr n r \<Longrightarrow> returns (transform_to_log_area_ratios r) (arr n)"
  unfolding transform_to_log_area_ratios_def
proof -
  assume r: "arr n r"
  have "returns (rp_to_lar1 x) is16" if "x \<in> set r" for x
    using arr_set [OF r that] lar_mag_range [of "min 32767 \<bar>x\<bar>"] lar_mag_range [of x]
    by (auto simp: rp_to_lar1_eq is16_def)
  from returns_rmap [of r rp_to_lar1 is16, OF this] show "returns (rmap rp_to_lar1 r) (arr n)"
    using arr_length [OF r] by (simp add: arr_def [abs_def])
qed

text \<open>The number of codes of each coefficient, and that the codes lie within them.\<close>

lemma coding_range:
  "list_all2 (\<lambda>w x. 0 \<le> x \<and> x < 2 ^ w) [6, 6, 5, 5, 4, 4, 3, 3 :: nat] (quantization_and_coding LAR)"
proof -
  have step: "0 \<le> lar_code_step (A, B, MAC, MIC) x \<and> lar_code_step (A, B, MAC, MIC) x < MAC - MIC + 1"
    if "0 \<le> MAC - MIC" "MAC - MIC \<le> 32767" for A B MAC MIC x
    using that by (auto simp: lar_code_step_def Let_def i16_id is16_def)
  have u: "[0..<8] = [0, 1, 2, 3, 4, 5, 6, 7 :: nat]" by (simp add: upt_rec)
  have "quantization_and_coding LAR =
      [lar_code_step (20480, 0, 31, -32) (LAR ! 0), lar_code_step (20480, 0, 31, -32) (LAR ! 1),
       lar_code_step (20480, 2048, 15, -16) (LAR ! 2), lar_code_step (20480, -2560, 15, -16) (LAR ! 3),
       lar_code_step (13964, 94, 7, -8) (LAR ! 4), lar_code_step (15360, -1792, 7, -8) (LAR ! 5),
       lar_code_step (8534, -341, 3, -4) (LAR ! 6), lar_code_step (9036, -1144, 3, -4) (LAR ! 7)]"
    using u by (simp add: quantization_and_coding_def lar_code_consts_def)
  then show ?thesis
    using step [of 31 "-32"] step [of 15 "-16"] step [of 7 "-8"] step [of 3 "-4"]
    by simp
qed

lemma lpc_analysis_ok:
  assumes "arr 160 amp"
  shows "returns (gsm0610_lpc_analysis amp) (\<lambda>(amp', LARc). arr 160 amp' \<and>
    list_all2 (\<lambda>w x. 0 \<le> x \<and> x < 2 ^ w) [6, 6, 5, 5, 4, 4, 3, 3 :: nat] LARc)"
proof -
  obtain amp' L where a: "autocorrelation amp = Inr (amp', L)" "arr 160 amp'" "length L = 9" "list_all is32 L"
    using autocorrelation_ok [OF assms] by (auto elim!: returnsE)
  obtain r where r: "reflection_coefficients L = Inr r" "arr 8 r"
    using reflection_coefficients_ok [OF a(3,4)] by (auto elim!: returnsE)
  obtain l where "transform_to_log_area_ratios r = Inr l" using transform_ok [OF r(2)] by (auto elim!: returnsE)
  then show ?thesis using a(1,2) r(1) coding_range by (simp add: gsm0610_lpc_analysis_def)
qed

text \<open>
  The two conversions between reflection coefficients and log area ratios belong together: taking a
  16-bit coefficient to its log area ratio, as the analysis does, and back, as the filters do, gives
  a coefficient of the same sign (or zero) whose magnitude is the original one or one less. Both are
  piecewise linear with the same breakpoints, in two source files.
\<close>

lemma lar_rp_round_trip:
  assumes "is16 r"
  shows "\<exists>lar. rp_to_lar1 r = Inr lar \<and> \<bar>\<bar>larp_to_rp1 lar\<bar> - min 32767 \<bar>r\<bar>\<bar> \<le> 1 \<and> \<bar>larp_to_rp1 lar\<bar> \<le> \<bar>r\<bar> \<and>
    (r \<ge> 0 \<longrightarrow> larp_to_rp1 lar \<ge> 0) \<and> (r \<le> 0 \<longrightarrow> larp_to_rp1 lar \<le> 0)"
proof -
  have ramp: "larp_ramp (lar_mag t) = (if t < 22118 then t div 2 * 2 else t)" if "0 \<le> t" "t \<le> 32767" for t
    using that
    by (auto simp: larp_ramp_def lar_mag_def shl_def shr_def i16_id is16_def saturated_add16_def saturate_clamp clamp16_def)
  show ?thesis
  proof (cases "r < 0")
    case True
    define t where "t = min 32767 \<bar>r\<bar>"
    have t: "0 \<le> t" "t \<le> 32767" "t \<le> \<bar>r\<bar>" by (auto simp: t_def)
    have l: "0 \<le> lar_mag t" "lar_mag t \<le> 26620" using lar_mag_range [OF t(1,2)] by auto
    define R where "R = (if t < 22118 then t div 2 * 2 else t)"
    have R: "larp_ramp (lar_mag t) = R" "0 \<le> R" "R \<le> 32767" using ramp [OF t(1,2)] t by (auto simp: R_def)
    have z: "R = 0" if "lar_mag t = 0" using that R(1) by (simp add: larp_ramp_def shl_def i16_def)
    have "larp_to_rp1 (- lar_mag t) = - R"
      using l R z by (cases "lar_mag t = 0") (auto simp: larp_to_rp1_def Let_def INT16_MIN_def i16_id is16_def)
    moreover have "rp_to_lar1 r = Inr (- lar_mag t)" using True rp_to_lar1_eq [OF assms] by (simp add: t_def)
    moreover have "\<bar>R - t\<bar> \<le> 1" "R \<le> t" by (auto simp: R_def)
    ultimately show ?thesis using True t R unfolding t_def [symmetric] by auto
  next
    case False
    then have t: "0 \<le> r" "r \<le> 32767" using assms by (auto simp: is16_def)
    have "larp_to_rp1 (lar_mag r) = (if r < 22118 then r div 2 * 2 else r)"
      using lar_mag_range [OF t] ramp [OF t] by (simp add: larp_to_rp1_def)
    then show ?thesis using t rp_to_lar1_eq [OF assms] by auto
  qed
qed

theorem lar_rp_round_trip_witness:
  "\<exists>lar. rp_to_lar1 (-30001) = Inr lar \<and> \<bar>larp_to_rp1 lar\<bar> \<le> 30001"
  using lar_rp_round_trip [of "-30001"] by (auto simp: is16_def)

end
