(* ===== verification/Gsm_Long_Term.thy ===== *)
theory Gsm_Long_Term
  imports Gsm_State
begin

text \<open>
  Long-term prediction, \<^verbatim>\<open>src/jni/spandsp/gsm0610_long_term.c\<close>: the search for the lag with the largest
  cross-correlation, the coding of the gain, the analysis filter of the encoder and the synthesis
  filter of the decoder. The code's pointer \<open>dp\<close> into \<open>dp0\<close> is an offset \<open>b\<close> into the array; the
  encoder's estimate \<open>dpp\<close> is written to the same place, as its caller passes the same pointer twice.
\<close>

definition gsm_DLB :: "int list" where "gsm_DLB = [6554, 16384, 26214, 32767]"
definition gsm_QLB :: "int list" where "gsm_QLB = [3277, 11469, 21299, 32767]"

section \<open>Lag and gain\<close>

definition cross_corr :: "int list \<Rightarrow> int list \<Rightarrow> nat \<Rightarrow> nat \<Rightarrow> int" where
  "cross_corr wt dp b i = i32 (\<Sum>k\<leftarrow>[0..<40]. wt ! k * dp ! (b + k - i))"

definition gsm0610_max_cross_corr :: "int list \<Rightarrow> int list \<Rightarrow> nat \<Rightarrow> int \<times> nat" where
  "gsm0610_max_cross_corr wt dp b =
     foldl (\<lambda>(mx, index) i. let res = cross_corr wt dp b i in if res > mx then (res, i) else (mx, index))
       (0, 40) [40..<121]"

text \<open>The loop that codes the gain; it runs over \<open>bc = 0, 1, 2\<close> and leaves 3 behind.\<close>

fun ltp_gain :: "int \<Rightarrow> int \<Rightarrow> nat list \<Rightarrow> int" where
  "ltp_gain R S [] = 3"
| "ltp_gain R S (bc # bcs) = (if R \<le> saturated_mul16 S (gsm_DLB ! bc) then int bc else ltp_gain R S bcs)"

definition ltp_power :: "int list \<Rightarrow> nat \<Rightarrow> nat \<Rightarrow> int" where
  "ltp_power dp b Nc =
     i32 (shl (foldl (\<lambda>L_power k. let L_temp = shr (dp ! (b + k - Nc)) 3 in i32 (L_power + L_temp * L_temp))
       0 [0..<40]) 1)"

definition ltp_norm :: "int \<Rightarrow> int res" where
  "ltp_norm dmax = (if dmax = 0 then Inr 0 else cassert (dmax > 0) (gsm0610_norm (shl dmax 16)))"

definition evaluate_ltp_parameters :: "int list \<Rightarrow> int list \<Rightarrow> nat \<Rightarrow> (int \<times> nat) res" where
  "evaluate_ltp_parameters d dp b =
     rbind (ltp_norm (max_abs d)) (\<lambda>temp.
      let scale = (if temp > 6 then 0 else i16 (6 - temp)) in
      cassert (scale \<ge> 0)
      (let wt = map (\<lambda>x. shr x (nat scale)) d;
           (L_max, Nc) = gsm0610_max_cross_corr wt dp b;
           L_max = i32 (shl L_max 1)
       in cassert (scale \<le> 100 \<and> scale \<ge> -100)
       (let L_max = shr L_max (nat (6 - scale)) in
        cassert (Nc \<le> 120 \<and> Nc \<ge> 40)
        (let L_power = ltp_power dp b Nc in
         if L_max \<le> 0 then Inr (0, Nc)
         else if L_max \<ge> L_power then Inr (3, Nc)
         else rbind (gsm0610_norm L_power) (\<lambda>temp.
           let R = i16 (shr (i32 (shl L_max (nat temp))) 16);
               S = i16 (shr (i32 (shl L_power (nat temp))) 16)
           in Inr (ltp_gain R S [0, 1, 2], Nc))))))"

section \<open>Filters\<close>

text \<open>One round of the analysis filter; \<open>e\<close> is the array of the state, whose sample 0 is at index 5.\<close>

definition ltp_analysis_round :: "int \<Rightarrow> nat \<Rightarrow> nat \<Rightarrow> int list \<Rightarrow> nat \<Rightarrow> int list \<times> int list \<Rightarrow> int list \<times> int list" where
  "ltp_analysis_round q Nc b d k st =
     (let (dp, e) = st;
          dp' = dp[b + k := gsm_mult_r q (dp ! (b + k - Nc))];
          e' = e[5 + k := saturated_sub16 (d ! k) (dp' ! (b + k))]
      in (dp', e'))"

definition long_term_analysis_filtering ::
  "int \<Rightarrow> nat \<Rightarrow> int list \<Rightarrow> nat \<Rightarrow> int list \<Rightarrow> int list \<Rightarrow> (int list \<times> int list) res" where
  "long_term_analysis_filtering bc Nc dp b d e =
     rbind (aget gsm_QLB bc) (\<lambda>q. Inr (fold (ltp_analysis_round q Nc b d) [0..<40] (dp, e)))"

definition gsm0610_long_term_predictor ::
  "int list \<Rightarrow> int list \<Rightarrow> nat \<Rightarrow> int list \<Rightarrow> (nat \<times> int \<times> int list \<times> int list) res" where
  "gsm0610_long_term_predictor d dp b e =
     rbind (evaluate_ltp_parameters d dp b) (\<lambda>(bc, Nc).
     rbind (long_term_analysis_filtering bc Nc dp b d e) (\<lambda>(dp, e). Inr (Nc, bc, dp, e)))"

text \<open>The decoder: the lag it remembers, and the array with its sample 0 at index 120.\<close>

definition ltp_synthesis_round :: "int \<Rightarrow> int \<Rightarrow> int list \<Rightarrow> nat \<Rightarrow> int list \<Rightarrow> int list" where
  "ltp_synthesis_round brp Nr erp k dp =
     dp[120 + k := saturated_add16 (erp ! k) (gsm_mult_r brp (dp ! (120 + k - nat Nr)))]"

definition gsm0610_long_term_synthesis_filtering ::
  "int \<Rightarrow> int \<Rightarrow> int \<Rightarrow> int list \<Rightarrow> int list \<Rightarrow> (int \<times> int list) res" where
  "gsm0610_long_term_synthesis_filtering nrp Ncr bcr erp dp =
     (let Nr = (if Ncr < 40 \<or> Ncr > 120 then nrp else Ncr) in
      cassert (Nr \<ge> 40 \<and> Nr \<le> 120)
      (rbind (aget gsm_QLB bcr) (\<lambda>brp.
       cassert (brp \<noteq> INT16_MIN)
       (let dp = fold (ltp_synthesis_round brp Nr erp) [0..<40] dp;
            dp = fold (\<lambda>k dp. dp[k := dp ! (k + 40)]) [0..<120] dp
        in Inr (Nr, dp)))))"

section \<open>The search\<close>

definition xcorr :: "int list \<Rightarrow> int list \<Rightarrow> nat \<Rightarrow> nat \<Rightarrow> int" where
  "xcorr wt dp b i = (\<Sum>k\<leftarrow>[0..<40]. wt ! k * dp ! (b + k - i))"

lemma sum_list_bound:
  fixes f :: "nat \<Rightarrow> int"
  assumes "\<And>k. k \<in> set ks \<Longrightarrow> \<bar>f k\<bar> \<le> B"
  shows "\<bar>\<Sum>k\<leftarrow>ks. f k\<bar> \<le> B * int (length ks)"
  using assms by (induction ks) (fastforce simp: algebra_simps)+

lemma cross_corr_exact:
  assumes "\<forall>x\<in>set wt. \<bar>x\<bar> \<le> 512" "length wt = 40" "arr 280 dp" "b \<le> 240" "i \<le> b"
  shows "cross_corr wt dp b i = xcorr wt dp b i \<and> is32 (2 * xcorr wt dp b i)"
proof -
  have "\<bar>wt ! k * dp ! (b + k - i)\<bar> \<le> 512 * 32768" if "k \<in> set [0..<40]" for k
  proof -
    have "is16 (dp ! (b + k - i))" using arr_nth [OF assms(3)] assms(4) that by simp
    then have "\<bar>dp ! (b + k - i)\<bar> \<le> 32768" by (auto simp: is16_def)
    moreover have "\<bar>wt ! k\<bar> \<le> 512" using assms(1,2) that by simp
    ultimately show ?thesis unfolding abs_mult by (intro mult_mono) auto
  qed
  from sum_list_bound [of "[0..<40]", OF this] have "\<bar>xcorr wt dp b i\<bar> \<le> 512 * 32768 * 40" by (simp add: xcorr_def)
  then show ?thesis by (auto simp: cross_corr_def xcorr_def [symmetric] is32_def abs_le_iff intro!: i32_id)
qed

lemma max_search:
  fixes C :: "nat \<Rightarrow> int"
  assumes "foldl (\<lambda>(mx, index) i. let res = C i in if res > mx then (res, i) else (mx, index)) (0, m) [m..<n] = (mx, index)"
  shows "0 \<le> mx \<and> (\<forall>i\<in>{m..<n}. C i \<le> mx) \<and> (mx = 0 \<longrightarrow> index = m) \<and>
    (0 < mx \<longrightarrow> index \<in> {m..<n} \<and> C index = mx \<and> (\<forall>i\<in>{m..<index}. C i < mx))"
  using assms
proof (induction n arbitrary: mx index)
  case (Suc n)
  show ?case
  proof (cases "m \<le> n")
    case False
    then show ?thesis using Suc.prems by auto
  next
    case True
    obtain mx' index' where f: "foldl (\<lambda>(mx, index) i. let res = C i in if res > mx then (res, i) else (mx, index)) (0, m) [m..<n]
        = (mx', index')" by fastforce
    note IH = Suc.IH [OF f]
    have s: "{m..<Suc n} = insert n {m..<n}" using True by auto
    show ?thesis
    proof (cases "C n > mx'")
      case gt: True
      then have n: "mx = C n" "index = n" using Suc.prems f True by (auto simp: Let_def)
      have lt: "\<forall>i\<in>{m..<n}. C i < C n" using IH gt by force
      then show ?thesis using IH gt True unfolding n s by (auto simp: less_imp_le)
    next
      case le: False
      then have "mx = mx'" "index = index'" using Suc.prems f True by (simp_all add: Let_def)
      then show ?thesis using IH le True unfolding s by auto
    qed
  qed
qed auto

lemma max_cross_corr_exact:
  assumes "\<forall>x\<in>set wt. \<bar>x\<bar> \<le> 512" "length wt = 40" "arr 280 dp" "120 \<le> b" "b \<le> 240"
    "gsm0610_max_cross_corr wt dp b = (mx, N)"
  shows "40 \<le> N \<and> N \<le> 120 \<and> 0 \<le> mx \<and> is32 (2 * mx) \<and> (\<forall>i\<in>{40..120}. xcorr wt dp b i \<le> mx) \<and>
    (0 < mx \<longrightarrow> xcorr wt dp b N = mx \<and> (\<forall>i\<in>{40..<N}. xcorr wt dp b i < mx))"
proof -
  have c: "cross_corr wt dp b i = xcorr wt dp b i" "is32 (2 * xcorr wt dp b i)" if "i \<in> {40..120}" for i
    using cross_corr_exact [OF assms(1-3,5), of i] that assms(4) by auto
  have s: "{40..<121} = {40..120 :: nat}" by auto
  note M = max_search [OF assms(6) [unfolded gsm0610_max_cross_corr_def]]
  have N: "N \<in> {40..120}" using M unfolding s by (cases "mx = 0") auto
  have "is32 (2 * mx)"
  proof (cases "mx = 0")
    case False
    then show ?thesis using M c [OF N] by auto
  qed (simp add: is32_def)
  then show ?thesis using M N c(1) unfolding s by auto
qed
lemma norm_returns:
  assumes "0 < x" "is32 x"
  shows "returns (gsm0610_norm x) (\<lambda>n. 0 \<le> n \<and> n \<le> 30)"
  using norm_pos [OF assms] by auto

lemma ltp_norm_ok:
  assumes "0 \<le> dmax" "dmax \<le> 32767"
  shows "returns (ltp_norm dmax) (\<lambda>n. 0 \<le> n \<and> n \<le> 15 \<and> dmax < 2 ^ nat (15 - n) \<and>
    (if dmax = 0 then n = 0 else 2 ^ nat (15 - n) \<le> 2 * dmax))"
proof (cases "dmax = 0")
  case False
  then have "0 < shl dmax 16" "is32 (shl dmax 16)" using assms by (simp_all add: shl_def is32_def)
  from norm_pos [OF this] obtain t where t: "t \<le> 30" "gsm0610_norm (shl dmax 16) = Inr (30 - int t)"
    "shl dmax 16 < 2 ^ Suc t" "2 ^ t \<le> shl dmax 16" by blast
  have t15: "15 \<le> t"
  proof (rule ccontr)
    assume "\<not> 15 \<le> t"
    then have "(2 :: int) ^ Suc t \<le> 2 ^ 15" by (intro power_increasing) auto
    then show False using t(3) False assms(1) by (simp add: shl_def)
  qed
  then obtain k where k: "t = 15 + k" using le_Suc_ex by blast
  have "dmax < 2 ^ k" "2 ^ k \<le> 2 * dmax" using t(3,4) by (simp_all add: shl_def k power_add)
  moreover have "nat (15 - (30 - int t)) = k" using k by simp
  ultimately show ?thesis using False assms(1) t(1,2) t15 by (simp add: ltp_norm_def)
qed (simp add: ltp_norm_def)

text \<open>
  The scale: the smallest power of two that brings the largest sample below 512 (and the largest one, 6, for silence).
\<close>

definition right_scale :: "int list \<Rightarrow> nat \<Rightarrow> bool" where
  "right_scale d s \<longleftrightarrow> s \<le> 6 \<and> (\<forall>x\<in>set d. min 32767 \<bar>x\<bar> < 512 * 2 ^ s) \<and>
     (if \<forall>x\<in>set d. x = 0 then s = 6 else s = 0 \<or> (\<exists>x\<in>set d. 256 * 2 ^ s \<le> \<bar>x\<bar>))"

lemma right_scale_unique:
  assumes "right_scale d s" "right_scale d s'"
  shows "s = s'"
proof -
  have *: "\<not> a < b" if "right_scale d a" "right_scale d b" for a b
  proof
    note r = that
    assume l: "a < b"
    then have "(2 :: int) ^ Suc a \<le> 2 ^ b" by (intro power_increasing) auto
    moreover obtain x where x: "x \<in> set d" "256 * 2 ^ b \<le> \<bar>x\<bar>" "min 32767 \<bar>x\<bar> < 512 * 2 ^ a" "a < 6"
      using r l by (auto simp: right_scale_def split: if_splits)
    moreover have "512 * (2 :: int) ^ a \<le> 512 * 2 ^ 5" using x(4) by (intro mult_left_mono power_increasing) auto
    ultimately show False by (auto simp: min_def split: if_splits)
  qed
  show ?thesis using * [OF assms] * [OF assms(2,1)] by simp
qed

lemma max_abs_attained: "list_all is16 d \<Longrightarrow> max_abs d = 0 \<or> (\<exists>x\<in>set d. max_abs d = saturated_abs16 x)"
proof (induction d rule: rev_induct)
  case (snoc x d)
  then show ?case by (auto simp: max_abs_def Let_def)
qed (simp add: max_abs_def)

lemma ltp_right_scale:
  assumes "list_all is16 d" "0 \<le> n" "n \<le> 15" "max_abs d < 2 ^ nat (15 - n)"
    "if max_abs d = 0 then n = 0 else 2 ^ nat (15 - n) \<le> 2 * max_abs d"
  shows "right_scale d (nat (if n > 6 then 0 else 6 - n))"
proof -
  define s where "s = nat (if n > 6 then 0 else 6 - n)"
  have a: "min 32767 \<bar>x\<bar> \<le> max_abs d" if "x \<in> set d" for x
    using max_abs_bounds [OF assms(1)] that assms(1) by (auto simp: saturated_abs16_eq list_all_iff)
  have u: "max_abs d < 512 * 2 ^ s"
  proof (cases "n > 6")
    case True
    then have "(2 :: int) ^ nat (15 - n) \<le> 2 ^ 9" using assms(3) by (intro power_increasing) auto
    then show ?thesis using True assms(4) by (simp add: s_def)
  next
    case False
    then have "nat (15 - n) = 9 + s" using assms(2) by (auto simp: s_def)
    then show ?thesis using assms(4) by (simp add: power_add)
  qed
  have z: "(\<forall>x\<in>set d. x = 0) = (max_abs d = 0)"
  proof
    assume "\<forall>x\<in>set d. x = 0"
    then show "max_abs d = 0" using max_abs_attained [OF assms(1)] by (auto simp: saturated_abs16_eq is16_def)
  next
    assume "max_abs d = 0"
    then show "\<forall>x\<in>set d. x = 0" using a by (fastforce simp: min_def split: if_splits)
  qed
  have l: "\<exists>x\<in>set d. 256 * 2 ^ s \<le> \<bar>x\<bar>" if "max_abs d \<noteq> 0" "s \<noteq> 0"
  proof -
    note z = that
    obtain x where x: "x \<in> set d" "max_abs d = saturated_abs16 x" using max_abs_attained [OF assms(1)] z(1) by blast
    have "nat (15 - n) = 9 + s" using that(2) assms(2) by (auto simp: s_def split: if_splits)
    then have "256 * 2 ^ s \<le> max_abs d" using assms(5) that(1) by (simp add: power_add)
    moreover have "max_abs d \<le> \<bar>x\<bar>" using x assms(1) by (simp add: saturated_abs16_eq list_all_iff)
    ultimately show ?thesis using x(1) by (meson order_trans)
  qed
  have "s = 6" if "max_abs d = 0" using assms(5) that by (simp add: s_def)
  moreover have "s \<le> 6" using assms(2) by (auto simp: s_def)
  ultimately show ?thesis using u a l unfolding right_scale_def z s_def [symmetric] by (auto intro: le_less_trans)
qed

text \<open>The working array: the residual scaled so that its samples lie within 512.\<close>

lemma ltp_scaled_bound:
  assumes "list_all is16 d" "0 \<le> n" "n \<le> 15" "max_abs d < 2 ^ nat (15 - n)" "x \<in> set d"
    "scale = (if n > 6 then 0 else 6 - n)"
  shows "\<bar>shr x (nat scale)\<bar> \<le> 512"
proof -
  define m where "m = max_abs d"
  have b: "x \<le> m" "- m - 1 \<le> x" using max_abs_le [OF assms(1,5)] by (simp_all add: m_def)
  show ?thesis
  proof (cases "n > 6")
    case True
    then have "(2 :: int) ^ nat (15 - n) \<le> 2 ^ 9" using assms(3) by (intro power_increasing) auto
    then show ?thesis using True assms(4,6) b by (simp add: shr_def m_def)
  next
    case False
    define p :: int where "p = 2 ^ nat scale"
    have "nat (15 - n) = 9 + nat scale" using False assms(2,6) by auto
    then have "m < 512 * p" using assms(4) by (simp add: m_def p_def power_add)
    then have "x div p < 512" "- 512 \<le> x div p"
      using b by (auto simp: p_def intro!: int_div_less int_le_div)
    then show ?thesis by (simp add: shr_def p_def)
  qed
qed

lemma ltp_power_eq:
  assumes "arr 280 dp" "b \<le> 240" "120 \<le> b" "40 \<le> N" "N \<le> 120"
  shows "ltp_power dp b N = 2 * (\<Sum>k\<leftarrow>[0..<40]. (dp ! (b + k - N) div 8) ^ 2) \<and> is32 (ltp_power dp b N)"
proof -
  define q where "q k = (dp ! (b + k - N) div 8) ^ 2" for k
  have q: "0 \<le> q k \<and> q k \<le> 16777216" if "k < 40" for k
  proof -
    define t where "t = dp ! (b + k - N) div 8"
    have "is16 (dp ! (b + k - N))" using arr_nth [OF assms(1)] assms(2,4) that by simp
    then have "\<bar>t\<bar> \<le> 4096" by (auto simp: t_def is16_def)
    then have "\<bar>t\<bar> * \<bar>t\<bar> \<le> 4096 * 4096" by (intro mult_mono) auto
    then show ?thesis by (simp add: q_def t_def [symmetric] power2_eq_square abs_mult [symmetric])
  qed
  have "foldl (\<lambda>L_power k. let L_temp = shr (dp ! (b + k - N)) 3 in i32 (L_power + L_temp * L_temp)) 0 [0..<n] = (\<Sum>k\<leftarrow>[0..<n]. q k)
      \<and> 0 \<le> (\<Sum>k\<leftarrow>[0..<n]. q k) \<and> (\<Sum>k\<leftarrow>[0..<n]. q k) \<le> 16777216 * int n" if "n \<le> 40" for n
    using that
  proof (induction n)
    case (Suc n)
    have "shr (dp ! (b + n - N)) 3 * shr (dp ! (b + n - N)) 3 = q n" by (simp add: q_def shr_def power2_eq_square)
    then show ?case using Suc q [of n] by (simp add: Let_def i32_id is32_def)
  qed simp
  from this [of 40] show ?thesis by (simp add: ltp_power_def q_def [symmetric] shl_def i32_id is32_def)
qed

text \<open>
  The gain code from the correlation \<open>L\<close> and the power \<open>W\<close>: none, more than all of it, or the number of thresholds of the
  standard that the ratio exceeds, compared on the upper 16 bits of both after \<open>W\<close> has been normalised.
\<close>

definition right_gain :: "int \<Rightarrow> int \<Rightarrow> int \<Rightarrow> bool" where
  "right_gain L W bc \<longleftrightarrow>
     (if L \<le> 0 then bc = 0
      else if W \<le> L then bc = 3
      else \<exists>t. 2 ^ 30 \<le> W * 2 ^ t \<and> W * 2 ^ t < 2 ^ 31 \<and>
        bc = int (length (filter (\<lambda>th. W * 2 ^ t div 65536 * th div 32768 < L * 2 ^ t div 65536) [6554, 16384, 26214])))"

lemma ltp_gain_count:
  assumes "0 \<le> S" "S < 32768"
  shows "ltp_gain R S [0, 1, 2] = int (length (filter (\<lambda>th. S * th div 32768 < R) [6554, 16384, 26214]))"
proof -
  have "S * 6554 div 32768 \<le> S * 16384 div 32768" "S * 16384 div 32768 \<le> S * 26214 div 32768"
    using assms(1) by (intro zdiv_mono1; simp)+
  moreover have "is16 S" using assms by (simp add: is16_def)
  ultimately show ?thesis by (auto simp: gsm_DLB_def saturated_mul16_eq is16_def)
qed

lemma right_gain_ok:
  assumes "0 < L" "L < W" "is32 W"
  shows "\<exists>t. gsm0610_norm W = Inr t \<and>
    right_gain L W (ltp_gain (i16 (shr (i32 (shl L (nat t))) 16)) (i16 (shr (i32 (shl W (nat t))) 16)) [0, 1, 2])"
proof -
  obtain t where t: "gsm0610_norm W = Inr t" "2 ^ 30 \<le> shl W (nat t)" "shl W (nat t) < 2 ^ 31"
    using norm_normalises [of W] assms by auto
  define p :: int where "p = 2 ^ nat t"
  have "L * p \<le> W * p" "0 \<le> L * p" "W * p < 2147483648" using assms(1,2) t(3) by (simp_all add: p_def shl_def mult_right_mono)
  then have i: "i32 (L * p) = L * p" "i32 (W * p) = W * p" "i16 (L * p div 65536) = L * p div 65536" "i16 (W * p div 65536) = W * p div 65536"
      "0 \<le> W * p div 65536" "W * p div 65536 < 32768"
    using assms(1,2) by (auto intro!: i32_id i16_id simp: is32_def is16_def)
  have g: "ltp_gain (i16 (shr (i32 (shl L (nat t))) 16)) (i16 (shr (i32 (shl W (nat t))) 16)) [0, 1, 2] =
      int (length (filter (\<lambda>th. W * p div 65536 * th div 32768 < L * p div 65536) [6554, 16384, 26214]))"
    unfolding ltp_gain_count [OF i(5,6), symmetric] by (simp add: shr_def shl_def i p_def [symmetric] del: ltp_gain.simps)
  have le: "\<not> L \<le> 0" "\<not> W \<le> L" using assms(1,2) by simp_all
  have "right_gain L W (int (length (filter (\<lambda>th. W * p div 65536 * th div 32768 < L * p div 65536) [6554, 16384, 26214])))"
    unfolding right_gain_def p_def if_not_P [OF le(1)] if_not_P [OF le(2)] by (intro exI [of _ "nat t"] conjI refl) (use t(2,3) in \<open>simp_all add: shl_def\<close>)
  then show ?thesis using t(1) g by auto
qed

lemma right_gain_range: "right_gain L W bc \<Longrightarrow> 0 \<le> bc \<and> bc \<le> 3"
proof -
  have "length (filter P [6554, 16384, 26214 :: int]) \<le> 3" for P using length_filter_le [of P "[6554, 16384, 26214]"] by simp
  then show "right_gain L W bc \<Longrightarrow> 0 \<le> bc \<and> bc \<le> 3" unfolding right_gain_def
    by (cases "L \<le> 0"; cases "W \<le> L") (auto simp del: filter.simps)
qed

lemma evaluate_ltp_ok:
  assumes "arr 40 d" "arr 280 dp" "120 \<le> b" "b \<le> 240"
  shows "\<exists>bc N scale. evaluate_ltp_parameters d dp b = Inr (bc, N) \<and> 0 \<le> bc \<and> bc \<le> 3 \<and> 40 \<le> N \<and> N \<le> 120 \<and> right_scale d scale \<and>
    (let wt = map (\<lambda>x. x div 2 ^ scale) d in (\<forall>y\<in>set wt. \<bar>y\<bar> \<le> 512) \<and>
      (\<forall>i\<in>{40..120}. xcorr wt dp b i \<le> max 0 (xcorr wt dp b N)) \<and>
      (0 < xcorr wt dp b N \<longrightarrow> (\<forall>i\<in>{40..<N}. xcorr wt dp b i < xcorr wt dp b N)) \<and>
      right_gain (2 * max 0 (xcorr wt dp b N) div 2 ^ (6 - scale)) (2 * (\<Sum>k\<leftarrow>[0..<40]. (dp ! (b + k - N) div 8) ^ 2)) bc)"
proof -
  have d: "list_all is16 d" "length d = 40" using assms(1) by (simp_all add: arr_def)
  obtain n where n: "ltp_norm (max_abs d) = Inr n" "0 \<le> n" "n \<le> 15" "max_abs d < 2 ^ nat (15 - n)"
    "if max_abs d = 0 then n = 0 else 2 ^ nat (15 - n) \<le> 2 * max_abs d"
    using ltp_norm_ok max_abs_bounds [OF d(1)] by (auto elim!: returnsE)
  define scale where "scale = (if n > 6 then 0 else 6 - n)"
  have s: "0 \<le> scale" "scale \<le> 6" "(if n > 6 then 0 else i16 (6 - n)) = scale"
    using n(2) by (auto simp: scale_def i16_id is16_def)
  define wt where "wt = map (\<lambda>x. shr x (nat scale)) d"
  have wt: "\<forall>y\<in>set wt. \<bar>y\<bar> \<le> 512" "length wt = 40"
    using ltp_scaled_bound [OF d(1) n(2-4) _ scale_def] d(2) by (auto simp: wt_def)
  obtain mx N where M: "gsm0610_max_cross_corr wt dp b = (mx, N)" by fastforce
  note X = max_cross_corr_exact [OF wt assms(2-4) M]
  define L where "L = shr (2 * mx) (nat (6 - scale))"
  have mx2: "i32 (shl mx 1) = 2 * mx" using X by (simp add: shl_def i32_id mult.commute)
  have N: "40 \<le> N" "N \<le> 120" using X by auto
  define W where "W = ltp_power dp b N"
  have W: "is32 W" using conjunct2 [OF ltp_power_eq [OF assms(2,4,3) N]] unfolding W_def .
  have "\<exists>bc. evaluate_ltp_parameters d dp b = Inr (bc, N) \<and> right_gain L W bc"
  proof -
    have e: "evaluate_ltp_parameters d dp b = (if L \<le> 0 then Inr (0, N) else if L \<ge> W then Inr (3, N)
       else rbind (gsm0610_norm W) (\<lambda>temp.
           let R = i16 (shr (i32 (shl L (nat temp))) 16); S = i16 (shr (i32 (shl W (nat temp))) 16)
           in Inr (ltp_gain R S [0, 1, 2], N)))"
      unfolding evaluate_ltp_parameters_def n(1) rbind_simps Let_def s(3) wt_def [symmetric] M split_conv mx2
        L_def [symmetric] W_def [symmetric] using s N by simp
    show ?thesis
    proof (cases "0 < L \<and> L < W")
      case True
      then show ?thesis using right_gain_ok [OF _ _ W, of L] by (auto simp: e Let_def)
    qed (auto simp: e right_gain_def)
  qed
  then obtain bc where bc: "evaluate_ltp_parameters d dp b = Inr (bc, N)" "right_gain L W bc" by blast
  have "map (\<lambda>x. x div 2 ^ nat scale) d = wt" by (simp add: wt_def shr_def)
  moreover have "\<forall>i\<in>{40..120}. xcorr wt dp b i \<le> max 0 (xcorr wt dp b N)"
    "0 < xcorr wt dp b N \<longrightarrow> (\<forall>i\<in>{40..<N}. xcorr wt dp b i < xcorr wt dp b N)"
    using X by (cases "mx = 0"; force)+
  moreover have "right_scale d (nat scale)" using ltp_right_scale [OF d(1) n(2-5)] by (simp add: scale_def)
  moreover have "max 0 (xcorr wt dp b N) = mx" using X N by (cases "mx = 0") auto
  then have "2 * max 0 (xcorr wt dp b N) div 2 ^ (6 - nat scale) = L" using s(1,2) by (simp add: L_def shr_def nat_diff_distrib)
  moreover have "2 * (\<Sum>k\<leftarrow>[0..<40]. (dp ! (b + k - N) div 8) ^ 2) = W" using ltp_power_eq [OF assms(2,4,3) N] by (simp add: W_def)
  ultimately show ?thesis using wt(1) N bc right_gain_range [OF bc(2)]
    by (intro exI [of _ bc] exI [of _ N] exI [of _ "nat scale"]) (simp add: Let_def)
qed

text \<open>
  C25. The lag search of the encoder is exact. For every 16-bit residual and history, no assertion fails, the
  lag lies between 40 and 120 and the gain code between 0 and 3. The residual is scaled down by the smallest power of two that brings its
  samples below 512 (64 for silence). On the scaled residual no lag between 40 and 120 has a larger cross-correlation (as a plain sum) than the one
  chosen, unless none is positive, and no smaller lag has as large a one. The gain code is the number of thresholds of the
  standard that the ratio of this correlation to the power of the history at that lag exceeds, 0 if the correlation vanishes and
  3 if it is not below the power.
\<close>

theorem ltp_lag_optimal:
  assumes "arr 40 d" "arr 280 dp" "120 \<le> b" "b \<le> 240"
  shows "\<exists>bc N scale. evaluate_ltp_parameters d dp b = Inr (bc, N) \<and> 0 \<le> bc \<and> bc \<le> 3 \<and> 40 \<le> N \<and> N \<le> 120 \<and> right_scale d scale \<and>
    (let wt = map (\<lambda>x. x div 2 ^ scale) d in (\<forall>y\<in>set wt. \<bar>y\<bar> \<le> 512) \<and>
      (\<forall>i\<in>{40..120}. xcorr wt dp b i \<le> max 0 (xcorr wt dp b N)) \<and>
      (0 < xcorr wt dp b N \<longrightarrow> (\<forall>i\<in>{40..<N}. xcorr wt dp b i < xcorr wt dp b N)) \<and>
      right_gain (2 * max 0 (xcorr wt dp b N) div 2 ^ (6 - scale)) (2 * (\<Sum>k\<leftarrow>[0..<40]. (dp ! (b + k - N) div 8) ^ 2)) bc)"
  using assms by (rule evaluate_ltp_ok)

theorem ltp_lag_optimal_witness:
  "\<exists>bc N. evaluate_ltp_parameters (replicate 40 7) (replicate 280 9) 120 = Inr (bc, N) \<and> 0 \<le> bc \<and> bc \<le> 3 \<and> 40 \<le> N \<and> N \<le> 120 \<and>
    (\<forall>i\<in>{40..120}. xcorr (replicate 40 7) (replicate 280 9) 120 i \<le> max 0 (xcorr (replicate 40 7) (replicate 280 9) 120 N))"
proof -
  have a: "arr 40 (replicate 40 7)" "arr 280 (replicate 280 9)" by (simp_all add: arr_def list_all_iff is16_def)
  have "right_scale (replicate 40 7) 0" by (simp add: right_scale_def)
  then have "scale = 0" if "right_scale (replicate 40 7) scale" for scale using right_scale_unique that by blast
  then show ?thesis using ltp_lag_optimal [OF a, of 120] by (force simp: Let_def)
qed

section \<open>What the filters write\<close>

lemma gsm_QLB_get: "0 \<le> bc \<Longrightarrow> bc \<le> 3 \<Longrightarrow> aget gsm_QLB bc = Inr (gsm_QLB ! nat bc)"
  by (simp add: aget_def gsm_QLB_def)

text \<open>
  The analysis filter leaves the estimate from the history in the 40 samples after it, and the
  difference to the input in \<open>e\<close>; with a lag of at least 40 it never reads a sample it has written.
\<close>

lemma ltp_analysis_fold:
  assumes "length dp = 280" "length e = 50" "120 \<le> b" "b \<le> 240" "40 \<le> N" "N \<le> 120" "n \<le> 40"
  shows "fold (ltp_analysis_round q N b d) [0..<n] (dp, e) =
    (take b dp @ map (\<lambda>k. gsm_mult_r q (dp ! (b + k - N))) [0..<n] @ drop (b + n) dp,
     take 5 e @ map (\<lambda>k. saturated_sub16 (d ! k) (gsm_mult_r q (dp ! (b + k - N)))) [0..<n] @ drop (5 + n) e)"
  using assms(7)
proof (induction n)
  case 0
  then show ?case by (simp flip: append_take_drop_id)
next
  case (Suc n)
  define D where "D = take b dp @ map (\<lambda>k. gsm_mult_r q (dp ! (b + k - N))) [0..<n] @ drop (b + n) dp"
  define E where "E = take 5 e @ map (\<lambda>k. saturated_sub16 (d ! k) (gsm_mult_r q (dp ! (b + k - N)))) [0..<n] @ drop (5 + n) e"
  have "b + n - N < b" using assms Suc.prems by linarith
  then have rd: "D ! (b + n - N) = dp ! (b + n - N)" using assms(1,4) by (simp add: D_def nth_append)
  have "D[b + n := v] = take b dp @ (map (\<lambda>k. gsm_mult_r q (dp ! (b + k - N))) [0..<n] @ [v]) @ drop (b + Suc n) dp" for v
    unfolding D_def using assms Suc.prems by (intro update_segment) auto
  moreover have "E[5 + n := v] = take 5 e @ (map (\<lambda>k. saturated_sub16 (d ! k) (gsm_mult_r q (dp ! (b + k - N)))) [0..<n] @ [v])
      @ drop (5 + Suc n) e" for v
    unfolding E_def using assms Suc.prems by (intro update_segment) auto
  moreover have "D[b + n := v] ! (b + n) = v" for v using assms Suc.prems by (simp add: D_def)
  ultimately show ?case
    using Suc rd by (simp add: ltp_analysis_round_def D_def [symmetric] E_def [symmetric] Let_def)
qed

lemma ltp_synthesis_fold:
  assumes "length dp = 280" "40 \<le> N" "N \<le> 120" "n \<le> 40"
  shows "fold (ltp_synthesis_round q N erp) [0..<n] dp =
    take 120 dp @ map (\<lambda>k. saturated_add16 (erp ! k) (gsm_mult_r q (dp ! (120 + k - nat N)))) [0..<n] @ drop (120 + n) dp"
proof (rule fold_fill)
  fix k D assume k: "k < n" and D: "take 120 D = take 120 dp"
  have "120 + k - nat N < 120" using k assms by linarith
  then have "D ! (120 + k - nat N) = dp ! (120 + k - nat N)" using D by (metis nth_take)
  then show "ltp_synthesis_round q N erp k D = D[120 + k := saturated_add16 (erp ! k) (gsm_mult_r q (dp ! (120 + k - nat N)))]"
    by (simp add: ltp_synthesis_round_def)
qed (use assms in simp)

lemma predictor_ok:
  assumes "arr 40 d" "arr 280 dp" "arr 50 e" "120 \<le> b" "b \<le> 240"
  shows "\<exists>N bc. 40 \<le> N \<and> N \<le> 120 \<and> 0 \<le> bc \<and> bc \<le> 3 \<and>
    gsm0610_long_term_predictor d dp b e = Inr (N, bc,
      take b dp @ map (\<lambda>k. gsm_mult_r (gsm_QLB ! nat bc) (dp ! (b + k - N))) [0..<40] @ drop (b + 40) dp,
      take 5 e @ map (\<lambda>k. saturated_sub16 (d ! k) (gsm_mult_r (gsm_QLB ! nat bc) (dp ! (b + k - N)))) [0..<40] @ drop 45 e)"
proof -
  obtain bc N where E: "evaluate_ltp_parameters d dp b = Inr (bc, N)" "0 \<le> bc" "bc \<le> 3" "40 \<le> N" "N \<le> 120"
    using evaluate_ltp_ok [OF assms(1,2,4,5)] by blast
  have "length dp = 280" "length e = 50" using assms(2,3) by (simp_all add: arr_def)
  from ltp_analysis_fold [OF this assms(4,5) E(4,5), of 40 "gsm_QLB ! nat bc" d] E show ?thesis
    by (intro exI [of _ N] exI [of _ bc])
      (simp add: gsm0610_long_term_predictor_def long_term_analysis_filtering_def gsm_QLB_get)
qed

lemma synthesis_ok:
  fixes Ncr nrp bcr :: int and erp dp :: "int list"
  assumes "length dp = 280" "0 \<le> bcr" "bcr \<le> 3" "40 \<le> nrp" "nrp \<le> 120"
  defines "Nr \<equiv> if Ncr < 40 \<or> Ncr > 120 then nrp else Ncr"
  defines "new \<equiv> map (\<lambda>k. saturated_add16 (erp ! k) (gsm_mult_r (gsm_QLB ! nat bcr) (dp ! (120 + k - nat Nr)))) [0..<40]"
  shows "gsm0610_long_term_synthesis_filtering nrp Ncr bcr erp dp =
    Inr (Nr, take 80 (drop 40 dp) @ new @ new @ drop 160 dp)"
proof -
  have N: "40 \<le> Nr" "Nr \<le> 120" using assms(4,5) by (auto simp: Nr_def)
  have q: "gsm_QLB ! nat bcr \<noteq> INT16_MIN"
  proof -
    consider "bcr = 0" | "bcr = 1" | "bcr = 2" | "bcr = 3" using assms(2,3) by linarith
    then show ?thesis by cases (simp_all add: gsm_QLB_def INT16_MIN_def)
  qed
  have f: "fold (ltp_synthesis_round (gsm_QLB ! nat bcr) Nr erp) [0..<40] dp = take 120 dp @ new @ drop 160 dp"
    using ltp_synthesis_fold [OF assms(1) N, of 40] by (simp add: new_def)
  have len: "length new = 40" by (simp add: new_def)
  have "fold (\<lambda>k dp. dp[k := dp ! (k + 40)]) [0..<120] (take 120 dp @ new @ drop 160 dp) =
      take 120 (drop 40 (take 120 dp @ new @ drop 160 dp)) @ drop 120 (take 120 dp @ new @ drop 160 dp)"
    using assms(1) len by (intro fold_shift) simp_all
  also have "\<dots> = take 80 (drop 40 dp) @ new @ new @ drop 160 dp"
    using assms(1) len by (simp add: take_drop)
  finally show ?thesis
    unfolding gsm0610_long_term_synthesis_filtering_def Let_def Nr_def [symmetric] gsm_QLB_get [OF assms(2,3)] rbind_simps f
    using N q by simp
qed

end
