(* ===== verification/Gsm_Signal.thy ===== *)
theory Gsm_Signal
  imports Gsm_State
begin

text \<open>
  Preprocessing of the input signal, \<^verbatim>\<open>src/jni/spandsp/gsm0610_preprocess.c\<close>, and postprocessing of the
  output signal, from \<^verbatim>\<open>src/jni/spandsp/gsm0610_decode.c\<close>: downscaling, offset compensation and
  preemphasis on the way in, de-emphasis and upscaling on the way out. The branch for GCC is
  modelled, with its 64-bit product.
\<close>

section \<open>Preprocessing\<close>

text \<open>One round of the loop on \<open>z1\<close>, \<open>L_z2\<close> and \<open>mp\<close>.\<close>

definition preprocess_sample :: "int \<Rightarrow> int \<times> int \<times> int \<Rightarrow> (int \<times> int \<times> int \<times> int) res" where
  "preprocess_sample amp st =
     (let (z1, L_z2, mp) = st;
          SO = shr amp 1 AND NOT 3
      in cassert (SO \<ge> -0x4000) (cassert (SO \<le> 0x3FFC)
      (let s1 = i16 (SO - z1);
           z1 = SO
       in cassert (s1 \<noteq> INT16_MIN)
       (let L_s2 = i32 (shl s1 15);
            L_z2 = i32 (shr (L_z2 * 32735 + 0x4000) 15);
            L_z2 = saturated_add32 L_z2 L_s2;
            L_temp = saturated_add32 L_z2 16384;
            msp = gsm_mult_r mp (-28180);
            mp = i16 (shr L_temp 15)
        in Inr (z1, L_z2, mp, saturated_add16 mp msp)))))"

fun preprocess_loop :: "int list \<Rightarrow> int \<times> int \<times> int \<Rightarrow> ((int \<times> int \<times> int) \<times> int list) res" where
  "preprocess_loop [] st = Inr (st, [])"
| "preprocess_loop (a # amp) st =
     rbind (preprocess_sample a st) (\<lambda>(z1, L_z2, mp, so).
     rbind (preprocess_loop amp (z1, L_z2, mp)) (\<lambda>(st', sos). Inr (st', so # sos)))"

definition gsm0610_preprocess :: "gsm0610_state_t \<Rightarrow> int list \<Rightarrow> (gsm0610_state_t \<times> int list) res" where
  "gsm0610_preprocess s amp =
     rbind (preprocess_loop amp (s_z1 s, s_L_z2 s, s_mp s)) (\<lambda>((z1, L_z2, mp), so).
     Inr (s\<lparr>s_z1 := z1, s_L_z2 := L_z2, s_mp := mp\<rparr>, so))"

section \<open>Postprocessing\<close>

fun postprocessing_loop :: "int \<Rightarrow> int list \<Rightarrow> int \<times> int list" where
  "postprocessing_loop msr [] = (msr, [])"
| "postprocessing_loop msr (a # amp) =
     (let tmp = gsm_mult_r msr 28180;
          msr = saturated_add16 a tmp;
          a' = i16 (saturated_add16 msr msr AND 0xFFF8);
          (msr', amp') = postprocessing_loop msr amp
      in (msr', a' # amp'))"

definition postprocessing :: "gsm0610_state_t \<Rightarrow> int list \<Rightarrow> gsm0610_state_t \<times> int list" where
  "postprocessing s amp =
     (let (msr, amp') = postprocessing_loop (s_msr s) amp in (s\<lparr>s_msr := msr\<rparr>, amp'))"

section \<open>The masks\<close>

lemma and_not_3: "(x :: int) AND NOT 3 = 4 * (x div 4)"
proof -
  have "x AND NOT (mask 2) = push_bit 2 (drop_bit 2 x)"
    by (rule bit_eqI) (auto simp: bit_and_iff bit_not_iff bit_mask_iff bit_push_bit_iff bit_drop_bit_eq not_less dest!: le_Suc_ex)
  then show ?thesis by (simp add: mask_eq_exp_minus_1 push_bit_eq_mult drop_bit_eq_div mult.commute)
qed

lemma and_FFF8: "(y :: int) AND 0xFFF8 = (8 * (y div 8)) mod 65536"
proof -
  have "y AND push_bit 3 (mask 13) = take_bit 16 (push_bit 3 (drop_bit 3 y))"
    by (rule bit_eqI) (auto simp: bit_and_iff bit_mask_iff bit_push_bit_iff bit_drop_bit_eq bit_take_bit_iff)
  then show ?thesis
    by (simp add: mask_eq_exp_minus_1 push_bit_eq_mult drop_bit_eq_div take_bit_eq_mod mult.commute)
qed

section \<open>The offset filter neither saturates nor wraps\<close>

definition pre_ok :: "int \<times> int \<times> int \<Rightarrow> bool" where
  "pre_ok st \<longleftrightarrow> (case st of (z1, L_z2, mp) \<Rightarrow> -16384 \<le> z1 \<and> z1 \<le> 16380 \<and>
     -536870912 \<le> z1 * 32768 - L_z2 \<and> z1 * 32768 - L_z2 \<le> 536739840 \<and> is16 mp)"

lemma preprocess_sample_eq:
  assumes "is16 a" "pre_ok (z1, L, mp)"
  defines "z1' \<equiv> 4 * (a div 8)"
  defines "L' \<equiv> (L * 32735 + 16384) div 32768 + (z1' - z1) * 32768"
  shows "preprocess_sample a (z1, L, mp) =
      Inr (z1', L', (L' + 16384) div 32768, saturated_add16 ((L' + 16384) div 32768) (gsm_mult_r mp (-28180))) \<and>
    pre_ok (z1', L', (L' + 16384) div 32768)"
proof -
  have "shr a 1 AND NOT 3 = 4 * (a div 2 div 4)" by (simp only: and_not_3 shr_def power_one_right)
  then have so: "shr a 1 AND NOT 3 = z1'" by (simp add: z1'_def zdiv_zmult2_eq [of 4 a 2, simplified])
  have z: "-16384 \<le> z1'" "z1' \<le> 16380" using assms(1) by (auto simp: z1'_def is16_def)
  have st: "-16384 \<le> z1" "z1 \<le> 16380" "-536870912 \<le> z1 * 32768 - L" "z1 * 32768 - L \<le> 536739840" "is16 mp"
    using assms(2) by (simp_all add: pre_ok_def)
  have s1: "i16 (z1' - z1) = z1' - z1" "z1' - z1 \<noteq> INT16_MIN"
    using z st by (simp_all add: i16_id is16_def INT16_MIN_def)
  define M where "M = (L * 32735 + 16384) div 32768"
  have W: "-536870912 \<le> z1 * 32768 - M" "z1 * 32768 - M \<le> 536739840" using st unfolding M_def by linarith+
  have L': "-536739840 - 536870912 \<le> L'" "L' \<le> 536739840 + 536870912" using W z st unfolding L'_def M_def [symmetric] by (simp_all add: left_diff_distrib)
  have M32: "is32 M" using W st by (simp add: is32_def)
  have S32: "is32 ((z1' - z1) * 32768)" using z st by (simp add: is32_def)
  have a1: "saturated_add32 M ((z1' - z1) * 32768) = L'"
    using saturated_add32_clamp [OF M32 S32] L' unfolding L'_def M_def [symmetric] by simp
  have a2: "saturated_add32 L' 16384 = L' + 16384"
    using saturated_add32_clamp [of L' 16384] L' by (simp add: is32_def)
  have mp: "is16 ((L' + 16384) div 32768)" using L' by (auto simp: is16_def)
  have "preprocess_sample a (z1, L, mp) =
      Inr (z1', L', (L' + 16384) div 32768, saturated_add16 ((L' + 16384) div 32768) (gsm_mult_r mp (-28180)))"
    unfolding preprocess_sample_def Let_def split_conv so s1(1)
    using z s1(2) M32 S32 a1 a2 mp by (simp add: shl_def shr_def i32_id i16_id M_def [symmetric])
  moreover have "z1' * 32768 - L' = z1 * 32768 - M" unfolding L'_def M_def [symmetric] by simp
  ultimately show ?thesis using z W mp by (simp add: pre_ok_def)
qed
lemma preprocess_loop_ok:
  assumes "list_all is16 amp" "pre_ok st"
  shows "returns (preprocess_loop amp st) (\<lambda>(st', so). pre_ok st' \<and> arr (length amp) so)"
  using assms
proof (induction amp arbitrary: st)
  case (Cons a amp)
  obtain z1 L mp where st: "st = (z1, L, mp)" by (cases st)
  obtain z1' L' mp' so where s: "preprocess_sample a st = Inr (z1', L', mp', so)" "pre_ok (z1', L', mp')" "is16 so"
    using preprocess_sample_eq [of a z1 L mp] Cons.prems st by (auto simp: saturated_add16_range)
  have "list_all is16 amp" using Cons.prems by simp
  from Cons.IH [OF this s(2)] show ?case
    using s(1,3) by (auto elim!: returns_mono)
qed simp

lemma preprocess_ok:
  assumes "codec_ok s" "arr 160 amp"
  shows "returns (gsm0610_preprocess s amp) (\<lambda>(s', so). codec_ok s' \<and> arr 160 so \<and>
    s_packing s' = s_packing s \<and> s_dp0 s' = s_dp0 s \<and> s_e s' = s_e s \<and> s_LARpp s' = s_LARpp s \<and> s_j s' = s_j s)"
proof -
  have a: "list_all is16 amp" "length amp = 160" using assms(2) by (simp_all add: arr_def)
  have p: "pre_ok (s_z1 s, s_L_z2 s, s_mp s)" using assms(1) by (simp add: pre_ok_def codec_ok_def)
  from preprocess_loop_ok [OF a(1) p] show ?thesis
    using assms(1) a(2) by (auto simp: gsm0610_preprocess_def codec_ok_def pre_ok_def elim!: returns_mono)
qed

text \<open>
  The offset compensation, with its recursive 31-bit filter, runs for ever on any 16-bit input without
  ever saturating, wrapping or failing an assertion: the filter memory is always the last sample
  less an average of the samples so far, within \<open>2 ^ 30\<close>. Each round computes the
  exact integer recursion, and the invariant holds again after it.
\<close>

lemma offset_filter_exact:
  assumes "is16 a" "pre_ok (z1, L, mp)"
  shows "let z1' = 4 * (a div 8); L' = (L * 32735 + 16384) div 32768 + (z1' - z1) * 32768; mp' = (L' + 16384) div 32768
    in preprocess_sample a (z1, L, mp) = Inr (z1', L', mp', saturated_add16 mp' (gsm_mult_r mp (-28180))) \<and>
       pre_ok (z1', L', mp')"
  using preprocess_sample_eq [OF assms] by (simp add: Let_def)

theorem offset_filter_exact_witness:
  "preprocess_sample (-32768) (0, 0, 0) = Inr (-16384, -536870912, -16384, -16384)"
  using offset_filter_exact [of "-32768" 0 0 0]
  by (simp add: is16_def pre_ok_def Let_def gsm_mult_r_eq saturated_add16_def saturate_clamp clamp16_def)

lemma postprocessing_loop_ok:
  "is16 msr \<Longrightarrow> is16 (fst (postprocessing_loop msr amp)) \<and> arr (length amp) (snd (postprocessing_loop msr amp)) \<and>
    list_all (\<lambda>x. x mod 8 = 0) (snd (postprocessing_loop msr amp))"
proof (induction msr amp rule: postprocessing_loop.induct)
  case (2 msr a amp)
  define m where "m = saturated_add16 a (gsm_mult_r msr 28180)"
  have m: "is16 m" by (simp add: m_def saturated_add16_range)
  have "is16 (8 * (y div 8))" if "is16 y" for y using that by (auto simp: is16_def)
  then have "i16 (saturated_add16 m m AND 0xFFF8) = 8 * (saturated_add16 m m div 8)"
    unfolding and_FFF8 i16_mod by (intro i16_id) (simp add: saturated_add16_range)
  moreover have "is16 (i16 (saturated_add16 m m AND 0xFFF8))" by (rule i16_range)
  ultimately show ?case using 2(1) [OF refl m_def refl] m by (simp add: m_def [symmetric] case_prod_beta Let_def)
qed simp

lemma postprocessing_ok:
  assumes "codec_ok s" "arr 160 amp" "postprocessing s amp = (s', amp')"
  shows "codec_ok s' \<and> arr 160 amp' \<and> list_all (\<lambda>x. x mod 8 = 0) amp' \<and> s_packing s' = s_packing s \<and>
    s_dp0 s' = s_dp0 s \<and> s_LARpp s' = s_LARpp s \<and> s_j s' = s_j s"
  using postprocessing_loop_ok [of "s_msr s" amp] assms
  by (auto simp: postprocessing_def codec_ok_def arr_length case_prod_beta)

end
