(* ===== verification/Gsm_Codec.thy ===== *)
theory Gsm_Codec
  imports Gsm_Wav49 Gsm_Rpe Gsm_Lpc Gsm_Long_Term Gsm_Signal
begin

text \<open>
  The GSM 06.10 encoder and decoder, \<^verbatim>\<open>src/jni/spandsp/gsm0610_encode.c\<close> and
  \<^verbatim>\<open>src/jni/spandsp/gsm0610_decode.c\<close>: a frame of 160 samples through all stages, and the loops over a
  buffer with the three packings. A read past the end of the caller's buffer is a fault.
\<close>

section \<open>Encoder\<close>

text \<open>
  The loop over the sub-frames \<open>ks\<close>; the pointers \<open>dp\<close> and \<open>dpp\<close> are the offset \<open>120 + 40 * k\<close>. Results:
  the arrays and the parameters of the sub-frames.
\<close>

fun encode_subs :: "nat list \<Rightarrow> int list \<Rightarrow> int list \<Rightarrow> int list \<Rightarrow> ((int list \<times> int list) \<times> subframe list) res" where
  "encode_subs [] so dp e = Inr ((dp, e), [])"
| "encode_subs (k # ks) so dp e =
     rbind (gsm0610_long_term_predictor (take 40 (drop (40 * k) so)) dp (120 + 40 * k) e) (\<lambda>(N, b, dp, e).
     rbind (gsm0610_rpe_encoding e) (\<lambda>(xm, m, x, e).
     let dp = fold (\<lambda>i dp. dp[120 + 40 * k + i := saturated_add16 (e ! (5 + i)) (dp ! (120 + 40 * k + i))]) [0..<40] dp
     in rbind (encode_subs ks so dp e) (\<lambda>(st, subs). Inr (st, (int N, b, m, xm, x) # subs))))"

definition encode_a_frame :: "gsm0610_state_t \<Rightarrow> int list \<Rightarrow> (gsm0610_state_t \<times> gsm0610_frame_t) res" where
  "encode_a_frame s amp =
     rbind (gsm0610_preprocess s amp) (\<lambda>(s, so).
     rbind (gsm0610_lpc_analysis so) (\<lambda>(so, L).
     let (s, so) = gsm0610_short_term_analysis_filter s L so
     in rbind (encode_subs [0, 1, 2, 3] so (s_dp0 s) (s_e s)) (\<lambda>((dp, e), subs).
     Inr (s\<lparr>s_dp0 := take 120 (drop GSM0610_FRAME_LEN dp) @ drop 120 dp, s_e := e\<rparr>, frame_of L subs))))"

text \<open>The next frame of the caller's buffer.\<close>

definition next_frame :: "nat \<Rightarrow> int list \<Rightarrow> int list res" where
  "next_frame n buf = (if n \<le> length buf then Inr (take n buf) else Inl OutOfBounds)"

text \<open>The loop of \<open>gsm0610_encode\<close>: the rest of the buffer from \<open>amp[i]\<close> on, and \<open>len - i\<close>.\<close>

function gsm0610_encode :: "gsm0610_state_t \<Rightarrow> int list \<Rightarrow> int \<Rightarrow> (gsm0610_state_t \<times> int list) res" where
  "gsm0610_encode s amp left =
     (if left \<le> 0 then Inr (s, [])
      else rbind (next_frame GSM0610_FRAME_LEN amp) (\<lambda>a.
        rbind (encode_a_frame s a) (\<lambda>(s1, f).
        if s_packing s1 = GSM0610_PACKING_WAV49
        then rbind (next_frame GSM0610_FRAME_LEN (drop GSM0610_FRAME_LEN amp)) (\<lambda>a2.
          rbind (encode_a_frame s1 a2) (\<lambda>(s2, f2).
          rbind (gsm0610_encode s2 (drop (2 * GSM0610_FRAME_LEN) amp) (left - 2 * int GSM0610_FRAME_LEN)) (\<lambda>(s', code).
          Inr (s', gsm0610_pack_wav49 f f2 @ code))))
        else rbind (gsm0610_encode s1 (drop GSM0610_FRAME_LEN amp) (left - int GSM0610_FRAME_LEN)) (\<lambda>(s', code).
          Inr (s', (if s_packing s1 = GSM0610_PACKING_VOIP then gsm0610_pack_voip f else gsm0610_pack_none f) @ code)))))"
  by pat_completeness auto
termination
  by (relation "measure (\<lambda>(s, amp, left). nat left)") (auto simp: GSM0610_FRAME_LEN_def)

declare gsm0610_encode.simps [simp del]

section \<open>Decoder\<close>

fun decode_subs :: "nat list \<Rightarrow> gsm0610_frame_t \<Rightarrow> int \<Rightarrow> int list \<Rightarrow> ((int \<times> int list) \<times> int list) res" where
  "decode_subs [] f nrp dp = Inr ((nrp, dp), [])"
| "decode_subs (j # js) f nrp dp =
     rbind (gsm0610_rpe_decoding (xmaxc f ! j) (Mc f ! j) (xMc f ! j)) (\<lambda>erp.
     rbind (gsm0610_long_term_synthesis_filtering nrp (Nc f ! j) (bc f ! j) erp dp) (\<lambda>(nrp, dp).
     rbind (decode_subs js f nrp dp) (\<lambda>(st, wt). Inr (st, take 40 (drop 120 dp) @ wt))))"

definition decode_a_frame :: "gsm0610_state_t \<Rightarrow> gsm0610_frame_t \<Rightarrow> (gsm0610_state_t \<times> int list) res" where
  "decode_a_frame s f =
     rbind (decode_subs [0, 1, 2, 3] f (s_nrp s) (s_dp0 s)) (\<lambda>((nrp, dp), wt).
     let s = s\<lparr>s_nrp := nrp, s_dp0 := dp\<rparr>;
         (s, amp) = gsm0610_short_term_synthesis_filter s (LARc f) wt
     in Inr (postprocessing s amp))"

text \<open>The loop of \<open>gsm0610_decode\<close>: the rest of the buffer from \<open>code[i]\<close> on, and \<open>len - i\<close>.\<close>

function gsm0610_decode :: "gsm0610_state_t \<Rightarrow> int list \<Rightarrow> int \<Rightarrow> (gsm0610_state_t \<times> int list) res" where
  "gsm0610_decode s code left =
     (if left \<le> 0 then Inr (s, [])
      else if s_packing s = GSM0610_PACKING_WAV49
      then rbind (next_frame 65 code) (\<lambda>c.
        let (f, f2) = gsm0610_unpack_wav49 c in
        rbind (decode_a_frame s f) (\<lambda>(s1, amp).
        rbind (decode_a_frame s1 f2) (\<lambda>(s2, amp2).
        rbind (gsm0610_decode s2 (drop 65 code) (left - 65)) (\<lambda>(s', rest). Inr (s', amp @ amp2 @ rest)))))
      else if s_packing s = GSM0610_PACKING_VOIP
      then rbind (next_frame 33 code) (\<lambda>c.
        rbind (decode_a_frame s (gsm0610_unpack_voip c)) (\<lambda>(s1, amp).
        rbind (gsm0610_decode s1 (drop 33 code) (left - 33)) (\<lambda>(s', rest). Inr (s', amp @ rest))))
      else rbind (next_frame 76 code) (\<lambda>c.
        rbind (decode_a_frame s (gsm0610_unpack_none c)) (\<lambda>(s1, amp).
        rbind (gsm0610_decode s1 (drop 76 code) (left - 76)) (\<lambda>(s', rest). Inr (s', amp @ rest)))))"
  by pat_completeness auto
termination
  by (relation "measure (\<lambda>(s, code, left). nat left)") auto

declare gsm0610_decode.simps [simp del]

section \<open>One sub-frame\<close>

definition sub_ok :: "subframe \<Rightarrow> bool" where
  "sub_ok t = (case t of (n, g, m, xm, x) \<Rightarrow> 40 \<le> n \<and> n \<le> 120 \<and> bits 2 g \<and> bits 2 m \<and> bits 6 xm \<and>
     length x = 13 \<and> list_all (bits 3) x)"

definition exc_ok :: "int list \<Rightarrow> bool" where
  "exc_ok e \<longleftrightarrow> arr 50 e \<and> take 5 e = replicate 5 0 \<and> drop 45 e = replicate 5 0"

text \<open>The reconstructed residual of a sub-frame: what encoder and decoder both add to their history.\<close>

definition recon :: "int list \<Rightarrow> int \<Rightarrow> (nat \<Rightarrow> int) \<Rightarrow> int list" where
  "recon erp g h = map (\<lambda>i. saturated_add16 (erp ! i) (gsm_mult_r (gsm_QLB ! nat g) (h i))) [0..<40]"

lemma recon_arr: "arr 40 (recon erp g h)"
  unfolding recon_def by (rule arr_map) (simp_all add: saturated_add16_range)

lemma encode_sub_step:
  assumes "arr 40 d" "arr 280 dp" "exc_ok e" "120 \<le> b" "b \<le> 240"
  shows "\<exists>N g m xm x e2 dp1 e1 erp. gsm0610_long_term_predictor d dp b e = Inr (N, g, dp1, e1) \<and>
    gsm0610_rpe_encoding e1 = Inr (xm, m, x, e2) \<and> sub_ok (int N, g, m, xm, x) \<and> exc_ok e2 \<and>
    gsm0610_rpe_decoding xm m x = Inr erp \<and>
    fold (\<lambda>i dp. dp[b + i := saturated_add16 (e2 ! (5 + i)) (dp ! (b + i))]) [0..<40] dp1 =
      take b dp @ recon erp g (\<lambda>i. dp ! (b + i - N)) @ drop (b + 40) dp"
proof -
  have e: "arr 50 e" "take 5 e = replicate 5 0" "drop 45 e = replicate 5 0" using assms(3) by (simp_all add: exc_ok_def)
  have len: "length dp = 280" "length e = 50" using assms(2) e(1) by (simp_all add: arr_def)
  obtain N g where P: "40 \<le> N" "N \<le> 120" "0 \<le> g" "g \<le> 3"
    "gsm0610_long_term_predictor d dp b e = Inr (N, g,
      take b dp @ map (\<lambda>k. gsm_mult_r (gsm_QLB ! nat g) (dp ! (b + k - N))) [0..<40] @ drop (b + 40) dp,
      take 5 e @ map (\<lambda>k. saturated_sub16 (d ! k) (gsm_mult_r (gsm_QLB ! nat g) (dp ! (b + k - N)))) [0..<40] @ drop 45 e)"
    using predictor_ok [OF assms(1,2) e(1) assms(4,5)] by blast
  define h where "h k = gsm_mult_r (gsm_QLB ! nat g) (dp ! (b + k - N))" for k
  define dp1 where "dp1 = take b dp @ map h [0..<40] @ drop (b + 40) dp"
  define e1 where "e1 = take 5 e @ map (\<lambda>k. saturated_sub16 (d ! k) (h k)) [0..<40] @ drop 45 e"
  have "arr 50 e1" using e(1) len by (auto simp: e1_def arr_def list_all_iff saturated_sub16_range dest: in_set_takeD in_set_dropD)
  from rpe_encoding_decoding [OF this] obtain xm m x e2 where
    R: "gsm0610_rpe_encoding e1 = Inr (xm, m, x, e2)" "arr 50 e2" "0 \<le> xm" "xm < 64" "0 \<le> m" "m < 4" "length x = 13"
      "list_all (\<lambda>x. 0 \<le> x \<and> x < 8) x" "gsm0610_rpe_decoding xm m x = Inr (take 40 (drop 5 e2))"
      "take 5 e2 = take 5 e1" "drop 45 e2 = drop 45 e1" by blast
  have 1: "exc_ok e2" using R(2,10,11) e(2,3) len by (simp add: exc_ok_def e1_def)
  have 2: "sub_ok (int N, g, m, xm, x)" using P(1-4) R(3-8) by (simp add: sub_ok_def bits_iff list_all_iff)
  have 3: "fold (\<lambda>i dp. dp[b + i := saturated_add16 (e2 ! (5 + i)) (dp ! (b + i))]) [0..<40] dp1 =
      take b dp1 @ map (\<lambda>i. saturated_add16 (e2 ! (5 + i)) (h i)) [0..<40] @ drop (b + 40) dp1"
  proof (rule fold_fill)
    fix k D assume k: "k < 40" and D: "drop (b + k) D = drop (b + k) dp1" "length D = length dp1"
    have l: "length dp1 = 280" using len assms(5) by (simp add: dp1_def)
    have bk: "b + k \<le> length D" "b + k \<le> length dp1" using l D(2) k assms(5) by simp_all
    have "D ! (b + k) = drop (b + k) D ! 0" using bk by simp
    also have "\<dots> = dp1 ! (b + k)" unfolding D(1) using bk by simp
    also have "\<dots> = h k" using k len assms(5) by (simp add: dp1_def nth_append)
    finally show "D[b + k := saturated_add16 (e2 ! (5 + k)) (D ! (b + k))] = D[b + k := saturated_add16 (e2 ! (5 + k)) (h k)]"
      by simp
  qed (use len assms(5) in \<open>simp add: dp1_def\<close>)
  have 4: "take b dp1 = take b dp" "drop (b + 40) dp1 = drop (b + 40) dp" using len assms(5) by (simp_all add: dp1_def)
  have 5: "map (\<lambda>i. saturated_add16 (e2 ! (5 + i)) (h i)) [0..<40] = recon (take 40 (drop 5 e2)) g (\<lambda>i. dp ! (b + i - N))"
    using arr_length [OF R(2)] by (simp add: recon_def h_def)
  have 6: "gsm0610_long_term_predictor d dp b e = Inr (N, g, dp1, e1)"
    using P(5) unfolding h_def [symmetric] dp1_def [symmetric] e1_def [symmetric] .
  have 7: "fold (\<lambda>i dp. dp[b + i := saturated_add16 (e2 ! (5 + i)) (dp ! (b + i))]) [0..<40] dp1 =
      take b dp @ recon (take 40 (drop 5 e2)) g (\<lambda>i. dp ! (b + i - N)) @ drop (b + 40) dp" unfolding 3 4 5 ..
  show ?thesis using 6 R(1) 2 1 R(9) 7 by blast
qed

section \<open>The decoder follows the encoder\<close>

text \<open>
  The sub-frames from \<open>k\<close> on: the encoder returns, its parameters fit, and a decoder whose history is
  the encoder's reconstructs, from these parameters, exactly the encoder's own reconstruction, and
  ends with the encoder's history again.
\<close>

lemma history_step:
  assumes "length dp = 280" "length D = 280" "k < 4" "take 120 D = take 120 (drop (40 * k) dp)" "length r = 40"
  shows "take 120 (take 80 (drop 40 D) @ r @ r @ drop 160 D) =
    take 120 (drop (40 * Suc k) (take (120 + 40 * k) dp @ r @ drop (120 + 40 * k + 40) dp))"
proof -
  have "take 80 (drop 40 D) = drop 40 (take 120 D)" by (simp add: take_drop)
  also have "\<dots> = take 80 (drop (40 + 40 * k) dp)" unfolding assms(4) by (simp add: take_drop add.commute)
  finally have "take 80 (drop 40 D) = take 80 (drop (40 + 40 * k) dp)" .
  then show ?thesis using assms(1-3,5) by (simp add: drop_take)
qed

lemma history_nth:
  assumes "take 120 D = take 120 (drop (40 * k) dp)" "length dp = 280" "k < 4" "length D = 280" "i < 40" "40 \<le> N" "N \<le> 120"
  shows "D ! (120 + i - N) = dp ! (120 + 40 * k + i - N)"
proof -
  have l: "120 + i - N < 120" using assms by linarith
  then have "D ! (120 + i - N) = take 120 (drop (40 * k) dp) ! (120 + i - N)" using assms(1) by (metis nth_take)
  also have "\<dots> = dp ! (40 * k + (120 + i - N))" using l assms by simp
  also have "40 * k + (120 + i - N) = 120 + 40 * k + i - N" using assms by simp
  finally show ?thesis .
qed

lemma written_segment:
  assumes "take (b + n) ys = take b xs @ r" "length r = n" "b \<le> length xs" "b + n \<le> length ys"
  shows "take b ys = take b xs" "drop b ys = r @ drop (b + n) ys"
proof -
  have "take b (take (b + n) ys) = take b xs" unfolding assms(1) using assms(3) by simp
  then show "take b ys = take b xs" by (simp add: min_def)
  have "drop b (take (b + n) ys) = r" unfolding assms(1) using assms(3) by simp
  then show "drop b ys = r @ drop (b + n) ys" using drop_split [of b "b + n" ys] assms(4) by simp
qed

lemma decode_sub_step:
  assumes "length dp = 280" "k < 4" "length D = 280" "take 120 D = take 120 (drop (40 * k) dp)" "40 \<le> nrp" "nrp \<le> 120"
    "sub_ok (int N, g, m, xm, x)" "sub_at f k = (int N, g, m, xm, x)" "gsm0610_rpe_decoding xm m x = Inr erp"
  defines "r \<equiv> recon erp g (\<lambda>i. dp ! (120 + 40 * k + i - N))"
  shows "\<exists>D2. length D2 = 280 \<and>
    take 120 D2 = take 120 (drop (40 * Suc k) (take (120 + 40 * k) dp @ r @ drop (120 + 40 * k + 40) dp)) \<and>
    (\<forall>ks. decode_subs (k # ks) f nrp D = rbind (decode_subs ks f (int N) D2) (\<lambda>(st, wt). Inr (st, r @ wt)))"
proof -
  have N: "40 \<le> N" "N \<le> 120" "0 \<le> g" "g \<le> 3" using assms(7) by (auto simp: sub_ok_def bits_iff)
  have f: "Nc f ! k = int N" "bc f ! k = g" "Mc f ! k = m" "xmaxc f ! k = xm" "xMc f ! k = x"
    using assms(8) by (simp_all add: sub_at_def)
  have l: "length r = 40" using recon_arr by (simp add: r_def arr_length)
  define D2 where "D2 = take 80 (drop 40 D) @ r @ r @ drop 160 D"
  have "map (\<lambda>i. saturated_add16 (erp ! i) (gsm_mult_r (gsm_QLB ! nat g) (D ! (120 + i - nat (int N))))) [0..<40] = r"
    unfolding r_def recon_def using history_nth [OF assms(4,1,2,3) _ N(1,2)] by simp
  then have syn: "gsm0610_long_term_synthesis_filtering nrp (int N) g erp D = Inr (int N, D2)"
    using synthesis_ok [OF assms(3) N(3,4) assms(5,6), of "int N" erp] N(1,2) by (simp add: D2_def)
  have D2: "length D2 = 280" "take 40 (drop 120 D2) = r" using assms(3) l by (simp_all add: D2_def)
  have "decode_subs (k # ks) f nrp D = rbind (decode_subs ks f (int N) D2) (\<lambda>(st, wt). Inr (st, r @ wt))" for ks
    unfolding decode_subs.simps f assms(9) rbind_simps syn split_conv D2(2) ..
  then show ?thesis using D2(1) history_step [OF assms(1,3,2,4) l] unfolding D2_def by blast
qed

text \<open>From the parameters \<open>subs\<close> of the sub-frames from \<open>k\<close> on, a decoder with the history of \<open>dp\<close> rebuilds what \<open>dp'\<close> has.\<close>

definition reconstructs :: "nat \<Rightarrow> int list \<Rightarrow> int list \<Rightarrow> subframe list \<Rightarrow> bool" where
  "reconstructs k dp dp' subs \<longleftrightarrow>
     (\<forall>f nrp D. 40 \<le> nrp \<longrightarrow> nrp \<le> 120 \<longrightarrow> length D = 280 \<longrightarrow> take 120 D = take 120 (drop (40 * k) dp) \<longrightarrow>
      (\<forall>i<4 - k. sub_at f (k + i) = subs ! i) \<longrightarrow>
      (\<exists>nrp' D'. decode_subs [k..<4] f nrp D = Inr ((nrp', D'), drop (120 + 40 * k) dp') \<and> length D' = 280 \<and>
        40 \<le> nrp' \<and> nrp' \<le> 120 \<and> take 120 D' = take 120 (drop 160 dp')))"

lemma subs_follow:
  assumes "arr 160 so" "arr 280 dp" "exc_ok e" "k \<le> 4"
  shows "\<exists>dp' e' subs. encode_subs [k..<4] so dp e = Inr ((dp', e'), subs) \<and> arr 280 dp' \<and> exc_ok e' \<and>
    length subs = 4 - k \<and> list_all sub_ok subs \<and> take (120 + 40 * k) dp' = take (120 + 40 * k) dp \<and>
    reconstructs k dp dp' subs"
  using assms(2-4)
proof (induction "4 - k" arbitrary: k dp e)
  case 0
  then show ?case by (auto simp: arr_def reconstructs_def intro!: exI)
next
  case (Suc n)
  then have k: "k < 4" "n = 4 - Suc k" "[k..<4] = k # [Suc k..<4]" by (simp_all add: upt_rec)
  have len: "length dp = 280" using Suc.prems(1) by (simp add: arr_def)
  have d: "arr 40 (take 40 (drop (40 * k) so))"
    using arr_take [OF arr_drop [OF assms(1), of "40 * k"], of 40] k(1) by simp
  have b: "120 \<le> 120 + 40 * k" "120 + 40 * k \<le> 240" using k(1) by simp_all
  obtain N g m xm x e2 dp1 e1 erp where S: "gsm0610_long_term_predictor (take 40 (drop (40 * k) so)) dp (120 + 40 * k) e = Inr (N, g, dp1, e1)"
    "gsm0610_rpe_encoding e1 = Inr (xm, m, x, e2)" "sub_ok (int N, g, m, xm, x)" "exc_ok e2"
    "gsm0610_rpe_decoding xm m x = Inr erp"
    "fold (\<lambda>i dp. dp[120 + 40 * k + i := saturated_add16 (e2 ! (5 + i)) (dp ! (120 + 40 * k + i))]) [0..<40] dp1 =
      take (120 + 40 * k) dp @ recon erp g (\<lambda>i. dp ! (120 + 40 * k + i - N)) @ drop (120 + 40 * k + 40) dp"
    using encode_sub_step [OF d Suc.prems(1,2) b] by blast
  define r where "r = recon erp g (\<lambda>i. dp ! (120 + 40 * k + i - N))"
  define dp2 where "dp2 = take (120 + 40 * k) dp @ r @ drop (120 + 40 * k + 40) dp"
  have r: "arr 40 r" "length r = 40" using recon_arr by (simp_all add: r_def arr_length)
  have dp2: "arr 280 dp2" using Suc.prems(1) r len k(1)
    by (auto simp: dp2_def arr_def list_all_iff dest: in_set_takeD in_set_dropD)
  have len2: "length dp2 = 280" using dp2 by (rule arr_length)
  have N: "40 \<le> N" "N \<le> 120" "0 \<le> g" "g \<le> 3" using S(3) by (auto simp: sub_ok_def bits_iff)
  obtain dp' e' subs where IH: "encode_subs [Suc k..<4] so dp2 e2 = Inr ((dp', e'), subs)" "arr 280 dp'" "exc_ok e'"
    "length subs = 4 - Suc k" "list_all sub_ok subs" "take (120 + 40 * Suc k) dp' = take (120 + 40 * Suc k) dp2"
    "reconstructs (Suc k) dp2 dp' subs"
    using Suc.hyps(1) [OF k(2) dp2 S(4)] k(1) by auto
  have enc: "encode_subs [k..<4] so dp e = Inr ((dp', e'), (int N, g, m, xm, x) # subs)"
    unfolding k(3) encode_subs.simps S(1,2) rbind_simps split_conv Let_def S(6) r_def [symmetric] dp2_def [symmetric] IH(1) ..
  have "take (120 + 40 * k + 40) dp' = take (120 + 40 * k) dp @ r" using IH(6) len r(2) k(1) by (simp add: dp2_def add.assoc)
  from written_segment [OF this r(2)] have seg: "take (120 + 40 * k) dp' = take (120 + 40 * k) dp"
      "drop (120 + 40 * k) dp' = r @ drop (120 + 40 * Suc k) dp'"
    using len arr_length [OF IH(2)] k(1) by (simp_all add: add.assoc)
  have dec: "reconstructs k dp dp' ((int N, g, m, xm, x) # subs)"
    unfolding reconstructs_def
  proof (intro allI impI)
    fix f :: gsm0610_frame_t and nrp :: int and D :: "int list"
    assume D: "40 \<le> nrp" "nrp \<le> 120" "length D = 280" "take 120 D = take 120 (drop (40 * k) dp)"
      "\<forall>i<4 - k. sub_at f (k + i) = ((int N, g, m, xm, x) # subs) ! i"
    have "sub_at f k = (int N, g, m, xm, x)" using D(5) k(1) by (force dest: spec [of _ 0])
    then obtain D2 where D2: "length D2 = 280" "take 120 D2 = take 120 (drop (40 * Suc k) dp2)"
      "\<And>ks. decode_subs (k # ks) f nrp D = rbind (decode_subs ks f (int N) D2) (\<lambda>(st, wt). Inr (st, r @ wt))"
      using decode_sub_step [OF len k(1) D(3,4,1,2) S(3) _ S(5), of f] unfolding dp2_def r_def by blast
    have "sub_at f (Suc k + i) = subs ! i" if "i < 4 - Suc k" for i using D(5) [rule_format, of "Suc i"] that by simp
    then obtain nrp' D' where "decode_subs [Suc k..<4] f (int N) D2 = Inr ((nrp', D'), drop (120 + 40 * Suc k) dp')"
      "length D' = 280" "40 \<le> nrp'" "nrp' \<le> 120" "take 120 D' = take 120 (drop 160 dp')"
      using IH(7) [unfolded reconstructs_def, rule_format, of "int N" D2 f] N(1,2) D2(1,2) by auto
    then show "\<exists>nrp' D'. decode_subs [k..<4] f nrp D = Inr ((nrp', D'), drop (120 + 40 * k) dp') \<and> length D' = 280 \<and>
        40 \<le> nrp' \<and> nrp' \<le> 120 \<and> take 120 D' = take 120 (drop 160 dp')" unfolding k(3) D2(3) seg(2) by simp
  qed
  show ?case
    by (rule exI [of _ dp'], rule exI [of _ e'], rule exI [of _ "(int N, g, m, xm, x) # subs"])
      (use enc IH(2-5) S(3) k(1) seg(1) dec in auto)
qed

section \<open>Frames\<close>

text \<open>A decoder follows an encoder if their histories and their sets of log area ratios agree.\<close>

definition follows :: "gsm0610_state_t \<Rightarrow> gsm0610_state_t \<Rightarrow> bool" where
  "follows t s \<longleftrightarrow> take 120 (s_dp0 t) = take 120 (s_dp0 s) \<and> s_LARpp t = s_LARpp s \<and> s_j t = s_j s"

lemma follows_init: "follows (gsm0610_init p) (gsm0610_init q)"
  by (simp add: follows_def gsm0610_init_def)

lemma frame_of_ok:
  assumes "list_all2 (\<lambda>w x. 0 \<le> x \<and> x < 2 ^ w) [6, 6, 5, 5, 4, 4, 3, 3 :: nat] L" "length subs = 4" "list_all sub_ok subs"
  shows "frame_ok (frame_of L subs)" "\<forall>n\<in>set (Nc (frame_of L subs)). 40 \<le> n \<and> n \<le> 120"
    "LARc (frame_of L subs) = L" "i < 4 \<Longrightarrow> sub_at (frame_of L subs) i = subs ! i"
proof -
  have b: "bits = (\<lambda>w x. 0 \<le> x \<and> x < 2 ^ w)" by (simp add: bits_iff fun_eq_iff)
  have L: "list_all2 bits lar_widths L" using assms(1) by (simp add: lar_widths_def b)
  have n: "bits 7 n" if "40 \<le> n" "n \<le> 120" for n using that by (simp add: bits_iff)
  show "frame_ok (frame_of L subs)"
    using assms(2,3) L by (auto simp: frame_ok_def frame_of_def list_all_iff sub_ok_def intro!: n)
  show "\<forall>n\<in>set (Nc (frame_of L subs)). 40 \<le> n \<and> n \<le> 120"
    using assms(3) by (auto simp: frame_of_def list_all_iff sub_ok_def)
  show "LARc (frame_of L subs) = L" by (simp add: frame_of_def)
  show "sub_at (frame_of L subs) i = subs ! i" if "i < 4"
    using that assms(2) by (simp add: sub_at_def frame_of_def)
qed

lemma upt4_list: "[0, 1, 2, 3] = [0..<4 :: nat]"
  by (simp add: upt_rec)

lemma encode_a_frame_follow:
  assumes "codec_ok s" "arr 160 amp"
  shows "\<exists>s' f. encode_a_frame s amp = Inr (s', f) \<and> codec_ok s' \<and> frame_ok f \<and> (\<forall>n\<in>set (Nc f). 40 \<le> n \<and> n \<le> 120) \<and>
    s_packing s' = s_packing s \<and> s_LARpp s' = (s_LARpp s)[s_j s := decode_log_area_ratios (LARc f)] \<and> s_j s' = s_j s XOR 1 \<and>
    (\<forall>t. codec_ok t \<longrightarrow> follows t s \<longrightarrow> (\<exists>nrp D. decode_subs [0, 1, 2, 3] f (s_nrp t) (s_dp0 t) =
      Inr ((nrp, D), drop 120 (s_dp0 s')) \<and> take 120 D = take 120 (s_dp0 s')))"
proof -
  obtain s1 so where 1: "gsm0610_preprocess s amp = Inr (s1, so)" "codec_ok s1" "arr 160 so" "s_packing s1 = s_packing s"
    "s_dp0 s1 = s_dp0 s" "s_e s1 = s_e s" "s_LARpp s1 = s_LARpp s" "s_j s1 = s_j s"
    using preprocess_ok [OF assms] by (auto elim!: returnsE)
  obtain so2 L where 2: "gsm0610_lpc_analysis so = Inr (so2, L)" "arr 160 so2"
    "list_all2 (\<lambda>w x. 0 \<le> x \<and> x < 2 ^ w) [6, 6, 5, 5, 4, 4, 3, 3 :: nat] L"
    using lpc_analysis_ok [OF 1(3)] by (auto elim!: returnsE)
  obtain s3 d where 3: "gsm0610_short_term_analysis_filter s1 L so2 = (s3, d)" by fastforce
  note A = analysis_filter_ok [OF 1(2) 2(2) 3]
  have ok: "arr 280 (s_dp0 s3)" "exc_ok (s_e s3)" using A by (auto simp: codec_ok_def exc_ok_def)
  obtain dp' e' subs where S: "encode_subs [0..<4] d (s_dp0 s3) (s_e s3) = Inr ((dp', e'), subs)" "arr 280 dp'" "exc_ok e'"
    "length subs = 4" "list_all sub_ok subs"
    "\<And>f nrp D. 40 \<le> nrp \<Longrightarrow> nrp \<le> 120 \<Longrightarrow> length D = 280 \<Longrightarrow> take 120 D = take 120 (s_dp0 s3) \<Longrightarrow>
      \<forall>i<4. sub_at f i = subs ! i \<Longrightarrow> \<exists>nrp' D'. decode_subs [0..<4] f nrp D = Inr ((nrp', D'), drop 120 dp') \<and>
        length D' = 280 \<and> 40 \<le> nrp' \<and> nrp' \<le> 120 \<and> take 120 D' = take 120 (drop 160 dp')"
    using subs_follow [of d "s_dp0 s3" "s_e s3" 0] A ok by (auto simp: reconstructs_def)
  define s' where "s' = s3\<lparr>s_dp0 := take 120 (drop 160 dp') @ drop 120 dp', s_e := e'\<rparr>"
  note F = frame_of_ok [OF 2(3) S(4,5)]
  have len: "length dp' = 280" using S(2) by (rule arr_length)
  have "arr 280 (take 120 (drop 160 dp') @ drop 120 dp')"
    using arr_append [OF arr_take [OF arr_drop [OF S(2), of 160], of 120] arr_drop [OF S(2), of 120]] by simp
  then have 4: "codec_ok s'" using conjunct1 [OF A] S(3) by (simp add: s'_def codec_ok_def exc_ok_def)
  have 5: "encode_a_frame s amp = Inr (s', frame_of L subs)"
    using S(1) unfolding encode_a_frame_def 1(1) 2(1) 3 rbind_simps split_conv Let_def upt4_list
    by (simp add: s'_def GSM0610_FRAME_LEN_def)
  have 6: "\<exists>nrp D. decode_subs [0, 1, 2, 3] (frame_of L subs) (s_nrp t) (s_dp0 t) = Inr ((nrp, D), drop 120 (s_dp0 s')) \<and>
      take 120 D = take 120 (s_dp0 s')" if t: "codec_ok t" "follows t s" for t
  proof -
    have "40 \<le> s_nrp t" "s_nrp t \<le> 120" "length (s_dp0 t) = 280" "take 120 (s_dp0 t) = take 120 (s_dp0 s3)"
      using t A 1(5) by (auto simp: codec_ok_def arr_def follows_def)
    from S(6) [OF this] F(4) obtain nrp D where "decode_subs [0..<4] (frame_of L subs) (s_nrp t) (s_dp0 t) = Inr ((nrp, D), drop 120 dp')"
      "take 120 D = take 120 (drop 160 dp')" by blast
    then show ?thesis unfolding upt4_list using len by (simp add: s'_def)
  qed
  show ?thesis
    by (rule exI [of _ s'], rule exI [of _ "frame_of L subs"])
      (use 4 5 6 F(1-3) A 1 in \<open>simp add: s'_def\<close>)
qed

lemma frame_ok_sub:
  assumes "frame_ok f" "j < 4"
  shows "0 \<le> xmaxc f ! j \<and> xmaxc f ! j \<le> 63 \<and> 0 \<le> Mc f ! j \<and> Mc f ! j \<le> 3 \<and> length (xMc f ! j) = 13 \<and>
    list_all (\<lambda>x. 0 \<le> x \<and> x \<le> 7) (xMc f ! j) \<and> 0 \<le> bc f ! j \<and> bc f ! j \<le> 3"
proof -
  have "bits 6 (xmaxc f ! j)" "bits 2 (Mc f ! j)" "bits 2 (bc f ! j)" "length (xMc f ! j) = 13" "list_all (bits 3) (xMc f ! j)"
    using assms by (auto simp: frame_ok_def list_all_length)
  then show ?thesis by (auto simp: bits_iff list_all_iff)
qed

lemma decode_subs_ok:
  assumes "frame_ok f" "40 \<le> nrp" "nrp \<le> 120" "arr 280 dp" "\<forall>j\<in>set js. j < 4"
  shows "returns (decode_subs js f nrp dp) (\<lambda>((nrp', dp'), wt). 40 \<le> nrp' \<and> nrp' \<le> 120 \<and> arr 280 dp' \<and> arr (40 * length js) wt)"
  using assms(2-5)
proof (induction js arbitrary: nrp dp)
  case (Cons j js)
  have f: "0 \<le> xmaxc f ! j" "xmaxc f ! j \<le> 63" "0 \<le> Mc f ! j" "Mc f ! j \<le> 3" "length (xMc f ! j) = 13"
    "list_all (\<lambda>x. 0 \<le> x \<and> x \<le> 7) (xMc f ! j)" "0 \<le> bc f ! j" "bc f ! j \<le> 3"
    using frame_ok_sub [OF assms(1), of j] Cons.prems(4) by auto
  obtain erp where erp: "gsm0610_rpe_decoding (xmaxc f ! j) (Mc f ! j) (xMc f ! j) = Inr erp"
    using rpe_decoding_ok [OF f(1-6)] by blast
  define Nr where "Nr = (if Nc f ! j < 40 \<or> Nc f ! j > 120 then nrp else Nc f ! j)"
  define r where "r = recon erp (bc f ! j) (\<lambda>i. dp ! (120 + i - nat Nr))"
  define D where "D = take 80 (drop 40 dp) @ r @ r @ drop 160 dp"
  have syn: "gsm0610_long_term_synthesis_filtering nrp (Nc f ! j) (bc f ! j) erp dp = Inr (Nr, D)"
    using synthesis_ok [OF arr_length [OF Cons.prems(3)] f(7,8) Cons.prems(1,2), of "Nc f ! j" erp]
    by (simp add: Nr_def r_def recon_def D_def)
  have N: "40 \<le> Nr" "Nr \<le> 120" using Cons.prems(1,2) by (auto simp: Nr_def)
  have r: "arr 40 r" by (simp add: r_def recon_arr)
  have D: "arr 280 D" using Cons.prems(3) r by (auto simp: D_def arr_def list_all_iff dest!: in_set_takeD in_set_dropD)
  have "take 40 (drop 120 D) = r" using arr_length [OF r] arr_length [OF Cons.prems(3)] by (simp add: D_def)
  moreover have "\<forall>j\<in>set js. j < 4" using Cons.prems(4) by simp
  ultimately show ?case
    using Cons.IH [OF N D] r unfolding decode_subs.simps erp rbind_simps syn split_conv
    by (auto intro!: arr_append elim!: returns_mono)
qed simp

lemma decode_a_frame_ok:
  assumes "codec_ok s" "frame_ok f"
  shows "returns (decode_a_frame s f) (\<lambda>(s', amp). codec_ok s' \<and> arr 160 amp \<and> list_all (\<lambda>x. x mod 8 = 0) amp \<and>
    s_packing s' = s_packing s \<and> s_LARpp s' = (s_LARpp s)[s_j s := decode_log_area_ratios (LARc f)] \<and> s_j s' = s_j s XOR 1 \<and>
    (\<forall>nrp D wt. decode_subs [0, 1, 2, 3] f (s_nrp s) (s_dp0 s) = Inr ((nrp, D), wt) \<longrightarrow> s_dp0 s' = D))"
proof -
  have c: "40 \<le> s_nrp s" "s_nrp s \<le> 120" "arr 280 (s_dp0 s)" using assms(1) by (simp_all add: codec_ok_def)
  obtain nrp dp wt where d: "decode_subs [0, 1, 2, 3] f (s_nrp s) (s_dp0 s) = Inr ((nrp, dp), wt)" "40 \<le> nrp" "nrp \<le> 120"
    "arr 280 dp" "arr 160 wt"
    using decode_subs_ok [OF assms(2) c, of "[0, 1, 2, 3]"] by (auto elim!: returnsE)
  define s1 where "s1 = s\<lparr>s_nrp := nrp, s_dp0 := dp\<rparr>"
  have s1: "codec_ok s1" using assms(1) d by (simp add: s1_def codec_ok_def)
  obtain s2 a where S: "gsm0610_short_term_synthesis_filter s1 (LARc f) wt = (s2, a)" by fastforce
  note A = synthesis_filter_ok [OF s1 d(5) S]
  obtain s3 b where P: "postprocessing s2 a = (s3, b)" by fastforce
  have "codec_ok s2" "arr 160 a" using A by auto
  note B = postprocessing_ok [OF this P]
  have "decode_a_frame s f = Inr (s3, b)"
    unfolding decode_a_frame_def d(1) rbind_simps split_conv Let_def s1_def [symmetric] S P ..
  then show ?thesis using A B d(1) by (auto simp: s1_def)
qed

end
