(* ===== verification/Gsm_Stream.thy ===== *)
theory Gsm_Stream
  imports Gsm_Codec
begin

text \<open>
  What the GSM 06.10 codec promises as a whole: single frames, and streams of frames in each of the
  packings. The loops of \<open>gsm0610_encode\<close> and \<open>gsm0610_decode\<close> are treated once, in a locale, and the
  locale is interpreted for each packing.
\<close>

section \<open>Frames\<close>

text \<open>
  C22. The encoder is total: from every well-formed state and every 160 samples the whole encoder,
  with all its assertions, table look-ups and shifts, returns; the new state is well-formed, all parameters
  of the frame fit the widths of the packed format, and the lags are those a decoder accepts.
\<close>

theorem encode_a_frame_returns:
  assumes "codec_ok s" "arr 160 amp"
  shows "\<exists>s' f. encode_a_frame s amp = Inr (s', f) \<and> codec_ok s' \<and> frame_ok f \<and>
    (\<forall>n\<in>set (Nc f). 40 \<le> n \<and> n \<le> 120)"
  using encode_a_frame_follow [OF assms] by blast

theorem encode_a_frame_returns_witness:
  "\<exists>s' f. encode_a_frame (gsm0610_init 0) (replicate 160 (- 32768)) = Inr (s', f) \<and> codec_ok s' \<and> frame_ok f"
  using encode_a_frame_returns [OF codec_ok_init, of "replicate 160 (- 32768)" 0]
  by (auto simp: arr_def list_all_iff is16_def)

text \<open>
  The decoder is total on frames whose parameters fit their widths, whatever their values, lags out
  of range included: it returns 160 samples of 16 bits, each a multiple of eight, and a
  well-formed state.
\<close>

lemma decode_a_frame_returns:
  assumes "codec_ok s" "frame_ok f"
  shows "\<exists>s' amp. decode_a_frame s f = Inr (s', amp) \<and> codec_ok s' \<and> arr 160 amp \<and> list_all (\<lambda>x. x mod 8 = 0) amp"
  using decode_a_frame_ok [OF assms] by (auto elim!: returnsE)

lemma decode_a_frame_returns_witness:
  "\<exists>s' amp. decode_a_frame (gsm0610_init 2) demo_frame = Inr (s', amp) \<and> codec_ok s' \<and> length amp = 160"
  using decode_a_frame_returns [OF codec_ok_init demo_frame_ok, of 2] by (auto simp: arr_def)

text \<open>The step of the simulation: encoder and decoder on one frame.\<close>

lemma frame_step:
  assumes "codec_ok s" "codec_ok t" "follows t s" "arr 160 amp"
  shows "\<exists>s' f t' y. encode_a_frame s amp = Inr (s', f) \<and> frame_ok f \<and> decode_a_frame t f = Inr (t', y) \<and>
    codec_ok s' \<and> codec_ok t' \<and> follows t' s' \<and> arr 160 y \<and> s_packing s' = s_packing s \<and> s_packing t' = s_packing t \<and>
    (\<exists>nrp D. decode_subs [0, 1, 2, 3] f (s_nrp t) (s_dp0 t) = Inr ((nrp, D), drop 120 (s_dp0 s')))"
proof -
  obtain s' f where E: "encode_a_frame s amp = Inr (s', f)" "codec_ok s'" "frame_ok f" "s_packing s' = s_packing s"
    "s_LARpp s' = (s_LARpp s)[s_j s := decode_log_area_ratios (LARc f)]" "s_j s' = s_j s XOR 1"
    "\<exists>nrp D. decode_subs [0, 1, 2, 3] f (s_nrp t) (s_dp0 t) = Inr ((nrp, D), drop 120 (s_dp0 s')) \<and> take 120 D = take 120 (s_dp0 s')"
    using encode_a_frame_follow [OF assms(1,4)] assms(2,3) by blast
  then obtain nrp D where D: "decode_subs [0, 1, 2, 3] f (s_nrp t) (s_dp0 t) = Inr ((nrp, D), drop 120 (s_dp0 s'))"
    "take 120 D = take 120 (s_dp0 s')" by blast
  obtain t' y where T: "decode_a_frame t f = Inr (t', y)" "codec_ok t'" "arr 160 y" "s_packing t' = s_packing t"
    "s_LARpp t' = (s_LARpp t)[s_j t := decode_log_area_ratios (LARc f)]" "s_j t' = s_j t XOR 1" "s_dp0 t' = D"
    using decode_a_frame_ok [OF assms(2) E(3)] D(1) by (auto elim!: returnsE)
  have "follows t' s'" using assms(3) D(2) E(5,6) T(5-7) by (simp add: follows_def)
  then show ?thesis using E T D by auto
qed

text \<open>
  C3. The decoder simulates the encoder's local decoder. A decoder follows an encoder if the last 120
  samples of their reconstructed residuals, and their sets of log area ratios, agree; freshly initialised ones do.
  If a decoder follows an encoder, then, after the encoder has coded any frame and the decoder has decoded
  it, the residual that the decoder has put into its synthesis filter is, sample by sample, the one the
  encoder predicts from, and it still follows: the two predictions never drift apart.
\<close>

theorem decoder_follows_encoder:
  assumes "codec_ok s" "codec_ok t" "follows t s" "arr 160 amp"
  shows "\<exists>s' f t' y. encode_a_frame s amp = Inr (s', f) \<and> decode_a_frame t f = Inr (t', y) \<and>
    codec_ok s' \<and> codec_ok t' \<and> follows t' s' \<and>
    (\<exists>nrp D. decode_subs [0, 1, 2, 3] f (s_nrp t) (s_dp0 t) = Inr ((nrp, D), drop 120 (s_dp0 s')))"
  using frame_step [OF assms] by blast

theorem decoder_follows_encoder_witness:
  "\<exists>s' f t' y. encode_a_frame (gsm0610_init 1) (replicate 160 1000) = Inr (s', f) \<and>
    decode_a_frame (gsm0610_init 1) f = Inr (t', y) \<and> follows t' s'"
  using decoder_follows_encoder [OF codec_ok_init codec_ok_init follows_init, of "replicate 160 1000" 1 1]
  by (fastforce simp: arr_def list_all_iff is16_def)

section \<open>Streams of blocks\<close>

text \<open>
  The loops of encoder and decoder over a buffer, for any packing: the block functions \<open>encb\<close> and \<open>decb\<close>, what
  one round of each loop does, what the loops do with a buffer shorter than a block, and a
  relation between decoder and encoder that every block keeps.
\<close>

locale block_stream = frame_packing pack unpack block ok
  for pack :: "'f \<Rightarrow> int list" and unpack :: "int list \<Rightarrow> 'f" and block :: nat and ok :: "'f \<Rightarrow> bool" +
  fixes size :: nat
    and encb :: "'s \<Rightarrow> int list \<Rightarrow> ('s \<times> 'f) res" and decb :: "'s \<Rightarrow> 'f \<Rightarrow> ('s \<times> int list) res"
    and encs :: "'s \<Rightarrow> int list \<Rightarrow> int \<Rightarrow> ('s \<times> int list) res" and decs :: "'s \<Rightarrow> int list \<Rightarrow> int \<Rightarrow> ('s \<times> int list) res"
    and sim :: "'s \<Rightarrow> 's \<Rightarrow> bool"
  assumes size_pos: "0 < size"
    and encs_stop: "encs s amp 0 = Inr (s, [])" and decs_stop: "decs t code 0 = Inr (t, [])"
    and encs_step: "0 < n \<Longrightarrow> sim t s \<Longrightarrow> arr size a \<Longrightarrow> encb s a = Inr (s', f) \<Longrightarrow>
      encs s (a @ amp) n = rbind (encs s' amp (n - int size)) (\<lambda>(s'', code). Inr (s'', pack f @ code))"
    and decs_step: "0 < n \<Longrightarrow> sim t s \<Longrightarrow> length c = block \<Longrightarrow> decb t (unpack c) = Inr (t', y) \<Longrightarrow>
      decs t (c @ code) n = rbind (decs t' code (n - int block)) (\<lambda>(t'', z). Inr (t'', y @ z))"
    and encs_short: "0 < n \<Longrightarrow> sim t s \<Longrightarrow> arr k amp \<Longrightarrow> k < size \<Longrightarrow> encs s amp n = Inl OutOfBounds"
    and block_step: "sim t s \<Longrightarrow> arr size a \<Longrightarrow> \<exists>s' f t' y. encb s a = Inr (s', f) \<and> ok f \<and> decb t f = Inr (t', y) \<and>
      sim t' s' \<and> arr size y"
begin

lemma stream:
  assumes "sim t s" "arr (size * n) amp"
  shows "\<exists>s' code t' y. encs s amp (int (size * n)) = Inr (s', code) \<and> length code = block * n \<and>
    decs t code (int (block * n)) = Inr (t', y) \<and> arr (size * n) y \<and> sim t' s'"
  using assms
proof (induction n arbitrary: s t amp)
  case 0
  then show ?case by (simp add: encs_stop decs_stop)
next
  case (Suc n)
  define a r where "a = take size amp" and "r = drop size amp"
  have a: "arr size a" "arr (size * n) r" "amp = a @ r"
    using arr_take [OF Suc.prems(2), of size] arr_drop [OF Suc.prems(2), of size] by (simp_all add: a_def r_def)
  obtain s1 f t1 y where B: "encb s a = Inr (s1, f)" "ok f" "decb t f = Inr (t1, y)" "sim t1 s1" "arr size y"
    using block_step [OF Suc.prems(1) a(1)] by blast
  obtain s' code t' z where R: "encs s1 r (int (size * n)) = Inr (s', code)" "length code = block * n"
    "decs t1 code (int (block * n)) = Inr (t', z)" "arr (size * n) z" "sim t' s'"
    using Suc.IH [OF B(4) a(2)] by blast
  have n: "int (size * Suc n) - int size = int (size * n)" "int (block * Suc n) - int block = int (block * n)"
    by (simp_all add: algebra_simps)
  have p: "0 < int (size * Suc n)" "0 < int (block * Suc n)"
    using size_pos block_pos by (simp_all only: of_nat_0_less_iff) simp_all
  have "encs s amp (int (size * Suc n)) = Inr (s', pack f @ code)"
    unfolding a(3) using encs_step [OF p(1) Suc.prems(1) a(1) B(1), of r] R(1) unfolding n by simp
  moreover have "decs t (pack f @ code) (int (block * Suc n)) = Inr (t', y @ z)"
    using decs_step [OF p(2) Suc.prems(1) length_pack [OF B(2)], of t1 y code] B(3) R(3) unfolding n unpack_pack [OF B(2)] by simp
  moreover have "arr (size * Suc n) (y @ z)" using arr_append [OF B(5) R(4)] by simp
  ultimately show ?case using R(2,5) length_pack [OF B(2)] by auto
qed

lemma stream_short:
  assumes "sim t s" "arr (size * n + k) amp" "0 < k" "k < size"
  shows "encs s amp (int (size * n + k)) = Inl OutOfBounds"
  using assms(1,2)
proof (induction n arbitrary: s t amp)
  case 0
  then show ?case using assms(3,4) encs_short [of "int k" t s k amp] by simp
next
  case (Suc n)
  define a r where "a = take size amp" and "r = drop size amp"
  have a: "arr size a" "arr (size * n + k) r" "amp = a @ r"
    using arr_take [OF Suc.prems(2), of size] arr_drop [OF Suc.prems(2), of size] by (simp_all add: a_def r_def)
  obtain s1 f t1 y where B: "encb s a = Inr (s1, f)" "ok f" "decb t f = Inr (t1, y)" "sim t1 s1" "arr size y"
    using block_step [OF Suc.prems(1) a(1)] by blast
  have n: "int (size * Suc n + k) - int size = int (size * n + k)" by (simp add: algebra_simps)
  have p: "0 < int (size * Suc n + k)" using assms(3) by (simp only: of_nat_0_less_iff)
  show ?case
    unfolding a(3) using encs_step [OF p Suc.prems(1) a(1) B(1), of r] Suc.IH [OF B(4) a(2)] unfolding n by simp
qed

end

text \<open>A decoder with a masked packing decodes every stream of whole blocks.\<close>

locale block_decoder = masked_packing pack unpack block ok
  for pack :: "'f \<Rightarrow> int list" and unpack :: "int list \<Rightarrow> 'f" and block :: nat and ok :: "'f \<Rightarrow> bool" +
  fixes size :: nat and decb :: "'s \<Rightarrow> 'f \<Rightarrow> ('s \<times> int list) res"
    and decs :: "'s \<Rightarrow> int list \<Rightarrow> int \<Rightarrow> ('s \<times> int list) res" and inv :: "'s \<Rightarrow> bool" and good :: "int \<Rightarrow> bool"
  assumes stop: "decs t code 0 = Inr (t, [])"
    and step: "0 < n \<Longrightarrow> inv t \<Longrightarrow> length c = block \<Longrightarrow> decb t (unpack c) = Inr (t', y) \<Longrightarrow>
      decs t (c @ code) n = rbind (decs t' code (n - int block)) (\<lambda>(t'', z). Inr (t'', y @ z))"
    and decb_ok: "inv t \<Longrightarrow> ok f \<Longrightarrow> \<exists>t' y. decb t f = Inr (t', y) \<and> inv t' \<and> arr size y \<and> list_all good y"
begin

lemma any_stream:
  assumes "inv t" "length code = block * n"
  shows "\<exists>t' y. decs t code (int (block * n)) = Inr (t', y) \<and> inv t' \<and> arr (size * n) y \<and> list_all good y"
  using assms
proof (induction n arbitrary: t code)
  case 0
  then show ?case by (simp add: stop)
next
  case (Suc n)
  define c r where "c = take block code" and "r = drop block code"
  have c: "length c = block" "length r = block * n" "code = c @ r" using Suc.prems(2) by (simp_all add: c_def r_def)
  obtain t1 y where B: "decb t (unpack c) = Inr (t1, y)" "inv t1" "arr size y" "list_all good y"
    using decb_ok [OF Suc.prems(1) unpack_ok] by blast
  obtain t' z where R: "decs t1 r (int (block * n)) = Inr (t', z)" "inv t'" "arr (size * n) z" "list_all good z"
    using Suc.IH [OF B(2) c(2)] by blast
  have n: "int (block * Suc n) - int block = int (block * n)" by (simp add: algebra_simps)
  have p: "0 < int (block * Suc n)" using block_pos by (simp only: of_nat_0_less_iff) simp
  have "decs t code (int (block * Suc n)) = Inr (t', y @ z)"
    unfolding c(3) using step [OF p Suc.prems(1) c(1) B(1), of r] R(1) unfolding n by simp
  then show ?case using arr_append [OF B(3) R(3)] R(2,4) B(4) by simp
qed

end


section \<open>The three packings\<close>

definition sim :: "(int \<Rightarrow> bool) \<Rightarrow> gsm0610_state_t \<Rightarrow> gsm0610_state_t \<Rightarrow> bool" where
  "sim P t s \<longleftrightarrow> codec_ok t \<and> codec_ok s \<and> follows t s \<and> P (s_packing t) \<and> P (s_packing s)"

abbreviation is_voip :: "int \<Rightarrow> bool" where "is_voip p \<equiv> p = GSM0610_PACKING_VOIP"
abbreviation is_wav49 :: "int \<Rightarrow> bool" where "is_wav49 p \<equiv> p = GSM0610_PACKING_WAV49"
abbreviation is_none :: "int \<Rightarrow> bool" where "is_none p \<equiv> \<not> is_voip p \<and> \<not> is_wav49 p"

lemma packing_distinct [simp]: "GSM0610_PACKING_VOIP \<noteq> GSM0610_PACKING_WAV49" "GSM0610_PACKING_WAV49 \<noteq> GSM0610_PACKING_VOIP"
  by (simp_all add: GSM0610_PACKING_VOIP_def GSM0610_PACKING_WAV49_def)

text \<open>One round of the loop with WAV49: two frames.\<close>

definition encode_pair :: "gsm0610_state_t \<Rightarrow> int list \<Rightarrow> (gsm0610_state_t \<times> gsm0610_frame_t \<times> gsm0610_frame_t) res" where
  "encode_pair s amp = rbind (encode_a_frame s (take 160 amp)) (\<lambda>(s1, f).
     rbind (encode_a_frame s1 (drop 160 amp)) (\<lambda>(s2, g). Inr (s2, f, g)))"

definition decode_pair :: "gsm0610_state_t \<Rightarrow> gsm0610_frame_t \<times> gsm0610_frame_t \<Rightarrow> (gsm0610_state_t \<times> int list) res" where
  "decode_pair t p = rbind (decode_a_frame t (fst p)) (\<lambda>(t1, y).
     rbind (decode_a_frame t1 (snd p)) (\<lambda>(t2, z). Inr (t2, y @ z)))"

lemma sim_step:
  assumes "sim P t s" "arr 160 a"
  shows "\<exists>s' f t' y. encode_a_frame s a = Inr (s', f) \<and> frame_ok f \<and> decode_a_frame t f = Inr (t', y) \<and> sim P t' s' \<and> arr 160 y"
  using assms frame_step [of s t a] unfolding sim_def by metis

lemma sim_encode: "sim P t s \<Longrightarrow> arr 160 a \<Longrightarrow> encode_a_frame s a = Inr (s', f) \<Longrightarrow> P (s_packing s')"
  using sim_step [of P t s a] by (auto simp: sim_def)

lemma sim_pair_step:
  assumes "sim P t s" "arr 320 a"
  shows "\<exists>s' p t' y. encode_pair s a = Inr (s', p) \<and> (case p of (f, g) \<Rightarrow> frame_ok f \<and> frame_ok g) \<and>
    decode_pair t p = Inr (t', y) \<and> sim P t' s' \<and> arr 320 y"
proof -
  have a: "arr 160 (take 160 a)" "arr 160 (drop 160 a)" using arr_take [OF assms(2), of 160] arr_drop [OF assms(2), of 160] by simp_all
  obtain s1 f t1 y where 1: "encode_a_frame s (take 160 a) = Inr (s1, f)" "frame_ok f" "decode_a_frame t f = Inr (t1, y)"
    "sim P t1 s1" "arr 160 y" using sim_step [OF assms(1) a(1)] by blast
  obtain s2 g t2 z where 2: "encode_a_frame s1 (drop 160 a) = Inr (s2, g)" "frame_ok g" "decode_a_frame t1 g = Inr (t2, z)"
    "sim P t2 s2" "arr 160 z" using sim_step [OF 1(4) a(2)] by blast
  have "arr 320 (y @ z)" using arr_append [OF 1(5) 2(5)] by simp
  then show ?thesis using 1 2 by (simp add: encode_pair_def decode_pair_def)
qed

lemma next_frame_append [simp]: "length a = n \<Longrightarrow> next_frame n (a @ r) = Inr a"
  by (simp add: next_frame_def)

lemma next_frame_short: "length a < n \<Longrightarrow> next_frame n a = Inl OutOfBounds"
  by (simp add: next_frame_def)

interpretation voip_stream: block_stream gsm0610_pack_voip gsm0610_unpack_voip 33 frame_ok 160
  encode_a_frame decode_a_frame gsm0610_encode gsm0610_decode "sim is_voip"
proof (unfold_locales, goal_cases)
  case (4 n t s a s' f amp)
  then show ?case
    using sim_encode [of is_voip t s a] arr_length [OF 4(3)] by (subst gsm0610_encode.simps) (simp add: GSM0610_FRAME_LEN_def)
next
  case (5 n t s c t' y code)
  then show ?case by (subst gsm0610_decode.simps) (simp add: sim_def)
next
  case (6 n t s k amp)
  then show ?case
    by (subst gsm0610_encode.simps) (simp add: GSM0610_FRAME_LEN_def next_frame_short arr_length)
next
  case (7 t s a)
  then show ?case by (rule sim_step)
qed (simp_all add: gsm0610_encode.simps gsm0610_decode.simps)

interpretation none_stream: block_stream gsm0610_pack_none gsm0610_unpack_none 76 frame_ok 160
  encode_a_frame decode_a_frame gsm0610_encode gsm0610_decode "sim is_none"
proof (unfold_locales, goal_cases)
  case (4 n t s a s' f amp)
  then show ?case
    using sim_encode [of is_none t s a] arr_length [OF 4(3)] by (subst gsm0610_encode.simps) (simp add: GSM0610_FRAME_LEN_def)
next
  case (5 n t s c t' y code)
  then show ?case by (subst gsm0610_decode.simps) (simp add: sim_def)
next
  case (6 n t s k amp)
  then show ?case
    by (subst gsm0610_encode.simps) (simp add: GSM0610_FRAME_LEN_def next_frame_short arr_length)
next
  case (7 t s a)
  then show ?case by (rule sim_step)
qed (simp_all add: gsm0610_encode.simps gsm0610_decode.simps)

lemma wav49_encode_step:
  assumes "0 < n" "sim is_wav49 t s" "arr 320 a" "encode_pair s a = Inr (s', p)"
  shows "gsm0610_encode s (a @ amp) n =
    rbind (gsm0610_encode s' amp (n - 320)) (\<lambda>(s'', code). Inr (s'', (case p of (f, g) \<Rightarrow> gsm0610_pack_wav49 f g) @ code))"
proof -
  have a: "arr 160 (take 160 a)" "length a = 320" using arr_take [OF assms(3), of 160] arr_length [OF assms(3)] by simp_all
  obtain s1 f g where E: "encode_a_frame s (take 160 a) = Inr (s1, f)" "encode_a_frame s1 (drop 160 a) = Inr (s', g)" "p = (f, g)"
    using assms(4) by (auto simp: encode_pair_def rbind_eq_Inr_iff)
  have 1: "take 160 (a @ amp) = take 160 a" "drop 160 (a @ amp) = drop 160 a @ amp" "length (drop 160 a) = 160" "drop 320 (a @ amp) = amp"
    using a(2) by simp_all
  have 2: "next_frame 160 (a @ amp) = Inr (take 160 a)" "next_frame 160 (drop 160 a @ amp) = Inr (drop 160 a)"
    using a(2) by (simp_all add: next_frame_def)
  show ?thesis
    by (subst gsm0610_encode.simps)
      (use assms(1) sim_encode [OF assms(2) a(1) E(1)] E 1 2 in \<open>simp add: GSM0610_FRAME_LEN_def\<close>)
qed

lemma wav49_encode_short:
  assumes "0 < n" "sim is_wav49 t s" "arr k amp" "k < 320"
  shows "gsm0610_encode s amp n = Inl OutOfBounds"
proof (cases "k < 160")
  case True
  then show ?thesis using assms(1,3) by (subst gsm0610_encode.simps) (simp add: GSM0610_FRAME_LEN_def next_frame_short arr_length)
next
  case False
  then have a: "arr 160 (take 160 amp)" "next_frame 160 amp = Inr (take 160 amp)"
    using arr_take [OF assms(3), of 160] assms(3) by (simp_all add: next_frame_def arr_length)
  obtain s1 f where E: "encode_a_frame s (take 160 amp) = Inr (s1, f)" using sim_step [OF assms(2) a(1)] by blast
  have "next_frame 160 (drop 160 amp) = Inl OutOfBounds" using assms(3,4) by (simp add: next_frame_short arr_length)
  then show ?thesis
    by (subst gsm0610_encode.simps) (use assms(1) sim_encode [OF assms(2) a(1) E] E a(2) in \<open>simp add: GSM0610_FRAME_LEN_def\<close>)
qed

lemma wav49_decode_step:
  assumes "0 < n" "is_wav49 (s_packing t)" "length c = 65" "decode_pair t (gsm0610_unpack_wav49 c) = Inr (t', y)"
  shows "gsm0610_decode t (c @ code) n = rbind (gsm0610_decode t' code (n - 65)) (\<lambda>(t'', z). Inr (t'', y @ z))"
proof -
  obtain f g t1 y1 y2 where E: "gsm0610_unpack_wav49 c = (f, g)" "decode_a_frame t f = Inr (t1, y1)"
    "decode_a_frame t1 g = Inr (t', y2)" "y = y1 @ y2"
    using assms(4) by (cases "gsm0610_unpack_wav49 c") (auto simp: decode_pair_def rbind_eq_Inr_iff)
  show ?thesis by (subst gsm0610_decode.simps) (use assms(1-3) E in simp)
qed

interpretation wav49_stream: block_stream "\<lambda>(f, g). gsm0610_pack_wav49 f g" gsm0610_unpack_wav49 65
  "\<lambda>(f, g). frame_ok f \<and> frame_ok g" 320 encode_pair decode_pair gsm0610_encode gsm0610_decode "sim is_wav49"
proof (unfold_locales, goal_cases)
  case (4 n t s a s' f amp)
  then show ?case using wav49_encode_step [of n t s a s' f amp] by simp
next
  case (5 n t s c t' y code)
  then show ?case using wav49_decode_step [of n t c t' y code] by (simp add: sim_def)
next
  case (6 n t s k amp)
  then show ?case by (rule wav49_encode_short)
next
  case (7 t s a)
  then show ?case by (rule sim_pair_step)
qed (simp_all add: gsm0610_encode.simps gsm0610_decode.simps)

section \<open>Whole streams\<close>

text \<open>Bytes and samples of a block, by packing.\<close>

definition block_bytes :: "int \<Rightarrow> nat" where
  "block_bytes p = (if p = GSM0610_PACKING_WAV49 then 65 else if p = GSM0610_PACKING_VOIP then 33 else 76)"

definition block_samples :: "int \<Rightarrow> nat" where
  "block_samples p = (if p = GSM0610_PACKING_WAV49 then 320 else 160)"

lemma sim_mono: "sim P t s \<Longrightarrow> codec_ok t \<and> codec_ok s \<and> follows t s"
  by (simp add: sim_def)

text \<open>
  C5. Encoding and decoding a stream, in every packing: with a buffer of \<open>n\<close> whole blocks the encoder
  returns exactly \<open>n\<close> blocks of 76, 33 or 65 bytes, and a decoder that follows it, with the same
  packing, accepts them, returns as many samples of 16 bits as were put in, and still
  follows the encoder, so that the next call continues the stream.
\<close>

theorem stream_encode_decode:
  assumes "codec_ok s" "codec_ok t" "follows t s" "s_packing t = p" "s_packing s = p" "arr (block_samples p * n) amp"
  shows "\<exists>s' code t' y. gsm0610_encode s amp (int (block_samples p * n)) = Inr (s', code) \<and> length code = block_bytes p * n \<and>
    gsm0610_decode t code (int (block_bytes p * n)) = Inr (t', y) \<and> arr (block_samples p * n) y \<and>
    codec_ok s' \<and> codec_ok t' \<and> follows t' s'"
proof -
  consider "is_wav49 p" | "is_voip p" | "is_none p" by blast
  then show ?thesis
  proof cases
    case 1
    then have b: "block_samples p = 320" "block_bytes p = 65" by (simp_all add: block_samples_def block_bytes_def)
    have "sim is_wav49 t s" "arr (320 * n) amp" using 1 assms b by (simp_all add: sim_def)
    from wav49_stream.stream [OF this] show ?thesis unfolding b by (blast dest: sim_mono)
  next
    case 2
    then have b: "block_samples p = 160" "block_bytes p = 33" by (simp_all add: block_samples_def block_bytes_def)
    have "sim is_voip t s" "arr (160 * n) amp" using 2 assms b by (simp_all add: sim_def)
    from voip_stream.stream [OF this] show ?thesis unfolding b by (blast dest: sim_mono)
  next
    case 3
    then have b: "block_samples p = 160" "block_bytes p = 76" by (simp_all add: block_samples_def block_bytes_def)
    have "sim is_none t s" "arr (160 * n) amp" using 3 assms b by (simp_all add: sim_def)
    from none_stream.stream [OF this] show ?thesis unfolding b by (blast dest: sim_mono)
  qed
qed

theorem stream_encode_decode_witness:
  "\<exists>s' code t' y. gsm0610_encode (gsm0610_init 1) (replicate 640 5) 640 = Inr (s', code) \<and> length code = 130 \<and>
    gsm0610_decode (gsm0610_init 1) code 130 = Inr (t', y) \<and> arr 640 y \<and> codec_ok s' \<and> codec_ok t' \<and> follows t' s'"
  using stream_encode_decode [of "gsm0610_init 1" "gsm0610_init 1" 1 2 "replicate 640 5"]
  by (simp add: codec_ok_init follows_init block_samples_def block_bytes_def GSM0610_PACKING_WAV49_def arr_def list_all_iff is16_def)

text \<open>
  The encoder takes whole blocks only: if the length it is given is that of the buffer but not a multiple
  of the block, it reads past the end of the caller's samples.
\<close>

lemma encode_partial_block_overreads:
  assumes "codec_ok s" "arr k amp" "k mod block_samples (s_packing s) \<noteq> 0"
  shows "gsm0610_encode s amp (int k) = Inl OutOfBounds"
proof -
  define t p m where "t = s" and "p = s_packing s" and "m = block_samples p"
  have k: "k = m * (k div m) + k mod m" "0 < k mod m" "k mod m < m"
    using assms(3) by (simp_all add: m_def p_def block_samples_def)
  have f: "follows s s" by (simp add: follows_def)
  consider "is_wav49 p" | "is_voip p" | "is_none p" by blast
  then show ?thesis
  proof cases
    case 1
    then have "m = 320" by (simp add: m_def block_samples_def)
    then show ?thesis using wav49_stream.stream_short [of s s "k div m" "k mod m" amp] 1 k f assms(1,2) by (simp add: sim_def p_def)
  next
    case 2
    then have "m = 160" by (simp add: m_def block_samples_def)
    then show ?thesis using voip_stream.stream_short [of s s "k div m" "k mod m" amp] 2 k f assms(1,2) by (simp add: sim_def p_def)
  next
    case 3
    then have "m = 160" by (simp add: m_def block_samples_def)
    then show ?thesis using none_stream.stream_short [of s s "k div m" "k mod m" amp] 3 k f assms(1,2) by (simp add: sim_def p_def)
  qed
qed

lemma encode_partial_block_overreads_witness:
  "gsm0610_encode (gsm0610_init 2) (replicate 200 0) 200 = Inl OutOfBounds"
  using encode_partial_block_overreads [OF codec_ok_init arr_replicate, of 200 2]
  by (simp add: block_samples_def)

section \<open>Streams from anywhere\<close>

definition dec_inv :: "(int \<Rightarrow> bool) \<Rightarrow> gsm0610_state_t \<Rightarrow> bool" where
  "dec_inv P t \<longleftrightarrow> codec_ok t \<and> P (s_packing t)"

lemma dec_inv_step:
  assumes "dec_inv P t" "frame_ok f"
  shows "\<exists>t' y. decode_a_frame t f = Inr (t', y) \<and> dec_inv P t' \<and> arr 160 y \<and> list_all (\<lambda>x. x mod 8 = 0) y"
  using decode_a_frame_ok [of t f] assms by (auto simp: dec_inv_def elim!: returnsE)

lemma dec_inv_pair:
  assumes "dec_inv P t" "case p of (f, g) \<Rightarrow> frame_ok f \<and> frame_ok g"
  shows "\<exists>t' y. decode_pair t p = Inr (t', y) \<and> dec_inv P t' \<and> arr 320 y \<and> list_all (\<lambda>x. x mod 8 = 0) y"
proof -
  have p: "frame_ok (fst p)" "frame_ok (snd p)" using assms(2) by (simp_all add: split_beta)
  obtain t1 y where 1: "decode_a_frame t (fst p) = Inr (t1, y)" "dec_inv P t1" "arr 160 y" "list_all (\<lambda>x. x mod 8 = 0) y"
    using dec_inv_step [OF assms(1) p(1)] by blast
  obtain t2 z where 2: "decode_a_frame t1 (snd p) = Inr (t2, z)" "dec_inv P t2" "arr 160 z" "list_all (\<lambda>x. x mod 8 = 0) z"
    using dec_inv_step [OF 1(2) p(2)] by blast
  have "arr 320 (y @ z)" using arr_append [OF 1(3) 2(3)] by simp
  then show ?thesis using 1 2 by (simp add: decode_pair_def)
qed

interpretation voip_decoder: block_decoder gsm0610_pack_voip gsm0610_unpack_voip 33 frame_ok 160
  decode_a_frame gsm0610_decode "dec_inv is_voip" "\<lambda>x. x mod 8 = 0"
proof (unfold_locales, goal_cases)
  case (2 n t c t' y code)
  then show ?case by (subst gsm0610_decode.simps) (simp add: dec_inv_def)
next
  case (3 t f)
  then show ?case by (rule dec_inv_step)
qed (simp add: gsm0610_decode.simps)

interpretation wav49_decoder: block_decoder "\<lambda>(f, g). gsm0610_pack_wav49 f g" gsm0610_unpack_wav49 65
  "\<lambda>(f, g). frame_ok f \<and> frame_ok g" 320 decode_pair gsm0610_decode "dec_inv is_wav49" "\<lambda>x. x mod 8 = 0"
proof (unfold_locales, goal_cases)
  case (2 n t c t' y code)
  then show ?case using wav49_decode_step [of n t c t' y code] by (simp add: dec_inv_def)
next
  case (3 t f)
  then show ?case by (rule dec_inv_pair)
qed (simp add: gsm0610_decode.simps)

text \<open>
  C7. With the VoIP and the WAV49 packing the decoder is safe against its input: whatever bytes arrive, damaged
  or malicious, as many whole blocks as the length says decode without a fault into 160 samples a frame, each
  a 16-bit multiple of eight, and the decoder stays well-formed.
\<close>

theorem decode_any_bytes:
  assumes "codec_ok t" "s_packing t = p" "p = GSM0610_PACKING_VOIP \<or> p = GSM0610_PACKING_WAV49" "length code = block_bytes p * n"
  shows "\<exists>t' y. gsm0610_decode t code (int (block_bytes p * n)) = Inr (t', y) \<and> codec_ok t' \<and> s_packing t' = p \<and>
    arr (block_samples p * n) y \<and> list_all (\<lambda>x. x mod 8 = 0) y"
  using assms(3)
proof
  assume p: "is_voip p"
  then have b: "block_samples p = 160" "block_bytes p = 33" by (simp_all add: block_samples_def block_bytes_def)
  show ?thesis using voip_decoder.any_stream [of t code n] assms(1,2,4) p unfolding b by (auto simp: dec_inv_def)
next
  assume p: "is_wav49 p"
  then have b: "block_samples p = 320" "block_bytes p = 65" by (simp_all add: block_samples_def block_bytes_def)
  show ?thesis using wav49_decoder.any_stream [of t code n] assms(1,2,4) p unfolding b by (auto simp: dec_inv_def)
qed

theorem decode_any_bytes_witness:
  "\<exists>t' y. gsm0610_decode (gsm0610_init 2) (replicate 66 255) 66 = Inr (t', y) \<and> codec_ok t' \<and> arr 320 y"
  using decode_any_bytes [OF codec_ok_init, of 2 2 "replicate 66 255" 2]
  by (auto simp: GSM0610_PACKING_VOIP_def GSM0610_PACKING_WAV49_def block_samples_def block_bytes_def)

text \<open>
  With one byte per parameter it is not: the unpacker does not mask what it reads, so that a
  gain code above three makes the long-term filter read outside its table of gains.
\<close>

lemma unpacked_gain_out_of_bounds:
  assumes "codec_ok t" "s_packing t = GSM0610_PACKING_NONE" "76 \<le> length code" "\<forall>c\<in>set code. 0 \<le> c"
    "code ! 10 \<le> 3" "code ! 11 \<le> 63" "\<forall>k<13. code ! (12 + k) \<le> 7" "3 < code ! 9" "0 < n"
  shows "gsm0610_decode t code n = Inl OutOfBounds"
proof -
  define f where "f = gsm0610_unpack_none (take 76 code)"
  have n: "0 \<le> code ! i" if "i < 76" for i using that assms(3,4) by simp
  have f: "Nc f ! 0 = code ! 8" "bc f ! 0 = code ! 9" "Mc f ! 0 = code ! 10" "xmaxc f ! 0 = code ! 11"
    "xMc f ! 0 = map (\<lambda>k. code ! (12 + k)) [0..<13]"
    using assms(3) by (simp_all add: f_def gsm0610_unpack_none_def)
  have "list_all (\<lambda>x. 0 \<le> x \<and> x \<le> 7) (map (\<lambda>k. code ! (12 + k)) [0..<13])" using assms(7) n by (simp add: list_all_length)
  from rpe_decoding_ok [OF n assms(6) n assms(5) _ this] obtain erp
    where e: "gsm0610_rpe_decoding (xmaxc f ! 0) (Mc f ! 0) (xMc f ! 0) = Inr erp" unfolding f by auto
  have "gsm0610_long_term_synthesis_filtering (s_nrp t) (Nc f ! 0) (bc f ! 0) erp (s_dp0 t) = Inl OutOfBounds"
    using assms(1,8) unfolding f(2)
    by (auto simp: gsm0610_long_term_synthesis_filtering_def Let_def codec_ok_def aget_def gsm_QLB_def)
  with e have "decode_a_frame t f = Inl OutOfBounds" by (simp add: decode_a_frame_def)
  then show ?thesis using assms(2,3,9)
    by (subst gsm0610_decode.simps)
      (simp add: f_def next_frame_def GSM0610_PACKING_NONE_def GSM0610_PACKING_VOIP_def GSM0610_PACKING_WAV49_def)
qed

lemma unpacked_gain_out_of_bounds_witness:
  "gsm0610_decode (gsm0610_init 0) (replicate 9 0 @ [4] @ replicate 66 0) 76 = Inl OutOfBounds"
  using unpacked_gain_out_of_bounds [OF codec_ok_init, of 0 "replicate 9 0 @ [4] @ replicate 66 0" 76]
  by (simp add: GSM0610_PACKING_NONE_def nth_append nth_Cons' ball_Un)

end
