(* ===== verification/Gsm_Jni.thy ===== *)
theory Gsm_Jni
  imports Gsm_Stream
begin

text \<open>
  The native methods of the Java class \<open>org.sipdroid.codecs.GSM\<close>, \<^verbatim>\<open>src/jni/gsm_jni.cpp\<close>: one encoder and
  one decoder behind an open count, and buffers of \<open>BLOCK_LEN\<close> elements on the stack. The virtual
  machine is a parameter: \<open>region start n\<close> is what \<open>Get\<dots>ArrayRegion\<close> copies, or \<open>None\<close> if it throws, in which
  case nothing is copied. A method returns its result and the regions it writes with
  \<open>Set\<dots>ArrayRegion\<close>, as pairs of a start and the elements.
\<close>

definition BLOCK_LEN :: nat where "BLOCK_LEN = 160"
definition RTP_HDR_SIZE :: int where "RTP_HDR_SIZE = 12"

record gsm_jni =
  codec_open :: int
  gsm0610_enc_state :: "gsm0610_state_t option"
  gsm0610_dec_state :: "gsm0610_state_t option"

definition gsm_jni_start :: gsm_jni where
  "gsm_jni_start = \<lparr>codec_open = 0, gsm0610_enc_state = None, gsm0610_dec_state = None\<rparr>"

section \<open>Methods\<close>

text \<open>\<open>GSM_open\<close>: the two flags say whether the allocations succeed; \<open>Inl 2\<close> is \<open>exit(2)\<close>.\<close>

definition GSM_open :: "bool \<Rightarrow> bool \<Rightarrow> gsm_jni \<Rightarrow> int + (gsm_jni \<times> int)" where
  "GSM_open enc_alloc dec_alloc g =
     (let g1 = g\<lparr>codec_open := codec_open g + 1\<rparr> in
      if codec_open g \<noteq> 0 then Inr (g1, 0)
      else if \<not> enc_alloc then Inl 2
      else if \<not> dec_alloc then Inl 2
      else Inr (g1\<lparr>gsm0610_enc_state := Some (gsm0610_init GSM0610_PACKING_VOIP),
                   gsm0610_dec_state := Some (gsm0610_init GSM0610_PACKING_VOIP)\<rparr>, 0))"

text \<open>
  The loop of \<open>GSM_encode\<close> from \<open>i\<close> on; \<open>pre_amp\<close> is \<open>None\<close> as long as it has not been written. The
  length passed to the encoder is \<open>size\<close>, not the block length.
\<close>

function GSM_encode_loop ::
  "(int \<Rightarrow> int \<Rightarrow> int list option) \<Rightarrow> int \<Rightarrow> int \<Rightarrow> int \<Rightarrow> int list option \<Rightarrow> gsm0610_state_t \<Rightarrow> int \<Rightarrow> (int \<times> int list) list
    \<Rightarrow> (gsm0610_state_t \<times> int \<times> (int \<times> int list) list) res" where
  "GSM_encode_loop region offset sz i pre_amp s lin_pos written =
     (if \<not> i < sz then Inr (s, lin_pos, written)
      else let pre_amp = (case region (offset + i) (int BLOCK_LEN) of None \<Rightarrow> pre_amp | Some a \<Rightarrow> Some a) in
      case pre_amp of
        None \<Rightarrow> Inl Uninitialised
      | Some a \<Rightarrow> rbind (gsm0610_encode s a sz) (\<lambda>(s, code).
          if BLOCK_LEN < length code then Inl OutOfBounds
          else GSM_encode_loop region offset sz (i + int BLOCK_LEN) pre_amp s (lin_pos + int (length code))
                 (written @ [(RTP_HDR_SIZE + lin_pos, code)])))"
  by pat_completeness auto
termination
  by (relation "measure (\<lambda>(region, offset, sz, i, pre_amp, s, lin_pos, written). nat (sz - i))") (auto simp: BLOCK_LEN_def)

declare GSM_encode_loop.simps [simp del]

definition GSM_encode :: "(int \<Rightarrow> int \<Rightarrow> int list option) \<Rightarrow> int \<Rightarrow> int \<Rightarrow> gsm_jni \<Rightarrow> (gsm_jni \<times> int \<times> (int \<times> int list) list) res" where
  "GSM_encode region offset sz g =
     (if codec_open g = 0 then Inr (g, 0, [])
      else if \<not> 0 < sz then Inr (g, 0, [])
      else case gsm0610_enc_state g of
        None \<Rightarrow> Inl NullDeref
      | Some s \<Rightarrow> rbind (GSM_encode_loop region offset sz 0 None s 0 []) (\<lambda>(s, lin_pos, written).
          Inr (g\<lparr>gsm0610_enc_state := Some s\<rparr>, lin_pos, written)))"

text \<open>
  \<open>GSM_decode\<close>: the bytes of the array are signed; a region longer than the buffer of \<open>BLOCK_LEN\<close> bytes, and samples
  beyond the buffer of \<open>BLOCK_LEN\<close> samples, are written out of bounds. What was not copied is not read.
\<close>

definition GSM_decode :: "(int \<Rightarrow> int \<Rightarrow> int list option) \<Rightarrow> int \<Rightarrow> gsm_jni \<Rightarrow> (gsm_jni \<times> int \<times> (int \<times> int list) list) res" where
  "GSM_decode region sz g =
     (if codec_open g = 0 then Inr (g, 0, [])
      else rbind (case region RTP_HDR_SIZE sz of
                    None \<Rightarrow> Inr None
                  | Some c \<Rightarrow> if BLOCK_LEN < length c then Inl OutOfBounds else Inr (Some c)) (\<lambda>data.
      if \<not> 0 < sz then Inr (g, 0, [(0, [])])
      else case gsm0610_dec_state g of
        None \<Rightarrow> Inl NullDeref
      | Some t \<Rightarrow>
         (case data of
            None \<Rightarrow> Inl Uninitialised
          | Some c \<Rightarrow> rbind (gsm0610_decode t (map u8i c) sz) (\<lambda>(t, y).
              if BLOCK_LEN < length y then Inl OutOfBounds
              else Inr (g\<lparr>gsm0610_dec_state := Some t\<rparr>, int (length y), [(0, y)])))))"

definition GSM_close :: "gsm_jni \<Rightarrow> gsm_jni" where
  "GSM_close g = g\<lparr>codec_open := codec_open g - 1\<rparr>"

section \<open>One frame a packet\<close>

text \<open>An open codec: both ends initialised with the VoIP packing, and the decoder follows the encoder.\<close>

definition opened :: "gsm_jni \<Rightarrow> bool" where
  "opened g \<longleftrightarrow> codec_open g \<noteq> 0 \<and> (\<exists>s t. gsm0610_enc_state g = Some s \<and> gsm0610_dec_state g = Some t \<and> sim is_voip t s)"

lemma opened_start: "GSM_open True True gsm_jni_start = Inr (g, r) \<Longrightarrow> opened g"
  by (auto simp: GSM_open_def gsm_jni_start_def opened_def sim_def codec_ok_init follows_init)

lemma GSM_encode_frame:
  assumes "codec_open g \<noteq> 0" "gsm0610_enc_state g = Some s" "region offset 160 = Some amp" "gsm0610_encode s amp 160 = Inr (s', code)"
    "length code = 33"
  shows "GSM_encode region offset 160 g = Inr (g\<lparr>gsm0610_enc_state := Some s'\<rparr>, 33, [(12, code)])"
  using assms by (simp add: GSM_encode_def GSM_encode_loop.simps BLOCK_LEN_def RTP_HDR_SIZE_def)

text \<open>
  C27. One frame a packet, as a call uses the methods: with an open codec, encoding a block of 160 samples writes
  exactly 33 bytes behind the header of the packet, and decoding a packet with these bytes (signed in
  Java) returns 160 samples, without a fault, and leaves the codec ready for the next packet.
\<close>

theorem call_frame_round_trip:
  assumes "opened g" "region offset 160 = Some amp" "arr 160 amp"
  shows "\<exists>g1 code. GSM_encode region offset 160 g = Inr (g1, 33, [(12, code)]) \<and> length code = 33 \<and>
    (\<forall>region' c. region' 12 33 = Some c \<longrightarrow> map u8i c = code \<longrightarrow>
      (\<exists>g2 y. GSM_decode region' 33 g1 = Inr (g2, 160, [(0, y)]) \<and> arr 160 y \<and> opened g2))"
proof -
  obtain s t where g: "codec_open g \<noteq> 0" "gsm0610_enc_state g = Some s" "gsm0610_dec_state g = Some t" "sim is_voip t s"
    using assms(1) by (auto simp: opened_def)
  obtain s' code t' y where S: "gsm0610_encode s amp 160 = Inr (s', code)" "length code = 33"
    "gsm0610_decode t code 33 = Inr (t', y)" "arr 160 y" "sim is_voip t' s'"
    using voip_stream.stream [OF g(4), of 1 amp] assms(3) by auto
  define g1 where "g1 = g\<lparr>gsm0610_enc_state := Some s'\<rparr>"
  have "\<exists>g2 y. GSM_decode region' 33 g1 = Inr (g2, 160, [(0, y)]) \<and> arr 160 y \<and> opened g2"
    if r: "region' 12 33 = Some c" "map u8i c = code" for region' c
  proof -
    have "length c = 33" using r(2) S(2) by (metis length_map)
    then have "GSM_decode region' 33 g1 = Inr (g1\<lparr>gsm0610_dec_state := Some t'\<rparr>, 160, [(0, y)])"
      using g(1,3) r S(3) arr_length [OF S(4)] by (simp add: GSM_decode_def g1_def RTP_HDR_SIZE_def BLOCK_LEN_def)
    moreover have "opened (g1\<lparr>gsm0610_dec_state := Some t'\<rparr>)" using g(1) S(5) by (simp add: opened_def g1_def)
    ultimately show ?thesis using S(4) by blast
  qed
  then show ?thesis using GSM_encode_frame [of g s region offset amp, OF g(1,2) assms(2) S(1,2)] S(2) unfolding g1_def by blast
qed

definition demo_codec :: gsm_jni where
  "demo_codec = \<lparr>codec_open = 1, gsm0610_enc_state = Some (gsm0610_init 2), gsm0610_dec_state = Some (gsm0610_init 2)\<rparr>"

lemma demo_codec_opened: "opened demo_codec"
  by (rule opened_start [of _ 0]) (simp add: GSM_open_def gsm_jni_start_def demo_codec_def GSM0610_PACKING_VOIP_def)

theorem call_frame_round_trip_witness:
  "\<exists>g1 code. GSM_encode (\<lambda>a n. Some (replicate (nat n) 0)) 0 160 demo_codec = Inr (g1, 33, [(12, code)]) \<and> length code = 33"
  using call_frame_round_trip [OF demo_codec_opened, of "\<lambda>a n. Some (replicate (nat n) 0)" 0 "replicate 160 0"]
  by (auto simp: arr_replicate)

text \<open>
  The decoder does not check the length of the packet: any packet with two or more frames, whatever its
  bytes, makes it write past its buffer of 160 samples, or, with more than 160 bytes, past the buffer
  of bytes. The length is the caller's, who has it from the network.
\<close>

lemma long_packet_overflows:
  assumes "opened g" "region 12 (int (33 * n)) = Some c" "length c = 33 * n" "2 \<le> n"
  shows "GSM_decode region (int (33 * n)) g = Inl OutOfBounds"
proof -
  obtain s t where g: "codec_open g \<noteq> 0" "gsm0610_dec_state g = Some t" "sim is_voip t s" using assms(1) by (auto simp: opened_def)
  then have "dec_inv is_voip t" by (simp add: dec_inv_def sim_def)
  from voip_decoder.any_stream [OF this, of "map u8i c" n] assms(3) obtain t' y
    where "gsm0610_decode t (map u8i c) (int (33 * n)) = Inr (t', y)" "arr (160 * n) y" by auto
  then show ?thesis using g(1,2) assms(2,4) arr_length [of "160 * n" y]
    unfolding GSM_decode_def RTP_HDR_SIZE_def by (simp add: BLOCK_LEN_def)
qed

theorem long_packet_overflows_witness:
  "GSM_decode (\<lambda>a n. Some (replicate (nat n) 0)) 66 demo_codec = Inl OutOfBounds"
  using long_packet_overflows [OF demo_codec_opened, of "\<lambda>a n. Some (replicate (nat n) 0)" 2 "replicate 66 0"] by simp

text \<open>
  The encoder is given the length of the whole request and not of its block, so that a request for more
  than one block reads past the buffer of one block.
\<close>

lemma long_request_overreads:
  assumes "opened g" "region offset 160 = Some amp" "arr 160 amp" "160 < sz"
  shows "GSM_encode region offset sz g = Inl OutOfBounds"
proof -
  obtain s t where g: "codec_open g \<noteq> 0" "gsm0610_enc_state g = Some s" "sim is_voip t s" using assms(1) by (auto simp: opened_def)
  obtain s' f t' y where B: "encode_a_frame s amp = Inr (s', f)" "sim is_voip t' s'" using sim_step [OF g(3) assms(3)] by blast
  have "gsm0610_encode s (amp @ []) sz = Inl OutOfBounds"
    using voip_stream.encs_step [of sz t s amp s' f "[]"] voip_stream.encs_short [of "sz - 160" t' s' 0 "[]"] g(3) assms(3,4) B by simp
  then show ?thesis using g(1,2) assms(2,4) by (simp add: GSM_encode_def GSM_encode_loop.simps BLOCK_LEN_def)
qed

end
