(* ===== verification/Echo_Fir.thy ===== *)
theory Echo_Fir
  imports Gsm_Array
begin

text \<open>
  The FIR filter of the echo canceller, \<open>fir16\<close> of \<^verbatim>\<open>src/jni/oslec-jni/spandsp/fir.h\<close> (the portable branch), with
  its circular history, and the adaption of its coefficients, \<open>lms_adapt_bg\<close> of
  \<^verbatim>\<open>src/jni/oslec-jni/echo.c\<close>. The coefficients belong to the caller: the pointer in the filter's state is the argument
  \<open>coeffs\<close>. The theorems relate the circular buffer to a delay line of the last samples.
\<close>

section \<open>Filter\<close>

record fir16_state_t =
  fir_taps :: int
  fir_curr_pos :: int
  fir_history :: "int list option"

text \<open>The last argument says whether the allocation of the history succeeds.\<close>

definition fir16_create :: "int \<Rightarrow> bool \<Rightarrow> fir16_state_t" where
  "fir16_create taps alloc =
     \<lparr>fir_taps = taps, fir_curr_pos = taps - 1,
      fir_history = (if alloc then Some (replicate (nat taps) 0) else None)\<rparr>"

definition fir16_flush :: "fir16_state_t \<Rightarrow> fir16_state_t res" where
  "fir16_flush fir = rbind (bufp (fir_history fir)) (\<lambda>h. Inr (fir\<lparr>fir_history := Some (replicate (length h) 0)\<rparr>))"

text \<open>A loop over the taps \<open>is\<close>, in the order given, that reads the history at \<open>i + off\<close>.\<close>

fun fir_mac :: "int list \<Rightarrow> int list \<Rightarrow> int \<Rightarrow> nat list \<Rightarrow> int \<Rightarrow> int res" where
  "fir_mac coeffs history off [] y = Inr y"
| "fir_mac coeffs history off (i # is) y =
     rbind (aget coeffs (int i)) (\<lambda>c.
     rbind (aget history (int i + off)) (\<lambda>h. fir_mac coeffs history off is (i32 (y + c * h))))"

text \<open>\<open>curr_pos\<close> moves down and wraps at zero.\<close>

definition roll :: "int \<Rightarrow> int \<Rightarrow> int" where
  "roll taps pos = (if pos \<le> 0 then taps else pos) - 1"

definition fir16 :: "int list \<Rightarrow> fir16_state_t \<Rightarrow> int \<Rightarrow> (fir16_state_t \<times> int) res" where
  "fir16 coeffs fir sample =
     rbind (bufp (fir_history fir)) (\<lambda>h.
     rbind (aput h (fir_curr_pos fir) sample) (\<lambda>h.
     let offset2 = fir_curr_pos fir;
         offset1 = fir_taps fir - offset2
     in rbind (fir_mac coeffs h (- offset1) (rev [nat offset1..<nat (fir_taps fir)]) 0) (\<lambda>y.
        rbind (fir_mac coeffs h offset2 (rev [0..<nat offset1]) y) (\<lambda>y.
        Inr (fir\<lparr>fir_history := Some h, fir_curr_pos := roll (fir_taps fir) (fir_curr_pos fir)\<rparr>, i16 (shr y 15))))))"

section \<open>Adaption\<close>

text \<open>A loop over the taps \<open>is\<close> that adds to each what the history at \<open>i + off\<close> asks for.\<close>

fun lms_loop :: "int list \<Rightarrow> int \<Rightarrow> int \<Rightarrow> nat list \<Rightarrow> int list \<Rightarrow> int list res" where
  "lms_loop history factor off [] taps16 = Inr taps16"
| "lms_loop history factor off (i # is) taps16 =
     rbind (aget history (int i + off)) (\<lambda>h.
     let exp = i32 (h * factor) in
     rbind (aget taps16 (int i)) (\<lambda>c.
     rbind (aput taps16 (int i) (i16 (c + i16 (shr (i32 (exp + 16384)) 15)))) (\<lambda>taps16.
     lms_loop history factor off is taps16)))"

definition lms_factor :: "int \<Rightarrow> int \<Rightarrow> int res" where
  "lms_factor clean shift =
     (if shift > 0 then (if shift < 32 then Inr (i32 (shl clean (nat shift))) else Inl BadShift)
      else if - shift < 32 then Inr (shr clean (nat (- shift))) else Inl BadShift)"

definition lms_adapt_bg :: "int \<Rightarrow> int \<Rightarrow> int list option \<Rightarrow> int list \<Rightarrow> int \<Rightarrow> int \<Rightarrow> int list res" where
  "lms_adapt_bg curr_pos taps history taps16 clean shift =
     rbind (lms_factor clean shift) (\<lambda>factor.
     let offset2 = curr_pos;
         offset1 = taps - offset2
     in rbind (bufp history) (\<lambda>h.
        rbind (lms_loop h factor (- offset1) (rev [nat offset1..<nat taps]) taps16) (\<lambda>taps16.
        lms_loop h factor offset2 (rev [0..<nat offset1]) taps16)))"

section \<open>The delay line\<close>

text \<open>The history read from position \<open>p\<close> on, around the buffer.\<close>

definition line :: "int list \<Rightarrow> nat \<Rightarrow> int list" where
  "line h p = drop p h @ take p h"

text \<open>The filter's delay line, newest sample first, and the filter's invariant.\<close>

definition fir_ok :: "nat \<Rightarrow> fir16_state_t \<Rightarrow> bool" where
  "fir_ok n fir \<longleftrightarrow> fir_taps fir = int n \<and> 0 \<le> fir_curr_pos fir \<and> fir_curr_pos fir < int n \<and>
     (\<exists>h. fir_history fir = Some h \<and> arr n h)"

definition delay_line :: "fir16_state_t \<Rightarrow> int list" where
  "delay_line fir = (case fir_history fir of None \<Rightarrow> [] | Some h \<Rightarrow> line h (nat (fir_curr_pos fir) + 1))"

lemma line_nth: "p \<le> length h \<Longrightarrow> i < length h \<Longrightarrow>
    line h p ! i = (if i < length h - p then h ! (i + p) else h ! (i - (length h - p)))"
  by (auto simp: line_def nth_append add.commute)

lemma length_line [simp]: "length (line h p) = length h"
  by (simp add: line_def)

lemma line_arr: "arr n h \<Longrightarrow> arr n (line h p)"
  by (auto simp: arr_def line_def list_all_iff dest: in_set_takeD in_set_dropD)

section \<open>The filter is a convolution\<close>

definition convolve :: "int list \<Rightarrow> int list \<Rightarrow> int" where
  "convolve c x = (\<Sum>i\<leftarrow>[0..<length c]. c ! i * x ! i)"

lemma i32_add_left: "i32 (i32 a + b) = i32 (a + b)"
proof -
  have "(a + 2147483648) mod 4294967296 - 2147483648 + b + 2147483648 = (a + 2147483648) mod 4294967296 + b" by simp
  then show ?thesis by (simp only: i32_def mod_add_left_eq) (simp add: algebra_simps)
qed

lemma fir_mac_eq:
  assumes "\<forall>i\<in>set is. i < length c \<and> 0 \<le> int i + off \<and> int i + off < int (length h)"
  shows "fir_mac c h off is (i32 y) = Inr (i32 (y + (\<Sum>i\<leftarrow>is. c ! i * h ! nat (int i + off))))"
  using assms by (induction "is" arbitrary: y) (simp_all add: aget_def i32_add_left add.assoc)

lemma sum_list_rev_upt: "(\<Sum>i\<leftarrow>rev [a..<b]. f i) = (\<Sum>i\<leftarrow>[a..<b]. f i :: int)"
  by (simp flip: rev_map)

lemma convolve_line:
  assumes "length c = n" "length h = n" "p < n"
  shows "convolve c (line h p) =
    (\<Sum>i\<leftarrow>[n - p..<n]. c ! i * h ! (i - (n - p))) + (\<Sum>i\<leftarrow>[0..<n - p]. c ! i * h ! (i + p))"
proof -
  have "[0..<n] = [0..<n - p] @ [n - p..<n]" using upt_add_eq_append [of 0 "n - p" p] assms(3) by simp
  moreover have "map (\<lambda>i. c ! i * line h p ! i) [0..<n - p] = map (\<lambda>i. c ! i * h ! (i + p)) [0..<n - p]"
    "map (\<lambda>i. c ! i * line h p ! i) [n - p..<n] = map (\<lambda>i. c ! i * h ! (i - (n - p))) [n - p..<n]"
    using assms by (auto simp: line_nth)
  ultimately show ?thesis unfolding convolve_def assms(1) by (simp only: map_append sum_list_append add.commute)
qed

lemma line_update:
  assumes "length h = n" "p < n"
  shows "line (h[p := s]) p = s # butlast (line h (p + 1))"
proof -
  have "take (p + 1) h = take p h @ [h ! p]" using assms by (simp add: take_Suc_conv_app_nth)
  moreover have "drop p (h[p := s]) = s # drop (p + 1) h" using assms by (simp add: drop_update_cancel Cons_nth_drop_Suc [symmetric])
  ultimately show ?thesis by (simp add: line_def butlast_append)
qed

lemma fir16_eq:
  assumes "fir_ok n fir" "length c = n" "is16 s"
  shows "\<exists>fir'. fir16 c fir s = Inr (fir', i16 (shr (i32 (convolve c (delay_line fir'))) 15)) \<and> fir_ok n fir' \<and>
    delay_line fir' = s # butlast (delay_line fir) \<and> fir_curr_pos fir' = roll (int n) (fir_curr_pos fir) \<and>
    (\<exists>h. fir_history fir = Some h \<and> fir_history fir' = Some (h[nat (fir_curr_pos fir) := s]) \<and>
      delay_line fir' = line (h[nat (fir_curr_pos fir) := s]) (nat (fir_curr_pos fir)))"
proof -
  obtain h p where h: "fir_history fir = Some h" "arr n h" "fir_curr_pos fir = int p" "p < n" "fir_taps fir = int n"
    using assms(1) by (auto simp: fir_ok_def intro: that [of _ "nat (fir_curr_pos fir)"])
  have l: "length h = n" using h(2) by (rule arr_length)
  define h' where "h' = h[p := s]"
  define fir' where "fir' = fir\<lparr>fir_history := Some h', fir_curr_pos := roll (int n) (int p)\<rparr>"
  have l': "length h' = n" by (simp add: h'_def l)
  have "line h' (nat (roll (int n) (int p)) + 1) = line h' p" using h(4) l' by (cases p) (simp_all add: roll_def line_def)
  then have d: "delay_line fir' = line h' p" by (simp add: delay_line_def fir'_def)
  have m: "fir_mac c h' (- (int n - int p)) (rev [n - p..<n]) (i32 0) =
      Inr (i32 (0 + (\<Sum>i\<leftarrow>rev [n - p..<n]. c ! i * h' ! nat (int i + - (int n - int p)))))"
    "fir_mac c h' (int p) (rev [0..<n - p]) (i32 y) = Inr (i32 (y + (\<Sum>i\<leftarrow>rev [0..<n - p]. c ! i * h' ! nat (int i + int p))))" for y
    using h(4) assms(2) l' by (intro fir_mac_eq; auto)+
  have "nat (int i + (int p - int n)) = i + p - n" if "n - p \<le> i" for i using that h(4) by linarith
  then have i: "map (\<lambda>i. c ! i * h' ! nat (int i + (int p - int n))) [n - p..<n] = map (\<lambda>i. c ! i * h' ! (i + p - n)) [n - p..<n]"
    "map (\<lambda>i. c ! i * h' ! nat (int i + int p)) [0..<n - p] = map (\<lambda>i. c ! i * h' ! (i + p)) [0..<n - p]"
    by (simp_all add: nat_add_distrib)
  have s: "i32 0 = 0" by (simp add: i32_def)
  have "fir16 c fir s = Inr (fir', i16 (shr (i32 (convolve c (delay_line fir'))) 15))"
    using m(1) h l unfolding fir16_def d convolve_line [OF assms(2) l' h(4)]
    by (simp add: bufp_def aput_def fir'_def Let_def m(2) sum_list_rev_upt i s nat_diff_distrib' flip: h'_def)
  moreover have "fir_ok n fir'" using h arr_update [OF h(2) assms(3)] by (auto simp: fir_ok_def fir'_def h'_def roll_def)
  moreover have "delay_line fir' = s # butlast (delay_line fir)"
    unfolding d h'_def line_update [OF l h(4)] by (simp add: delay_line_def h)
  ultimately show ?thesis using d h by (auto simp: fir'_def h'_def)
qed

text \<open>The filter on a sequence of samples, and the delay line after the samples \<open>ys\<close>.\<close>

fun fir_run :: "int list \<Rightarrow> fir16_state_t \<Rightarrow> int list \<Rightarrow> int list res" where
  "fir_run c fir [] = Inr []"
| "fir_run c fir (x # xs) = rbind (fir16 c fir x) (\<lambda>(fir, y). rbind (fir_run c fir xs) (\<lambda>ys. Inr (y # ys)))"

definition past :: "nat \<Rightarrow> int list \<Rightarrow> int list" where
  "past n ys = take n (rev ys @ replicate n 0)"

lemma past_snoc: "0 < n \<Longrightarrow> past n (ys @ [x]) = x # butlast (past n ys)"
  by (simp add: past_def butlast_take take_Cons' del: take_append)

lemma past_nth: "i < n \<Longrightarrow> past n ys ! i = (if i < length ys then ys ! (length ys - 1 - i) else 0)"
  by (auto simp: past_def nth_append rev_nth)

lemma fir_run_past:
  assumes "fir_ok n fir" "length c = n" "0 < n" "delay_line fir = past n ys" "list_all is16 xs"
  shows "fir_run c fir xs = Inr (map (\<lambda>j. i16 (shr (i32 (convolve c (past n (ys @ take (Suc j) xs)))) 15)) [0..<length xs])"
  using assms
proof (induction xs arbitrary: fir ys)
  case (Cons x xs)
  obtain fir' where f: "fir16 c fir x = Inr (fir', i16 (shr (i32 (convolve c (delay_line fir'))) 15))" "fir_ok n fir'"
    "delay_line fir' = x # butlast (delay_line fir)"
    using fir16_eq [OF Cons.prems(1,2), of x] Cons.prems(5) by auto
  have d: "delay_line fir' = past n (ys @ [x])" unfolding f(3) Cons.prems(4) past_snoc [OF Cons.prems(3)] ..
  have "map (\<lambda>j. i16 (shr (i32 (convolve c (past n (ys @ take (Suc j) (x # xs))))) 15)) [0..<length (x # xs)] =
      i16 (shr (i32 (convolve c (past n (ys @ [x])))) 15) #
      map (\<lambda>j. i16 (shr (i32 (convolve c (past n ((ys @ [x]) @ take (Suc j) xs)))) 15)) [0..<length xs]"
    unfolding length_Cons upt_conv_Cons [OF zero_less_Suc] map_Suc_upt [symmetric] by simp
  then show ?case using Cons.IH [OF f(2) Cons.prems(2,3) d] Cons.prems(5) f(1) d by simp
qed simp

lemma fir_ok_create:
  assumes "0 < n"
  shows "fir_ok n (fir16_create (int n) True)" "delay_line (fir16_create (int n) True) = past n []"
proof -
  have "nat (int n - 1) + 1 = n" using assms by simp
  then show "delay_line (fir16_create (int n) True) = past n []" unfolding delay_line_def fir16_create_def line_def past_def by simp
qed (use assms arr_replicate in \<open>simp add: fir_ok_def fir16_create_def\<close>)

text \<open>
  C19. The circular buffer is a delay line: whatever 16-bit samples are fed to a new filter with \<open>n\<close> taps, its
  outputs are those of the textbook definition, sample \<open>j\<close> being the sum of \<open>c ! i * xs ! (j - i)\<close> over all taps,
  with zeros before the first sample, in 32-bit arithmetic and scaled by 15 bits; no
  access is out of bounds however often the position wraps.
\<close>

theorem fir16_convolves:
  assumes "length c = n" "0 < n" "list_all is16 xs"
  shows "fir_run c (fir16_create (int n) True) xs =
    Inr (map (\<lambda>j. i16 (shr (i32 (\<Sum>i\<leftarrow>[0..<n]. c ! i * (if i \<le> j then xs ! (j - i) else 0))) 15)) [0..<length xs])"
proof -
  have "convolve c (past n (take (Suc j) xs)) = (\<Sum>i\<leftarrow>[0..<n]. c ! i * (if i \<le> j then xs ! (j - i) else 0))"
    if "j < length xs" for j
    unfolding convolve_def assms(1) by (intro arg_cong [of _ _ sum_list] map_cong) (use that in \<open>auto simp: past_nth\<close>)
  then show ?thesis using fir_run_past [OF fir_ok_create(1) assms(1,2) fir_ok_create(2) assms(3)] assms(2) by simp
qed

theorem fir16_convolves_witness:
  "fir_run [16384, 8192] (fir16_create 2 True) [100, 200, 300] = Inr [50, 125, 200]"
  using fir16_convolves [of "[16384, 8192]" 2 "[100, 200, 300]"] by (simp add: is16_def i16_def i32_def shr_def upt_rec)

section \<open>The adaption follows the filter\<close>

text \<open>What adaption by \<open>factor\<close> makes of a coefficient whose sample is \<open>x\<close>.\<close>

definition adapted :: "int \<Rightarrow> int \<Rightarrow> int \<Rightarrow> int" where
  "adapted factor c x = i16 (c + i16 (shr (i32 (i32 (x * factor) + 16384)) 15))"

lemma lms_loop_eq:
  assumes "\<forall>i\<in>set is. i < length t \<and> 0 \<le> int i + off \<and> int i + off < int (length h)" "distinct is"
  shows "lms_loop h factor off is t =
    Inr (map (\<lambda>i. if i \<in> set is then adapted factor (t ! i) (h ! nat (int i + off)) else t ! i) [0..<length t])"
  using assms
proof (induction "is" arbitrary: t)
  case Nil
  then show ?case by (simp add: map_nth)
next
  case (Cons i "is")
  define t' where "t' = t[i := adapted factor (t ! i) (h ! nat (int i + off))]"
  have "lms_loop h factor off (i # is) t = lms_loop h factor off is t'"
    using Cons.prems(1) by (simp add: aget_def aput_def Let_def adapted_def t'_def)
  also have "\<dots> = Inr (map (\<lambda>j. if j \<in> set is then adapted factor (t' ! j) (h ! nat (int j + off)) else t' ! j) [0..<length t'])"
    using Cons.prems by (intro Cons.IH) (simp_all add: t'_def)
  also have "map (\<lambda>j. if j \<in> set is then adapted factor (t' ! j) (h ! nat (int j + off)) else t' ! j) [0..<length t'] =
      map (\<lambda>j. if j \<in> set (i # is) then adapted factor (t ! j) (h ! nat (int j + off)) else t ! j) [0..<length t]"
  proof (intro map_cong)
    show "[0..<length t'] = [0..<length t]" by (simp add: t'_def)
    show "(if j \<in> set is then adapted factor (t' ! j) (h ! nat (int j + off)) else t' ! j) =
        (if j \<in> set (i # is) then adapted factor (t ! j) (h ! nat (int j + off)) else t ! j)" if "j \<in> set [0..<length t]" for j
      using Cons.prems(2) that by (cases "j = i") (simp_all add: t'_def)
  qed
  finally show ?case .
qed

lemma lms_adapt_bg_eq:
  assumes "length h = n" "length t = n" "p < n" "lms_factor clean shift = Inr factor"
  shows "lms_adapt_bg (int p) (int n) (Some h) t clean shift = Inr (map (\<lambda>i. adapted factor (t ! i) (line h p ! i)) [0..<n])"
proof -
  define t1 where "t1 = map (\<lambda>i. if i \<in> set (rev [n - p..<n]) then adapted factor (t ! i) (h ! nat (int i + (int p - int n))) else t ! i) [0..<length t]"
  have 1: "lms_loop h factor (int p - int n) (rev [n - p..<n]) t = Inr t1"
    unfolding t1_def by (rule lms_loop_eq) (use assms in auto)
  have 2: "lms_loop h factor (int p) (rev [0..<n - p]) t1 = Inr (map (\<lambda>i. if i \<in> set (rev [0..<n - p])
      then adapted factor (t1 ! i) (h ! nat (int i + int p)) else t1 ! i) [0..<length t1])"
    by (rule lms_loop_eq) (use assms in \<open>auto simp: t1_def\<close>)
  have "nat (int i + (int p - int n)) = i + p - n" if "n - p \<le> i" for i using that assms(3) by linarith
  then have 3: "map (\<lambda>i. if i \<in> set (rev [0..<n - p]) then adapted factor (t1 ! i) (h ! nat (int i + int p)) else t1 ! i) [0..<length t1] =
      map (\<lambda>i. adapted factor (t ! i) (line h p ! i)) [0..<n]"
    using assms(1-3) by (auto simp: t1_def line_nth nat_add_distrib)
  show ?thesis using assms(3,4) 1 2 3 by (simp add: lms_adapt_bg_def bufp_def Let_def nat_diff_distrib')
qed

end
