(* ===== verification/Echo_Can.thy ===== *)
theory Echo_Can
  imports Echo_Fir
begin

text \<open>
  The dual-path echo canceller, \<^verbatim>\<open>src/jni/oslec-jni/echo.c\<close>, on \<open>echo_can_state_t\<close> of
  \<^verbatim>\<open>src/jni/oslec-jni/spandsp/echo.h\<close>. \<open>echo_can_update\<close> is one definition per section of the function, in its
  order. All sums and products of \<open>int\<close> wrap at 32 bits; stores to \<open>int16_t\<close> at 16. The arrays \<open>xvtx\<close>, \<open>yvtx\<close>, \<open>xvrx\<close>
  and \<open>yvrx\<close>, which are only ever set to zero, are left out.
\<close>

section \<open>State\<close>

definition ECHO_CAN_USE_ADAPTION :: int where "ECHO_CAN_USE_ADAPTION = 0x01"
definition ECHO_CAN_USE_NLP :: int where "ECHO_CAN_USE_NLP = 0x02"
definition ECHO_CAN_USE_CNG :: int where "ECHO_CAN_USE_CNG = 0x04"
definition ECHO_CAN_USE_CLIP :: int where "ECHO_CAN_USE_CLIP = 0x08"
definition ECHO_CAN_USE_TX_HPF :: int where "ECHO_CAN_USE_TX_HPF = 0x10"
definition ECHO_CAN_USE_RX_HPF :: int where "ECHO_CAN_USE_RX_HPF = 0x20"
definition ECHO_CAN_DISABLE :: int where "ECHO_CAN_DISABLE = 0x40"

definition MIN_TX_POWER_FOR_ADAPTION :: int where "MIN_TX_POWER_FOR_ADAPTION = 64"
definition MIN_RX_POWER_FOR_ADAPTION :: int where "MIN_RX_POWER_FOR_ADAPTION = 64"
definition DTD_HANGOVER :: int where "DTD_HANGOVER = 600"
definition DC_LOG2BETA :: nat where "DC_LOG2BETA = 3"

record echo_can_state_t =
  ec_tx :: int
  ec_rx :: int
  ec_clean :: int
  ec_clean_nlp :: int
  ec_nonupdate_dwell :: int
  ec_curr_pos :: int
  ec_taps :: int
  ec_log2taps :: int
  ec_adaption_mode :: int
  ec_cond_met :: int
  ec_Pstates :: int
  ec_adapt :: int
  ec_factor :: int
  ec_shift :: int
  ec_Ltxacc :: int
  ec_Lrxacc :: int
  ec_Lcleanacc :: int
  ec_Lclean_bgacc :: int
  ec_Ltx :: int
  ec_Lrx :: int
  ec_Lclean :: int
  ec_Lclean_bg :: int
  ec_Lbgn :: int
  ec_Lbgn_acc :: int
  ec_Lbgn_upper :: int
  ec_Lbgn_upper_acc :: int
  ec_fir_state :: fir16_state_t
  ec_fir_state_bg :: fir16_state_t
  ec_fir_taps16_0 :: "int list"
  ec_fir_taps16_1 :: "int list"
  ec_tx_1 :: int
  ec_tx_2 :: int
  ec_rx_1 :: int
  ec_rx_2 :: int
  ec_cng_level :: int
  ec_cng_rndnum :: int
  ec_cng_filter :: int
  ec_snapshot :: "int list"

definition echo_can_adaption_mode :: "echo_can_state_t \<Rightarrow> int \<Rightarrow> echo_can_state_t" where
  "echo_can_adaption_mode ec mode = ec\<lparr>ec_adaption_mode := mode\<rparr>"

text \<open>
  \<open>alloc k\<close> says whether the \<open>k\<close>-th allocation succeeds: the state, the two sets of coefficients, the two histories and the
  snapshot. The last three are not checked in the code.
\<close>

definition echo_can_create :: "(nat \<Rightarrow> bool) \<Rightarrow> int \<Rightarrow> int \<Rightarrow> echo_can_state_t option res" where
  "echo_can_create alloc len mode =
     (if \<not> alloc 0 then Inr None
      else if \<not> alloc 1 then Inr None
      else if \<not> alloc 2 then Inr None
      else if \<not> alloc 5 then Inl NullDeref
      else Inr (Some \<lparr>ec_tx = 0, ec_rx = 0, ec_clean = 0, ec_clean_nlp = 0, ec_nonupdate_dwell = 0, ec_curr_pos = len - 1,
        ec_taps = len, ec_log2taps = top_bit (word_of_int len), ec_adaption_mode = mode, ec_cond_met = 0, ec_Pstates = 0,
        ec_adapt = 0, ec_factor = 0, ec_shift = 0, ec_Ltxacc = 0, ec_Lrxacc = 0, ec_Lcleanacc = 0, ec_Lclean_bgacc = 0,
        ec_Ltx = 0, ec_Lrx = 0, ec_Lclean = 0, ec_Lclean_bg = 0, ec_Lbgn = 0, ec_Lbgn_acc = 0, ec_Lbgn_upper = 200,
        ec_Lbgn_upper_acc = shl 200 13, ec_fir_state = fir16_create len (alloc 3), ec_fir_state_bg = fir16_create len (alloc 4),
        ec_fir_taps16_0 = replicate (nat len) 0, ec_fir_taps16_1 = replicate (nat len) 0, ec_tx_1 = 0, ec_tx_2 = 0, ec_rx_1 = 0,
        ec_rx_2 = 0, ec_cng_level = 1000, ec_cng_rndnum = 0, ec_cng_filter = 0, ec_snapshot = replicate (nat len) 0\<rparr>))"

definition echo_can_flush :: "echo_can_state_t \<Rightarrow> echo_can_state_t res" where
  "echo_can_flush ec =
     rbind (fir16_flush (ec_fir_state ec)) (\<lambda>f.
     rbind (fir16_flush (ec_fir_state_bg ec)) (\<lambda>g.
     Inr (ec\<lparr>ec_Ltxacc := 0, ec_Lrxacc := 0, ec_Lcleanacc := 0, ec_Lclean_bgacc := 0, ec_Ltx := 0, ec_Lrx := 0, ec_Lclean := 0,
       ec_Lclean_bg := 0, ec_tx_1 := 0, ec_tx_2 := 0, ec_rx_1 := 0, ec_rx_2 := 0, ec_Lbgn := 0, ec_Lbgn_acc := 0, ec_Lbgn_upper := 200,
       ec_Lbgn_upper_acc := shl 200 13, ec_nonupdate_dwell := 0, ec_fir_state := f\<lparr>fir_curr_pos := ec_taps ec - 1\<rparr>,
       ec_fir_state_bg := g\<lparr>fir_curr_pos := ec_taps ec - 1\<rparr>, ec_fir_taps16_0 := replicate (length (ec_fir_taps16_0 ec)) 0,
       ec_fir_taps16_1 := replicate (length (ec_fir_taps16_1 ec)) 0, ec_curr_pos := ec_taps ec - 1, ec_Pstates := 0\<rparr>)))"

definition echo_can_snapshot :: "echo_can_state_t \<Rightarrow> echo_can_state_t" where
  "echo_can_snapshot ec = ec\<lparr>ec_snapshot := ec_fir_taps16_0 ec\<rparr>"

section \<open>One sample\<close>

text \<open>The high-pass filter that receive and transmit path share: the new state, and the output limited to \<open>lim\<close>.\<close>

definition dc_filter :: "int \<Rightarrow> int \<Rightarrow> int \<Rightarrow> int \<Rightarrow> int \<times> int \<times> int" where
  "dc_filter lim x s1 s2 =
     (let tmp = i32 (shl x 15);
          tmp = i32 (tmp - shr tmp 4);
          s1 = i32 (s1 + i32 (i32 (i32 (- shr s1 DC_LOG2BETA) + tmp) - s2));
          tmp1 = shr s1 15;
          tmp1 = (if tmp1 > lim then lim else tmp1);
          tmp1 = (if tmp1 < - lim then - lim else tmp1)
      in (s1, tmp, i16 tmp1))"

definition upd_rx_hpf :: "int \<Rightarrow> echo_can_state_t \<Rightarrow> echo_can_state_t \<times> int" where
  "upd_rx_hpf rx ec =
     (if ec_adaption_mode ec AND ECHO_CAN_USE_RX_HPF \<noteq> 0
      then (let (s1, s2, rx) = dc_filter 16383 rx (ec_rx_1 ec) (ec_rx_2 ec) in (ec\<lparr>ec_rx_1 := s1, ec_rx_2 := s2\<rparr>, rx))
      else (ec, rx))"

definition upd_power :: "int \<Rightarrow> echo_can_state_t \<Rightarrow> echo_can_state_t res" where
  "upd_power tx ec =
     rbind (bufp (fir_history (ec_fir_state ec))) (\<lambda>h.
     rbind (aget h (fir_curr_pos (ec_fir_state ec))) (\<lambda>x.
     if \<not> (0 < ec_log2taps ec \<and> ec_log2taps ec \<le> 31) then Inl BadShift
     else let new = tx * tx;
              old = x * x;
              P = i32 (ec_Pstates ec + shr (i32 (i32 (new - old) + shl 1 (nat (ec_log2taps ec - 1)))) (nat (ec_log2taps ec)))
          in Inr (ec\<lparr>ec_Pstates := (if P < 0 then 0 else P)\<rparr>)))"

text \<open>\<open>acc += x - level; level = (acc + (1 << (k - 1))) >> k\<close>: the new accumulator and level.\<close>

definition level :: "nat \<Rightarrow> int \<Rightarrow> int \<Rightarrow> int \<Rightarrow> int \<times> int" where
  "level k x acc lev = (let acc = i32 (acc + i32 (x - lev)) in (acc, shr (i32 (acc + shl 1 (k - 1))) k))"

definition upd_levels :: "int \<Rightarrow> int \<Rightarrow> echo_can_state_t \<Rightarrow> echo_can_state_t" where
  "upd_levels tx rx ec =
     (let (ta, tl) = level 5 \<bar>tx\<bar> (ec_Ltxacc ec) (ec_Ltx ec);
          (ra, rl) = level 5 \<bar>rx\<bar> (ec_Lrxacc ec) (ec_Lrx ec)
      in ec\<lparr>ec_Ltxacc := ta, ec_Ltx := tl, ec_Lrxacc := ra, ec_Lrx := rl\<rparr>)"

definition upd_foreground :: "int \<Rightarrow> int \<Rightarrow> echo_can_state_t \<Rightarrow> echo_can_state_t res" where
  "upd_foreground tx rx ec =
     rbind (fir16 (ec_fir_taps16_0 ec) (ec_fir_state ec) tx) (\<lambda>(f, echo_value).
     let clean = i16 (rx - echo_value);
         (a, l) = level 5 \<bar>clean\<bar> (ec_Lcleanacc ec) (ec_Lclean ec)
     in Inr (ec\<lparr>ec_fir_state := f, ec_clean := clean, ec_Lcleanacc := a, ec_Lclean := l\<rparr>))"

definition upd_background :: "int \<Rightarrow> int \<Rightarrow> echo_can_state_t \<Rightarrow> (echo_can_state_t \<times> int) res" where
  "upd_background tx rx ec =
     rbind (fir16 (ec_fir_taps16_1 ec) (ec_fir_state_bg ec) tx) (\<lambda>(f, echo_value).
     let clean_bg = rx - echo_value;
         (a, l) = level 5 \<bar>clean_bg\<bar> (ec_Lclean_bgacc ec) (ec_Lclean_bg ec)
     in Inr (ec\<lparr>ec_fir_state_bg := f, ec_Lclean_bgacc := a, ec_Lclean_bg := l\<rparr>, clean_bg))"

definition upd_adaption :: "int \<Rightarrow> echo_can_state_t \<Rightarrow> echo_can_state_t res" where
  "upd_adaption clean_bg ec =
     (let ec = ec\<lparr>ec_factor := 0, ec_shift := 0\<rparr> in
      if ec_nonupdate_dwell ec = 0
      then let P = i32 (MIN_TX_POWER_FOR_ADAPTION + ec_Pstates ec);
               logP = top_bit (word_of_int P) + ec_log2taps ec;
               shift = 30 - 2 - logP
           in rbind (lms_adapt_bg (ec_curr_pos ec) (ec_taps ec) (fir_history (ec_fir_state_bg ec)) (ec_fir_taps16_1 ec) clean_bg shift)
                (\<lambda>taps1. Inr (ec\<lparr>ec_shift := i16 shift, ec_fir_taps16_1 := taps1\<rparr>))
      else Inr ec)"

definition upd_dtd :: "echo_can_state_t \<Rightarrow> echo_can_state_t" where
  "upd_dtd ec =
     (let dwell = (if ec_Lrx ec > MIN_RX_POWER_FOR_ADAPTION \<and> ec_Lrx ec > ec_Ltx ec then DTD_HANGOVER else ec_nonupdate_dwell ec)
      in ec\<lparr>ec_adapt := 0, ec_nonupdate_dwell := (if dwell \<noteq> 0 then i32 (dwell - 1) else dwell)\<rparr>)"

definition better :: "echo_can_state_t \<Rightarrow> bool" where
  "better ec \<longleftrightarrow> ec_adaption_mode ec AND ECHO_CAN_USE_ADAPTION \<noteq> 0 \<and> ec_nonupdate_dwell ec = 0 \<and>
     i32 (8 * ec_Lclean_bg ec) < i32 (7 * ec_Lclean ec) \<and> i32 (8 * ec_Lclean_bg ec) < ec_Ltx ec"

definition upd_transfer :: "echo_can_state_t \<Rightarrow> echo_can_state_t" where
  "upd_transfer ec =
     (if better ec
      then (if ec_cond_met ec = 6 then ec\<lparr>ec_adapt := 1, ec_fir_taps16_0 := ec_fir_taps16_1 ec\<rparr>
            else ec\<lparr>ec_cond_met := i32 (ec_cond_met ec + 1)\<rparr>)
      else ec\<lparr>ec_cond_met := 0\<rparr>)"

definition upd_nlp :: "echo_can_state_t \<Rightarrow> echo_can_state_t" where
  "upd_nlp ec =
     (let ec = ec\<lparr>ec_clean_nlp := ec_clean ec\<rparr> in
      if ec_adaption_mode ec AND ECHO_CAN_USE_NLP = 0 then ec
      else if i32 (16 * ec_Lclean ec) < ec_Ltx ec
      then if ec_adaption_mode ec AND ECHO_CAN_USE_CNG \<noteq> 0
           then let rndnum = i32 (1664525 * ec_cng_rndnum ec + 1013904223);
                    filt = shr (i32 ((rndnum AND 0xFFFF) - 32768 + i32 (5 * ec_cng_filter ec))) 3;
                    lev = ec_Lbgn ec
                in ec\<lparr>ec_cng_level := lev, ec_cng_rndnum := rndnum, ec_cng_filter := filt,
                     ec_clean_nlp := i16 (shr (i32 (i32 (filt * lev) * 8)) 14)\<rparr>
           else if ec_adaption_mode ec AND ECHO_CAN_USE_CLIP \<noteq> 0
           then let x = (if ec_clean_nlp ec > ec_Lbgn ec then i16 (ec_Lbgn ec) else ec_clean_nlp ec);
                    x = (if x < i32 (- ec_Lbgn ec) then i16 (i32 (- ec_Lbgn ec)) else x)
                in ec\<lparr>ec_clean_nlp := x\<rparr>
           else ec\<lparr>ec_clean_nlp := 0\<rparr>
      else if ec_Lclean ec < 40
      then let (a, l) = level 12 \<bar>ec_clean ec\<bar> (ec_Lbgn_acc ec) (ec_Lbgn ec) in ec\<lparr>ec_Lbgn_acc := a, ec_Lbgn := l\<rparr>
      else ec)"

definition upd_roll :: "int \<Rightarrow> echo_can_state_t \<Rightarrow> echo_can_state_t" where
  "upd_roll rx ec =
     (let ec = ec\<lparr>ec_curr_pos := roll (ec_taps ec) (ec_curr_pos ec)\<rparr>
      in if ec_adaption_mode ec AND ECHO_CAN_DISABLE \<noteq> 0 then ec\<lparr>ec_clean_nlp := rx\<rparr> else ec)"

definition echo_can_update :: "echo_can_state_t \<Rightarrow> int \<Rightarrow> int \<Rightarrow> (echo_can_state_t \<times> int) res" where
  "echo_can_update ec tx rx =
     (let ec = ec\<lparr>ec_tx := tx, ec_rx := rx\<rparr>;
          tx = shr tx 1;
          (ec, rx) = upd_rx_hpf (shr rx 1) ec
      in rbind (upd_power tx ec) (\<lambda>ec.
         rbind (upd_foreground tx rx (upd_levels tx rx ec)) (\<lambda>ec.
         rbind (upd_background tx rx ec) (\<lambda>(ec, clean_bg).
         rbind (upd_adaption clean_bg ec) (\<lambda>ec.
         let ec = upd_roll rx (upd_nlp (upd_transfer (upd_dtd ec)))
         in Inr (ec, i16 (shl (ec_clean_nlp ec) 1)))))))"

definition echo_can_hpf_tx :: "echo_can_state_t \<Rightarrow> int \<Rightarrow> echo_can_state_t \<times> int" where
  "echo_can_hpf_tx ec tx =
     (if ec_adaption_mode ec AND ECHO_CAN_USE_TX_HPF \<noteq> 0
      then (let (s1, s2, tx) = dc_filter 32767 tx (ec_tx_1 ec) (ec_tx_2 ec) in (ec\<lparr>ec_tx_1 := s1, ec_tx_2 := s2\<rparr>, tx))
      else (ec, tx))"

section \<open>Invariant\<close>

text \<open>The fields the memory accesses depend on, and the two counters.\<close>

definition core :: "echo_can_state_t \<Rightarrow> int \<times> int \<times> int \<times> fir16_state_t \<times> fir16_state_t \<times> int list \<times> int list" where
  "core ec = (ec_taps ec, ec_log2taps ec, ec_curr_pos ec, ec_fir_state ec, ec_fir_state_bg ec, ec_fir_taps16_0 ec, ec_fir_taps16_1 ec)"

definition counters :: "echo_can_state_t \<Rightarrow> int \<times> int" where
  "counters ec = (ec_nonupdate_dwell ec, ec_cond_met ec)"

text \<open>
  All arrays have the length of the filter, both filters have the same history and are at the canceller's own position, and
  the counters are in range. The filter has at least two taps, and fewer than \<open>2 ^ 28\<close>.
\<close>

definition core_ok :: "nat \<Rightarrow> int \<times> int \<times> int \<times> fir16_state_t \<times> fir16_state_t \<times> int list \<times> int list \<Rightarrow> bool" where
  "core_ok n c = (case c of (taps, log2taps, pos, f, g, t0, t1) \<Rightarrow>
     taps = int n \<and> log2taps = top_bit (word_of_int (int n)) \<and> fir_ok n f \<and> fir_ok n g \<and>
     fir_curr_pos f = pos \<and> fir_curr_pos g = pos \<and> fir_history f = fir_history g \<and> arr n t0 \<and> arr n t1)"

text \<open>
  The running averages: each level is its accumulator divided by \<open>2 ^ k\<close>, rounded, and bounded by the largest value that is
  averaged, so that none of their sums overflows.
\<close>

definition levels :: "echo_can_state_t \<Rightarrow> (int \<times> int) \<times> (int \<times> int) \<times> (int \<times> int) \<times> (int \<times> int) \<times> int \<times> int" where
  "levels ec = ((ec_Ltxacc ec, ec_Ltx ec), (ec_Lrxacc ec, ec_Lrx ec), (ec_Lcleanacc ec, ec_Lclean ec),
     (ec_Lclean_bgacc ec, ec_Lclean_bg ec), (ec_Lbgn_acc ec, ec_Lbgn ec))"

definition level_ok :: "nat \<Rightarrow> int \<Rightarrow> int \<times> int \<Rightarrow> bool" where
  "level_ok k b al \<longleftrightarrow> (case al of (acc, lev) \<Rightarrow> 0 \<le> acc \<and> acc \<le> b * 2 ^ k \<and> lev = (acc + 2 ^ (k - 1)) div 2 ^ k)"

definition levels_ok :: "(int \<times> int) \<times> (int \<times> int) \<times> (int \<times> int) \<times> (int \<times> int) \<times> int \<times> int \<Rightarrow> bool" where
  "levels_ok ls \<longleftrightarrow> (case ls of (tx, rx, clean, bg, bgn) \<Rightarrow>
     level_ok 5 65536 tx \<and> level_ok 5 65536 rx \<and> level_ok 5 65536 clean \<and> level_ok 5 65536 bg \<and> level_ok 12 32768 bgn)"

definition ec_ok :: "nat \<Rightarrow> echo_can_state_t \<Rightarrow> bool" where
  "ec_ok n ec \<longleftrightarrow> 2 \<le> n \<and> n < 2 ^ 28 \<and> core_ok n (core ec) \<and> 0 \<le> ec_Pstates ec \<and> levels_ok (levels ec) \<and>
     0 \<le> ec_nonupdate_dwell ec \<and> ec_nonupdate_dwell ec < DTD_HANGOVER \<and> 0 \<le> ec_cond_met ec \<and> ec_cond_met ec \<le> 6"

lemma log2taps_range:
  assumes "2 \<le> n" "n < 2 ^ 28"
  shows "1 \<le> top_bit (word_of_int (int n)) \<and> top_bit (word_of_int (int n)) \<le> 27"
proof -
  have u: "uint (word_of_int (int n) :: u32) = int n" 
    using assms(2) by (subst uint_word_of_int) (simp add: take_bit_int_eq_self take_bit_nat_eq_self)
  then have "(word_of_int (int n) :: u32) \<noteq> 0" using assms(1) by (auto simp del: of_int_of_nat_eq)
  from top_bit_bounds [OF this] obtain h where h: "top_bit (word_of_int (int n)) = int h" "2 ^ h \<le> int n" "int n < 2 ^ Suc h"
    unfolding u by blast
  have "1 \<le> h" using h(3) assms(1) by (cases h) auto
  moreover have "h \<le> 27"
  proof (rule ccontr)
    assume "\<not> h \<le> 27"
    then have "(2 :: int) ^ 28 \<le> 2 ^ h" by (intro power_increasing) auto
    moreover have "int n < 2 ^ 28" using assms(2) by simp
    ultimately show False using h(2) by linarith
  qed
  ultimately show ?thesis using h(1) by simp
qed

lemma top_bit_range: "-1 \<le> top_bit b \<and> top_bit b \<le> 31"
  using top_bit_bounds [of b] by (cases "b = 0") (auto simp: top_bit_def)

text \<open>Stages that touch no memory keep the core.\<close>

lemma core_stages [simp]:
  "core (ec\<lparr>ec_tx := a, ec_rx := b\<rparr>) = core ec" "core (fst (upd_rx_hpf rx ec)) = core ec" "core (upd_levels tx rx ec) = core ec"
  "core (upd_dtd ec) = core ec" "core (upd_nlp ec) = core ec" "core (ec\<lparr>ec_Pstates := a\<rparr>) = core ec"
  by (simp_all add: core_def upd_rx_hpf_def upd_levels_def upd_dtd_def upd_nlp_def split_beta Let_def)

lemma counters_stages [simp]:
  "counters (ec\<lparr>ec_tx := a, ec_rx := b\<rparr>) = counters ec" "counters (fst (upd_rx_hpf rx ec)) = counters ec"
  "counters (upd_levels tx rx ec) = counters ec" "counters (upd_nlp ec) = counters ec" "counters (ec\<lparr>ec_Pstates := a\<rparr>) = counters ec"
  "counters (upd_roll rx ec) = counters ec"
  by (simp_all add: counters_def upd_rx_hpf_def upd_levels_def upd_nlp_def upd_roll_def split_beta Let_def)

lemma levels_stages [simp]:
  "levels (ec\<lparr>ec_tx := a, ec_rx := b\<rparr>) = levels ec" "levels (fst (upd_rx_hpf rx ec)) = levels ec"
  "levels (ec\<lparr>ec_Pstates := p\<rparr>) = levels ec" "levels (upd_dtd ec) = levels ec" "levels (upd_transfer ec) = levels ec"
  "levels (upd_roll rx ec) = levels ec"
  by (simp_all add: levels_def upd_rx_hpf_def upd_dtd_def upd_transfer_def upd_roll_def split_beta Let_def)

lemma Pstates_stages [simp]:
  "ec_Pstates (upd_levels tx rx ec) = ec_Pstates ec" "ec_Pstates (upd_dtd ec) = ec_Pstates ec"
  "ec_Pstates (upd_transfer ec) = ec_Pstates ec" "ec_Pstates (upd_nlp ec) = ec_Pstates ec" "ec_Pstates (upd_roll rx ec) = ec_Pstates ec"
  by (simp_all add: upd_levels_def upd_dtd_def upd_transfer_def upd_nlp_def upd_roll_def split_beta Let_def)

lemma mode_stages [simp]:
  "ec_adaption_mode (ec\<lparr>ec_tx := a, ec_rx := b\<rparr>) = ec_adaption_mode ec" "ec_adaption_mode (fst (upd_rx_hpf rx ec)) = ec_adaption_mode ec"
  "ec_adaption_mode (upd_levels tx rx ec) = ec_adaption_mode ec" "ec_adaption_mode (upd_dtd ec) = ec_adaption_mode ec"
  "ec_adaption_mode (upd_transfer ec) = ec_adaption_mode ec" "ec_adaption_mode (upd_nlp ec) = ec_adaption_mode ec"
  by (simp_all add: upd_rx_hpf_def upd_levels_def upd_dtd_def upd_transfer_def upd_nlp_def split_beta Let_def)

lemma rx_hpf_is16: "is16 rx \<Longrightarrow> is16 (snd (upd_rx_hpf rx ec))"
  by (simp add: upd_rx_hpf_def dc_filter_def split_beta Let_def i16_range)

lemma is16_half: "is16 x \<Longrightarrow> is16 (shr x 1)"
  by (auto simp: is16_def shr_def)

section \<open>The stages that touch memory\<close>

text \<open>
  The power in the delay line: the square of the new sample replaces that of the oldest one, in the average over
  \<open>2 ^ k\<close> taps, rounded.
\<close>

definition power_after :: "echo_can_state_t \<Rightarrow> int \<Rightarrow> int" where
  "power_after ec x =
     (let k = nat (ec_log2taps ec);
          d = x ^ 2 - last (delay_line (ec_fir_state ec)) ^ 2
      in max 0 (i32 (ec_Pstates ec + (d + 2 ^ (k - 1)) div 2 ^ k)))"

lemma power_ok:
  assumes "2 \<le> n" "n < 2 ^ 28" "core_ok n (core ec)" "is16 x"
  shows "upd_power x ec = Inr (ec\<lparr>ec_Pstates := power_after ec x\<rparr>)"
proof -
  obtain k where k: "ec_log2taps ec = int k" "1 \<le> k" "k \<le> 27"
    using log2taps_range [OF assms(1,2)] assms(3) that [of "nat (ec_log2taps ec)"] by (auto simp: core_ok_def core_def)
  obtain h where h: "fir_history (ec_fir_state ec) = Some h" "length h = n" "list_all is16 h"
      "0 \<le> fir_curr_pos (ec_fir_state ec)" "nat (fir_curr_pos (ec_fir_state ec)) < n" "fir_curr_pos (ec_fir_state ec) < int n"
    using assms(3) by (auto simp: core_ok_def core_def fir_ok_def arr_def)
  define y where "y = h ! nat (fir_curr_pos (ec_fir_state ec))"
  have l: "last (delay_line (ec_fir_state ec)) = y"
    using h(1,2,5) by (auto simp: delay_line_def line_def take_Suc_conv_app_nth y_def)
  have "is16 y" using h(2,3,5) by (simp add: list_all_length y_def)
  then have s: "0 \<le> x * x" "x * x \<le> 1073741824" "0 \<le> y * y" "y * y \<le> 1073741824"
    using assms(4) abs_le_square_iff [of x "2 ^ 15"] abs_le_square_iff [of y "2 ^ 15"] by (auto simp: is16_def power2_eq_square)
  have "(2 :: int) ^ (k - 1) \<le> 67108864" using k(3) power_increasing [of "k - 1" 26 "2 :: int"] by simp
  moreover have "(0 :: int) \<le> 2 ^ (k - 1)" by simp
  ultimately have "is32 (x * x - y * y)" "is32 (x * x - y * y + 2 ^ (k - 1))"
    using s unfolding is32_def by linarith+
  note i = this [THEN i32_id]
  show ?thesis using h k l i
    by (auto simp: upd_power_def bufp_def aget_def Let_def power_after_def power2_eq_square y_def [symmetric] shr_def shl_def nat_diff_distrib)
qed

text \<open>Both filters on the same sample, and the adaption of the second.\<close>

definition scale_shift :: "echo_can_state_t \<Rightarrow> int" where
  "scale_shift ec = 28 - (top_bit (word_of_int (i32 (64 + ec_Pstates ec))) + ec_log2taps ec)"

lemma lms_factor_returns: "-32 < s \<Longrightarrow> s < 32 \<Longrightarrow> \<exists>f. lms_factor c s = Inr f"
  by (auto simp: lms_factor_def)

lemma scale_shift_range:
  assumes "2 \<le> n" "n < 2 ^ 28" "core_ok n (core ec)"
  shows "-32 < scale_shift ec \<and> scale_shift ec < 32"
  using log2taps_range [OF assms(1,2)] assms(3) top_bit_range [of "word_of_int (i32 (64 + ec_Pstates ec))"]
  by (auto simp: core_ok_def core_def scale_shift_def)

lemma foreground_ok:
  assumes "core_ok n (core ec)" "is16 tx"
  shows "\<exists>f e. fir16 (ec_fir_taps16_0 ec) (ec_fir_state ec) tx = Inr (f, e) \<and> fir_ok n f \<and>
    fir_curr_pos f = roll (int n) (ec_curr_pos ec) \<and> delay_line f = tx # butlast (delay_line (ec_fir_state ec)) \<and>
    e = i16 (shr (i32 (convolve (ec_fir_taps16_0 ec) (delay_line f))) 15) \<and>
    fir_history f = map_option (\<lambda>h. h[nat (ec_curr_pos ec) := tx]) (fir_history (ec_fir_state ec))"
  using fir16_eq [of n "ec_fir_state ec" "ec_fir_taps16_0 ec" tx] assms by (auto simp: core_ok_def core_def arr_def)

lemma background_ok:
  assumes "core_ok n (core ec)" "is16 tx"
  shows "\<exists>g e h. fir16 (ec_fir_taps16_1 ec) (ec_fir_state_bg ec) tx = Inr (g, e) \<and> fir_ok n g \<and>
    fir_curr_pos g = roll (int n) (ec_curr_pos ec) \<and> delay_line g = tx # butlast (delay_line (ec_fir_state_bg ec)) \<and>
    e = i16 (shr (i32 (convolve (ec_fir_taps16_1 ec) (delay_line g))) 15) \<and>
    fir_history g = map_option (\<lambda>h. h[nat (ec_curr_pos ec) := tx]) (fir_history (ec_fir_state_bg ec)) \<and>
    fir_history g = Some h \<and> length h = n \<and> delay_line g = line h (nat (ec_curr_pos ec))"
  using fir16_eq [of n "ec_fir_state_bg ec" "ec_fir_taps16_1 ec" tx] assms by (fastforce simp: core_ok_def core_def arr_def fir_ok_def)

lemma adaption_ok:
  assumes "2 \<le> n" "n < 2 ^ 28" "core_ok n (core ec)" "fir_history g = Some h" "length h = n" "delay_line g = line h (nat (ec_curr_pos ec))"
    "ec_taps ec' = ec_taps ec" "ec_log2taps ec' = ec_log2taps ec" "ec_curr_pos ec' = ec_curr_pos ec"
    "ec_fir_state_bg ec' = g" "ec_fir_taps16_1 ec' = ec_fir_taps16_1 ec" "ec_Pstates ec' = ec_Pstates ec"
  shows "\<exists>s t. upd_adaption c ec' = Inr (ec'\<lparr>ec_factor := 0, ec_shift := s, ec_fir_taps16_1 := t\<rparr>) \<and> arr n t \<and>
    (ec_nonupdate_dwell ec' \<noteq> 0 \<longrightarrow> t = ec_fir_taps16_1 ec) \<and>
    (ec_nonupdate_dwell ec' = 0 \<longrightarrow> (\<exists>factor. lms_factor c (scale_shift ec') = Inr factor \<and>
      t = map (\<lambda>i. adapted factor (ec_fir_taps16_1 ec ! i) (delay_line g ! i)) [0..<n]))"
proof (cases "ec_nonupdate_dwell ec' = 0")
  case False
  then show ?thesis using assms(3,11) by (auto simp: upd_adaption_def Let_def core_ok_def core_def intro!: exI [of _ 0])
next
  case True
  have "scale_shift ec' = scale_shift ec" using assms by (simp add: scale_shift_def)
  then obtain factor where f: "lms_factor c (scale_shift ec') = Inr factor"
    using scale_shift_range [OF assms(1-3)] lms_factor_returns by metis
  define t where "t = map (\<lambda>i. adapted factor (ec_fir_taps16_1 ec ! i) (delay_line g ! i)) [0..<n]"
  obtain p where p: "ec_curr_pos ec = int p" "p < n" "ec_taps ec = int n" "length (ec_fir_taps16_1 ec) = n"
    using assms(3) by (auto simp: core_ok_def core_def fir_ok_def arr_def intro: that [of "nat (ec_curr_pos ec)"])
  have "lms_adapt_bg (ec_curr_pos ec') (ec_taps ec') (fir_history g) (ec_fir_taps16_1 ec') c (scale_shift ec') = Inr t"
    using lms_adapt_bg_eq [OF assms(5) p(4,2) f] p assms(4,6,7,9,11) by (simp add: t_def)
  then have "upd_adaption c ec' = Inr (ec'\<lparr>ec_factor := 0, ec_shift := i16 (scale_shift ec'), ec_fir_taps16_1 := t\<rparr>)"
    using True assms(10) by (simp add: upd_adaption_def Let_def scale_shift_def MIN_TX_POWER_FOR_ADAPTION_def)
  moreover have "arr n t" unfolding t_def by (rule arr_map) (simp_all add: adapted_def i16_range)
  ultimately show ?thesis using True f t_def by blast
qed

section \<open>A whole sample\<close>

definition fir_output :: "int list \<Rightarrow> int list \<Rightarrow> int" where
  "fir_output c x = i16 (shr (i32 (convolve c x)) 15)"

text \<open>
  What an update does, in terms of the delay line of the transmitted signal: \<open>x\<close> and \<open>r\<close> are the scaled (and
  filtered) samples. First the filters and the adaption. The residues decide what follows.
\<close>

definition filtered :: "nat \<Rightarrow> echo_can_state_t \<Rightarrow> int \<Rightarrow> int \<Rightarrow> echo_can_state_t \<Rightarrow> bool" where
  "filtered n ec x r ec' \<longleftrightarrow>
     (let d = x # butlast (delay_line (ec_fir_state ec));
          clean = r - fir_output (ec_fir_taps16_0 ec) d;
          clean_bg = r - fir_output (ec_fir_taps16_1 ec) d
      in delay_line (ec_fir_state ec') = d \<and> delay_line (ec_fir_state_bg ec') = d \<and> ec_clean ec' = i16 clean \<and>
         (if ec_nonupdate_dwell ec \<noteq> 0 then ec_fir_taps16_1 ec' = ec_fir_taps16_1 ec
          else \<exists>factor. lms_factor clean_bg (scale_shift ec') = Inr factor \<and>
            ec_fir_taps16_1 ec' = map (\<lambda>i. adapted factor (ec_fir_taps16_1 ec ! i) (d ! i)) [0..<n]))"

text \<open>The running average over about \<open>2 ^ k\<close> samples, in unbounded arithmetic.\<close>

definition average :: "nat \<Rightarrow> int \<Rightarrow> int \<times> int \<Rightarrow> int \<times> int" where
  "average k x al = (case al of (acc, lev) \<Rightarrow> (acc + x - lev, (acc + x - lev + 2 ^ (k - 1)) div 2 ^ k))"

definition averaged :: "echo_can_state_t \<Rightarrow> int \<Rightarrow> int \<Rightarrow> echo_can_state_t \<Rightarrow> bool" where
  "averaged ec x r ec' \<longleftrightarrow>
     (let d = x # butlast (delay_line (ec_fir_state ec)) in
      (ec_Ltxacc ec', ec_Ltx ec') = average 5 \<bar>x\<bar> (ec_Ltxacc ec, ec_Ltx ec) \<and>
      (ec_Lrxacc ec', ec_Lrx ec') = average 5 \<bar>r\<bar> (ec_Lrxacc ec, ec_Lrx ec) \<and>
      (ec_Lcleanacc ec', ec_Lclean ec') = average 5 \<bar>i16 (r - fir_output (ec_fir_taps16_0 ec) d)\<bar> (ec_Lcleanacc ec, ec_Lclean ec) \<and>
      (ec_Lclean_bgacc ec', ec_Lclean_bg ec') =
        average 5 \<bar>r - fir_output (ec_fir_taps16_1 ec) d\<bar> (ec_Lclean_bgacc ec, ec_Lclean_bg ec))"

text \<open>
  The transfer of coefficients, on the levels of the new state. A received signal that is louder than the transmitted one
  is double talk: no adaption for 600 samples. The background filter does better when its residue is below seven eighths
  of the other and below an eighth of the transmitted level, with no double talk.
\<close>

definition does_better :: "echo_can_state_t \<Rightarrow> bool" where
  "does_better ec' \<longleftrightarrow> bit (ec_adaption_mode ec') 0 \<and> ec_nonupdate_dwell ec' = 0 \<and>
     8 * ec_Lclean_bg ec' < 7 * ec_Lclean ec' \<and> 8 * ec_Lclean_bg ec' < ec_Ltx ec'"

definition transferred :: "echo_can_state_t \<Rightarrow> echo_can_state_t \<Rightarrow> bool" where
  "transferred ec ec' \<longleftrightarrow>
     ec_nonupdate_dwell ec' = (if ec_Lrx ec' > max 64 (ec_Ltx ec') then 599 else max 0 (ec_nonupdate_dwell ec - 1)) \<and>
     ec_cond_met ec' = (if does_better ec' then min 6 (ec_cond_met ec + 1) else 0) \<and>
     ec_adapt ec' = (if does_better ec' \<and> ec_cond_met ec = 6 then 1 else 0) \<and>
     ec_fir_taps16_0 ec' = (if does_better ec' \<and> ec_cond_met ec = 6 then ec_fir_taps16_1 ec' else ec_fir_taps16_0 ec)"

text \<open>
  The output. It is the received sample when the canceller is disabled. Without the non-linear processor, or when the
  residue is not small (a sixteenth of the transmitted level), it is the residue. Otherwise it is comfort noise, the residue
  limited to the level of the background noise, or silence. The background level follows the residue while that is quiet.
\<close>

definition processed :: "echo_can_state_t \<Rightarrow> int \<Rightarrow> echo_can_state_t \<Rightarrow> bool" where
  "processed ec r ec' \<longleftrightarrow>
     (let mode = ec_adaption_mode ec;
          small = (16 * ec_Lclean ec' < ec_Ltx ec')
      in ec_adaption_mode ec' = mode \<and>
         ec_clean_nlp ec' =
           (if bit mode 6 then r
            else if \<not> bit mode 1 \<or> \<not> small then ec_clean ec'
            else if bit mode 2 then i16 (shr (i32 (i32 (ec_cng_filter ec' * ec_Lbgn ec) * 8)) 14)
            else if bit mode 3 then max (- ec_Lbgn ec) (min (ec_Lbgn ec) (ec_clean ec'))
            else 0) \<and>
         (ec_Lbgn_acc ec', ec_Lbgn ec') =
           (if bit mode 1 \<and> \<not> small \<and> ec_Lclean ec' < 40 then average 12 \<bar>ec_clean ec'\<bar> (ec_Lbgn_acc ec, ec_Lbgn ec)
            else (ec_Lbgn_acc ec, ec_Lbgn ec)))"

definition update_spec :: "nat \<Rightarrow> echo_can_state_t \<Rightarrow> int \<Rightarrow> int \<Rightarrow> echo_can_state_t \<Rightarrow> bool" where
  "update_spec n ec x r ec' \<longleftrightarrow> ec_Pstates ec' = power_after ec x \<and> filtered n ec x r ec' \<and> averaged ec x r ec' \<and>
     transferred ec ec' \<and> processed ec r ec'"

text \<open>The averages do not overflow.\<close>

lemma level_average:
  assumes "level_ok k b (acc, lev)" "0 \<le> x" "x \<le> b" "(k, b) = (5, 65536) \<or> (k, b) = (12, 32768)"
  shows "level k x acc lev = average k x (acc, lev)" "level_ok k b (average k x (acc, lev))"
proof -
  have "0 \<le> acc + x - lev \<and> acc + x - lev \<le> b * 2 ^ k" "0 \<le> lev" "lev \<le> b" using assms by (auto simp: level_ok_def)
  moreover from this have "i32 (x - lev) = x - lev" "i32 (acc + x - lev) = acc + x - lev"
      "i32 (acc + x - lev + 2 ^ (k - 1)) = acc + x - lev + 2 ^ (k - 1)"
    using assms(2-4) by (auto intro!: i32_id simp: is32_def)
  ultimately show "level k x acc lev = average k x (acc, lev)" "level_ok k b (average k x (acc, lev))"
    by (simp_all add: add_diff_eq level_def average_def level_ok_def Let_def shr_def shl_def)
qed

lemma level_bounds: "level_ok k b (acc, lev) \<Longrightarrow> (k, b) = (5, 65536) \<or> (k, b) = (12, 32768) \<Longrightarrow> 0 \<le> lev \<and> lev \<le> b"
  by (auto simp: level_ok_def)

lemma levels_range:
  assumes "levels_ok (levels ec)"
  shows "0 \<le> ec_Ltx ec \<and> ec_Ltx ec \<le> 65536" "0 \<le> ec_Lrx ec \<and> ec_Lrx ec \<le> 65536" "0 \<le> ec_Lclean ec \<and> ec_Lclean ec \<le> 65536"
    "0 \<le> ec_Lclean_bg ec \<and> ec_Lclean_bg ec \<le> 65536" "0 \<le> ec_Lbgn ec \<and> ec_Lbgn ec \<le> 32768"
  using assms by (auto simp: levels_ok_def levels_def dest!: level_bounds)

lemma mode_bit: "(m AND 1 \<noteq> 0) = bit m 0" "(m AND 2 \<noteq> 0) = bit m 1" "(m AND 4 \<noteq> 0) = bit m 2" "(m AND 8 \<noteq> 0) = bit m 3" "(m AND 64 \<noteq> 0) = bit m 6"
  for m :: int
  using and_exp_eq_0_iff_not_bit [of m 0] and_exp_eq_0_iff_not_bit [of m 1] and_exp_eq_0_iff_not_bit [of m 2]
    and_exp_eq_0_iff_not_bit [of m 3] and_exp_eq_0_iff_not_bit [of m 6] by simp_all

lemma counters_ok:
  assumes "0 \<le> ec_nonupdate_dwell ec" "ec_nonupdate_dwell ec < DTD_HANGOVER" "0 \<le> ec_cond_met ec" "ec_cond_met ec \<le> 6"
  shows "0 \<le> ec_nonupdate_dwell (upd_transfer (upd_dtd ec))" "ec_nonupdate_dwell (upd_transfer (upd_dtd ec)) < DTD_HANGOVER"
    "0 \<le> ec_cond_met (upd_transfer (upd_dtd ec))" "ec_cond_met (upd_transfer (upd_dtd ec)) \<le> 6"
proof -
  have i: "i32 (ec_nonupdate_dwell ec - 1) = ec_nonupdate_dwell ec - 1" "i32 599 = 599"
    "i32 (ec_cond_met ec + 1) = ec_cond_met ec + 1"
    using assms by (simp_all add: i32_id is32_def DTD_HANGOVER_def)
  show "0 \<le> ec_nonupdate_dwell (upd_transfer (upd_dtd ec))" "ec_nonupdate_dwell (upd_transfer (upd_dtd ec)) < DTD_HANGOVER"
    "0 \<le> ec_cond_met (upd_transfer (upd_dtd ec))" "ec_cond_met (upd_transfer (upd_dtd ec)) \<le> 6"
    using assms by (auto simp: upd_transfer_def upd_dtd_def Let_def i DTD_HANGOVER_def)
qed

text \<open>The tail of the function, from the state after adaption on.\<close>

definition finish :: "int \<Rightarrow> echo_can_state_t \<Rightarrow> echo_can_state_t" where
  "finish r ec = upd_roll r (upd_nlp (upd_transfer (upd_dtd ec)))"

lemma nlp_fields [simp]:
  "ec_taps (upd_nlp ec) = ec_taps ec" "ec_log2taps (upd_nlp ec) = ec_log2taps ec" "ec_curr_pos (upd_nlp ec) = ec_curr_pos ec"
  "ec_fir_state (upd_nlp ec) = ec_fir_state ec" "ec_fir_state_bg (upd_nlp ec) = ec_fir_state_bg ec"
  "ec_fir_taps16_0 (upd_nlp ec) = ec_fir_taps16_0 ec" "ec_fir_taps16_1 (upd_nlp ec) = ec_fir_taps16_1 ec"
  using core_stages(5) [of ec] by (simp_all add: core_def)

lemma nlp_clean [simp]: "ec_clean (upd_nlp ec) = ec_clean ec"
  by (simp add: upd_nlp_def split_beta Let_def)

lemma finish_fields:
  "ec_taps (finish r ec) = ec_taps ec" "ec_log2taps (finish r ec) = ec_log2taps ec"
  "ec_curr_pos (finish r ec) = roll (ec_taps ec) (ec_curr_pos ec)" "ec_fir_state (finish r ec) = ec_fir_state ec"
  "ec_fir_state_bg (finish r ec) = ec_fir_state_bg ec" "ec_fir_taps16_1 (finish r ec) = ec_fir_taps16_1 ec"
  "ec_fir_taps16_0 (finish r ec) = ec_fir_taps16_0 (upd_transfer (upd_dtd ec))"
  "ec_clean (finish r ec) = ec_clean ec" "ec_Pstates (finish r ec) = ec_Pstates ec"
  by (simp_all add: finish_def upd_roll_def upd_transfer_def upd_dtd_def Let_def)

text \<open>The transfer and the non-linear processor, from the state \<open>ec\<close> after adaption.\<close>

lemma transfer_ok:
  assumes "levels_ok (levels ec)" "0 \<le> ec_nonupdate_dwell ec" "ec_nonupdate_dwell ec < DTD_HANGOVER" "0 \<le> ec_cond_met ec" "ec_cond_met ec \<le> 6"
  shows "transferred ec (upd_transfer (upd_dtd ec))"
proof -
  define ec1 where "ec1 = upd_dtd ec"
  have l: "ec_Ltx ec1 = ec_Ltx ec" "ec_Lrx ec1 = ec_Lrx ec" "ec_Lclean ec1 = ec_Lclean ec" "ec_Lclean_bg ec1 = ec_Lclean_bg ec"
    using levels_stages(4) [of ec] by (simp_all add: ec1_def levels_def)
  have f: "ec_cond_met ec1 = ec_cond_met ec" "ec_adapt ec1 = 0" "ec_fir_taps16_0 ec1 = ec_fir_taps16_0 ec"
    by (simp_all add: ec1_def upd_dtd_def Let_def)
  have "i32 (ec_nonupdate_dwell ec - 1) = ec_nonupdate_dwell ec - 1" "i32 599 = 599"
    using assms(2,3) by (simp_all add: i32_id is32_def DTD_HANGOVER_def)
  then have d: "ec_nonupdate_dwell ec1 = (if ec_Lrx ec > max 64 (ec_Ltx ec) then 599 else max 0 (ec_nonupdate_dwell ec - 1))"
    using assms(2) by (simp add: ec1_def upd_dtd_def Let_def DTD_HANGOVER_def MIN_RX_POWER_FOR_ADAPTION_def)
  have "i32 (8 * ec_Lclean_bg ec) = 8 * ec_Lclean_bg ec" "i32 (7 * ec_Lclean ec) = 7 * ec_Lclean ec"
    using levels_range(3,4) [OF assms(1)] by (auto intro!: i32_id simp: is32_def)
  then have b: "better ec1 = does_better ec1" by (simp add: better_def does_better_def l ECHO_CAN_USE_ADAPTION_def mode_bit)
  have c: "i32 (ec_cond_met ec + 1) = ec_cond_met ec + 1" using assms(4,5) by (auto intro!: i32_id simp: is32_def)
  have "does_better (upd_transfer ec1) = does_better ec1" "ec_nonupdate_dwell (upd_transfer ec1) = ec_nonupdate_dwell ec1"
      "ec_Lrx (upd_transfer ec1) = ec_Lrx ec" "ec_Ltx (upd_transfer ec1) = ec_Ltx ec"
    by (simp_all add: upd_transfer_def does_better_def l)
  moreover have "ec_cond_met (upd_transfer ec1) = (if does_better ec1 then min 6 (ec_cond_met ec + 1) else 0)"
      "ec_adapt (upd_transfer ec1) = (if does_better ec1 \<and> ec_cond_met ec = 6 then 1 else 0)"
      "ec_fir_taps16_0 (upd_transfer ec1) =
        (if does_better ec1 \<and> ec_cond_met ec = 6 then ec_fir_taps16_1 (upd_transfer ec1) else ec_fir_taps16_0 ec)"
    using assms(5) by (auto simp: upd_transfer_def b f c)
  ultimately show ?thesis unfolding ec1_def [symmetric] by (simp add: transferred_def d)
qed

lemma nlp_ok:
  assumes "levels_ok (levels ec)" "is16 (ec_clean ec)"
  shows "processed ec r (upd_roll r (upd_nlp ec))" "levels_ok (levels (upd_nlp ec))"
    "ec_Ltx (upd_nlp ec) = ec_Ltx ec" "ec_Lrx (upd_nlp ec) = ec_Lrx ec" "ec_Lclean (upd_nlp ec) = ec_Lclean ec"
    "ec_Lclean_bg (upd_nlp ec) = ec_Lclean_bg ec" "ec_adapt (upd_nlp ec) = ec_adapt ec"
    "ec_Ltxacc (upd_nlp ec) = ec_Ltxacc ec" "ec_Lrxacc (upd_nlp ec) = ec_Lrxacc ec" "ec_Lcleanacc (upd_nlp ec) = ec_Lcleanacc ec"
    "ec_Lclean_bgacc (upd_nlp ec) = ec_Lclean_bgacc ec"
proof -
  have i: "i32 (16 * ec_Lclean ec) = 16 * ec_Lclean ec" "i32 (- ec_Lbgn ec) = - ec_Lbgn ec" "i16 (- ec_Lbgn ec) = - ec_Lbgn ec"
    using levels_range(3,5) [OF assms(1)] by (auto intro!: i32_id i16_id simp: is32_def is16_def)
  have b: "i16 (ec_Lbgn ec) = ec_Lbgn ec" if "ec_Lbgn ec < ec_clean ec"
    using levels_range(5) [OF assms(1)] that assms(2) by (auto intro!: i16_id simp: is16_def)
  have a: "0 \<le> \<bar>ec_clean ec\<bar>" "\<bar>ec_clean ec\<bar> \<le> 32768" using assms(2) by (auto simp: is16_def)
  have "level_ok 12 32768 (ec_Lbgn_acc ec, ec_Lbgn ec)" using assms(1) by (simp add: levels_ok_def levels_def)
  note v = level_average [OF this a, simplified]
  note defs = upd_nlp_def Let_def split_beta ECHO_CAN_USE_NLP_def ECHO_CAN_USE_CNG_def ECHO_CAN_USE_CLIP_def ECHO_CAN_DISABLE_def
  show f: "ec_Ltx (upd_nlp ec) = ec_Ltx ec" "ec_Lrx (upd_nlp ec) = ec_Lrx ec" "ec_Lclean (upd_nlp ec) = ec_Lclean ec"
    "ec_Lclean_bg (upd_nlp ec) = ec_Lclean_bg ec" "ec_adapt (upd_nlp ec) = ec_adapt ec"
    "ec_Ltxacc (upd_nlp ec) = ec_Ltxacc ec" "ec_Lrxacc (upd_nlp ec) = ec_Lrxacc ec" "ec_Lcleanacc (upd_nlp ec) = ec_Lcleanacc ec"
    "ec_Lclean_bgacc (upd_nlp ec) = ec_Lclean_bgacc ec"
    by (simp_all add: upd_nlp_def Let_def split_beta)
  have g: "(ec_Lbgn_acc (upd_nlp ec), ec_Lbgn (upd_nlp ec)) =
      (if bit (ec_adaption_mode ec) 1 \<and> \<not> 16 * ec_Lclean ec < ec_Ltx ec \<and> ec_Lclean ec < 40
       then average 12 \<bar>ec_clean ec\<bar> (ec_Lbgn_acc ec, ec_Lbgn ec) else (ec_Lbgn_acc ec, ec_Lbgn ec))"
    using mode_bit(2) [of "ec_adaption_mode ec"] by (auto simp: defs i v)
  show "levels_ok (levels (upd_nlp ec))" using assms(1) v(2) by (simp add: levels_ok_def levels_def f g)
  have n: "ec_clean_nlp (upd_nlp ec) =
      (if \<not> bit (ec_adaption_mode ec) 1 \<or> \<not> 16 * ec_Lclean ec < ec_Ltx ec then ec_clean ec
       else if bit (ec_adaption_mode ec) 2 then i16 (shr (i32 (i32 (ec_cng_filter (upd_nlp ec) * ec_Lbgn ec) * 8)) 14)
       else if bit (ec_adaption_mode ec) 3 then max (- ec_Lbgn ec) (min (ec_Lbgn ec) (ec_clean ec)) else 0)"
    using mode_bit(2-4) [of "ec_adaption_mode ec"] levels_range(5) [OF assms(1)] b by (auto simp: defs i)
  have "ec_clean_nlp (upd_roll r (upd_nlp ec)) = (if bit (ec_adaption_mode ec) 6 then r else ec_clean_nlp (upd_nlp ec))"
      "ec_cng_filter (upd_roll r (upd_nlp ec)) = ec_cng_filter (upd_nlp ec)" "ec_adaption_mode (upd_roll r (upd_nlp ec)) = ec_adaption_mode ec"
      "ec_clean (upd_roll r (upd_nlp ec)) = ec_clean ec"
    using mode_bit(5) [of "ec_adaption_mode ec"] by (simp_all add: upd_roll_def Let_def ECHO_CAN_DISABLE_def)
  moreover have "levels (upd_roll r (upd_nlp ec)) = levels (upd_nlp ec)" by simp
  then have "ec_Lbgn_acc (upd_roll r (upd_nlp ec)) = ec_Lbgn_acc (upd_nlp ec)" "ec_Lbgn (upd_roll r (upd_nlp ec)) = ec_Lbgn (upd_nlp ec)"
      "ec_Lclean (upd_roll r (upd_nlp ec)) = ec_Lclean ec" "ec_Ltx (upd_roll r (upd_nlp ec)) = ec_Ltx ec"
    by (simp_all add: levels_def f)
  ultimately show "processed ec r (upd_roll r (upd_nlp ec))" using g n by (simp add: processed_def Let_def)
qed

lemma finish_ok:
  assumes "2 \<le> n" "n < 2 ^ 28" "ec_taps ec = int n" "ec_log2taps ec = top_bit (word_of_int (int n))"
    "fir_ok n (ec_fir_state ec)" "fir_ok n (ec_fir_state_bg ec)" "fir_curr_pos (ec_fir_state ec) = roll (int n) (ec_curr_pos ec)"
    "fir_curr_pos (ec_fir_state_bg ec) = roll (int n) (ec_curr_pos ec)" "fir_history (ec_fir_state ec) = fir_history (ec_fir_state_bg ec)"
    "arr n (ec_fir_taps16_0 ec)" "arr n (ec_fir_taps16_1 ec)" "0 \<le> ec_Pstates ec"
    "0 \<le> ec_nonupdate_dwell ec" "ec_nonupdate_dwell ec < DTD_HANGOVER" "0 \<le> ec_cond_met ec" "ec_cond_met ec \<le> 6"
    "levels_ok (levels ec)" "is16 (ec_clean ec)"
  shows "ec_ok n (finish r ec)" "transferred ec (finish r ec)" "processed ec r (finish r ec)"
    "ec_Ltx (finish r ec) = ec_Ltx ec" "ec_Lrx (finish r ec) = ec_Lrx ec" "ec_Lclean (finish r ec) = ec_Lclean ec"
    "ec_Lclean_bg (finish r ec) = ec_Lclean_bg ec" "ec_Ltxacc (finish r ec) = ec_Ltxacc ec" "ec_Lrxacc (finish r ec) = ec_Lrxacc ec"
    "ec_Lcleanacc (finish r ec) = ec_Lcleanacc ec" "ec_Lclean_bgacc (finish r ec) = ec_Lclean_bgacc ec"
proof -
  define ec1 where "ec1 = upd_transfer (upd_dtd ec)"
  have e: "finish r ec = upd_roll r (upd_nlp ec1)" by (simp add: finish_def ec1_def)
  have l: "levels ec1 = levels ec" by (simp add: ec1_def)
  then have l': "ec_Ltx ec1 = ec_Ltx ec" "ec_Lrx ec1 = ec_Lrx ec" "ec_Lclean ec1 = ec_Lclean ec" "ec_Lclean_bg ec1 = ec_Lclean_bg ec"
    "ec_Ltxacc ec1 = ec_Ltxacc ec" "ec_Lrxacc ec1 = ec_Lrxacc ec" "ec_Lcleanacc ec1 = ec_Lcleanacc ec"
    "ec_Lclean_bgacc ec1 = ec_Lclean_bgacc ec" "ec_Lbgn_acc ec1 = ec_Lbgn_acc ec" "ec_Lbgn ec1 = ec_Lbgn ec" by (simp_all add: levels_def)
  have c1: "ec_clean ec1 = ec_clean ec" by (simp add: ec1_def upd_transfer_def upd_dtd_def Let_def)
  have m: "ec_adaption_mode ec1 = ec_adaption_mode ec" by (simp add: ec1_def)
  note nl = nlp_ok [of ec1, unfolded l c1, OF assms(17,18)]
  have "levels (finish r ec) = levels (upd_nlp ec1)" unfolding e by simp
  then show v: "ec_Ltx (finish r ec) = ec_Ltx ec" "ec_Lrx (finish r ec) = ec_Lrx ec" "ec_Lclean (finish r ec) = ec_Lclean ec"
    "ec_Lclean_bg (finish r ec) = ec_Lclean_bg ec" "ec_Ltxacc (finish r ec) = ec_Ltxacc ec" "ec_Lrxacc (finish r ec) = ec_Lrxacc ec"
    "ec_Lcleanacc (finish r ec) = ec_Lcleanacc ec" "ec_Lclean_bgacc (finish r ec) = ec_Lclean_bgacc ec"
    using nl(3-11) by (simp_all add: levels_def l')
  have lo: "levels_ok (levels (finish r ec))" using nl(2) unfolding e by simp
  show "processed ec r (finish r ec)" using nl(1) [of r] unfolding e processed_def l' m .
  have "counters (finish r ec) = counters ec1" by (simp add: finish_def ec1_def)
  moreover have "ec_adapt (finish r ec) = ec_adapt ec1" using nl(7) unfolding e by (simp add: upd_roll_def Let_def)
  moreover have "ec_adaption_mode (finish r ec) = ec_adaption_mode ec1" unfolding e by (simp add: upd_roll_def Let_def)
  moreover have t: "transferred ec ec1" using transfer_ok [OF assms(17,13-16)] by (simp add: ec1_def)
  moreover have "ec_fir_taps16_1 ec1 = ec_fir_taps16_1 ec" by (simp add: ec1_def upd_transfer_def upd_dtd_def Let_def)
  ultimately show "transferred ec (finish r ec)"
    by (simp add: transferred_def does_better_def counters_def v l' finish_fields(6,7) ec1_def [symmetric])
  have "arr n (ec_fir_taps16_0 ec1)" using t assms(10,11) \<open>ec_fir_taps16_1 ec1 = _\<close> by (auto simp: transferred_def)
  then show "ec_ok n (finish r ec)"
    using assms(1-12) counters_ok [OF assms(13-16)] lo \<open>counters (finish r ec) = counters ec1\<close>
    by (auto simp: ec_ok_def core_ok_def core_def counters_def finish_fields ec1_def)
qed

text \<open>Both filters and the adaption, from the state \<open>ec\<close> after the power and level estimates.\<close>

lemma filters_ok:
  assumes n: "2 \<le> n" "n < 2 ^ 28" and k: "core_ok n (core ec)" and x: "is16 x"
  shows "\<exists>ec'. rbind (upd_foreground x r ec) (\<lambda>ec. rbind (upd_background x r ec) (\<lambda>(ec, c). upd_adaption c ec)) = Inr ec' \<and>
    ec_taps ec' = ec_taps ec \<and> ec_log2taps ec' = ec_log2taps ec \<and> ec_curr_pos ec' = ec_curr_pos ec \<and> ec_Pstates ec' = ec_Pstates ec \<and>
    counters ec' = counters ec \<and> ec_fir_taps16_0 ec' = ec_fir_taps16_0 ec \<and> arr n (ec_fir_taps16_1 ec') \<and>
    fir_ok n (ec_fir_state ec') \<and> fir_ok n (ec_fir_state_bg ec') \<and> fir_curr_pos (ec_fir_state ec') = roll (int n) (ec_curr_pos ec) \<and>
    fir_curr_pos (ec_fir_state_bg ec') = roll (int n) (ec_curr_pos ec) \<and> fir_history (ec_fir_state ec') = fir_history (ec_fir_state_bg ec') \<and>
    filtered n ec x r ec' \<and> ec_adaption_mode ec' = ec_adaption_mode ec \<and>
    (let d = x # butlast (delay_line (ec_fir_state ec)) in
     levels ec' = ((ec_Ltxacc ec, ec_Ltx ec), (ec_Lrxacc ec, ec_Lrx ec),
       level 5 \<bar>i16 (r - fir_output (ec_fir_taps16_0 ec) d)\<bar> (ec_Lcleanacc ec) (ec_Lclean ec),
       level 5 \<bar>r - fir_output (ec_fir_taps16_1 ec) d\<bar> (ec_Lclean_bgacc ec) (ec_Lclean_bg ec), (ec_Lbgn_acc ec, ec_Lbgn ec)))"
proof -
  obtain f e where F: "fir16 (ec_fir_taps16_0 ec) (ec_fir_state ec) x = Inr (f, e)" "fir_ok n f"
    "fir_curr_pos f = roll (int n) (ec_curr_pos ec)" "delay_line f = x # butlast (delay_line (ec_fir_state ec))"
    "e = fir_output (ec_fir_taps16_0 ec) (delay_line f)"
    "fir_history f = map_option (\<lambda>h. h[nat (ec_curr_pos ec) := x]) (fir_history (ec_fir_state ec))"
    using foreground_ok [OF k x] unfolding fir_output_def by blast
  obtain a l where A: "level 5 \<bar>i16 (r - e)\<bar> (ec_Lcleanacc ec) (ec_Lclean ec) = (a, l)" by fastforce
  define ec3 where "ec3 = ec\<lparr>ec_fir_state := f, ec_clean := i16 (r - e), ec_Lcleanacc := a, ec_Lclean := l\<rparr>"
  have 3: "upd_foreground x r ec = Inr ec3" by (simp add: upd_foreground_def F(1) A ec3_def Let_def)
  obtain g eb h where G: "fir16 (ec_fir_taps16_1 ec) (ec_fir_state_bg ec) x = Inr (g, eb)" "fir_ok n g"
    "fir_curr_pos g = roll (int n) (ec_curr_pos ec)" "delay_line g = x # butlast (delay_line (ec_fir_state_bg ec))"
    "eb = fir_output (ec_fir_taps16_1 ec) (delay_line g)"
    "fir_history g = map_option (\<lambda>h. h[nat (ec_curr_pos ec) := x]) (fir_history (ec_fir_state_bg ec))"
    "fir_history g = Some h" "length h = n" "delay_line g = line h (nat (ec_curr_pos ec))"
    using background_ok [OF k x] unfolding fir_output_def by blast
  obtain a' l' where B: "level 5 \<bar>r - eb\<bar> (ec_Lclean_bgacc ec3) (ec_Lclean_bg ec3) = (a', l')" by fastforce
  define ec4 where "ec4 = ec3\<lparr>ec_fir_state_bg := g, ec_Lclean_bgacc := a', ec_Lclean_bg := l'\<rparr>"
  have 4: "upd_background x r ec3 = Inr (ec4, r - eb)"
    using G(1) B by (simp add: upd_background_def ec4_def Let_def) (simp add: ec3_def)
  obtain s t where T: "upd_adaption (r - eb) ec4 = Inr (ec4\<lparr>ec_factor := 0, ec_shift := s, ec_fir_taps16_1 := t\<rparr>)" "arr n t"
    "ec_nonupdate_dwell ec4 \<noteq> 0 \<longrightarrow> t = ec_fir_taps16_1 ec"
    "ec_nonupdate_dwell ec4 = 0 \<longrightarrow> (\<exists>factor. lms_factor (r - eb) (scale_shift ec4) = Inr factor \<and>
      t = map (\<lambda>i. adapted factor (ec_fir_taps16_1 ec ! i) (delay_line g ! i)) [0..<n])"
    using adaption_ok [OF n k G(7-9), of ec4 "r - eb"] by (auto simp: ec4_def ec3_def)
  define ec5 where "ec5 = ec4\<lparr>ec_factor := 0, ec_shift := s, ec_fir_taps16_1 := t\<rparr>"
  have h: "fir_history (ec_fir_state ec) = fir_history (ec_fir_state_bg ec)" "fir_curr_pos (ec_fir_state ec) = fir_curr_pos (ec_fir_state_bg ec)"
    using k by (simp_all add: core_ok_def core_def)
  then have "delay_line (ec_fir_state ec) = delay_line (ec_fir_state_bg ec)" unfolding delay_line_def by (simp only:)
  then have d: "delay_line g = delay_line f" unfolding F(4) G(4) by simp
  have ss: "scale_shift ec5 = scale_shift ec4" by (simp add: scale_shift_def ec5_def)
  have "filtered n ec x r ec5"
    unfolding filtered_def Let_def ss using F(4,5) G(5) T(3,4) d by (simp add: ec5_def) (simp add: ec4_def ec3_def)
  moreover have "rbind (upd_foreground x r ec) (\<lambda>ec. rbind (upd_background x r ec) (\<lambda>(ec, c). upd_adaption c ec)) = Inr ec5"
    by (simp add: 3 4 T(1) ec5_def)
  moreover have "levels ec5 = ((ec_Ltxacc ec, ec_Ltx ec), (ec_Lrxacc ec, ec_Lrx ec), level 5 \<bar>i16 (r - e)\<bar> (ec_Lcleanacc ec) (ec_Lclean ec),
      level 5 \<bar>r - eb\<bar> (ec_Lclean_bgacc ec) (ec_Lclean_bg ec), (ec_Lbgn_acc ec, ec_Lbgn ec))"
    using A B by (simp add: ec5_def ec4_def ec3_def levels_def)
  moreover have "ec_adaption_mode ec5 = ec_adaption_mode ec" by (simp add: ec5_def ec4_def ec3_def)
  ultimately show ?thesis using F(2-6) G(2-6) T(2) h d unfolding Let_def
    by (intro exI [of _ ec5]) (simp add: ec5_def ec4_def ec3_def counters_def)
qed

lemma averaged_ok:
  assumes "levels_ok (levels ec)" "is16 x" "is16 r"
    "levels ec' = (level 5 \<bar>x\<bar> (ec_Ltxacc ec) (ec_Ltx ec), level 5 \<bar>r\<bar> (ec_Lrxacc ec) (ec_Lrx ec),
       level 5 \<bar>i16 (r - fir_output (ec_fir_taps16_0 ec) (x # butlast (delay_line (ec_fir_state ec))))\<bar> (ec_Lcleanacc ec) (ec_Lclean ec),
       level 5 \<bar>r - fir_output (ec_fir_taps16_1 ec) (x # butlast (delay_line (ec_fir_state ec)))\<bar> (ec_Lclean_bgacc ec) (ec_Lclean_bg ec),
       (ec_Lbgn_acc ec, ec_Lbgn ec))"
  shows "averaged ec x r ec'" "levels_ok (levels ec')" "(ec_Lbgn_acc ec', ec_Lbgn ec') = (ec_Lbgn_acc ec, ec_Lbgn ec)"
proof -
  define d where "d = x # butlast (delay_line (ec_fir_state ec))"
  have o: "is16 (fir_output c d)" for c by (simp add: fir_output_def i16_range)
  have b: "\<bar>x\<bar> \<le> 65536" "\<bar>r\<bar> \<le> 65536" "\<bar>i16 (r - fir_output (ec_fir_taps16_0 ec) d)\<bar> \<le> 65536" "\<bar>r - fir_output (ec_fir_taps16_1 ec) d\<bar> \<le> 65536"
    using assms(2,3) i16_range [of "r - fir_output (ec_fir_taps16_0 ec) d"] o [of "ec_fir_taps16_1 ec"] by (auto simp: is16_def)
  have l: "level_ok 5 65536 (ec_Ltxacc ec, ec_Ltx ec)" "level_ok 5 65536 (ec_Lrxacc ec, ec_Lrx ec)"
      "level_ok 5 65536 (ec_Lcleanacc ec, ec_Lclean ec)" "level_ok 5 65536 (ec_Lclean_bgacc ec, ec_Lclean_bg ec)"
    using assms(1) by (simp_all add: levels_ok_def levels_def)
  note a = level_average [OF l(1) abs_ge_zero b(1) disjI1 [OF refl]] level_average [OF l(2) abs_ge_zero b(2) disjI1 [OF refl]]
    level_average [OF l(3) abs_ge_zero b(3) disjI1 [OF refl]] level_average [OF l(4) abs_ge_zero b(4) disjI1 [OF refl]]
  show "levels_ok (levels ec')" using assms(1) unfolding assms(4) d_def [symmetric] a(1,3,5,7)
    by (simp add: levels_ok_def a(2,4,6,8)) (simp add: levels_def)
  have "levels ec' = (average 5 \<bar>x\<bar> (ec_Ltxacc ec, ec_Ltx ec), average 5 \<bar>r\<bar> (ec_Lrxacc ec, ec_Lrx ec),
      average 5 \<bar>i16 (r - fir_output (ec_fir_taps16_0 ec) d)\<bar> (ec_Lcleanacc ec, ec_Lclean ec),
      average 5 \<bar>r - fir_output (ec_fir_taps16_1 ec) d\<bar> (ec_Lclean_bgacc ec, ec_Lclean_bg ec), (ec_Lbgn_acc ec, ec_Lbgn ec))"
    unfolding assms(4) d_def [symmetric] a(1,3,5,7) ..
  then show "averaged ec x r ec'" "(ec_Lbgn_acc ec', ec_Lbgn ec') = (ec_Lbgn_acc ec, ec_Lbgn ec)"
    unfolding averaged_def Let_def d_def [symmetric] by (simp_all add: levels_def)
qed

lemma update_ok:
  assumes "ec_ok n ec" "is16 tx" "is16 rx"
  shows "\<exists>ec'. echo_can_update ec tx rx = Inr (ec', i16 (shl (ec_clean_nlp ec') 1)) \<and> ec_ok n ec' \<and>
    update_spec n ec (shr tx 1) (snd (upd_rx_hpf (shr rx 1) ec)) ec'"
proof -
  define ec1 where "ec1 = fst (upd_rx_hpf (shr rx 1) (ec\<lparr>ec_tx := tx, ec_rx := rx\<rparr>))"
  define r x where "r = snd (upd_rx_hpf (shr rx 1) ec)" and "x = shr tx 1"
  have r: "upd_rx_hpf (shr rx 1) (ec\<lparr>ec_tx := tx, ec_rx := rx\<rparr>) = (ec1, r)"
    by (simp add: r_def ec1_def prod_eq_iff) (simp add: upd_rx_hpf_def split_beta Let_def)
  have n: "2 \<le> n" "n < 2 ^ 28" and c: "core_ok n (core ec)" using assms(1) by (simp_all add: ec_ok_def)
  have c1: "core ec1 = core ec" "counters ec1 = counters ec" by (simp_all add: ec1_def)
  have x: "is16 x" and r16: "is16 r" using is16_half [OF assms(2)] rx_hpf_is16 [OF is16_half [OF assms(3)]] by (simp_all add: x_def r_def)
  define P where "P = power_after ec x"
  have "ec_Pstates ec1 = ec_Pstates ec" by (simp add: ec1_def upd_rx_hpf_def split_beta Let_def)
  then have p: "power_after ec1 x = P" using c1(1) unfolding power_after_def P_def core_def by simp
  have P: "0 \<le> P" "upd_power x ec1 = Inr (ec1\<lparr>ec_Pstates := P\<rparr>)"
    using power_ok [OF n c [folded c1(1)] x] p by (simp_all add: P_def power_after_def Let_def)
  define ec2 where "ec2 = upd_levels x r (ec1\<lparr>ec_Pstates := P\<rparr>)"
  have c2: "core ec2 = core ec" "counters ec2 = counters ec" "ec_Pstates ec2 = P" by (simp_all add: ec2_def c1)
  have lv: "levels_ok (levels ec)" using assms(1) by (simp add: ec_ok_def)
  have "levels ec1 = levels ec" by (simp add: ec1_def)
  then have v2: "levels ec2 = (level 5 \<bar>x\<bar> (ec_Ltxacc ec) (ec_Ltx ec), level 5 \<bar>r\<bar> (ec_Lrxacc ec) (ec_Lrx ec),
      (ec_Lcleanacc ec, ec_Lclean ec), (ec_Lclean_bgacc ec, ec_Lclean_bg ec), (ec_Lbgn_acc ec, ec_Lbgn ec))"
    by (simp add: ec2_def upd_levels_def levels_def split_beta Let_def)
  have k: "core_ok n (core ec2)" using c c2(1) by simp
  obtain ec5 where M: "rbind (upd_foreground x r ec2) (\<lambda>ec. rbind (upd_background x r ec) (\<lambda>(ec, c). upd_adaption c ec)) = Inr ec5"
    "ec_taps ec5 = ec_taps ec2" "ec_log2taps ec5 = ec_log2taps ec2" "ec_curr_pos ec5 = ec_curr_pos ec2" "ec_Pstates ec5 = P"
    "counters ec5 = counters ec" "ec_fir_taps16_0 ec5 = ec_fir_taps16_0 ec2" "arr n (ec_fir_taps16_1 ec5)" "fir_ok n (ec_fir_state ec5)"
    "fir_ok n (ec_fir_state_bg ec5)" "fir_curr_pos (ec_fir_state ec5) = roll (int n) (ec_curr_pos ec2)"
    "fir_curr_pos (ec_fir_state_bg ec5) = roll (int n) (ec_curr_pos ec2)"
    "fir_history (ec_fir_state ec5) = fir_history (ec_fir_state_bg ec5)" "filtered n ec2 x r ec5"
    "ec_adaption_mode ec5 = ec_adaption_mode ec2" "levels ec5 = ((ec_Ltxacc ec2, ec_Ltx ec2), (ec_Lrxacc ec2, ec_Lrx ec2),
       level 5 \<bar>i16 (r - fir_output (ec_fir_taps16_0 ec2) (x # butlast (delay_line (ec_fir_state ec2))))\<bar> (ec_Lcleanacc ec2) (ec_Lclean ec2),
       level 5 \<bar>r - fir_output (ec_fir_taps16_1 ec2) (x # butlast (delay_line (ec_fir_state ec2)))\<bar> (ec_Lclean_bgacc ec2) (ec_Lclean_bg ec2),
       (ec_Lbgn_acc ec2, ec_Lbgn ec2))"
    using filters_ok [OF n k x, of r] c2(2,3) unfolding Let_def by auto
  have E: "echo_can_update ec tx rx = Inr (finish r ec5, i16 (shl (ec_clean_nlp (finish r ec5)) 1))"
    using M(1) unfolding echo_can_update_def Let_def x_def [symmetric] r split_conv P(2) rbind_simps ec2_def [symmetric] finish_def [symmetric]
    by (auto simp: rbind_eq_Inr_iff split_beta)
  have k2: "ec_taps ec2 = int n" "ec_log2taps ec2 = top_bit (word_of_int (int n))" "arr n (ec_fir_taps16_0 ec2)"
    using k by (simp_all add: core_ok_def core_def)
  have cn: "ec_nonupdate_dwell ec5 = ec_nonupdate_dwell ec" "ec_cond_met ec5 = ec_cond_met ec"
    using M(6) by (simp_all add: counters_def)
  have co: "ec_fir_state ec2 = ec_fir_state ec" "ec_fir_taps16_0 ec2 = ec_fir_taps16_0 ec" "ec_fir_taps16_1 ec2 = ec_fir_taps16_1 ec"
    using c2(1) by (simp_all add: core_def)
  have av: "averaged ec x r ec5" "levels_ok (levels ec5)" "(ec_Lbgn_acc ec5, ec_Lbgn ec5) = (ec_Lbgn_acc ec, ec_Lbgn ec)"
    by (rule averaged_ok [OF lv x r16]; use M(16) v2 co in \<open>simp add: levels_def\<close>)+
  have cl: "is16 (ec_clean ec5)" using M(14) by (simp add: filtered_def Let_def i16_range)
  have nz: "ec_adaption_mode ec5 = ec_adaption_mode ec" using M(15) by (simp add: ec2_def ec1_def)
  note fin = finish_ok [of n ec5 r]
  have *: "ec_ok n (finish r ec5)" "transferred ec5 (finish r ec5)" "processed ec5 r (finish r ec5)"
    "ec_Ltx (finish r ec5) = ec_Ltx ec5" "ec_Lrx (finish r ec5) = ec_Lrx ec5" "ec_Lclean (finish r ec5) = ec_Lclean ec5"
    "ec_Lclean_bg (finish r ec5) = ec_Lclean_bg ec5" "ec_Ltxacc (finish r ec5) = ec_Ltxacc ec5" "ec_Lrxacc (finish r ec5) = ec_Lrxacc ec5"
    "ec_Lcleanacc (finish r ec5) = ec_Lcleanacc ec5" "ec_Lclean_bgacc (finish r ec5) = ec_Lclean_bgacc ec5"
    by (rule fin; use n k2 M(2-13) P assms(1) cn av(2) cl in \<open>simp add: ec_ok_def\<close>)+
  have bg: "ec_Lbgn_acc ec5 = ec_Lbgn_acc ec" "ec_Lbgn ec5 = ec_Lbgn ec" using av(3) by simp_all
  have ss: "scale_shift (finish r ec5) = scale_shift ec5" by (simp add: scale_shift_def finish_fields)
  have "filtered n ec x r (finish r ec5)"
    using M(14) c2(2) ss unfolding filtered_def Let_def finish_fields(4-6,8) co by (simp add: counters_def)
  moreover have "averaged ec x r (finish r ec5)" using av(1) by (simp add: averaged_def *)
  moreover have "transferred ec (finish r ec5)" using *(2) cn M(7) co by (simp add: transferred_def)
  moreover have "processed ec r (finish r ec5)" using *(3) unfolding processed_def nz bg .
  ultimately have "update_spec n ec x r (finish r ec5)"
    using M(5) by (simp add: update_spec_def finish_fields(9) P_def)
  moreover note *(1)
  ultimately show ?thesis using E unfolding r_def x_def by blast
qed

section \<open>Properties\<close>

text \<open>
  C9. One sample through the canceller. In a well-formed state (both filters with the same history, at the canceller's own
  position, arrays of the length of the filter, averages in range) and for every 16-bit pair of samples the update returns
  without a fault and the state is well-formed again. In terms of the delay line of the last transmitted samples: both filters have
  shifted in the new sample; the cleaned signal is the received sample less the convolution with the foreground coefficients; each background
  coefficient is adapted by exactly the sample it was multiplied by, unless double talk has stopped adaption. The four levels are running averages,
  with no overflow. The counter goes up, to six at most, exactly if the background filter did better (its level below
  seven eighths of the foreground's and an eighth of the transmitted one, no double talk, adaption switched on), and back to zero otherwise; the
  foreground coefficients are replaced by the background ones exactly if it did better and the counter already was six,
  and are unchanged otherwise. The output is the residue, the limited residue, noise, silence or the received sample, by the
  mode and the levels.
\<close>

theorem echo_update_refines:
  assumes "ec_ok n ec" "is16 tx" "is16 rx"
  shows "\<exists>ec'. echo_can_update ec tx rx = Inr (ec', i16 (shl (ec_clean_nlp ec') 1)) \<and> ec_ok n ec' \<and>
    update_spec n ec (shr tx 1) (snd (upd_rx_hpf (shr rx 1) ec)) ec'"
  using assms by (rule update_ok)

lemma echo_can_create_ok:
  assumes "2 \<le> n" "n < 2 ^ 28" "\<forall>k. alloc k"
  shows "\<exists>ec. echo_can_create alloc (int n) mode = Inr (Some ec) \<and> ec_ok n ec \<and> ec_adaption_mode ec = mode"
  using assms fir_ok_create(1) [of n] arr_replicate
  by (simp add: echo_can_create_def ec_ok_def core_ok_def core_def fir16_create_def DTD_HANGOVER_def levels_ok_def levels_def level_ok_def)

lemma echo_can_flush_ok:
  assumes "ec_ok n ec"
  shows "\<exists>ec'. echo_can_flush ec = Inr ec' \<and> ec_ok n ec'"
  using assms arr_replicate
  by (auto simp: echo_can_flush_def fir16_flush_def bufp_def ec_ok_def core_ok_def core_def fir_ok_def arr_length DTD_HANGOVER_def levels_ok_def levels_def level_ok_def)

definition demo_canceller :: "echo_can_state_t" where
  "demo_canceller = (case echo_can_create (\<lambda>_. True) 8 3 of Inr (Some ec) \<Rightarrow> ec)"

lemma demo_canceller_ok: "ec_ok 8 demo_canceller"
  using echo_can_create_ok [of 8 "\<lambda>_. True" 3] by (auto simp: demo_canceller_def)

theorem echo_update_refines_witness:
  "\<exists>ec'. echo_can_update demo_canceller 5000 (-32768) = Inr (ec', i16 (shl (ec_clean_nlp ec') 1)) \<and> ec_ok 8 ec' \<and>
    ec_clean ec' = -16384 \<and> ec_Lrx ec' = 512 \<and> ec_nonupdate_dwell ec' = 599 \<and> ec_cond_met ec' = 0 \<and>
    ec_fir_taps16_0 ec' = replicate 8 0"
proof -
  have d: "ec_Lrxacc demo_canceller = 0" "ec_Lrx demo_canceller = 0" "ec_Ltxacc demo_canceller = 0" "ec_Ltx demo_canceller = 0"
    "ec_adaption_mode demo_canceller = 3" "ec_fir_taps16_0 demo_canceller = replicate 8 0" "ec_cond_met demo_canceller = 0"
    by (simp_all add: demo_canceller_def echo_can_create_def)
  have "fir_output (replicate 8 0) x = 0" for x
    by (simp add: fir_output_def convolve_def i32_def shr_def i16_def upt_rec numeral_eq_Suc)
  with echo_update_refines [OF demo_canceller_ok, of 5000 "-32768"] show ?thesis
    by (auto simp: is16_def shr_def i16_def update_spec_def filtered_def averaged_def average_def transferred_def does_better_def
      upd_rx_hpf_def ECHO_CAN_USE_RX_HPF_def d Let_def)
qed

text \<open>The canceller on a sequence of pairs of transmitted and received samples.\<close>

fun echo_run :: "echo_can_state_t \<Rightarrow> (int \<times> int) list \<Rightarrow> (echo_can_state_t \<times> int list) res" where
  "echo_run ec [] = Inr (ec, [])"
| "echo_run ec ((tx, rx) # ps) =
     rbind (echo_can_update ec tx rx) (\<lambda>(ec, y). rbind (echo_run ec ps) (\<lambda>(ec, ys). Inr (ec, y # ys)))"

lemma echo_run_ok:
  assumes "ec_ok n ec" "list_all (\<lambda>(tx, rx). is16 tx \<and> is16 rx) ps"
  shows "\<exists>ec' ys. echo_run ec ps = Inr (ec', ys) \<and> ec_ok n ec' \<and> length ys = length ps \<and> list_all is16 ys"
  using assms
proof (induction ps arbitrary: ec)
  case (Cons p ps)
  obtain tx rx where p: "p = (tx, rx)" "is16 tx" "is16 rx" using Cons.prems(2) by (cases p) auto
  obtain ec1 where "echo_can_update ec tx rx = Inr (ec1, i16 (shl (ec_clean_nlp ec1) 1))" "ec_ok n ec1"
    using update_ok [OF Cons.prems(1) p(2,3)] by blast
  then show ?case using Cons.IH [of ec1] Cons.prems(2) p(1) by (auto simp: i16_range)
qed simp

text \<open>
  A new canceller with 2 to \<open>2 ^ 28 - 1\<close> taps runs for ever: on every sequence of 16-bit samples, in every mode, each
  update returns a 16-bit sample, with no access out of bounds and no shift out of range.
\<close>

lemma echo_canceller_runs:
  assumes "2 \<le> n" "n < 2 ^ 28" "list_all (\<lambda>(tx, rx). is16 tx \<and> is16 rx) ps"
  shows "\<exists>ec ec' ys. echo_can_create (\<lambda>_. True) (int n) mode = Inr (Some ec) \<and> echo_run ec ps = Inr (ec', ys) \<and>
    length ys = length ps \<and> list_all is16 ys"
  using echo_can_create_ok [OF assms(1,2), of "\<lambda>_. True" mode] echo_run_ok [OF _ assms(3)] by blast

lemma echo_canceller_runs_witness:
  "\<exists>ec ec' ys. echo_can_create (\<lambda>_. True) 256 39 = Inr (Some ec) \<and> echo_run ec [(32767, -32768), (5, 6)] = Inr (ec', ys) \<and> length ys = 2"
  using echo_canceller_runs [of 256 "[(32767, -32768), (5, 6)]" 39] by (auto simp: is16_def)

text \<open>
  The two degenerate lengths: with one tap the logarithm of the length is zero and the rounding constant is shifted by minus one; with none
  the position is minus one.
\<close>

lemma echo_short_filter_faults:
  "echo_can_create (\<lambda>_. True) 1 mode = Inr (Some ec) \<Longrightarrow> echo_can_update ec tx rx = Inl BadShift"
  "echo_can_create (\<lambda>_. True) 0 mode = Inr (Some ec) \<Longrightarrow> echo_can_update ec tx rx = Inl OutOfBounds"
proof -
  have t: "top_bit 1 = 0" by (simp add: top_bit_def top_bit_step_def)
  show "echo_can_create (\<lambda>_. True) 1 mode = Inr (Some ec) \<Longrightarrow> echo_can_update ec tx rx = Inl BadShift"
    by (auto simp: echo_can_create_def echo_can_update_def upd_rx_hpf_def upd_power_def split_beta Let_def fir16_create_def bufp_def aget_def t)
  show "echo_can_create (\<lambda>_. True) 0 mode = Inr (Some ec) \<Longrightarrow> echo_can_update ec tx rx = Inl OutOfBounds"
    by (auto simp: echo_can_create_def echo_can_update_def upd_rx_hpf_def upd_power_def split_beta Let_def fir16_create_def bufp_def aget_def)
qed

end
