(* ===== verification/Echo_Jni.thy ===== *)
theory Echo_Jni
  imports Echo_Can
begin

text \<open>
  The native methods of \<open>org.servalproject.audio.Oslec\<close>, \<^verbatim>\<open>src/jni/oslec-jni/jni.c\<close>. A Java array of bytes is a list of
  integers from 0 to 255, a null reference is \<open>None\<close>; the samples in it are little endian. The methods work on the
  elements of the arrays and release them at the end. Whether \<open>GetByteArrayElements\<close> returns a pointer, and whether
  two references are to the same array and the virtual machine then pins it or makes two copies, are parameters.
  The debugging routine \<open>dump\<close> is not modelled.
\<close>

definition sample_at :: "int list \<Rightarrow> int \<Rightarrow> int res" where
  "sample_at bs k = rbind (aget bs k) (\<lambda>lo. rbind (aget bs (k + 1)) (\<lambda>hi. Inr (i16 (lo + 256 * hi))))"

definition put_sample :: "int list \<Rightarrow> int \<Rightarrow> int \<Rightarrow> int list res" where
  "put_sample bs k x = rbind (aput bs k (x mod 256)) (\<lambda>bs. aput bs (k + 1) (x div 256 mod 256))"

text \<open>
  The two arrays: different ones, or the same one, either pinned (one buffer) or copied (a buffer for each reference).
\<close>

datatype jarrays = Distinct | Same_Pinned | Same_Copied

text \<open>
  The loop from \<open>i\<close> on, for \<open>m\<close> samples: the state, the received elements and the flag \<open>modified\<close>. In a shared buffer the transmitted
  samples are read from the received elements.
\<close>

fun echo_loop :: "nat \<Rightarrow> nat \<Rightarrow> bool \<Rightarrow> int list option \<Rightarrow> int \<Rightarrow> int \<Rightarrow> echo_can_state_t \<times> int list option \<times> int
    \<Rightarrow> (echo_can_state_t \<times> int list option \<times> int) res" where
  "echo_loop 0 i shared txArray txOffset rxOffset st = Inr st"
| "echo_loop (Suc m) i shared txArray txOffset rxOffset (ec, rxArray, modified) =
     rbind (case if shared then rxArray else txArray of None \<Rightarrow> Inr 0 | Some bs \<Rightarrow> sample_at bs (txOffset + 2 * int i)) (\<lambda>tx.
     rbind (case rxArray of None \<Rightarrow> Inr 0 | Some bs \<Rightarrow> sample_at bs (rxOffset + 2 * int i)) (\<lambda>rx.
     rbind (echo_can_update ec tx rx) (\<lambda>(ec, x).
     rbind (case rxArray of
              None \<Rightarrow> Inr (rxArray, modified)
            | Some bs \<Rightarrow> if rx \<noteq> x then rbind (put_sample bs (rxOffset + 2 * int i) x) (\<lambda>bs. Inr (Some bs, 1))
                         else Inr (rxArray, modified)) (\<lambda>(rxArray, modified).
     echo_loop m (Suc i) shared txArray txOffset rxOffset (ec, rxArray, modified)))))"

text \<open>The test of an offset and length against an array; the sum is one of 32-bit integers.\<close>

definition bad_range :: "int list option \<Rightarrow> int \<Rightarrow> int \<Rightarrow> bool" where
  "bad_range a off len = (case a of None \<Rightarrow> False | Some bs \<Rightarrow> off < 0 \<or> i32 (off + len) > int (length bs))"

text \<open>
  \<open>rx_elems\<close> and \<open>tx_elems\<close> say whether the elements could be obtained; a null pointer is not checked for. The received array is released first:
  of two copies of the same array the transmitted one, which the loop has not changed, is what remains.
\<close>

definition echoCanUpdate :: "jarrays \<Rightarrow> bool \<Rightarrow> bool \<Rightarrow> echo_can_state_t \<Rightarrow> int list option \<Rightarrow> int \<Rightarrow> int list option \<Rightarrow> int \<Rightarrow> int
    \<Rightarrow> (echo_can_state_t \<times> int list option \<times> int) res" where
  "echoCanUpdate arrays rx_elems tx_elems ec txArray txOffset rxArray rxOffset len =
     (if len < 0 then Inr (ec, rxArray, -1)
      else if bad_range rxArray rxOffset len then Inr (ec, rxArray, -1)
      else if bad_range txArray txOffset len then Inr (ec, rxArray, -1)
      else if rxArray \<noteq> None \<and> \<not> rx_elems \<or> txArray \<noteq> None \<and> \<not> tx_elems then Inl NullDeref
      else rbind (echo_loop (nat (len div 2)) 0 (arrays = Same_Pinned) txArray txOffset rxOffset (ec, rxArray, 0)) (\<lambda>(ec, rx, modified).
           Inr (ec, if arrays = Same_Copied then txArray else rx, modified)))"

definition echoCanInit :: "(nat \<Rightarrow> bool) \<Rightarrow> int \<Rightarrow> int \<Rightarrow> echo_can_state_t option res" where
  "echoCanInit alloc len mode = echo_can_create alloc len mode"

section \<open>Samples in a byte array\<close>

definition fits :: "int list option \<Rightarrow> int \<Rightarrow> int \<Rightarrow> bool" where
  "fits a off k \<longleftrightarrow> (case a of None \<Rightarrow> True | Some bs \<Rightarrow> 0 \<le> off \<and> off + k \<le> int (length bs))"

definition sample :: "int list \<Rightarrow> int \<Rightarrow> int" where
  "sample bs k = i16 (bs ! nat k + 256 * bs ! nat (k + 1))"

definition samples :: "int list \<Rightarrow> int \<Rightarrow> nat \<Rightarrow> int list" where
  "samples bs off m = map (\<lambda>i. sample bs (off + 2 * int i)) [0..<m]"

lemma samples_Suc: "samples bs off (Suc m) = sample bs off # samples bs (off + 2) m"
  unfolding samples_def upt_conv_Cons [OF zero_less_Suc] map_Suc_upt [symmetric] by (simp add: algebra_simps)

lemma samples_is16: "list_all is16 (samples bs off m)"
  by (simp add: samples_def sample_def i16_range list_all_iff)

lemma samples_cong:
  assumes "\<And>j. off \<le> int j \<Longrightarrow> int j < off + 2 * int m \<Longrightarrow> bs ! j = cs ! j" "0 \<le> off"
  shows "samples bs off m = samples cs off m"
proof -
  have "sample bs (off + 2 * int i) = sample cs (off + 2 * int i)" if "i < m" for i
    using assms(1) [of "nat (off + 2 * int i)"] assms(1) [of "nat (off + 2 * int i + 1)"] assms(2) that by (simp add: sample_def)
  then show ?thesis by (simp add: samples_def)
qed

lemma sample_at_ok: "0 \<le> k \<Longrightarrow> k + 2 \<le> int (length bs) \<Longrightarrow> sample_at bs k = Inr (sample bs k)"
  by (simp add: sample_at_def aget_def sample_def)

lemma put_sample_ok:
  assumes "0 \<le> k" "k + 2 \<le> int (length bs)"
  shows "\<exists>bs'. put_sample bs k x = Inr bs' \<and> length bs' = length bs \<and>
    (\<forall>j. int j < k \<or> k + 2 \<le> int j \<longrightarrow> bs' ! j = bs ! j)"
  using assms by (auto simp: put_sample_def aput_def nth_list_update)

text \<open>The samples written are read back.\<close>

lemma sample_put:
  assumes "0 \<le> k" "k + 2 \<le> int (length bs)" "is16 x"
  shows "rbind (put_sample bs k x) (\<lambda>bs. sample_at bs k) = Inr x"
proof -
  have "nat (k + 1) = Suc (nat k)" using assms(1) by simp
  moreover have "x mod 256 + 256 * (x div 256 mod 256) = x mod 65536"
    using zmod_zmult2_eq [of 256 x 256] by simp
  moreover have "i16 (x mod 65536) = x" using i16_id [OF assms(3)] by (simp add: i16_def mod_add_left_eq)
  ultimately show ?thesis using assms(1,2) by (simp add: put_sample_def sample_at_def aput_def aget_def)
qed

text \<open>One round in two different arrays.\<close>

lemma write_back:
  assumes "0 \<le> k" "k + 2 \<le> int (length bs)" "is16 x"
  obtains bs' where "(if sample bs k \<noteq> x then rbind (put_sample bs k x) (\<lambda>bs. Inr (Some bs, 1)) else Inr (Some bs, modified)) =
      Inr (Some bs', if x = sample bs k then modified else (1 :: int))"
    "length bs' = length bs" "sample bs' k = x" "x = sample bs k \<Longrightarrow> bs' = bs" "\<And>j. int j < k \<or> k + 2 \<le> int j \<Longrightarrow> bs' ! j = bs ! j"
proof (cases "x = sample bs k")
  case False
  obtain bs' where w: "put_sample bs k x = Inr bs'" "length bs' = length bs" "\<forall>j. int j < k \<or> k + 2 \<le> int j \<longrightarrow> bs' ! j = bs ! j"
    using put_sample_ok [OF assms(1,2)] by blast
  have "sample bs' k = x" using sample_put [OF assms] w(1) sample_at_ok [of k bs'] assms(1,2) w(2) by simp
  then show ?thesis by (rule that [of bs', rotated 2]) (use False w in auto)
next
  case True
  show ?thesis by (rule that [of bs]) (use True in simp_all)
qed

definition heard :: "int list option \<Rightarrow> int \<Rightarrow> nat \<Rightarrow> int list" where
  "heard a off m = (case a of None \<Rightarrow> replicate m 0 | Some bs \<Rightarrow> samples bs off m)"

lemma heard_Suc:
  assumes "fits a off (2 * int (Suc m))"
  shows "(case a of None \<Rightarrow> Inr 0 | Some bs \<Rightarrow> sample_at bs off) = Inr (hd (heard a off (Suc m)))" "is16 (hd (heard a off (Suc m)))"
    "heard a off (Suc m) = hd (heard a off (Suc m)) # heard a (off + 2) m"
  using assms sample_at_ok [of off] arr_is16(1) by (auto simp: heard_def fits_def samples_Suc sample_def i16_range split: option.splits)

text \<open>
  The loop is the canceller's run over the samples of both arrays, the outputs replace the received samples, all other bytes are
  kept, and the flag says whether an output differs.
\<close>

lemma echo_loop_run:
  assumes "ec_ok n ec" "fits txArray (txOffset + 2 * int i) (2 * int m)" "fits (Some bs) (rxOffset + 2 * int i) (2 * int m)"
  shows "\<exists>ec' ys bs'. echo_loop m i False txArray txOffset rxOffset (ec, Some bs, modified) =
      Inr (ec', Some bs', if ys = samples bs (rxOffset + 2 * int i) m then modified else 1) \<and>
    echo_run ec (zip (heard txArray (txOffset + 2 * int i) m) (samples bs (rxOffset + 2 * int i) m)) = Inr (ec', ys) \<and> ec_ok n ec' \<and>
    length bs' = length bs \<and> samples bs' (rxOffset + 2 * int i) m = ys \<and> (ys = samples bs (rxOffset + 2 * int i) m \<longrightarrow> bs' = bs) \<and>
    (\<forall>j. int j < rxOffset + 2 * int i \<or> rxOffset + 2 * int i + 2 * int m \<le> int j \<longrightarrow> bs' ! j = bs ! j)"
  using assms
proof (induction m arbitrary: i ec bs modified)
  case 0
  then show ?case by (simp add: samples_def)
next
  case (Suc m)
  define k where "k = rxOffset + 2 * int i"
  define tx where "tx = hd (heard txArray (txOffset + 2 * int i) (Suc m))"
  note h = heard_Suc [OF Suc.prems(2), folded tx_def]
  have b: "0 \<le> k" "k + 2 \<le> int (length bs)" "k + 2 = rxOffset + 2 * int (Suc i)" using Suc.prems(3) by (auto simp: fits_def k_def)
  have r: "sample_at bs k = Inr (sample bs k)" "is16 (sample bs k)" using sample_at_ok [OF b(1,2)] by (simp_all add: sample_def i16_range)
  obtain ec1 x where u: "echo_can_update ec tx (sample bs k) = Inr (ec1, x)" "ec_ok n ec1" "is16 x"
    using update_ok [OF Suc.prems(1) h(2) r(2)] i16_range by blast
  obtain bs1 where w: "(if sample bs k \<noteq> x then rbind (put_sample bs k x) (\<lambda>bs. Inr (Some bs, 1)) else Inr (Some bs, modified)) =
      Inr (Some bs1, if x = sample bs k then modified else (1 :: int))" "length bs1 = length bs" "sample bs1 k = x" "x = sample bs k \<Longrightarrow> bs1 = bs"
    "\<And>j. int j < k \<or> k + 2 \<le> int j \<Longrightarrow> bs1 ! j = bs ! j" by (rule write_back [OF b(1,2) u(3), of modified], rule that)
  have f: "fits txArray (txOffset + 2 * int (Suc i)) (2 * int m)" "fits (Some bs1) (rxOffset + 2 * int (Suc i)) (2 * int m)"
    using Suc.prems(2,3) w(2) by (simp_all add: fits_def split: option.splits)
  obtain ec' ys bs' where L: "echo_loop m (Suc i) False txArray txOffset rxOffset (ec1, Some bs1, if x = sample bs k then modified else 1) =
      Inr (ec', Some bs', if ys = samples bs1 (k + 2) m then if x = sample bs k then modified else 1 else 1)"
    "echo_run ec1 (zip (heard txArray (txOffset + 2 * int i + 2) m) (samples bs1 (k + 2) m)) = Inr (ec', ys)" "ec_ok n ec'"
    "length bs' = length bs1" "samples bs' (k + 2) m = ys" "ys = samples bs1 (k + 2) m \<longrightarrow> bs' = bs1"
    "\<forall>j. int j < k + 2 \<or> k + 2 + 2 * int m \<le> int j \<longrightarrow> bs' ! j = bs1 ! j"
    using Suc.IH [OF u(2) f, of "if x = sample bs k then modified else 1"] unfolding b(3) by (auto simp: algebra_simps)
  have s: "samples bs1 (k + 2) m = samples bs (k + 2) m" by (rule samples_cong) (use w(5) b in auto)
  have x: "sample bs' k = x" using L(7) b(1) w(3) by (simp add: sample_def)
  have e: "echo_loop (Suc m) i False txArray txOffset rxOffset (ec, Some bs, modified) =
      Inr (ec', Some bs', if x # ys = samples bs k (Suc m) then modified else 1)"
    unfolding echo_loop.simps option.case if_False k_def [symmetric] h(1) r(1) rbind_simps u(1) split_conv w(1) L(1)
    by (simp add: s samples_Suc)
  have y: "echo_run ec (zip (heard txArray (txOffset + 2 * int i) (Suc m)) (samples bs k (Suc m))) = Inr (ec', x # ys)"
    unfolding h(3) samples_Suc using u(1) L(2) by (simp add: s)
  have z: "samples bs' k (Suc m) = x # ys" "x # ys = samples bs k (Suc m) \<longrightarrow> bs' = bs" using x L(5,6) w(4) s by (simp_all add: samples_Suc)
  have "bs' ! j = bs ! j" if "int j < k \<or> k + 2 * int (Suc m) \<le> int j" for j using L(7) w(5) [of j] that by auto
  then show ?case using e y z L(3,4) w(2) unfolding k_def [symmetric] by auto
qed

text \<open>
  C34. The echo canceller's Java method on two different arrays, whose elements can be obtained, with offsets and lengths whose sums do not exceed
  the range of \<open>int\<close>. It returns -1 and leaves everything as it is exactly if the length is negative or one of the two ranges does not lie
  in its array. Otherwise it runs the canceller over the pairs of samples (silence for a null transmitted array) without a fault, puts the outputs in
  the place of the received samples, keeps all other bytes and returns 1 if the received array has changed and 0 if not.
\<close>

theorem echoCanUpdate_in_range:
  assumes "ec_ok n ec" "rxOffset + len < 2 ^ 31" "txOffset + len < 2 ^ 31"
  shows "if len < 0 \<or> \<not> fits (Some bs) rxOffset len \<or> \<not> fits txArray txOffset len
    then echoCanUpdate Distinct True True ec txArray txOffset (Some bs) rxOffset len = Inr (ec, Some bs, -1)
    else \<exists>ec' ys bs'. echoCanUpdate Distinct True True ec txArray txOffset (Some bs) rxOffset len =
        Inr (ec', Some bs', if bs' = bs then 0 else 1) \<and> ec_ok n ec' \<and>
      echo_run ec (zip (heard txArray txOffset (nat (len div 2))) (samples bs rxOffset (nat (len div 2)))) = Inr (ec', ys) \<and>
      samples bs' rxOffset (nat (len div 2)) = ys \<and> length bs' = length bs \<and>
      (\<forall>j. int j < rxOffset \<or> rxOffset + 2 * (len div 2) \<le> int j \<longrightarrow> bs' ! j = bs ! j)"
proof -
  have i: "i32 (off + len) = off + len" if "0 \<le> off" "0 \<le> len" "off + len < 2 ^ 31" for off
    using that by (auto intro!: i32_id simp: is32_def)
  have b: "bad_range a off len = (\<not> fits a off len)" if "0 \<le> len" "off + len < 2 ^ 31" for a off
    using i [of off] that by (cases "0 \<le> off") (auto simp: bad_range_def fits_def split: option.splits)
  show ?thesis
  proof (cases "len < 0 \<or> \<not> fits (Some bs) rxOffset len \<or> \<not> fits txArray txOffset len")
    case True
    then show ?thesis using b assms(2,3) by (auto simp: echoCanUpdate_def)
  next
    case False
    define m where "m = nat (len div 2)"
    have m: "2 * int m = 2 * (len div 2)" "2 * int m \<le> len" using False by (simp_all add: m_def)
    then have "fits txArray (txOffset + 2 * int 0) (2 * int m)" "fits (Some bs) (rxOffset + 2 * int 0) (2 * int m)"
      using False by (auto simp: fits_def split: option.splits)
    from echo_loop_run [OF assms(1) this, of 0] obtain ec' ys bs' where
      L: "echo_loop m 0 False txArray txOffset rxOffset (ec, Some bs, 0) = Inr (ec', Some bs', if ys = samples bs rxOffset m then 0 else 1)"
        "echo_run ec (zip (heard txArray txOffset m) (samples bs rxOffset m)) = Inr (ec', ys)" "ec_ok n ec'" "length bs' = length bs"
        "samples bs' rxOffset m = ys" "ys = samples bs rxOffset m \<longrightarrow> bs' = bs"
        "\<forall>j. int j < rxOffset \<or> rxOffset + 2 * int m \<le> int j \<longrightarrow> bs' ! j = bs ! j" by auto
    have "(bs' = bs) = (ys = samples bs rxOffset m)" using L(5,6) by auto
    moreover have "echoCanUpdate Distinct True True ec txArray txOffset (Some bs) rxOffset len =
        Inr (ec', Some bs', if ys = samples bs rxOffset m then 0 else 1)"
      using False b assms(2,3) L(1) by (simp add: echoCanUpdate_def flip: m_def)
    ultimately show ?thesis using False L(2-5,7) m(1) unfolding m_def [symmetric] by auto
  qed
qed

theorem echoCanUpdate_in_range_witness:
  "(\<exists>ec' bs'. echoCanUpdate Distinct True True demo_canceller (Some [1, 2, 3, 4]) 0 (Some [5, 6, 7, 8]) 0 4 =
      Inr (ec', Some bs', if bs' = [5, 6, 7, 8] then 0 else 1) \<and> length bs' = 4) \<and>
   echoCanUpdate Distinct True True demo_canceller (Some [1, 2, 3, 4]) 1 (Some [5, 6, 7, 8]) 0 4 = Inr (demo_canceller, Some [5, 6, 7, 8], -1)"
proof (intro conjI)
  obtain ec' bs' where "echoCanUpdate Distinct True True demo_canceller (Some [1, 2, 3, 4]) 0 (Some [5, 6, 7, 8]) 0 4 =
      Inr (ec', Some bs', if bs' = [5, 6, 7, 8] then 0 else 1)" "length bs' = length [5, 6, 7, 8 :: int]"
    using echoCanUpdate_in_range [OF demo_canceller_ok, of 0 4 0 "[5, 6, 7, 8]" "Some [1, 2, 3, 4]"] by (auto simp: fits_def)
  then show "\<exists>ec' bs'. echoCanUpdate Distinct True True demo_canceller (Some [1, 2, 3, 4]) 0 (Some [5, 6, 7, 8]) 0 4 =
      Inr (ec', Some bs', if bs' = [5, 6, 7, 8] then 0 else 1) \<and> length bs' = 4" by (intro exI [of _ ec'] exI [of _ bs']) simp
qed (use echoCanUpdate_in_range [OF demo_canceller_ok, of 0 4 1 "[5, 6, 7, 8]" "Some [1, 2, 3, 4]"] in \<open>simp add: fits_def\<close>)

text \<open>
  If both references are to the same array and the virtual machine hands out copies, the cancelled samples are lost.
\<close>

lemma echoCanUpdate_same_array:
  assumes "echoCanUpdate Same_Copied rx_elems tx_elems ec (Some bs) txOffset (Some bs) rxOffset len = Inr (ec', a, r)"
  shows "a = Some bs"
  using assms by (auto simp: echoCanUpdate_def rbind_eq_Inr_iff split: if_splits)

text \<open>
  The check is not safe for large offsets: an offset close to the largest \<open>int\<close> makes the sum with the length negative, passes
  the test, and the first sample is read far outside the array.
\<close>

lemma echoCanUpdate_offset_wraps:
  assumes "0 \<le> rxOffset" "2 ^ 31 \<le> rxOffset + len" "rxOffset < 2 ^ 31" "len < 2 ^ 31" "2 \<le> len" "int (length bs) \<le> rxOffset"
  shows "echoCanUpdate Distinct True True ec None txOffset (Some bs) rxOffset len = Inl OutOfBounds"
proof -
  have "(rxOffset + len + 2147483648) mod 4294967296 = (rxOffset + len + 2147483648 - 4294967296) mod 4294967296"
    by (simp only: minus_mod_self2)
  also have "\<dots> = rxOffset + len - 2147483648" using assms(1-4) by (simp add: mod_pos_pos_trivial)
  finally have "i32 (rxOffset + len) = rxOffset + len - 4294967296" by (simp add: i32_def)
  then have "\<not> bad_range (Some bs) rxOffset len" using assms by (simp add: bad_range_def)
  moreover obtain m where "nat (len div 2) = Suc m" using assms(5) by (cases "nat (len div 2)") auto
  ultimately show ?thesis using assms(5,6) by (simp add: echoCanUpdate_def bad_range_def sample_at_def aget_def)
qed

theorem echoCanUpdate_offset_wraps_witness:
  "echoCanUpdate Distinct True True demo_canceller None 0 (Some [0, 0]) 2147483647 2 = Inl OutOfBounds"
  using echoCanUpdate_offset_wraps [of 2147483647 2 "[0, 0]" demo_canceller 0] by simp

end
