(* ===== verification/Iw_Text.thy ===== *)
theory Iw_Text
  imports CS_CLib
begin

text \<open>
  The text that \<^verbatim>\<open>src/jni/iwstatus.c\<close> collects for its caller, and the splitting of its command line.
  \<open>printfit\<close> and \<open>fprintfit\<close> replace \<open>printf\<close>: they append to the array \<open>msg_out\<close>. Formatting has happened before, so that
  both take the formatted text.
\<close>

section \<open>The message\<close>

record msg =
  msg_out :: string
  msg_out_len :: int

definition MSG_SIZE :: int where "MSG_SIZE = 8192"

definition PRINTF_MAX :: int where "PRINTF_MAX = 2147483647"

text \<open>The wrap-around of \<open>int\<close>.\<close>

definition int32 :: "int \<Rightarrow> int" where
  "int32 x = (x + 2 ^ 31) mod 2 ^ 32 - 2 ^ 31"

definition write_at :: "string \<Rightarrow> int \<Rightarrow> string \<Rightarrow> string res" where
  "write_at buf off s =
     (if 0 \<le> off \<and> off + int (length s) \<le> int (length buf)
      then Inr (take (nat off) buf @ s @ drop (nat off + length s) buf) else Inl OutOfBounds)"

text \<open>
  \<open>vsnprintf(&buf[off], size, ...)\<close>: as much of the text as fits, with a terminator, unless the size is 0; the
  size is unsigned. The result is the length of the whole text, or -1 if it is no \<open>int\<close>.
\<close>

definition vsnprintf :: "string \<Rightarrow> int \<Rightarrow> int \<Rightarrow> string \<Rightarrow> (string \<times> int) res" where
  "vsnprintf buf off sz text =
     (let n = nat (sz mod 2 ^ 32); r = (if int (length text) \<le> PRINTF_MAX then int (length text) else -1) in
      if n = 0 then Inr (buf, r)
      else rbind (write_at buf off (take (n - 1) text @ [nul])) (\<lambda>b. Inr (b, r)))"

definition printfit :: "string \<Rightarrow> msg \<Rightarrow> msg res" where
  "printfit text m =
     rbind (vsnprintf (msg_out m) (msg_out_len m) (MSG_SIZE - msg_out_len m - 1) text) (\<lambda>(b, r).
       if r > 0
       then let l = int32 (msg_out_len m + r); l1 = (if l > 8191 then 8191 else l); l2 = (if l1 < 0 then 0 else l1) in
            rbind (write_at b l2 [nul]) (\<lambda>b'. Inr (m\<lparr>msg_out := b', msg_out_len := l2\<rparr>))
       else Inr (m\<lparr>msg_out := b\<rparr>))"

text \<open>\<open>msg_out_len=0; msg_out[0]=0;\<close>\<close>

definition msg_reset :: "msg \<Rightarrow> msg" where
  "msg_reset m = m\<lparr>msg_out_len := 0, msg_out := (msg_out m)[0 := nul]\<rparr>"

text \<open>What the caller gets: the string up to the terminator.\<close>

definition msg_string :: "msg \<Rightarrow> string" where
  "msg_string m = takeWhile (\<lambda>c. c \<noteq> nul) (msg_out m)"

fun print_all :: "string list \<Rightarrow> msg \<Rightarrow> msg res" where
  "print_all [] m = Inr m"
| "print_all (t # ts) m = rbind (printfit t m) (print_all ts)"

text \<open>The message holds the text \<open>s\<close>, as far as it fits.\<close>

definition holds :: "string \<Rightarrow> msg \<Rightarrow> bool" where
  "holds s m \<longleftrightarrow> nul \<notin> set s \<and> length (msg_out m) = 8192 \<and> msg_out_len m = int (min (length s) 8191) \<and>
     take (min (length s) 8190) (msg_out m) = take 8190 s \<and> msg_out m ! min (length s) 8190 = nul"

definition printable :: "string \<Rightarrow> bool" where
  "printable t \<longleftrightarrow> nul \<notin> set t \<and> int (length t) < 2 ^ 31 - 8192"

lemma holds_reset: "length (msg_out m) = 8192 \<Longrightarrow> holds [] (msg_reset m)"
  by (simp add: holds_def msg_reset_def)

lemma holds_string:
  assumes "holds s m"
  shows "msg_string m = take 8190 s"
proof -
  let ?k = "min (length s) 8190"
  have h: "?k < length (msg_out m)" "msg_out m ! ?k = nul" "take ?k (msg_out m) = take 8190 s" "nul \<notin> set s"
    using assms by (auto simp: holds_def)
  have "msg_out m = take ?k (msg_out m) @ msg_out m ! ?k # drop (Suc ?k) (msg_out m)" by (rule id_take_nth_drop [OF h(1)])
  then have "msg_out m = take 8190 s @ nul # drop (Suc ?k) (msg_out m)" unfolding h(2,3) .
  then have "msg_string m = takeWhile (\<lambda>c. c \<noteq> nul) (take 8190 s @ nul # drop (Suc ?k) (msg_out m))"
    unfolding msg_string_def by (rule arg_cong)
  also have "\<dots> = take 8190 s" using h(4) by (intro takeWhile_until) (auto dest: in_set_takeD)
  finally show ?thesis .
qed

lemma int32_id: "- (2 ^ 31) \<le> x \<Longrightarrow> x < 2 ^ 31 \<Longrightarrow> int32 x = x"
  by (simp add: int32_def)

lemma write_at_one: "0 \<le> off \<Longrightarrow> off < int (length b) \<Longrightarrow> write_at b off [c] = Inr (b[nat off := c])"
  by (simp add: write_at_def upd_conv_take_nth_drop nat_less_iff)

text \<open>One call, for each of the ways in which the text can meet the end of the array.\<close>

lemma printfit_eq:
  assumes "length (msg_out m) = 8192" and "msg_out_len m = int n" and "n \<le> 8191" and "printable t"
  shows "printfit t m = Inr (
    let b = (if n = 8191 then msg_out m else take n (msg_out m) @ take (8190 - n) t @ nul # drop (Suc (n + length (take (8190 - n) t))) (msg_out m));
        l = min (n + length t) 8191
    in if t = [] then m\<lparr>msg_out := b\<rparr> else m\<lparr>msg_out := b[l := nul], msg_out_len := int l\<rparr>)"
proof -
  define b where "b = (if n = 8191 then msg_out m else take n (msg_out m) @ take (8190 - n) t @ nul # drop (Suc (n + length (take (8190 - n) t))) (msg_out m))"
  have r: "int (length t) \<le> PRINTF_MAX" "int32 (int n + int (length t)) = int n + int (length t)"
    using assms(3,4) by (auto simp: printable_def PRINTF_MAX_def intro!: int32_id)
  have lb: "length b = 8192" using assms(1,3) by (simp add: b_def)
  have "vsnprintf (msg_out m) (msg_out_len m) (MSG_SIZE - msg_out_len m - 1) t = Inr (b, int (length t))"
  proof (cases "n = 8191")
    case True
    then show ?thesis using assms(2) r(1) by (simp add: vsnprintf_def MSG_SIZE_def b_def)
  next
    case False
    have "(MSG_SIZE - msg_out_len m - 1) mod 2 ^ 32 = 8191 - int n"
      using assms(3) by (simp add: MSG_SIZE_def assms(2) mod_pos_pos_trivial)
    then have n: "nat ((MSG_SIZE - msg_out_len m - 1) mod 2 ^ 32) = 8191 - n" by linarith
    have "write_at (msg_out m) (int n) (take (8190 - n) t @ [nul]) = Inr b"
      using assms(1,3) False by (simp add: write_at_def b_def)
    then show ?thesis unfolding vsnprintf_def n Let_def using False assms(2,3) r(1) by simp
  qed
  moreover have "write_at b (min (int n + int (length t)) 8191) [nul] = Inr (b[min (n + length t) 8191 := nul])"
  proof -
    have "nat (min (int n + int (length t)) 8191) = min (n + length t) 8191" by (auto simp: min_def)
    then show ?thesis using write_at_one [of "min (int n + int (length t)) 8191" b nul] lb by simp
  qed
  moreover have "(if int n + int (length t) > 8191 then 8191 else int n + int (length t)) = min (int n + int (length t)) 8191"
    by simp
  ultimately show ?thesis
    using assms(2) r(2) by (auto simp: printfit_def Let_def b_def [symmetric])
qed

lemma printfit_holds:
  assumes "holds s m" and "printable t"
  shows "\<exists>m'. printfit t m = Inr m' \<and> holds (s @ t) m'"
proof -
  let ?b = "msg_out m" and ?n = "length s"
  have h: "nul \<notin> set s" "length ?b = 8192" "msg_out_len m = int (min ?n 8191)"
    "take (min ?n 8190) ?b = take 8190 s" "?b ! min ?n 8190 = nul" using assms(1) by (auto simp: holds_def)
  have t: "nul \<notin> set t" using assms(2) by (simp add: printable_def)
  note eq = printfit_eq [OF h(2,3) _ assms(2)]
  consider (full) "8190 < ?n" | (fits) "?n + length t \<le> 8190" | (cut) "?n \<le> 8190" "8190 < ?n + length t" by linarith
  then show ?thesis
  proof cases
    case full
    then have n: "min ?n 8191 = 8191" "min ?n 8190 = 8190" by simp_all
    have "printfit t m = Inr (if t = [] then m else m\<lparr>msg_out := ?b[8191 := nul], msg_out_len := 8191\<rparr>)"
      using eq by (simp add: n)
    moreover have "holds (s @ t) m" if "t = []" using that assms(1) by simp
    moreover have "holds (s @ t) (m\<lparr>msg_out := ?b[8191 := nul], msg_out_len := 8191\<rparr>)"
      using full h t by (simp add: holds_def n min_def)
    ultimately show ?thesis by auto
  next
    case fits
    let ?c = "take ?n ?b @ t @ nul # drop (Suc (?n + length t)) ?b"
    have n: "min ?n 8191 = ?n" "min ?n 8190 = ?n" "take (8190 - ?n) t = t" using fits by simp_all
    have c: "length ?c = 8192" "take (?n + length t) ?c = s @ t" "?c ! (?n + length t) = nul"
      using fits h(2,4) by (simp_all add: n nth_append)
    have "?c[?n + length t := nul] = ?c" using c(3) by (metis list_update_id)
    then have "printfit t m = Inr (m\<lparr>msg_out := ?c, msg_out_len := int (?n + length t)\<rparr>)"
      using eq fits h(3) by (simp add: n Let_def)
    moreover have "holds (s @ t) (m\<lparr>msg_out := ?c, msg_out_len := int (?n + length t)\<rparr>)"
      using fits h(1) t c by (simp add: holds_def)
    ultimately show ?thesis by blast
  next
    case cut
    let ?u = "take (8190 - ?n) t"
    let ?c = "take ?n ?b @ ?u @ nul # drop (Suc (?n + length ?u)) ?b"
    have n: "min ?n 8191 = ?n" "min ?n 8190 = ?n" "?n + length ?u = 8190" "t \<noteq> []" "min (?n + length t) 8191 = 8191"
      using cut by auto
    have c: "length ?c = 8192" "take 8190 ?c = take 8190 (s @ t)" "?c ! 8190 = nul"
      using cut h(2,4) n by (simp_all add: nth_append)
    have "printfit t m = Inr (m\<lparr>msg_out := ?c[8191 := nul], msg_out_len := 8191\<rparr>)"
      using eq cut n(4) by (simp add: n(1,5) Let_def del: length_take)
    moreover have "holds (s @ t) (m\<lparr>msg_out := ?c[8191 := nul], msg_out_len := 8191\<rparr>)"
      using cut h(1) t c by (simp add: holds_def min_def del: append_assoc)
    ultimately show ?thesis by blast
  qed
qed

lemma print_all_holds:
  assumes "holds s m" and "list_all printable ts"
  shows "\<exists>m'. print_all ts m = Inr m' \<and> holds (s @ concat ts) m'"
  using assms
proof (induction ts arbitrary: s m)
  case (Cons t ts)
  then obtain m' where "printfit t m = Inr m'" "holds (s @ t) m'" using printfit_holds [of s m t] by auto
  then show ?case using Cons.IH [of "s @ t" m'] Cons.prems(2) by auto
qed simp

section \<open>The command line\<close>

text \<open>\<open>strlen\<close> on the buffer as it is, terminators that have been written into it included.\<close>

definition strlen :: "string \<Rightarrow> nat" where
  "strlen a = length (takeWhile (\<lambda>c. c \<noteq> nul) a)"

lemma strlen_le: "strlen a \<le> length a"
  by (simp add: strlen_def length_takeWhile_le)

definition ARGV_SIZE :: nat where "ARGV_SIZE = 64"

text \<open>
  The loop of \<open>getargs\<close>: \<open>args\<close> is the buffer, \<open>argv\<close> the positions that have been stored from \<open>argv[1]\<close> on. The
  condition calls \<open>strlen\<close> again in every round.
\<close>

function getargs_loop :: "string \<Rightarrow> nat \<Rightarrow> bool \<Rightarrow> bool \<Rightarrow> bool \<Rightarrow> nat list \<Rightarrow> (string \<times> nat list) res" where
  "getargs_loop args i qf ef inarg argv =
     (if i < strlen args \<and> args ! i \<noteq> nul
      then if \<not> qf \<and> \<not> ef \<and> args ! i = CHR '' ''
           then getargs_loop (args[i := nul]) (i + 1) qf ef False argv
           else if \<not> inarg \<and> ARGV_SIZE \<le> length argv + 1 then Inl OutOfBounds
           else let argv' = (if inarg then argv else argv @ [i]);
                    qf' = (if ef then qf else if args ! i = CHR 0x22 then \<not> qf else qf);
                    ef' = (\<not> ef \<and> args ! i = CHR 0x5C)
                in getargs_loop args (i + 1) qf' ef' True argv'
      else Inr (args, argv))"
  by pat_completeness auto

termination
  by (relation "measure (\<lambda>(args, i, _). length args - i)") (use strlen_le in \<open>auto intro!: diff_less_mono2 dest: less_le_trans\<close>)

declare getargs_loop.simps [simp del]

text \<open>The string at a position of the buffer.\<close>

definition str_at :: "string \<Rightarrow> nat \<Rightarrow> string" where
  "str_at args i = takeWhile (\<lambda>c. c \<noteq> nul) (drop i args)"

definition arg_lines :: "string list \<Rightarrow> string list" where
  "arg_lines argv = map (\<lambda>i. ''arg '' @ show_nat i @ ''/'' @ show_nat (length argv) @ '' = ['' @ argv ! i @ '']'' @ [newline]) [0..<length argv]"

text \<open>\<open>getargs\<close> with the caller's \<open>argv[0]\<close>: the arguments, which are printed.\<close>

definition getargs :: "string \<Rightarrow> string \<Rightarrow> msg \<Rightarrow> (string list \<times> msg) res" where
  "getargs name args m =
     rbind (getargs_loop args 0 False False False []) (\<lambda>(buf, ps).
       let argv = name # map (str_at buf) ps in
       rbind (print_all (arg_lines argv) m) (\<lambda>m'. Inr (argv, m')))"

text \<open>The first word of a line, up to a blank that is neither quoted nor escaped.\<close>

fun word_end :: "bool \<Rightarrow> bool \<Rightarrow> string \<Rightarrow> nat" where
  "word_end qf ef [] = 0"
| "word_end qf ef (c # cs) =
     (if \<not> qf \<and> \<not> ef \<and> c = CHR '' '' then 0
      else Suc (word_end (if ef then qf else if c = CHR 0x22 then \<not> qf else qf) (\<not> ef \<and> c = CHR 0x5C) cs))"

definition line_args :: "string \<Rightarrow> string list" where
  "line_args args = (let w = take (word_end False False args) args in if w = [] then [] else [w])"

lemma until_nul_full: "nul \<notin> set a \<Longrightarrow> takeWhile (\<lambda>c. c \<noteq> nul) a = a"
  unfolding takeWhile_eq_all_conv by metis

lemma until_nul_cut:
  assumes "nul \<notin> set a" and "i < length a"
  shows "takeWhile (\<lambda>c. c \<noteq> nul) (a[i := nul]) = take i a"
proof -
  have "nul \<notin> set (take i a)" using assms(1) by (auto dest: in_set_takeD)
  then show ?thesis using assms(2) takeWhile_until [of nul "take i a" "drop (Suc i) a"] by (simp add: upd_conv_take_nth_drop)
qed

lemma strlen_full: "nul \<notin> set a \<Longrightarrow> strlen a = length a"
  by (simp add: strlen_def until_nul_full)

lemma strlen_cut: "nul \<notin> set a \<Longrightarrow> i < length a \<Longrightarrow> strlen (a[i := nul]) = i"
  by (simp add: strlen_def until_nul_cut)

lemma word_end_le: "word_end qf ef cs \<le> length cs"
  by (induction qf ef cs rule: word_end.induct) auto

lemma getargs_loop_word:
  assumes "nul \<notin> set args" and "i \<le> length args"
  shows "getargs_loop args i qf ef True [p] =
    (let j = i + word_end qf ef (drop i args) in Inr (if j < length args then args[j := nul] else args, [p]))"
  using assms
proof (induction "length args - i" arbitrary: i qf ef)
  case 0
  then show ?case by (simp add: getargs_loop.simps [of args i] strlen_full)
next
  case (Suc k)
  then have i: "i < length args" "drop i args = args ! i # drop (Suc i) args" by (simp_all add: Cons_nth_drop_Suc)
  have "args ! i \<noteq> nul" using i(1) Suc.prems(1) by (metis nth_mem)
  have stop: "getargs_loop (args[i := nul]) (i + 1) qf ef False [p] = Inr (args[i := nul], [p])"
    using strlen_cut [OF Suc.prems(1) i(1)] by (simp add: getargs_loop.simps [of "args[i := nul]"])
  show ?case
  proof (cases "\<not> qf \<and> \<not> ef \<and> args ! i = CHR '' ''")
    case True
    then show ?thesis
      using i stop \<open>args ! i \<noteq> nul\<close> strlen_full [OF Suc.prems(1)] by (simp add: getargs_loop.simps [of args i])
  next
    case False
    then show ?thesis
      using i Suc.hyps(1) [of "Suc i"] Suc.hyps(2) Suc.prems \<open>args ! i \<noteq> nul\<close> strlen_full [OF Suc.prems(1)]
      by (auto simp: getargs_loop.simps [of args i] Let_def)
  qed
qed

lemma getargs_loop_first:
  assumes "nul \<notin> set args"
  shows "\<exists>buf ps. getargs_loop args 0 False False False [] = Inr (buf, ps) \<and> map (str_at buf) ps = line_args args"
proof (cases args)
  case Nil
  then show ?thesis by (simp add: getargs_loop.simps strlen_def line_args_def)
next
  case (Cons c cs)
  have c: "c \<noteq> nul" using assms Cons by auto
  show ?thesis
  proof (cases "c = CHR '' ''")
    case True
    then have "getargs_loop args 0 False False False [] = Inr (args[0 := nul], [])"
      using Cons c strlen_full [OF assms] strlen_cut [OF assms, of 0]
      by (simp add: getargs_loop.simps [of "CHR '' '' # cs"] getargs_loop.simps [of "nul # cs"])
    then show ?thesis using True Cons by (simp add: line_args_def)
  next
    case False
    let ?qf = "c = CHR 0x22" and ?ef = "c = CHR 0x5C"
    let ?j = "1 + word_end ?qf ?ef cs"
    have w: "word_end False False args = ?j" using Cons False by simp
    have "getargs_loop args 0 False False False [] = getargs_loop args 1 ?qf ?ef True [0]"
      using Cons c False strlen_full [OF assms] by (simp add: getargs_loop.simps [of "c # cs" 0 False False False] ARGV_SIZE_def)
    also have "\<dots> = Inr (if ?j < length args then args[?j := nul] else args, [0])"
      using getargs_loop_word [OF assms, of 1 ?qf ?ef 0] Cons by (simp add: Let_def)
    finally have l: "getargs_loop args 0 False False False [] = Inr (if ?j < length args then args[?j := nul] else args, [0])" .
    have "str_at (if ?j < length args then args[?j := nul] else args) 0 = take ?j args"
      using assms by (simp add: str_at_def until_nul_full until_nul_cut)
    then show ?thesis using l w Cons by (simp add: line_args_def Let_def)
  qed
qed

section \<open>Properties\<close>

text \<open>
  C31. The message buffer is a bounded string. Whatever texts are printed after a reset, no call writes outside
  \<open>msg_out\<close>, and the string that is handed out is their concatenation, cut after 8190 characters.
\<close>

theorem msg_out_collects:
  assumes "length (msg_out m) = 8192" and "list_all printable ts"
  shows "\<exists>m'. print_all ts (msg_reset m) = Inr m' \<and> msg_string m' = take 8190 (concat ts) \<and> length (msg_out m') = 8192"
proof -
  obtain m' where "print_all ts (msg_reset m) = Inr m'" "holds ([] @ concat ts) m'"
    using print_all_holds [OF holds_reset [OF assms(1)] assms(2)] by blast
  then show ?thesis using holds_string [of "concat ts" m'] by (auto simp: holds_def)
qed

definition empty_msg :: msg where
  "empty_msg = \<lparr>msg_out = replicate 8192 nul, msg_out_len = 0\<rparr>"

theorem msg_out_collects_witness:
  "\<exists>m'. print_all [''ab'', ''c''] (msg_reset empty_msg) = Inr m' \<and> msg_string m' = ''abc''"
  using msg_out_collects [of empty_msg "[''ab'', ''c'']"] by (auto simp: empty_msg_def printable_def nul_def)

text \<open>
  C40. \<open>getargs\<close> sees one word only. For every line without a terminator, the loop leaves at most one argument after the program's
  name: the text up to the first blank that is neither quoted nor escaped, and none if the line begins with a blank. It
  writes a terminator over the blank, so that the \<open>strlen\<close> in its condition ends it there. The array of 64 arguments is never overrun.
\<close>

theorem getargs_first_word:
  assumes "nul \<notin> set args"
  shows "\<exists>buf ps. getargs_loop args 0 False False False [] = Inr (buf, ps) \<and> map (str_at buf) ps = line_args args \<and> length ps \<le> 1"
proof -
  obtain buf ps where p: "getargs_loop args 0 False False False [] = Inr (buf, ps)" "map (str_at buf) ps = line_args args"
    using getargs_loop_first [OF assms] by blast
  have "length ps = length (line_args args)" using p(2) length_map by metis
  also have "\<dots> \<le> 1" by (simp add: line_args_def Let_def)
  finally show ?thesis using p by blast
qed

theorem getargs_first_word_witness:
  "\<exists>buf ps. getargs_loop ''eth0 up'' 0 False False False [] = Inr (buf, ps) \<and> map (str_at buf) ps = [''eth0'']"
  using getargs_first_word [of "''eth0 up''"] by (auto simp: nul_def line_args_def)

end
