(* ===== verification/Iw_Ifconfig.thy ===== *)
theory Iw_Ifconfig
  imports Iw_Text
begin

unbundle bit_operations_syntax

text \<open>
  The interface configuration of \<^verbatim>\<open>src/jni/iwstatus.c\<close>: \<open>main_ifconfig\<close> shows or changes the settings of a
  network interface, and the native method \<open>ifstatus\<close> calls it for the Java side. The kernel is a record: what it answers to the
  requests that read may depend on the requests that have changed something before.
\<close>

section \<open>The kernel\<close>

datatype if_request =
    SetFlags string "16 word"
  | SetMtu string int
  | SetDstAddr string "32 word"
  | SetNetmask string "32 word"
  | SetAddr string "32 word"

record netif =
  n_socket :: int                                             \<comment> \<open>result of \<open>socket\<close>\<close>
  n_addr :: "if_request list \<Rightarrow> string \<Rightarrow> int + 32 word"       \<comment> \<open>\<open>SIOCGIFADDR\<close>: \<open>errno\<close> or the address\<close>
  n_netmask :: "if_request list \<Rightarrow> string \<Rightarrow> int + 32 word"
  n_flags :: "if_request list \<Rightarrow> string \<Rightarrow> int + 16 word"
  n_set :: "if_request list \<Rightarrow> if_request \<Rightarrow> int option"     \<comment> \<open>\<open>errno\<close> of a request that fails\<close>
  n_strerror :: "int \<Rightarrow> string"
  n_inet_addr :: "string \<Rightarrow> 32 word"
  n_sets :: "if_request list"                                 \<comment> \<open>the requests so far that change something\<close>
  n_open :: nat                                               \<comment> \<open>open descriptors\<close>
  n_msg :: msg

definition IFNAMSIZ :: nat where "IFNAMSIZ = 16"
definition IFF_UP :: "16 word" where "IFF_UP = 0x1"
definition IFF_BROADCAST :: "16 word" where "IFF_BROADCAST = 0x2"
definition IFF_LOOPBACK :: "16 word" where "IFF_LOOPBACK = 0x8"
definition IFF_POINTOPOINT :: "16 word" where "IFF_POINTOPOINT = 0x10"
definition IFF_RUNNING :: "16 word" where "IFF_RUNNING = 0x40"
definition IFF_MULTICAST :: "16 word" where "IFF_MULTICAST = 0x1000"

definition n_print :: "string \<Rightarrow> netif \<Rightarrow> netif res" where
  "n_print text k = rbind (printfit text (n_msg k)) (\<lambda>m. Inr (k\<lparr>n_msg := m\<rparr>))"

section \<open>Changing settings\<close>

definition die_if :: "string \<Rightarrow> int \<Rightarrow> netif \<Rightarrow> netif res" where
  "die_if s errno k = n_print (''error: '' @ s @ '' ('' @ n_strerror k errno @ '')'' @ [newline]) k"

text \<open>A request that changes something, and the message if it fails.\<close>

definition if_set :: "string \<Rightarrow> if_request \<Rightarrow> netif \<Rightarrow> netif res" where
  "if_set what r k =
     (let k' = k\<lparr>n_sets := n_sets k @ [r]\<rparr> in
      case n_set k (n_sets k) r of None \<Rightarrow> Inr k' | Some e \<Rightarrow> die_if what e k')"

definition setflags :: "string \<Rightarrow> 16 word \<Rightarrow> 16 word \<Rightarrow> netif \<Rightarrow> netif res" where
  "setflags name on clr k =
     (case n_flags k (n_sets k) name of
        Inl e \<Rightarrow> die_if ''SIOCGIFFLAGS'' e k
      | Inr f \<Rightarrow> if_set ''SIOCSIFFLAGS'' (SetFlags name ((f AND NOT clr) OR on)) k)"

definition setmtu :: "string \<Rightarrow> string \<Rightarrow> netif \<Rightarrow> netif res" where
  "setmtu name mtu k = if_set ''SIOCSIFMTU'' (SetMtu name (atoi mtu)) k"

definition setdstaddr :: "string \<Rightarrow> string \<Rightarrow> netif \<Rightarrow> netif res" where
  "setdstaddr name addr k = if_set ''SIOCSIFDSTADDR'' (SetDstAddr name (n_inet_addr k addr)) k"

definition setnetmask :: "string \<Rightarrow> string \<Rightarrow> netif \<Rightarrow> netif res" where
  "setnetmask name addr k = if_set ''SIOCSIFNETMASK'' (SetNetmask name (n_inet_addr k addr)) k"

definition setaddr :: "string \<Rightarrow> string \<Rightarrow> netif \<Rightarrow> netif res" where
  "setaddr name addr k = if_set ''SIOCSIFADDR'' (SetAddr name (n_inet_addr k addr)) k"

text \<open>
  The loop over the options. A value that is missing is reported, and then read all the same: the array of arguments is a local
  variable of the native method that has no value behind the last argument.
\<close>

fun if_options :: "string \<Rightarrow> string list \<Rightarrow> netif \<Rightarrow> (int \<times> netif) res" where
  "if_options name [] k = Inr (0, k)"
| "if_options name (a # as) k =
     (if a = ''up'' then rbind (setflags name IFF_UP 0 k) (if_options name as)
      else if a = ''mtu'' then
        (case as of
           [] \<Rightarrow> rbind (n_print (''expecting a value for parameter '' @ [CHR 0x22] @ ''mtu'' @ [CHR 0x22] @ [newline]) k) (\<lambda>k. Inl Uninitialised)
         | v # as' \<Rightarrow> rbind (setmtu name v k) (if_options name as'))
      else if a = ''-pointopoint'' then rbind (setflags name IFF_POINTOPOINT 1 k) (if_options name as)
      else if a = ''pointopoint'' then
        (case as of
           [] \<Rightarrow> rbind (n_print (''expecting an IP address for parameter '' @ [CHR 0x22] @ ''pointtopoint'' @ [CHR 0x22] @ [newline]) k) (\<lambda>k. Inl Uninitialised)
         | v # as' \<Rightarrow> rbind (setdstaddr name v k) (\<lambda>k. rbind (setflags name IFF_POINTOPOINT 0 k) (if_options name as')))
      else if a = ''down'' then rbind (setflags name 0 IFF_UP k) (if_options name as)
      else if a = ''netmask'' then
        (case as of
           [] \<Rightarrow> rbind (n_print (''expecting an IP address for parameter '' @ [CHR 0x22] @ ''netmask'' @ [CHR 0x22] @ [newline]) k) (\<lambda>k. Inl Uninitialised)
         | v # as' \<Rightarrow> rbind (setnetmask name v k) (if_options name as'))
      else if a \<noteq> [] \<and> isdigit (hd a) then
        rbind (setaddr name a k) (\<lambda>k. rbind (setflags name IFF_UP 0 k) (if_options name as))
      else if_options name as k)"

section \<open>Showing settings\<close>

text \<open>The octets of an address in the order of memory, as \<open>sprintf\<close> writes them into 20 bytes.\<close>

definition quad_text :: "32 word \<Rightarrow> string" where
  "quad_text a = show_nat (unat (a AND 0xff)) @ ''.'' @ show_nat (unat (drop_bit 8 a AND 0xff)) @ ''.'' @
     show_nat (unat (drop_bit 16 a AND 0xff)) @ ''.'' @ show_nat (unat (drop_bit 24 a AND 0xff))"

definition sprintf_quad :: "32 word \<Rightarrow> string res" where
  "sprintf_quad a = (if length (quad_text a) < 20 then Inr (quad_text a) else Inl OutOfBounds)"

definition flag_text :: "16 word \<Rightarrow> 16 word \<Rightarrow> string \<Rightarrow> string" where
  "flag_text flags f t = (if flags AND f \<noteq> 0 then t else [])"

definition flags_text :: "16 word \<Rightarrow> string" where
  "flags_text f =
     (if f AND IFF_UP \<noteq> 0 then ''up'' else ''down'') @ flag_text f IFF_BROADCAST '' broadcast'' @
     flag_text f IFF_LOOPBACK '' loopback'' @ flag_text f IFF_POINTOPOINT '' point-to-point'' @
     flag_text f IFF_RUNNING '' running'' @ flag_text f IFF_MULTICAST '' multicast'' @ '']'' @ [newline]"

definition errno_text :: "string \<Rightarrow> int \<Rightarrow> string \<Rightarrow> string" where
  "errno_text what e name = what @ ''Error '' @ show_int e @ '': '' @ name @ [newline]"

definition settings_text :: "string \<Rightarrow> string \<Rightarrow> string \<Rightarrow> string" where
  "settings_text name astring mstring = name @ '': ip '' @ astring @ '' mask '' @ mstring @ '' flags [''"

definition if_show :: "string \<Rightarrow> netif \<Rightarrow> (int \<times> netif) res" where
  "if_show name k =
     (case n_addr k (n_sets k) name of
        Inl e \<Rightarrow> rbind (n_print (errno_text [] e name) k) (\<lambda>k. Inr (-1, k))
      | Inr addr \<Rightarrow>
     (case n_netmask k (n_sets k) name of
        Inl e \<Rightarrow> rbind (n_print (errno_text ''SIOCGIFNETMASK '' e name) k) (\<lambda>k. Inr (-1, k))
      | Inr msk \<Rightarrow>
     (case n_flags k (n_sets k) name of
        Inl e \<Rightarrow> rbind (n_print (errno_text ''SIOCGIFFLAGS '' e name) k) (\<lambda>k. Inr (-1, k))
      | Inr flags \<Rightarrow>
          rbind (sprintf_quad addr) (\<lambda>astring. rbind (sprintf_quad msk) (\<lambda>mstring.
          rbind (n_print (settings_text name astring mstring) k) (\<lambda>k.
          rbind (n_print (flags_text flags) k) (\<lambda>k. Inr (0, k))))))))"

definition argc_text :: "nat \<Rightarrow> string \<Rightarrow> string" where
  "argc_text argc prog = ''argc='' @ show_nat argc @ '', argv[0]='' @ [CHR 0x27] @ prog @ [CHR 0x27] @ [newline]"

definition main_ifconfig :: "string list \<Rightarrow> netif \<Rightarrow> (int \<times> netif) res" where
  "main_ifconfig argv k =
     (case argv of
        [] \<Rightarrow> Inl Uninitialised
      | prog # args \<Rightarrow>
          rbind (n_print (argc_text (length argv) prog) k) (\<lambda>k.
          case args of
            [] \<Rightarrow> rbind (n_print (''No arguments given to ifconfig'' @ [newline]) k) (\<lambda>k. Inr (0, k))
          | nm # opts \<Rightarrow>
              let name = take (IFNAMSIZ - 1) nm in
              if n_socket k < 0
              then rbind (n_print (''cannot open control socket'' @ [newline]) k) (\<lambda>k. Inr (-1, k))
              else let k = k\<lparr>n_open := n_open k + 1\<rparr> in
                if opts = [] then if_show name k else if_options name opts k))"

section \<open>The native method\<close>

definition ifstatus :: "string \<Rightarrow> netif \<Rightarrow> (string \<times> netif) res" where
  "ifstatus args k =
     rbind (n_print (''args_in=['' @ args @ '']'' @ [newline]) (k\<lparr>n_msg := msg_reset (n_msg k)\<rparr>)) (\<lambda>k.
     rbind (getargs ''ifconfig'' args (n_msg k)) (\<lambda>(argv, m).
     rbind (main_ifconfig argv (k\<lparr>n_msg := m\<rparr>)) (\<lambda>(r, k).
       Inr (msg_string (n_msg k), k))))"

section \<open>The native method only reads\<close>

text \<open>The text of the message, without its bound.\<close>

definition show_text :: "netif \<Rightarrow> string \<Rightarrow> string" where
  "show_text k name =
     (case n_addr k (n_sets k) name of Inl e \<Rightarrow> errno_text [] e name
      | Inr addr \<Rightarrow>
     (case n_netmask k (n_sets k) name of Inl e \<Rightarrow> errno_text ''SIOCGIFNETMASK '' e name
      | Inr msk \<Rightarrow>
     (case n_flags k (n_sets k) name of Inl e \<Rightarrow> errno_text ''SIOCGIFFLAGS '' e name
      | Inr flags \<Rightarrow> settings_text name (quad_text addr) (quad_text msk) @ flags_text flags)))"

definition ifconfig_text :: "netif \<Rightarrow> string list \<Rightarrow> string" where
  "ifconfig_text k args =
     (case args of
        [] \<Rightarrow> ''No arguments given to ifconfig'' @ [newline]
      | nm # opts \<Rightarrow> if n_socket k < 0 then ''cannot open control socket'' @ [newline] else show_text k (take 15 nm))"

text \<open>The kernel's error numbers are those of the system.\<close>

definition errnos_ok :: "netif \<Rightarrow> bool" where
  "errnos_ok k \<longleftrightarrow> (\<forall>h nm e. n_addr k h nm = Inl e \<or> n_netmask k h nm = Inl e \<or> n_flags k h nm = Inl e \<longrightarrow> 0 < e \<and> e < 4096)"

text \<open>Texts without a terminator and with a bound on their length.\<close>

definition short_text :: "nat \<Rightarrow> string \<Rightarrow> bool" where
  "short_text n t \<longleftrightarrow> nul \<notin> set t \<and> length t \<le> n"

lemma short_printable: "short_text n t \<Longrightarrow> n \<le> 2000000 \<Longrightarrow> printable t"
  by (auto simp: short_text_def printable_def)

lemma short_append [simp]: "short_text n t \<Longrightarrow> length u + n \<le> k \<Longrightarrow> nul \<notin> set u \<Longrightarrow> short_text k (u @ t)"
  by (auto simp: short_text_def)

lemma show_nat_no_nul [simp]: "nul \<notin> set (show_nat n)"
  by (rule show_nat_no) (simp add: isdigit_def nul_def)

lemma show_int_no_nul [simp]: "nul \<notin> set (show_int i)"
  by (rule show_int_no) (simp_all add: isdigit_def nul_def)

lemma octet_length: "length (show_nat (unat ((a :: 32 word) AND 0xff))) \<le> 3"
proof -
  have "unat (a AND 0xff) \<le> unat (0xff :: 32 word)" using word_and_le1 [of a "0xff"] by (simp add: word_le_nat_alt)
  then show ?thesis by (intro show_nat_length) simp_all
qed

lemma quad_length: "length (quad_text a) \<le> 15"
  using octet_length [of a] octet_length [of "drop_bit 8 a"] octet_length [of "drop_bit 16 a"] octet_length [of "drop_bit 24 a"]
  by (simp add: quad_text_def)

lemma sprintf_quad_ok [simp]: "sprintf_quad a = Inr (quad_text a)"
  using quad_length [of a] by (simp add: sprintf_quad_def)

lemma quad_no_nul [simp]: "nul \<notin> set (quad_text a)"
  by (simp add: quad_text_def) (simp add: nul_def)

lemma flags_text_short: "short_text 70 (flags_text f)"
  by (simp add: flags_text_def flag_text_def short_text_def nul_def newline_def)

lemma errno_text_printable:
  assumes "0 < e" "e < 4096" "short_text 15 name" "short_text 20 what"
  shows "printable (errno_text what e name)"
proof (rule short_printable)
  have "length (show_int e) \<le> 4" using assms(1,2) by (simp add: show_int_def show_nat_length)
  then show "short_text 60 (errno_text what e name)"
    using assms(3,4) by (auto simp: errno_text_def short_text_def) (simp_all add: nul_def newline_def)
qed simp

lemma n_print_holds:
  assumes "holds s (n_msg k)" and "printable t"
  shows "\<exists>m. n_print t k = Inr (k\<lparr>n_msg := m\<rparr>) \<and> holds (s @ t) m"
  using printfit_holds [OF assms] by (auto simp: n_print_def)

lemma name_short: "nul \<notin> set nm \<Longrightarrow> short_text 15 (take 15 nm)"
  by (auto simp: short_text_def dest: in_set_takeD)

lemma if_show_ok:
  assumes "holds s (n_msg k)" and "errnos_ok k" and "short_text 15 name"
  shows "\<exists>r m. if_show name k = Inr (r, k\<lparr>n_msg := m\<rparr>) \<and> holds (s @ show_text k name) m"
proof -
  have err: "\<exists>r m. rbind (n_print (errno_text what e name) k) (\<lambda>k. Inr (-1, k)) = Inr (r, k\<lparr>n_msg := m\<rparr>) \<and> holds (s @ errno_text what e name) m"
    if "n_addr k (n_sets k) name = Inl e \<or> n_netmask k (n_sets k) name = Inl e \<or> n_flags k (n_sets k) name = Inl e" "short_text 20 what" for e what
  proof -
    have "0 < e \<and> e < 4096" using assms(2) that(1) unfolding errnos_ok_def by blast
    then show ?thesis using n_print_holds [OF assms(1) errno_text_printable [of e name what]] assms(3) that(2) by auto
  qed
  have w: "short_text 20 []" "short_text 20 ''SIOCGIFNETMASK ''" "short_text 20 ''SIOCGIFFLAGS ''" by (simp_all add: short_text_def nul_def)
  show ?thesis
  proof (cases "n_addr k (n_sets k) name")
    case (Inl e)
    then show ?thesis using err [of e "[]"] w by (simp add: if_show_def show_text_def)
  next
    case addr: (Inr a)
    show ?thesis
    proof (cases "n_netmask k (n_sets k) name")
      case (Inl e)
      then show ?thesis using addr err [of e "''SIOCGIFNETMASK ''"] w by (simp add: if_show_def show_text_def)
    next
      case msk: (Inr b)
      show ?thesis
      proof (cases "n_flags k (n_sets k) name")
        case (Inl e)
        then show ?thesis using addr msk err [of e "''SIOCGIFFLAGS ''"] w by (simp add: if_show_def show_text_def)
      next
        case fl: (Inr f)
        let ?t = "settings_text name (quad_text a) (quad_text b)"
        have p: "printable ?t" "printable (flags_text f)"
          using assms(3) quad_length [of a] quad_length [of b] short_printable [OF flags_text_short]
          by (auto simp: settings_text_def short_text_def printable_def) (simp_all add: nul_def)
        obtain m where m: "n_print ?t k = Inr (k\<lparr>n_msg := m\<rparr>)" "holds (s @ ?t) m" using n_print_holds [OF assms(1) p(1)] by blast
        then obtain m' where m': "n_print (flags_text f) (k\<lparr>n_msg := m\<rparr>) = Inr (k\<lparr>n_msg := m'\<rparr>)" "holds ((s @ ?t) @ flags_text f) m'"
          using n_print_holds [of "s @ ?t" "k\<lparr>n_msg := m\<rparr>" "flags_text f"] p(2) by auto
        show ?thesis using addr msk fl m(1) m' by (intro exI [of _ 0] exI [of _ m']) (simp add: if_show_def show_text_def)
      qed
    qed
  qed
qed

lemma show_text_same [simp]: "show_text (k\<lparr>n_msg := m\<rparr>) nm = show_text k nm" "show_text (k\<lparr>n_open := n\<rparr>) nm = show_text k nm"
  unfolding show_text_def by (simp_all split: sum.split)

definition sockets :: "netif \<Rightarrow> string list \<Rightarrow> nat" where
  "sockets k args = (if args = [] \<or> n_socket k < 0 then 0 else 1)"

lemma main_ifconfig_reads:
  assumes "holds s (n_msg k)" and "errnos_ok k" and "length args \<le> 1" and "list_all (short_text 1000000) (prog # args)"
  shows "\<exists>r m. main_ifconfig (prog # args) k = Inr (r, k\<lparr>n_msg := m, n_open := n_open k + sockets k args\<rparr>) \<and>
    holds (s @ argc_text (Suc (length args)) prog @ ifconfig_text k args) m"
proof -
  let ?t = "argc_text (Suc (length args)) prog"
  have "length (show_nat (Suc (length args))) \<le> 1" using assms(3) by (intro show_nat_length) simp_all
  then have "printable ?t"
    using assms(4) by (intro short_printable [of 1000020]) (auto simp: argc_text_def short_text_def, simp_all add: nul_def newline_def)
  then obtain m where m: "n_print ?t k = Inr (k\<lparr>n_msg := m\<rparr>)" "holds (s @ ?t) m" using n_print_holds [OF assms(1)] by blast
  let ?k = "k\<lparr>n_msg := m\<rparr>"
  have pr: "\<exists>m'. n_print u ?k = Inr (k\<lparr>n_msg := m'\<rparr>) \<and> holds (s @ ?t @ u) m'" if "printable u" for u
    using n_print_holds [of "s @ ?t" ?k u] m(2) that by simp
  have lit: "printable (''No arguments given to ifconfig'' @ [newline])" "printable (''cannot open control socket'' @ [newline])"
    by (simp_all add: printable_def nul_def newline_def)
  show ?thesis
  proof (cases args)
    case Nil
    obtain m' where "n_print (''No arguments given to ifconfig'' @ [newline]) ?k = Inr (k\<lparr>n_msg := m'\<rparr>)"
      "holds (s @ ?t @ ''No arguments given to ifconfig'' @ [newline]) m'" using pr [OF lit(1)] by blast
    then show ?thesis using m(1) Nil by (intro exI [of _ 0] exI [of _ m']) (simp_all add: main_ifconfig_def ifconfig_text_def sockets_def)
  next
    case (Cons nm opts)
    then have nm: "opts = []" "short_text 15 (take 15 nm)" using assms(3,4) name_short by (auto simp: short_text_def)
    show ?thesis
    proof (cases "n_socket k < 0")
      case True
      obtain m' where "n_print (''cannot open control socket'' @ [newline]) ?k = Inr (k\<lparr>n_msg := m'\<rparr>)"
        "holds (s @ ?t @ ''cannot open control socket'' @ [newline]) m'" using pr [OF lit(2)] by blast
      then show ?thesis
        using True m(1) Cons by (intro exI [of _ "-1"] exI [of _ m']) (simp_all add: main_ifconfig_def ifconfig_text_def sockets_def Let_def)
    next
      case False
      let ?k' = "?k\<lparr>n_open := n_open k + 1\<rparr>"
      have "errnos_ok ?k'" using assms(2) by (simp add: errnos_ok_def)
      then obtain r m' where "if_show (take 15 nm) ?k' = Inr (r, ?k'\<lparr>n_msg := m'\<rparr>)" "holds ((s @ ?t) @ show_text k (take 15 nm)) m'"
        using if_show_ok [of "s @ ?t" ?k' "take 15 nm"] nm(2) m(2) by auto
      then show ?thesis
        using False Cons nm(1) m(1)
        by (intro exI [of _ r] exI [of _ m']) (simp_all add: main_ifconfig_def ifconfig_text_def sockets_def IFNAMSIZ_def Let_def)
    qed
  qed
qed

lemma line_args_short: "short_text n args \<Longrightarrow> list_all (short_text n) (line_args args) \<and> length (line_args args) \<le> 1"
  by (auto simp: line_args_def short_text_def Let_def dest: in_set_takeD)

lemma arg_lines_printable:
  assumes "list_all (short_text 1000000) argv" and "length argv \<le> 2"
  shows "list_all printable (arg_lines argv)"
proof -
  have "printable (''arg '' @ show_nat i @ ''/'' @ show_nat (length argv) @ '' = ['' @ argv ! i @ '']'' @ [newline])" if "i < length argv" for i
  proof (rule short_printable)
    have "short_text 1000000 (argv ! i)" using assms(1) that by (simp add: list_all_length)
    moreover have "length (show_nat i) \<le> 1" "length (show_nat (length argv)) \<le> 1" using that assms(2) by (simp_all add: show_nat_length)
    ultimately show "short_text 1000020 (''arg '' @ show_nat i @ ''/'' @ show_nat (length argv) @ '' = ['' @ argv ! i @ '']'' @ [newline])"
      by (auto simp: short_text_def) (simp_all add: nul_def newline_def)
  qed simp
  then show ?thesis by (simp add: arg_lines_def list_all_iff)
qed

lemma getargs_ok:
  assumes "holds s m" and "short_text 1000000 args" and "short_text 1000000 name"
  shows "\<exists>m'. getargs name args m = Inr (name # line_args args, m') \<and> holds (s @ concat (arg_lines (name # line_args args))) m'"
proof -
  obtain buf ps where g: "getargs_loop args 0 False False False [] = Inr (buf, ps)" "map (str_at buf) ps = line_args args"
    using getargs_loop_first [of args] assms(2) by (auto simp: short_text_def)
  have "list_all printable (arg_lines (name # line_args args))"
    using line_args_short [OF assms(2)] assms(3) by (intro arg_lines_printable) auto
  from print_all_holds [OF assms(1) this] show ?thesis using g by (auto simp: getargs_def)
qed

section \<open>Properties\<close>

definition ifstatus_text :: "netif \<Rightarrow> string \<Rightarrow> string" where
  "ifstatus_text k args =
     (''args_in=['' @ args @ '']'' @ [newline]) @ concat (arg_lines (''ifconfig'' # line_args args)) @
     argc_text (Suc (length (line_args args))) ''ifconfig'' @ ifconfig_text k (line_args args)"

text \<open>
  C30. The native method only reads. Whatever line it is given, \<open>ifstatus\<close> returns without a fault, makes no request that changes an
  interface, and its result is the log of the arguments followed by the settings of the interface that is named
  by the first word of the line, or by the reason why there are none, cut after 8190 characters.
\<close>

theorem ifstatus_reads_only:
  assumes "nul \<notin> set args" and "length args \<le> 1000000" and "errnos_ok k" and "length (msg_out (n_msg k)) = 8192"
  shows "\<exists>k'. ifstatus args k = Inr (take 8190 (ifstatus_text k args), k') \<and> n_sets k' = n_sets k"
proof -
  have a: "short_text 1000000 args" "short_text 1000000 ''ifconfig''" using assms(1,2) by (simp_all add: short_text_def nul_def)
  let ?t = "''args_in=['' @ args @ '']'' @ [newline]"
  have "printable ?t"
    using a(1) by (intro short_printable [of 1000020]) (auto simp: short_text_def, simp_all add: nul_def newline_def)
  then obtain m1 where m1: "n_print ?t (k\<lparr>n_msg := msg_reset (n_msg k)\<rparr>) = Inr (k\<lparr>n_msg := m1\<rparr>)" "holds ?t m1"
    using n_print_holds [of "[]" "k\<lparr>n_msg := msg_reset (n_msg k)\<rparr>" ?t] holds_reset [OF assms(4)] by auto
  let ?as = "line_args args"
  obtain m2 where m2: "getargs ''ifconfig'' args m1 = Inr (''ifconfig'' # ?as, m2)" "holds (?t @ concat (arg_lines (''ifconfig'' # ?as))) m2"
    using getargs_ok [OF m1(2) a] by blast
  have k2: "errnos_ok (k\<lparr>n_msg := m2\<rparr>)" "ifconfig_text (k\<lparr>n_msg := m2\<rparr>) = ifconfig_text k"
    using assms(3) by (simp_all add: errnos_ok_def ifconfig_text_def fun_eq_iff split: list.split)
  have as: "length ?as \<le> 1" "list_all (short_text 1000000) (''ifconfig'' # ?as)" using line_args_short [OF a(1)] a(2) by simp_all
  obtain r m3 n where "main_ifconfig (''ifconfig'' # ?as) (k\<lparr>n_msg := m2\<rparr>) = Inr (r, k\<lparr>n_msg := m3, n_open := n\<rparr>)"
    "holds (ifstatus_text k args) m3"
    using main_ifconfig_reads [OF _ k2(1) as] m2(2) k2(2) unfolding ifstatus_text_def by fastforce
  then show ?thesis using m1(1) m2(1) holds_string by (auto simp: ifstatus_def)
qed

definition demo_net :: netif where
  "demo_net = \<lparr>n_socket = 3, n_addr = (\<lambda>h nm. Inr 0x0100007F), n_netmask = (\<lambda>h nm. Inr 0x000000FF),
     n_flags = (\<lambda>h nm. if nm = ''lo'' then Inr 0x49 else Inl 19), n_set = (\<lambda>h r. None), n_strerror = (\<lambda>e. []), n_inet_addr = (\<lambda>a. 0),
     n_sets = [], n_open = 0, n_msg = empty_msg\<rparr>"

theorem ifstatus_reads_only_witness:
  "\<exists>k'. ifstatus ''lo down'' demo_net = Inr (take 8190 (ifstatus_text demo_net ''lo down''), k') \<and> n_sets k' = []"
  using ifstatus_reads_only [of "''lo down''" demo_net]
  by (auto simp: demo_net_def nul_def errnos_ok_def empty_msg_def split: if_splits)

text \<open>
  The option that is to clear the point-to-point flag sets it, and takes the interface down: the arguments of
  \<open>setflags\<close> are the flags to set and the flags to clear, and the call passes the flag and 1.
\<close>

lemma minus_pointopoint_inverted:
  assumes "n_flags k (n_sets k) name = Inr f" and "n_set k (n_sets k) = (\<lambda>r. None)"
  shows "\<exists>f'. if_options name [''-pointopoint''] k = Inr (0, k\<lparr>n_sets := n_sets k @ [SetFlags name f']\<rparr>) \<and>
    f' AND IFF_POINTOPOINT = IFF_POINTOPOINT \<and> f' AND IFF_UP = 0"
proof -
  have "((f AND NOT 1) OR IFF_POINTOPOINT) AND IFF_POINTOPOINT = IFF_POINTOPOINT"
    by (simp add: bit.conj_disj_distrib2 IFF_POINTOPOINT_def)
  moreover have "((f AND NOT 1) OR IFF_POINTOPOINT) AND IFF_UP = 0"
    by (simp add: bit.conj_disj_distrib2 IFF_POINTOPOINT_def IFF_UP_def and.assoc)
  ultimately show ?thesis
    using assms by (intro exI [of _ "(f AND NOT 1) OR IFF_POINTOPOINT"]) (simp add: setflags_def if_set_def)
qed

text \<open>Each call that opens a socket leaves it open.\<close>

lemma ifconfig_leaks_socket:
  assumes "\<not> n_socket k < 0" and "main_ifconfig [prog, nm] k = Inr (r, k')" and "holds s (n_msg k)" and "errnos_ok k"
    and "list_all (short_text 1000000) [prog, nm]"
  shows "n_open k' = n_open k + 1"
  using main_ifconfig_reads [OF assms(3,4) _ assms(5)] assms(1,2) by (auto simp: sockets_def)

end
