(* ===== verification/Iw_Lib.thy ===== *)
theory Iw_Lib
  imports Iw_Text "HOL-Library.Word"
begin

unbundle bit_operations_syntax

text \<open>
  Addresses and keys of \<^verbatim>\<open>src/jni/wireless-tools/iwlib.c\<close>: hardware addresses and encryption keys are printed as
  hexadecimal text and read back from the command line. Both directions are modelled, and they are shown to belong together.
\<close>

section \<open>Hexadecimal text\<close>

type_synonym byte = "8 word"

definition hex_char :: "nat \<Rightarrow> char" where
  "hex_char n = char_of (if n < 10 then 48 + n else 55 + n)"

text \<open>\<open>%02X\<close> of an unsigned character.\<close>

definition hex2 :: "byte \<Rightarrow> string" where
  "hex2 b = [hex_char (unat b div 16), hex_char (unat b mod 16)]"

text \<open>\<open>sscanf(p, "%1X%1X", &temph, &templ)\<close>: the values it stores. Blanks before a digit are skipped.\<close>

definition scan_X :: "string \<Rightarrow> (nat \<times> string) option" where
  "scan_X p = (case dropWhile isspace p of [] \<Rightarrow> None | c # q \<Rightarrow> if xdigit_val c < 16 then Some (xdigit_val c, q) else None)"

definition sscanf_XX :: "string \<Rightarrow> nat list" where
  "sscanf_XX p =
     (case scan_X p of
        None \<Rightarrow> []
      | Some (h, q) \<Rightarrow> (case scan_X q of None \<Rightarrow> [h] | Some (l, q') \<Rightarrow> [h, l]))"

section \<open>Hardware addresses\<close>

definition ETH_ALEN :: nat where "ETH_ALEN = 6"

fun mac_text :: "byte list \<Rightarrow> string" where
  "mac_text [] = []"
| "mac_text (b # bs) = CHR '':'' # hex2 b @ mac_text bs"

text \<open>\<open>iw_mac_ntop\<close>: \<open>None\<close> is the null pointer. The first byte is read whatever the length is.\<close>

definition iw_mac_ntop :: "byte list \<Rightarrow> int \<Rightarrow> string option res" where
  "iw_mac_ntop mac buflen =
     (if buflen < int (length mac) * 3 - 1 + 1 then Inr None
      else case mac of
        [] \<Rightarrow> Inl OutOfBounds
      | b # bs \<Rightarrow> let t = hex2 b @ mac_text bs in if int (length t) < buflen then Inr (Some t) else Inl OutOfBounds)"

definition iw_ether_ntop :: "byte list \<Rightarrow> string" where
  "iw_ether_ntop eth = hex2 (eth ! 0) @ mac_text (map ((!) eth) [1, 2, 3, 4, 5])"

definition iw_sawap_ntop :: "byte list \<Rightarrow> string" where
  "iw_sawap_ntop eth =
     (if eth = replicate 6 0 then ''Not-Associated''
      else if eth = replicate 6 0xFF then ''Invalid''
      else if eth = replicate 6 0x44 then ''None''
      else iw_ether_ntop eth)"

text \<open>
  The loop of \<open>iw_mac_aton\<close> over the rest \<open>p\<close> of the text: the length, 0 for an error, and the bytes that have been
  written. The array has \<open>macmax\<close> bytes.
\<close>

function mac_loop :: "nat \<Rightarrow> string \<Rightarrow> byte list \<Rightarrow> (nat \<times> byte list) res" where
  "mac_loop macmax p mac =
     (if p = [] then Inr (0, mac)
      else case sscanf_XX p of
        [temph, templ] \<Rightarrow>
          if macmax \<le> length mac then Inl OutOfBounds
          else let mac' = mac @ [of_nat (templ OR push_bit 4 temph)]; p' = drop 2 p in
            if p' = [] then Inr (length mac', mac')
            else if macmax \<le> length mac' then Inr (0, mac')
            else if hd p' \<noteq> CHR '':'' then Inr (0, mac')
            else mac_loop macmax (tl p') mac'
      | _ \<Rightarrow> Inr (0, mac))"
  by pat_completeness auto

termination
  by (relation "measure (\<lambda>(_, p, _). length p)") auto

declare mac_loop.simps [simp del]

definition iw_mac_aton :: "string \<Rightarrow> nat \<Rightarrow> (nat \<times> byte list) res" where
  "iw_mac_aton orig macmax = mac_loop macmax orig []"

definition iw_ether_aton :: "string \<Rightarrow> (nat \<times> byte list) res" where
  "iw_ether_aton orig =
     rbind (iw_mac_aton orig ETH_ALEN) (\<lambda>(maclen, eth).
       Inr (if 0 < maclen \<and> maclen < ETH_ALEN then (0, eth) else (maclen, eth)))"

section \<open>Keys\<close>

definition IW_ENCODING_TOKEN_MAX :: nat where "IW_ENCODING_TOKEN_MAX = 64"
definition IW_ENCODE_NOKEY :: int where "IW_ENCODE_NOKEY = 0x0800"

text \<open>Bytes with a hyphen after every second one; \<open>i\<close> is the index of the first.\<close>

fun key_text :: "('a \<Rightarrow> string) \<Rightarrow> nat \<Rightarrow> 'a list \<Rightarrow> string" where
  "key_text f i [] = []"
| "key_text f i (b # bs) = (if 0 < i \<and> i mod 2 = 0 then ''-'' else []) @ f b @ key_text f (Suc i) bs"

text \<open>
  \<open>iw_print_key\<close>: the text that is left in the buffer of \<open>buflen\<close> bytes. Without a key in the request only its
  length is shown.
\<close>

definition iw_print_key :: "int \<Rightarrow> byte list \<Rightarrow> int \<Rightarrow> int \<Rightarrow> string res" where
  "iw_print_key buflen key key_size key_flags =
     (let fits = (\<lambda>t. if int (length t) < buflen then Inr t else Inl OutOfBounds) in
      if key_size * 3 > buflen then if buflen \<le> 0 then Inl OutOfBounds else Inr (take (nat (buflen - 1)) ''<too big>'')
      else if key_flags AND IW_ENCODE_NOKEY \<noteq> 0
      then if key_size \<le> 0 then fits ''on'' else fits (key_text (\<lambda>_. ''**'') 0 [0..<nat key_size])
      else let n = max 1 (nat key_size) in
        if length key < n then Inl OutOfBounds else fits (key_text hex2 0 (take n key)))"

definition is_sep :: "char \<Rightarrow> bool" where
  "is_sep c \<longleftrightarrow> c \<in> set ''-:;.,''"

definition strcspn_sep :: "string \<Rightarrow> nat" where
  "strcspn_sep p = length (takeWhile (\<lambda>c. \<not> is_sep c) p)"

text \<open>The loop of \<open>iw_in_key\<close> over hexadecimal digits; \<open>dlen\<close> digits are left before the next separator. \<open>None\<close> is the result -1.\<close>

function in_key_loop :: "string \<Rightarrow> int \<Rightarrow> byte list \<Rightarrow> byte list option" where
  "in_key_loop p dlen key =
     (if p = [] then Some key
      else
        let p1 = (if dlen = 0 then tl p else p);
            d1 = (if dlen \<le> 0 then int (strcspn_sep p1) else dlen);
            vs = sscanf_XX p1
        in if vs = [] then None
           else
             let count = (if d1 mod 2 \<noteq> 0 then 1 else length vs);
                 templ = (if count = 2 then vs ! 1 OR push_bit 4 (vs ! 0) else vs ! 0);
                 key' = key @ [of_nat templ]
             in if IW_ENCODING_TOKEN_MAX \<le> length key' then Some key'
                else in_key_loop (drop count p1) (d1 - int count) key')"
  by pat_completeness auto

termination
proof (relation "measure (\<lambda>(p, _, _). length p)", goal_cases)
  case (2 p dlen key p1 d1 vs count templ key')
  have "length p1 \<le> length p" "p1 \<noteq> []" using 2 by (auto simp: sscanf_XX_def scan_X_def)
  moreover have "0 < count" using 2 by auto
  ultimately show ?case using 2 by (cases p1) auto
qed simp

declare in_key_loop.simps [simp del]

definition starts_with :: "string \<Rightarrow> string \<Rightarrow> bool" where
  "starts_with t s \<longleftrightarrow> take (length t) s = t"

definition bytes_of_string :: "string \<Rightarrow> byte list" where
  "bytes_of_string s = map of_char s"

text \<open>\<open>iw_in_key\<close>: the length, -1 for an error, and the bytes of the key, with what has been printed.\<close>

definition iw_in_key :: "string \<Rightarrow> msg \<Rightarrow> (int \<times> byte list \<times> msg) res" where
  "iw_in_key input m =
     (if starts_with ''s:'' input
      then let key = take IW_ENCODING_TOKEN_MAX (bytes_of_string (drop 2 input)) in Inr (int (length key), key, m)
      else if starts_with ''p:'' input
      then rbind (printfit (''Error: Passphrase not implemented'' @ [newline]) m) (\<lambda>m. Inr (-1, [], m))
      else case in_key_loop input (-1) [] of
        None \<Rightarrow> Inr (-1, [], m)
      | Some key \<Rightarrow> Inr (int (length key), key, m))"

section \<open>Hexadecimal digits\<close>

definition toupper :: "char \<Rightarrow> char" where
  "toupper c = (let n = of_char c :: nat in if 97 \<le> n \<and> n \<le> 122 then char_of (n - 32) else c)"

lemma toupper_hex [simp]:
  assumes "v < 16"
  shows "toupper c = hex_char v \<longleftrightarrow> xdigit_val c = v"
proof -
  have c: "c = char_of (of_char c :: nat)" by simp
  have b: "of_char c < (256 :: nat)" by simp
  have eq: "toupper c = hex_char v \<longleftrightarrow> (of_char (toupper c) :: nat) = of_char (hex_char v)" by simp
  show ?thesis using assms b unfolding eq
    by (auto simp: toupper_def hex_char_def xdigit_val_def Let_def)
qed

lemma xdigit_not_space: "xdigit_val c < 16 \<Longrightarrow> \<not> isspace c"
  by (auto simp: xdigit_val_def isspace_def Let_def split: if_splits)

lemma toupper_colon [simp]: "toupper c = CHR '':'' \<longleftrightarrow> c = CHR '':''"
proof -
  have eq: "toupper c = CHR '':'' \<longleftrightarrow> (of_char (toupper c) :: nat) = of_char (CHR '':'')" by (simp only: of_char_eq_iff)
  have eq': "c = CHR '':'' \<longleftrightarrow> (of_char c :: nat) = of_char (CHR '':'')" by (simp only: of_char_eq_iff)
  show ?thesis unfolding eq eq' by (auto simp: toupper_def Let_def)
qed

lemma xdigit_hex_char [simp]: "v < 16 \<Longrightarrow> xdigit_val (hex_char v) = v"
  by (auto simp: hex_char_def xdigit_val_def Let_def)

lemma sscanf_XX_digits [simp]:
  "xdigit_val a < 16 \<Longrightarrow> xdigit_val b < 16 \<Longrightarrow> sscanf_XX (a # b # p) = [xdigit_val a, xdigit_val b]"
  by (simp add: sscanf_XX_def scan_X_def xdigit_not_space)

lemma scan_X_SomeD:
  "scan_X p = Some (v, q) \<Longrightarrow> \<exists>ws c. p = ws @ c # q \<and> (\<forall>w \<in> set ws. isspace w) \<and> xdigit_val c = v \<and> v < 16"
  by (auto simp: scan_X_def split: list.splits if_splits dest!: dropWhile_eq_Cons_conv [THEN iffD1])
     (metis set_takeWhileD takeWhile_dropWhile_id)

text \<open>Two digits are read: they are the next two characters, or what comes after those is still part of the blanks and digits.\<close>

lemma sscanf_XX_cases:
  assumes "sscanf_XX p = [h, l]"
  shows "(\<exists>a b q. p = a # b # q \<and> xdigit_val a = h \<and> xdigit_val b = l \<and> h < 16 \<and> l < 16) \<or>
    (\<exists>c q. drop 2 p = c # q \<and> (isspace c \<or> xdigit_val c < 16))"
proof -
  obtain q q' where 1: "scan_X p = Some (h, q)" and 2: "scan_X q = Some (l, q')"
    using assms by (auto simp: sscanf_XX_def split: option.splits prod.splits)
  obtain ws a where p: "p = ws @ a # q" "\<forall>w \<in> set ws. isspace w" "xdigit_val a = h" "h < 16" using scan_X_SomeD [OF 1] by blast
  obtain vs b where q: "q = vs @ b # q'" "\<forall>w \<in> set vs. isspace w" "xdigit_val b = l" "l < 16" using scan_X_SomeD [OF 2] by blast
  consider "ws = []" "vs = []" | v vs' where "ws = []" "vs = v # vs'" | w where "ws = [w]" | w w' ws' where "ws = w # w' # ws'"
    by (cases ws; cases vs; cases "tl ws"; auto)
  then show ?thesis
  proof cases
    case 2
    then show ?thesis using p q by (cases vs') auto
  next
    case 3
    then show ?thesis using p q by (cases vs) auto
  next
    case 4
    then show ?thesis using p q by (cases ws') auto
  qed (use p q in auto)
qed

section \<open>Reading and printing addresses\<close>

fun mac_string :: "byte list \<Rightarrow> string" where
  "mac_string [] = []"
| "mac_string (b # bs) = hex2 b @ mac_text bs"

lemma mac_text_colon: "bs \<noteq> [] \<Longrightarrow> mac_text bs = CHR '':'' # mac_string bs"
  by (cases bs) auto

lemma digits_join:
  fixes h l :: nat
  assumes "l < 16"
  shows "l OR push_bit 4 h = l + 16 * h"
proof -
  have "take_bit 4 l = l" using assms by (simp add: take_bit_eq_mod)
  then have *: "bit l n \<Longrightarrow> n < 4" for n by (metis bit_take_bit_iff)
  have "l + push_bit 4 h = l OR push_bit 4 h"
    by (rule disjunctive_add_eq_or) (auto simp: bit_eq_iff bit_and_iff bit_push_bit_iff dest!: *)
  then show ?thesis by (simp add: push_bit_eq_mult)
qed

lemma byte_of_digits:
  assumes "h < 16" "l < 16"
  shows "of_nat (l OR push_bit 4 h) = (b :: byte) \<longleftrightarrow> h = unat b div 16 \<and> l = unat b mod 16"
proof -
  have "of_nat (l OR push_bit 4 h) = b \<longleftrightarrow> unat (of_nat (l + 16 * h) :: byte) = unat b"
    using assms by (simp only: digits_join word_unat_eq_iff)
  also have "\<dots> \<longleftrightarrow> l + 16 * h = unat b" using assms by (simp only: unat_of_nat) auto
  also have "\<dots> \<longleftrightarrow> h = unat b div 16 \<and> l = unat b mod 16" using assms by (auto dest!: sym [of "l + 16 * h"])
  finally show ?thesis .
qed

lemma byte_div_16: "unat (b :: byte) div 16 < 16"
  using unsigned_less [of b] by (simp add: div_less_iff_less_mult)

lemma hex2_digits [simp]:
  "map toupper p = hex2 b @ t \<longleftrightarrow>
    (\<exists>h l q. p = h # l # q \<and> xdigit_val h = unat b div 16 \<and> xdigit_val l = unat b mod 16 \<and> map toupper q = t)"
  using byte_div_16 [of b] by (auto simp: hex2_def map_eq_Cons_conv)

lemma mac_text_empty [simp]: "[] = mac_text bs \<longleftrightarrow> bs = []" "mac_text bs = [] \<longleftrightarrow> bs = []"
  by (cases bs; simp)+

lemma mac_text_rest [simp]:
  "toupper c # map toupper r = mac_text bs \<longleftrightarrow> bs \<noteq> [] \<and> c = CHR '':'' \<and> map toupper r = mac_string bs"
proof (cases bs)
  case (Cons b bs')
  then show ?thesis by (metis list.discI list.inject mac_text_colon toupper_colon)
qed simp

lemma mac_string_digits:
  assumes "xdigit_val a < 16" "xdigit_val b < 16"
  shows "bs \<noteq> [] \<and> map toupper (a # b # q) = mac_string bs \<longleftrightarrow>
    (\<exists>bs'. bs = of_nat (xdigit_val b OR push_bit 4 (xdigit_val a)) # bs' \<and> map toupper q = mac_text bs')"
  proof (cases bs)
  case (Cons x xs)
  have "(map toupper (a # b # q) = mac_string bs) \<longleftrightarrow>
      (xdigit_val a = unat x div 16 \<and> xdigit_val b = unat x mod 16) \<and> map toupper q = mac_text xs"
    using Cons by (auto simp del: list.map)
  then show ?thesis using Cons byte_of_digits [OF assms, of x] by auto
qed simp

lemma mac_loop_step:
  assumes "xdigit_val a < 16" "xdigit_val b < 16" "length mac < macmax"
  defines "mac' \<equiv> mac @ [of_nat (xdigit_val b OR push_bit 4 (xdigit_val a))]"
  shows "mac_loop macmax (a # b # q) mac =
    (if q = [] then Inr (length mac', mac')
     else if macmax \<le> length mac' \<or> hd q \<noteq> CHR '':'' then Inr (0, mac')
     else mac_loop macmax (tl q) mac')"
  using assms by (subst mac_loop.simps) (auto simp: Let_def)

lemma mac_loop_rejects:
  assumes "\<nexists>a b q. p = a # b # q \<and> xdigit_val a < 16 \<and> xdigit_val b < 16" "length mac < macmax"
  shows "\<exists>mac'. mac_loop macmax p mac = Inr (0, mac') \<and> length mac' \<le> macmax"
proof (cases "\<exists>h l. p \<noteq> [] \<and> sscanf_XX p = [h, l]")
  case True
  then obtain h l c q where p: "p \<noteq> []" "sscanf_XX p = [h, l]" "drop 2 p = c # q" and c: "isspace c \<or> xdigit_val c < 16"
    using sscanf_XX_cases assms(1) by metis
  have "c \<noteq> CHR '':''" using c by (auto simp: isspace_def xdigit_val_def)
  then show ?thesis using p assms(2) by (subst mac_loop.simps) (auto simp: Let_def)
next
  case False
  then show ?thesis using assms(2) by (subst mac_loop.simps) (auto split: list.split)
qed

lemma mac_loop_accepts:
  assumes "length mac0 < macmax"
  shows "mac_loop macmax p mac0 = Inr (n, mac) \<and> 0 < n \<longleftrightarrow>
    (\<exists>bs. bs \<noteq> [] \<and> mac = mac0 @ bs \<and> n = length mac \<and> n \<le> macmax \<and> map toupper p = mac_string bs)"
  using assms
proof (induction "length p" arbitrary: p mac0 rule: less_induct)
  case less
  show ?case
  proof (cases "\<exists>a b q. p = a # b # q \<and> xdigit_val a < 16 \<and> xdigit_val b < 16")
    case False
    then have "\<nexists>bs. bs \<noteq> [] \<and> map toupper p = mac_string bs"
      using byte_div_16 by (auto simp: neq_Nil_conv) (metis mod_less_divisor zero_less_numeral)
    then show ?thesis using mac_loop_rejects [OF False less.prems] by auto
  next
    case True
    then obtain a b q where p: "p = a # b # q" and ab: "xdigit_val a < 16" "xdigit_val b < 16" by blast
    define x :: byte where "x = of_nat (xdigit_val b OR push_bit 4 (xdigit_val a))"
    have R: "(bs \<noteq> [] \<and> map toupper p = mac_string bs) \<longleftrightarrow> (\<exists>bs'. bs = x # bs' \<and> map toupper q = mac_text bs')" for bs
      using mac_string_digits [OF ab] by (simp only: p x_def)
    have E: "(\<exists>bs. bs \<noteq> [] \<and> mac = mac0 @ bs \<and> n = length mac \<and> n \<le> macmax \<and> map toupper p = mac_string bs) \<longleftrightarrow>
        (\<exists>bs. mac = mac0 @ x # bs \<and> n = length mac \<and> n \<le> macmax \<and> map toupper q = mac_text bs)"
      using R by blast
    note step = mac_loop_step [OF ab less.prems, of q, folded x_def p]
    show ?thesis
    proof (cases q)
      case Nil
      then show ?thesis using less.prems unfolding E by (auto simp: step)
    next
      case (Cons c r)
      have q: "map toupper q = mac_text bs \<longleftrightarrow> bs \<noteq> [] \<and> c = CHR '':'' \<and> map toupper r = mac_string bs" for bs
        using Cons by simp
      show ?thesis
      proof (cases "macmax \<le> Suc (length mac0) \<or> c \<noteq> CHR '':''")
        case True
        then show ?thesis using Cons unfolding E q by (auto simp: step neq_Nil_conv)
      next
        case False
        then have "mac_loop macmax p mac0 = mac_loop macmax r (mac0 @ [x])" using Cons by (simp add: step)
        moreover have "length r < length p" "length (mac0 @ [x]) < macmax" using False Cons p by auto
        ultimately show ?thesis using less.hyps [of r "mac0 @ [x]"] False unfolding E q by simp blast
      qed
    qed
  qed
qed

lemma mac_loop_bounded:
  assumes "length mac0 < macmax"
  shows "\<exists>n mac. mac_loop macmax p mac0 = Inr (n, mac) \<and> length mac \<le> macmax"
  using assms
proof (induction "length p" arbitrary: p mac0 rule: less_induct)
  case less
  show ?case
  proof (cases "\<exists>a b q. p = a # b # q \<and> xdigit_val a < 16 \<and> xdigit_val b < 16")
    case False
    then show ?thesis using mac_loop_rejects [OF False less.prems] by auto
  next
    case True
    then obtain a b q where p: "p = a # b # q" and ab: "xdigit_val a < 16" "xdigit_val b < 16" by blast
    note step = mac_loop_step [OF ab less.prems, of q, folded p]
    show ?thesis
    proof (cases q)
      case Nil
      then show ?thesis using less.prems by (auto simp: step)
    next
      case (Cons c r)
      then have "length r < length p" using p by simp
      then show ?thesis using Cons less.prems less.hyps [of r] unfolding step by auto
    qed
  qed
qed

lemma toupper_mac_text [simp]: "map toupper (mac_text bs) = mac_text bs"
  by (induction bs) (auto simp: hex2_def byte_div_16)

lemma toupper_mac_string [simp]: "map toupper (mac_string bs) = mac_string bs"
  by (cases bs) (auto simp: hex2_def byte_div_16)

lemma length_mac_text [simp]: "length (mac_text bs) = 3 * length bs"
  by (induction bs) (auto simp: hex2_def)

lemma length_hex2 [simp]: "length (hex2 b) = 2"
  by (simp add: hex2_def)

lemma iw_mac_ntop_fits:
  assumes "mac \<noteq> []"
  shows "iw_mac_ntop mac buflen = Inr (if 3 * int (length mac) \<le> buflen then Some (mac_string mac) else None)"
  using assms by (cases mac) (auto simp: iw_mac_ntop_def)

text \<open>
  C28. Reading a hardware address (\<open>iw_mac_aton\<close>) never writes outside an array of at least one byte, and it succeeds
  exactly for one to \<open>macmax\<close> pairs of hexadecimal digits (of either case) with colons between them, giving their bytes;
  anything else, blanks that \<open>sscanf\<close> would skip included, gives 0. So an address printed by \<open>iw_mac_ntop\<close>, which only
  refuses a buffer without room for the whole text and its final zero, is read back as it was.
\<close>

theorem mac_address_exact:
  assumes "0 < macmax"
  shows "(\<exists>n mac. iw_mac_aton orig macmax = Inr (n, mac) \<and> length mac \<le> macmax) \<and>
    (\<forall>n mac. iw_mac_aton orig macmax = Inr (n, mac) \<and> 0 < n \<longleftrightarrow>
      mac \<noteq> [] \<and> n = length mac \<and> n \<le> macmax \<and> map toupper orig = mac_string mac) \<and>
    (\<forall>mac buflen. mac \<noteq> [] \<and> length mac \<le> macmax \<and> 3 * int (length mac) \<le> buflen \<longrightarrow>
      (\<exists>t. iw_mac_ntop mac buflen = Inr (Some t) \<and> iw_mac_aton t macmax = Inr (length mac, mac)))"
proof (intro conjI allI impI)
  have *: "iw_mac_aton orig macmax = Inr (n, mac) \<and> 0 < n \<longleftrightarrow>
      mac \<noteq> [] \<and> n = length mac \<and> n \<le> macmax \<and> map toupper orig = mac_string mac" for orig n mac
    using mac_loop_accepts [of "[]" macmax orig n mac] assms by (auto simp: iw_mac_aton_def)
  then show "iw_mac_aton orig macmax = Inr (n, mac) \<and> 0 < n \<longleftrightarrow>
      mac \<noteq> [] \<and> n = length mac \<and> n \<le> macmax \<and> map toupper orig = mac_string mac" for n mac .
  show "\<exists>n mac. iw_mac_aton orig macmax = Inr (n, mac) \<and> length mac \<le> macmax"
    using mac_loop_bounded [of "[]" macmax orig] assms by (simp add: iw_mac_aton_def)
  show "\<exists>t. iw_mac_ntop mac buflen = Inr (Some t) \<and> iw_mac_aton t macmax = Inr (length mac, mac)"
    if "mac \<noteq> [] \<and> length mac \<le> macmax \<and> 3 * int (length mac) \<le> buflen" for mac buflen
    using that * [of "mac_string mac" "length mac" mac] by (auto simp: iw_mac_ntop_fits)
qed

theorem mac_address_exact_witness:
  "(0 :: nat) < 6 \<and>
   (\<exists>n mac. iw_mac_aton ''00:1b'' 6 = Inr (n, mac) \<and> length mac \<le> 6) \<and>
   (iw_mac_aton ''00:1b'' 6 = Inr (2, [0, 0x1B]) \<and> (0 :: nat) < 2) \<and>
   (\<exists>t. iw_mac_ntop [0xAB] 20 = Inr (Some t) \<and> iw_mac_aton t 6 = Inr (length [0xAB :: byte], [0xAB]))"
proof -
  have w: "(\<exists>n mac. iw_mac_aton ''00:1b'' 6 = Inr (n, mac) \<and> length mac \<le> 6) \<and>
    (\<forall>n mac. iw_mac_aton ''00:1b'' 6 = Inr (n, mac) \<and> 0 < n \<longleftrightarrow>
      mac \<noteq> [] \<and> n = length mac \<and> n \<le> 6 \<and> map toupper ''00:1b'' = mac_string mac) \<and>
    (\<forall>mac buflen. mac \<noteq> [] \<and> length mac \<le> 6 \<and> 3 * int (length mac) \<le> buflen \<longrightarrow>
      (\<exists>t. iw_mac_ntop mac buflen = Inr (Some t) \<and> iw_mac_aton t 6 = Inr (length mac, mac)))"
    by (rule mac_address_exact) simp
  have "map toupper ''00:1b'' = mac_string [0, 0x1B]" by code_simp
  then have "iw_mac_aton ''00:1b'' 6 = Inr (2, [0, 0x1B]) \<and> (0 :: nat) < 2"
    using w [THEN conjunct2, THEN conjunct1, rule_format, of 2 "[0, 0x1B]"] by simp
  then show ?thesis
    using w [THEN conjunct1] w [THEN conjunct2, THEN conjunct2, rule_format, of "[0xAB]" 20] by simp
qed

section \<open>Reading and printing keys\<close>

text \<open>The text of a key in groups of two bytes.\<close>

fun groups :: "byte list \<Rightarrow> string" where
  "groups [] = []"
| "groups [b] = hex2 b"
| "groups (b # c # bs) = hex2 b @ hex2 c @ (if bs = [] then [] else CHR ''-'' # groups bs)"

lemma key_text_groups_even:
  "even i \<Longrightarrow> key_text hex2 i bs = (if 0 < i \<and> bs \<noteq> [] then CHR ''-'' # groups bs else groups bs)"
proof (induction bs arbitrary: i rule: groups.induct)
  case (3 b c bs)
  have "even (Suc (Suc i))" using 3 by simp
  then have IH: "key_text hex2 (Suc (Suc i)) bs = (if bs \<noteq> [] then CHR ''-'' # groups bs else [])"
    using "3.IH" [of "Suc (Suc i)"] by auto
  have o: "Suc i mod 2 = 1" using 3 by presburger
  show ?case using 3(2) o by (auto simp: IH even_iff_mod_2_eq_zero)
qed (auto simp: even_iff_mod_2_eq_zero)

lemma key_text_groups: "key_text hex2 0 bs = groups bs"
  using key_text_groups_even [of 0 bs] by simp

lemma groups_empty [simp]: "groups bs = [] \<longleftrightarrow> bs = []"
  by (cases bs rule: groups.cases) (auto simp: hex2_def)

lemma groups_length: "bs \<noteq> [] \<Longrightarrow> length (groups bs) < 3 * length bs"
  by (induction bs rule: groups.induct) auto

lemma hex_char_not_sep: "v < 16 \<Longrightarrow> \<not> is_sep (hex_char v)"
  using xdigit_hex_char [of v] by (auto simp: is_sep_def xdigit_val_def)

lemma hex_char_not_letter: "v < 16 \<Longrightarrow> hex_char v \<noteq> CHR ''s''" "v < 16 \<Longrightarrow> hex_char v \<noteq> CHR ''p''"
  using xdigit_hex_char [of v] by (auto simp: xdigit_val_def)

lemma groups_start: "bs \<noteq> [] \<Longrightarrow> groups bs = hex2 (hd bs) @ drop 2 (groups bs)"
  by (cases bs rule: groups.cases) (auto simp: hex2_def)

lemma strcspn_sep_simps [simp]:
  "strcspn_sep [] = 0" "strcspn_sep (CHR ''-'' # p) = 0" "strcspn_sep (hex2 b @ p) = Suc (Suc (strcspn_sep p))"
  by (auto simp: strcspn_sep_def hex2_def hex_char_not_sep byte_div_16) (auto simp: is_sep_def)

lemma sscanf_hex2 [simp]: "sscanf_XX (hex2 b @ p) = [unat b div 16, unat b mod 16]"
  using byte_div_16 [of b] by (simp add: hex2_def)

lemma in_key_loop_Nil [simp]: "in_key_loop [] d key = Some key"
  by (simp add: in_key_loop.simps)

lemma in_key_loop_hex2 [simp]:
  assumes "0 < d" "even d"
  shows "in_key_loop (hex2 b @ p) d key =
    (if 64 \<le> Suc (length key) then Some (key @ [b]) else in_key_loop p (d - 2) (key @ [b]))"
proof -
  have b: "of_nat (unat b mod 16 OR push_bit 4 (unat b div 16)) = b"
    using byte_of_digits [of "unat b div 16" "unat b mod 16" b] byte_div_16 [of b] by simp
  have "hex2 b @ p \<noteq> []" "drop (Suc (Suc 0)) (hex2 b @ p) = p" by (simp_all add: hex2_def)
  moreover have "d \<noteq> 0" "\<not> d \<le> 0" "d mod 2 = 0" using assms by auto
  ultimately show ?thesis
    by (subst in_key_loop.simps) (simp del: append_is_Nil_conv drop_append add: Let_def IW_ENCODING_TOKEN_MAX_def b)
qed

lemma in_key_loop_start:
  assumes "p \<noteq> []" "0 < strcspn_sep p"
  shows "in_key_loop p (-1) key = in_key_loop p (int (strcspn_sep p)) key"
    and "in_key_loop (c # p) 0 key = in_key_loop p (int (strcspn_sep p)) key"
  using assms by (subst (1 2) in_key_loop.simps; simp add: Let_def)+

lemma in_key_loop_groups:
  assumes "length key + length bs \<le> 64" "bs \<noteq> []"
  shows "in_key_loop (groups bs) (int (strcspn_sep (groups bs))) key = Some (key @ bs) \<and> 0 < strcspn_sep (groups bs)"
  using assms
proof (induction bs arbitrary: key rule: groups.induct)
  case (2 b)
  then show ?case using in_key_loop_hex2 [of 2 b "[]" key] strcspn_sep_simps(3) [of b "[]"] by auto
next
  case (3 b c bs)
  show ?case
  proof (cases "bs = []")
    case True
    then show ?thesis
      using 3 in_key_loop_hex2 [of 2 c "[]"] strcspn_sep_simps(3) [of c "[]"] by auto
  next
    case False
    have "in_key_loop (CHR ''-'' # groups bs) 0 (key @ [b, c]) = Some ((key @ [b, c]) @ bs)"
      using "3.IH" [OF False, of "key @ [b, c]"] "3.prems" False by (subst in_key_loop_start(2)) auto
    then show ?thesis using 3 False by (auto simp: neq_Nil_conv)
  qed
qed simp

text \<open>
  C29. An encryption key of one to 64 bytes that \<open>iw_print_key\<close> prints into a buffer of three times its length fits there
  with its final zero, and \<open>iw_in_key\<close> reads the printed text, hyphens included, back to the same key and prints nothing.
\<close>

theorem key_round_trip:
  assumes "key \<noteq> []" "length key \<le> 64" "3 * int (length key) \<le> buflen"
  shows "\<exists>t. iw_print_key buflen key (int (length key)) 0 = Inr t \<and> int (length t) < buflen \<and>
    iw_in_key t m = Inr (int (length key), key, m)"
proof -
  have t: "iw_print_key buflen key (int (length key)) 0 = Inr (groups key)" "int (length (groups key)) < buflen"
    using assms groups_length [OF assms(1)] by (auto simp: iw_print_key_def Let_def key_text_groups Suc_le_eq)
  have "\<not> starts_with [x, CHR '':''] (groups key)" if "x \<in> {CHR ''s'', CHR ''p''}" for x
    using that hex_char_not_letter [OF byte_div_16, of "hd key"] by (subst groups_start [OF assms(1)]) (auto simp: starts_with_def hex2_def)
  then have "iw_in_key (groups key) m = Inr (int (length key), key, m)"
    using in_key_loop_groups [of "[]" key] in_key_loop_start(1) [of "groups key" "[]"] assms by (simp add: iw_in_key_def)
  then show ?thesis using t by blast
qed

theorem key_round_trip_witness:
  "[0x12 :: byte, 0xAB, 0xCD] \<noteq> [] \<and> length [0x12 :: byte, 0xAB, 0xCD] \<le> 64 \<and> 3 * int (length [0x12 :: byte, 0xAB, 0xCD]) \<le> 192 \<and>
   (\<exists>t. iw_print_key 192 [0x12, 0xAB, 0xCD] (int (length [0x12 :: byte, 0xAB, 0xCD])) 0 = Inr t \<and> int (length t) < 192 \<and>
     iw_in_key t empty_msg = Inr (int (length [0x12 :: byte, 0xAB, 0xCD]), [0x12, 0xAB, 0xCD], empty_msg))"
  using key_round_trip [of "[0x12 :: byte, 0xAB, 0xCD]" 192 empty_msg] by simp

end
