(* ===== verification/Iw_Command.thy ===== *)
theory Iw_Command
  imports Iw_Lib
begin

unbundle bit_operations_syntax

text \<open>
  How \<^verbatim>\<open>src/jni/iwstatus.c\<close> reads the command line of \<open>iwconfig\<close>: the table of commands with the search for the command
  that is meant, and the modifiers that some commands take before their value. Both compare without regard to case.
\<close>

section \<open>Modifiers\<close>

definition IWERR_ARG_NUM :: int where "IWERR_ARG_NUM = -2"
definition IWERR_ARG_CONFLICT :: int where "IWERR_ARG_CONFLICT = -5"

record iwconfig_modifier =
  mod_cmd :: string
  mod_flag :: "16 word"
  mod_exclude :: "16 word"

definition IW_POWER_MIN :: "16 word" where "IW_POWER_MIN = 0x0001"
definition IW_POWER_MAX :: "16 word" where "IW_POWER_MAX = 0x0002"
definition IW_POWER_PERIOD :: "16 word" where "IW_POWER_PERIOD = 0x1000"
definition IW_POWER_TIMEOUT :: "16 word" where "IW_POWER_TIMEOUT = 0x2000"
definition IW_POWER_SAVING :: "16 word" where "IW_POWER_SAVING = 0x4000"

definition IW_RETRY_MIN :: "16 word" where "IW_RETRY_MIN = 0x0001"
definition IW_RETRY_MAX :: "16 word" where "IW_RETRY_MAX = 0x0002"
definition IW_RETRY_SHORT :: "16 word" where "IW_RETRY_SHORT = 0x0010"
definition IW_RETRY_LONG :: "16 word" where "IW_RETRY_LONG = 0x0020"
definition IW_RETRY_LIMIT :: "16 word" where "IW_RETRY_LIMIT = 0x1000"
definition IW_RETRY_LIFETIME :: "16 word" where "IW_RETRY_LIFETIME = 0x2000"

definition modifier :: "string \<Rightarrow> 16 word \<Rightarrow> 16 word \<Rightarrow> iwconfig_modifier" where
  "modifier c f e = \<lparr>mod_cmd = c, mod_flag = f, mod_exclude = e\<rparr>"

definition iwmod_power :: "iwconfig_modifier list" where
  "iwmod_power =
     [modifier ''min'' IW_POWER_MIN IW_POWER_MAX,
      modifier ''max'' IW_POWER_MAX IW_POWER_MIN,
      modifier ''period'' IW_POWER_PERIOD (IW_POWER_TIMEOUT OR IW_POWER_SAVING),
      modifier ''timeout'' IW_POWER_TIMEOUT (IW_POWER_PERIOD OR IW_POWER_SAVING),
      modifier ''saving'' IW_POWER_SAVING (IW_POWER_TIMEOUT OR IW_POWER_PERIOD)]"

definition iwmod_retry :: "iwconfig_modifier list" where
  "iwmod_retry =
     [modifier ''min'' IW_RETRY_MIN IW_RETRY_MAX,
      modifier ''max'' IW_RETRY_MAX IW_RETRY_MIN,
      modifier ''short'' IW_RETRY_SHORT IW_RETRY_LONG,
      modifier ''long'' IW_RETRY_LONG IW_RETRY_SHORT,
      modifier ''limit'' IW_RETRY_LIMIT IW_RETRY_LIFETIME,
      modifier ''lifetime'' IW_RETRY_LIFETIME IW_RETRY_LIMIT]"

text \<open>\<open>!strcasecmp(a, b)\<close> and \<open>!strncasecmp(a, b, strlen(b))\<close>\<close>

definition same_word :: "string \<Rightarrow> string \<Rightarrow> bool" where
  "same_word a b \<longleftrightarrow> map toupper a = map toupper b"

definition abbreviates :: "string \<Rightarrow> string \<Rightarrow> bool" where
  "abbreviates b a \<longleftrightarrow> map toupper (take (length b) a) = map toupper b"

text \<open>The inner loop: the first modifier with the name.\<close>

fun find_modifier :: "iwconfig_modifier list \<Rightarrow> string \<Rightarrow> iwconfig_modifier option" where
  "find_modifier [] a = None"
| "find_modifier (d # ds) a = (if same_word a (mod_cmd d) then Some d else find_modifier ds a)"

text \<open>What the function returns, with what it has stored in \<open>errarg\<close> and through \<open>pout\<close>.\<close>

record parsed =
  pm_result :: int
  pm_errarg :: "nat option"
  pm_out :: "16 word option"

text \<open>
  The outer loop with the rest of the arguments, of which \<open>i\<close> have been taken. It looks at the next
  argument before it counts, so that with no arguments it reads beyond them.
\<close>

fun modifier_loop :: "iwconfig_modifier list \<Rightarrow> nat \<Rightarrow> 16 word \<Rightarrow> string list \<Rightarrow> parsed res" where
  "modifier_loop ds i result [] = Inl OutOfBounds"
| "modifier_loop ds i result (a # as) =
     (case find_modifier ds a of
        None \<Rightarrow> Inr \<lparr>pm_result = int i, pm_errarg = None, pm_out = Some result\<rparr>
      | Some d \<Rightarrow>
          if result AND mod_exclude d \<noteq> 0
          then Inr \<lparr>pm_result = IWERR_ARG_CONFLICT, pm_errarg = Some i, pm_out = None\<rparr>
          else if as = [] then Inr \<lparr>pm_result = IWERR_ARG_NUM, pm_errarg = None, pm_out = None\<rparr>
          else modifier_loop ds (Suc i) (result OR mod_flag d) as)"

definition parse_modifiers :: "string list \<Rightarrow> iwconfig_modifier list \<Rightarrow> parsed res" where
  "parse_modifiers args ds = modifier_loop ds 0 0 args"

section \<open>Commands\<close>

datatype set_handler =
    set_essid_info | set_mode_info | set_freq_info | set_bitrate_info | set_enc_info | set_power_info | set_nick_info | set_nwid_info
  | set_apaddr_info | set_txpower_info | set_sens_info | set_retry_info | set_rts_info | set_frag_info | set_modulation_info | set_commit_info

record iwconfig_entry =
  cmd_name :: string
  cmd_fn :: set_handler
  cmd_min_count :: nat
  cmd_request :: nat
  cmd_title :: string
  cmd_argsname :: string

definition entry :: "string \<Rightarrow> set_handler \<Rightarrow> nat \<Rightarrow> nat \<Rightarrow> string \<Rightarrow> string \<Rightarrow> iwconfig_entry" where
  "entry c f n r t a = \<lparr>cmd_name = c, cmd_fn = f, cmd_min_count = n, cmd_request = r, cmd_title = t, cmd_argsname = a\<rparr>"

definition iwconfig_cmds :: "iwconfig_entry list" where
  "iwconfig_cmds =
     [entry ''essid'' set_essid_info 1 0x8B1A ''Set ESSID'' ''{NNN|any|on|off}'',
      entry ''mode'' set_mode_info 1 0x8B06 ''Set Mode'' ''{managed|ad-hoc|master|...}'',
      entry ''freq'' set_freq_info 1 0x8B04 ''Set Frequency'' ''N.NNN[k|M|G]'',
      entry ''channel'' set_freq_info 1 0x8B04 ''Set Frequency'' ''N'',
      entry ''bit'' set_bitrate_info 1 0x8B20 ''Set Bit Rate'' ''{N[k|M|G]|auto|fixed}'',
      entry ''rate'' set_bitrate_info 1 0x8B20 ''Set Bit Rate'' ''{N[k|M|G]|auto|fixed}'',
      entry ''enc'' set_enc_info 1 0x8B2A ''Set Encode'' ''{NNNN-NNNN|off}'',
      entry ''key'' set_enc_info 1 0x8B2A ''Set Encode'' ''{NNNN-NNNN|off}'',
      entry ''power'' set_power_info 1 0x8B2C ''Set Power Management'' ''{period N|timeout N|saving N|off}'',
      entry ''nickname'' set_nick_info 1 0x8B1C ''Set Nickname'' ''NNN'',
      entry ''nwid'' set_nwid_info 1 0x8B02 ''Set NWID'' ''{NN|on|off}'',
      entry ''ap'' set_apaddr_info 1 0x8B14 ''Set AP Address'' ''{N|off|auto}'',
      entry ''txpower'' set_txpower_info 1 0x8B26 ''Set Tx Power'' ''{NmW|NdBm|off|auto}'',
      entry ''sens'' set_sens_info 1 0x8B08 ''Set Sensitivity'' ''N'',
      entry ''retry'' set_retry_info 1 0x8B28 ''Set Retry Limit'' ''{limit N|lifetime N}'',
      entry ''rts'' set_rts_info 1 0x8B22 ''Set RTS Threshold'' ''{N|auto|fixed|off}'',
      entry ''frag'' set_frag_info 1 0x8B24 ''Set Fragmentation Threshold'' ''{N|auto|fixed|off}'',
      entry ''modulation'' set_modulation_info 1 0x8B2F ''Set Modulation'' ''{11g|11a|CCK|OFDMg|...}'',
      entry ''commit'' set_commit_info 0 0x8B00 ''Commit changes'' '''']"

text \<open>The loop of \<open>find_command\<close>: an exact match ends it at once (\<open>Inl\<close>), else \<open>found\<close> and \<open>ambig\<close> are left.\<close>

fun command_loop :: "string \<Rightarrow> iwconfig_entry list \<Rightarrow> iwconfig_entry option \<Rightarrow> bool \<Rightarrow> iwconfig_entry + (iwconfig_entry option \<times> bool)" where
  "command_loop c [] found ambig = Inr (found, ambig)"
| "command_loop c (e # es) found ambig =
     (if \<not> abbreviates c (cmd_name e) then command_loop c es found ambig
      else if length c = length (cmd_name e) then Inl e
      else case found of
        None \<Rightarrow> command_loop c es (Some e) ambig
      | Some d \<Rightarrow> command_loop c es found (ambig \<or> cmd_fn e \<noteq> cmd_fn d))"

definition quoted :: "string \<Rightarrow> string" where
  "quoted c = [CHR 0x22] @ c @ [CHR 0x22]"

definition unknown_text :: "string \<Rightarrow> string" where
  "unknown_text c = ''iwconfig: unknown command '' @ quoted c @ [newline]"

definition ambiguous_text :: "string \<Rightarrow> string" where
  "ambiguous_text c = ''iwconfig: command '' @ quoted c @ '' is ambiguous'' @ [newline]"

definition find_command :: "string \<Rightarrow> msg \<Rightarrow> (iwconfig_entry option \<times> msg) res" where
  "find_command c m =
     (case command_loop c iwconfig_cmds None False of
        Inl e \<Rightarrow> Inr (Some e, m)
      | Inr (None, _) \<Rightarrow> rbind (printfit (unknown_text c) m) (\<lambda>m'. Inr (None, m'))
      | Inr (Some d, True) \<Rightarrow> rbind (printfit (ambiguous_text c) m) (\<lambda>m'. Inr (None, m'))
      | Inr (Some d, False) \<Rightarrow> Inr (Some d, m))"

definition usage_lines :: "string list" where
  "usage_lines =
     [''Usage: iwconfig [interface]'' @ [newline]] @
     map (\<lambda>e. ''                interface '' @ cmd_name e @ '' '' @ cmd_argsname e @ [newline]) iwconfig_cmds @
     [''       Check man pages for more details.'' @ [newline]]"

definition iw_usage :: "msg \<Rightarrow> msg res" where
  "iw_usage m = print_all usage_lines m"

section \<open>Which command is meant\<close>

definition candidates :: "string \<Rightarrow> iwconfig_entry list \<Rightarrow> iwconfig_entry list" where
  "candidates c es = filter (\<lambda>e. abbreviates c (cmd_name e)) es"

text \<open>The command of that name, or the first that is abbreviated if all that are have the same handler.\<close>

definition meant :: "string \<Rightarrow> iwconfig_entry list \<Rightarrow> iwconfig_entry option" where
  "meant c es =
     (case filter (\<lambda>e. same_word c (cmd_name e)) es of
        e # _ \<Rightarrow> Some e
      | [] \<Rightarrow> (case candidates c es of
          [] \<Rightarrow> None
        | d # ds \<Rightarrow> if \<forall>e \<in> set ds. cmd_fn e = cmd_fn d then Some d else None))"

lemma same_word_iff: "same_word c n \<longleftrightarrow> abbreviates c n \<and> length c = length n"
  using map_eq_imp_length_eq [of toupper c toupper n] by (auto simp: same_word_def abbreviates_def)

lemma command_loop_eq:
  "command_loop c es found ambig =
     (case filter (\<lambda>e. same_word c (cmd_name e)) es of
        e # _ \<Rightarrow> Inl e
      | [] \<Rightarrow> (case found of
          Some d \<Rightarrow> Inr (Some d, ambig \<or> (\<exists>e \<in> set (candidates c es). cmd_fn e \<noteq> cmd_fn d))
        | None \<Rightarrow> (case candidates c es of
            [] \<Rightarrow> Inr (None, ambig)
          | d # ds \<Rightarrow> Inr (Some d, ambig \<or> (\<exists>e \<in> set ds. cmd_fn e \<noteq> cmd_fn d)))))"
  by (induction es arbitrary: found ambig) (auto simp: same_word_iff candidates_def split: option.split list.split)

lemma quoted_printable:
  assumes "nul \<notin> set c" "length c \<le> 1000000"
  shows "printable (unknown_text c)" "printable (ambiguous_text c)"
  using assms by (auto simp: printable_def unknown_text_def ambiguous_text_def quoted_def nul_def newline_def)

lemma command_names:
  "map (map toupper \<circ> cmd_name) iwconfig_cmds =
     [''ESSID'', ''MODE'', ''FREQ'', ''CHANNEL'', ''BIT'', ''RATE'', ''ENC'', ''KEY'', ''POWER'', ''NICKNAME'',
      ''NWID'', ''AP'', ''TXPOWER'', ''SENS'', ''RETRY'', ''RTS'', ''FRAG'', ''MODULATION'', ''COMMIT'']"
  by (simp add: iwconfig_cmds_def entry_def toupper_def char_of_eq_iff)

lemma command_names_distinct: "distinct (map (map toupper \<circ> cmd_name) iwconfig_cmds)"
  unfolding command_names by simp

lemma own_name_first:
  assumes "e \<in> set es" "same_word c (cmd_name e)" "distinct (map (map toupper \<circ> cmd_name) es)"
  shows "filter (\<lambda>e. same_word c (cmd_name e)) es = [e]"
  using assms
proof (induction es)
  case (Cons d es)
  then show ?case by (cases "same_word c (cmd_name d)") (auto simp: same_word_def filter_empty_conv image_iff)
qed simp

text \<open>
  C37. The search for a command finds the one that is meant: the command with that name, in any case; otherwise the first that begins with the
  text, provided that all commands that do have the same handler. Otherwise it returns nothing and appends to
  the message that the command is unknown, if no name begins with the text, or else that it is ambiguous.
\<close>

theorem find_command_meant:
  assumes "holds s m" and "nul \<notin> set c" and "length c \<le> 1000000"
  shows "(\<exists>m'. find_command c m = Inr (meant c iwconfig_cmds, m') \<and>
      holds (s @ (if meant c iwconfig_cmds \<noteq> None then [] else if candidates c iwconfig_cmds = [] then unknown_text c else ambiguous_text c)) m') \<and>
    (\<forall>e. e \<in> set iwconfig_cmds \<and> same_word c (cmd_name e) \<longrightarrow> meant c iwconfig_cmds = Some e)"
proof (intro conjI allI impI)
  obtain m1 m2 where 1: "printfit (unknown_text c) m = Inr m1" "holds (s @ unknown_text c) m1"
    and 2: "printfit (ambiguous_text c) m = Inr m2" "holds (s @ ambiguous_text c) m2"
    using printfit_holds [OF assms(1)] quoted_printable [OF assms(2,3)] by metis
  then show "\<exists>m'. find_command c m = Inr (meant c iwconfig_cmds, m') \<and>
      holds (s @ (if meant c iwconfig_cmds \<noteq> None then [] else if candidates c iwconfig_cmds = [] then unknown_text c else ambiguous_text c)) m'"
    using assms(1) by (auto simp: find_command_def command_loop_eq meant_def split: list.split bool.split)
  show "meant c iwconfig_cmds = Some e" if "e \<in> set iwconfig_cmds \<and> same_word c (cmd_name e)" for e
    using own_name_first [OF _ _ command_names_distinct, of e c] that by (simp add: meant_def)
qed

theorem find_command_meant_witness:
  "(\<exists>m'. find_command ''Key'' (msg_reset empty_msg) = Inr (Some (entry ''key'' set_enc_info 1 0x8B2A ''Set Encode'' ''{NNNN-NNNN|off}''), m') \<and> holds [] m')"
proof -
  let ?e = "entry ''key'' set_enc_info 1 0x8B2A ''Set Encode'' ''{NNNN-NNNN|off}''"
  have h: "holds [] (msg_reset empty_msg)" by (rule holds_reset) (simp add: empty_msg_def)
  have n: "nul \<notin> set ''Key''" "length ''Key'' \<le> 1000000" by (simp_all add: nul_def)
  note w = find_command_meant [OF h n]
  have "same_word ''Key'' (cmd_name ?e)" by code_simp
  then have "meant ''Key'' iwconfig_cmds = Some ?e"
    by (intro w [THEN conjunct2, rule_format] conjI) (simp_all add: iwconfig_cmds_def)
  then show ?thesis using w [THEN conjunct1] by simp
qed

section \<open>Modifiers that exclude each other\<close>

text \<open>The modifiers at the beginning of the arguments, their flags, and the places of those that an earlier one excludes.\<close>

definition leading :: "iwconfig_modifier list \<Rightarrow> string list \<Rightarrow> iwconfig_modifier list" where
  "leading ds args = map (the \<circ> find_modifier ds) (takeWhile (\<lambda>a. find_modifier ds a \<noteq> None) args)"

definition all_flags :: "iwconfig_modifier list \<Rightarrow> 16 word" where
  "all_flags ms = foldr (\<lambda>d r. mod_flag d OR r) ms 0"

definition clash :: "iwconfig_modifier list \<Rightarrow> nat \<Rightarrow> bool" where
  "clash ms j \<longleftrightarrow> j < length ms \<and> (\<exists>i < j. mod_flag (ms ! i) AND mod_exclude (ms ! j) \<noteq> 0)"

text \<open>The places at which the loop finds a conflict, with the flags from before.\<close>

definition conflict_at :: "16 word \<Rightarrow> iwconfig_modifier list \<Rightarrow> nat \<Rightarrow> bool" where
  "conflict_at r ms j \<longleftrightarrow> j < length ms \<and> (r OR all_flags (take j ms)) AND mod_exclude (ms ! j) \<noteq> 0"

lemma or_and_zero: "(a OR b) AND (x :: 16 word) = 0 \<longleftrightarrow> a AND x = 0 \<and> b AND x = 0"
  by (auto simp: bit_eq_iff bit_and_iff bit_or_iff)

lemma all_flags_and: "all_flags ms AND x = 0 \<longleftrightarrow> (\<forall>d \<in> set ms. mod_flag d AND x = 0)"
  by (induction ms) (auto simp: all_flags_def or_and_zero)

lemma conflict_at_clash: "conflict_at 0 ms j \<longleftrightarrow> clash ms j"
  by (auto simp: conflict_at_def clash_def all_flags_and all_set_conv_all_nth) (meson less_trans)

lemma conflict_at_0: "conflict_at r (d # ms) 0 \<longleftrightarrow> r AND mod_exclude d \<noteq> 0"
  by (simp add: conflict_at_def all_flags_def)

lemma conflict_at_Suc: "conflict_at r (d # ms) (Suc j) \<longleftrightarrow> conflict_at (r OR mod_flag d) ms j"
  by (simp add: conflict_at_def all_flags_def or.assoc)

lemma leading_simps:
  "leading ds [] = []"
  "leading ds (a # as) = (case find_modifier ds a of None \<Rightarrow> [] | Some d \<Rightarrow> d # leading ds as)"
  by (auto simp: leading_def split: option.split)

lemma modifier_loop_conflict:
  "conflict_at r (leading ds args) j \<Longrightarrow> \<forall>k < j. \<not> conflict_at r (leading ds args) k \<Longrightarrow>
   modifier_loop ds i r args = Inr \<lparr>pm_result = IWERR_ARG_CONFLICT, pm_errarg = Some (i + j), pm_out = None\<rparr>"
proof (induction args arbitrary: i r j)
  case Nil
  then show ?case by (simp add: conflict_at_def leading_simps)
next
  case (Cons a as)
  then obtain d where d: "find_modifier ds a = Some d"
    by (cases "find_modifier ds a") (auto simp: conflict_at_def leading_simps)
  show ?case
  proof (cases j)
    case 0
    then show ?thesis using Cons.prems d by (simp add: leading_simps conflict_at_0)
  next
    case (Suc j')
    have n: "r AND mod_exclude d = 0" using Cons.prems(2) Suc d conflict_at_0 by (fastforce simp: leading_simps)
    have c: "conflict_at (r OR mod_flag d) (leading ds as) j'" using Cons.prems(1) Suc d by (simp add: leading_simps conflict_at_Suc)
    have k: "\<forall>k < j'. \<not> conflict_at (r OR mod_flag d) (leading ds as) k"
      using Cons.prems(2) Suc d by (auto simp: leading_simps conflict_at_Suc [symmetric])
    have "as \<noteq> []" using c by (auto simp: conflict_at_def leading_simps)
    then show ?thesis using Cons.IH [OF c k, of "Suc i"] n d Suc by simp
  qed
qed

lemma modifier_loop_ok:
  "\<forall>k. \<not> conflict_at r (leading ds args) k \<Longrightarrow> args \<noteq> [] \<Longrightarrow>
   modifier_loop ds i r args =
     Inr (if length (leading ds args) = length args
          then \<lparr>pm_result = IWERR_ARG_NUM, pm_errarg = None, pm_out = None\<rparr>
          else \<lparr>pm_result = int (i + length (leading ds args)), pm_errarg = None, pm_out = Some (r OR all_flags (leading ds args))\<rparr>)"
proof (induction args arbitrary: i r)
  case (Cons a as)
  show ?case
  proof (cases "find_modifier ds a")
    case None
    then show ?thesis by (simp add: leading_simps all_flags_def)
  next
    case (Some d)
    have n: "r AND mod_exclude d = 0" using Cons.prems(1) Some conflict_at_0 by (fastforce simp: leading_simps)
    have k: "\<forall>k. \<not> conflict_at (r OR mod_flag d) (leading ds as) k"
      using Cons.prems(1) Some by (auto simp: leading_simps conflict_at_Suc [symmetric])
    show ?thesis
    proof (cases "as = []")
      case True
      then show ?thesis using n Some by (simp add: leading_simps)
    next
      case False
      then show ?thesis using Cons.IH [OF k False, of "Suc i"] n Some by (simp add: leading_simps all_flags_def or.assoc)
    qed
  qed
qed simp

text \<open>The tables: exclusion is mutual, and a flag belongs to one modifier.\<close>

definition exclusion_ok :: "iwconfig_modifier list \<Rightarrow> bool" where
  "exclusion_ok ds \<longleftrightarrow>
     list_all (\<lambda>d. list_all (\<lambda>e. (mod_flag d AND mod_exclude e = 0 \<longleftrightarrow> mod_flag e AND mod_exclude d = 0) \<and>
       (mod_flag d AND mod_flag e \<noteq> 0 \<longrightarrow> d = e)) ds) ds"

lemma tables_ok: "exclusion_ok iwmod_power" "exclusion_ok iwmod_retry"
  by code_simp+

lemma find_modifier_in: "find_modifier ds a = Some d \<Longrightarrow> d \<in> set ds"
  by (induction ds) (auto split: if_splits)

lemma leading_in: "set (leading ds args) \<subseteq> set ds"
proof (induction args)
  case (Cons a as)
  then show ?case using find_modifier_in [of ds a] by (cases "find_modifier ds a") (auto simp: leading_simps)
qed (simp add: leading_simps)

lemma exclusive_flags:
  assumes "exclusion_ok ds" "set ms \<subseteq> set ds" "\<forall>j. \<not> clash ms j" "d \<in> set ds" "all_flags ms AND mod_flag d \<noteq> 0" "mod_flag d AND mod_exclude d = 0"
  shows "all_flags ms AND mod_exclude d = 0"
proof -
  have sym: "mod_flag x AND mod_exclude y = 0 \<longleftrightarrow> mod_flag y AND mod_exclude x = 0"
    and one: "mod_flag x AND mod_flag y \<noteq> 0 \<Longrightarrow> x = y" if "x \<in> set ds" "y \<in> set ds" for x y
    using assms(1) that by (auto simp: exclusion_ok_def list_all_iff)
  obtain x where "x \<in> set ms" "mod_flag x AND mod_flag d \<noteq> 0" using assms(5) by (auto simp: all_flags_and)
  then have "d \<in> set ms" using one [of x d] assms(2,4) by auto
  then obtain i where i: "i < length ms" "ms ! i = d" by (auto simp: in_set_conv_nth)
  have "mod_flag (ms ! j) AND mod_exclude d = 0" if j: "j < length ms" for j
  proof -
    have in_ds: "ms ! j \<in> set ds" using assms(2) j by auto
    consider "j < i" | "j = i" | "i < j" by linarith
    then show ?thesis
    proof cases
      case 1
      then show ?thesis using assms(3) i by (auto simp: clash_def)
    next
      case 2
      then show ?thesis using i assms(6) by simp
    next
      case 3
      then have "mod_flag d AND mod_exclude (ms ! j) = 0" using assms(3) i j by (auto simp: clash_def)
      then show ?thesis using sym [OF assms(4) in_ds] by simp
    qed
  qed
  then show ?thesis by (auto simp: all_flags_and in_set_conv_nth)
qed

lemma tables_self: "list_all (\<lambda>d. mod_flag d AND mod_exclude d = 0) (iwmod_power @ iwmod_retry)"
  by code_simp

text \<open>
  C38. \<open>parse_modifiers\<close> reads the modifiers at the beginning of its arguments, of which there must be one. If one of
  them is excluded by an earlier one it reports a conflict and points at the first such argument; if nothing follows the modifiers it
  asks for more arguments; else it returns their number and their flags together. With the tables for power
  management and for retries these flags never contain two that exclude each other.
\<close>

theorem modifiers_exclusive:
  assumes "ds = iwmod_power \<or> ds = iwmod_retry" and "args \<noteq> []"
  shows "\<exists>p. parse_modifiers args ds = Inr p \<and>
    (pm_result p = IWERR_ARG_CONFLICT \<longleftrightarrow> (\<exists>j. clash (leading ds args) j)) \<and>
    (pm_result p = IWERR_ARG_CONFLICT \<longrightarrow> pm_errarg p = Some (LEAST j. clash (leading ds args) j)) \<and>
    (0 \<le> pm_result p \<longrightarrow> pm_result p = int (length (leading ds args)) \<and> length (leading ds args) < length args \<and>
      pm_out p = Some (all_flags (leading ds args)) \<and>
      (\<forall>d \<in> set ds. all_flags (leading ds args) AND mod_flag d \<noteq> 0 \<longrightarrow> all_flags (leading ds args) AND mod_exclude d = 0))"
proof (cases "\<exists>j. clash (leading ds args) j")
  case True
  define j where "j = (LEAST j. clash (leading ds args) j)"
  have "conflict_at 0 (leading ds args) j" "\<forall>k < j. \<not> conflict_at 0 (leading ds args) k"
    unfolding conflict_at_clash j_def using LeastI_ex [OF True] not_less_Least [of _ "clash (leading ds args)"] by blast+
  then have "parse_modifiers args ds = Inr \<lparr>pm_result = IWERR_ARG_CONFLICT, pm_errarg = Some (0 + j), pm_out = None\<rparr>"
    unfolding parse_modifiers_def by (rule modifier_loop_conflict)
  then show ?thesis using True by (simp add: j_def IWERR_ARG_CONFLICT_def)
next
  case False
  then have ok: "\<forall>k. \<not> conflict_at 0 (leading ds args) k" by (simp add: conflict_at_clash)
  have len: "length (leading ds args) \<le> length args" by (simp add: leading_def length_takeWhile_le)
  have "exclusion_ok ds" "\<forall>d \<in> set ds. mod_flag d AND mod_exclude d = 0"
    using assms(1) tables_ok tables_self by (auto simp: list_all_iff)
  then have ex: "\<forall>d \<in> set ds. all_flags (leading ds args) AND mod_flag d \<noteq> 0 \<longrightarrow> all_flags (leading ds args) AND mod_exclude d = 0"
    using exclusive_flags [OF _ leading_in] False by blast
  show ?thesis using modifier_loop_ok [OF ok assms(2), of 0] False len ex
    by (auto simp: parse_modifiers_def IWERR_ARG_CONFLICT_def IWERR_ARG_NUM_def)
qed

theorem modifiers_exclusive_witness:
  "(iwmod_power = iwmod_power \<or> iwmod_power = iwmod_retry) \<and> [''max'', ''period'', ''2''] \<noteq> [] \<and>
   (\<exists>p. parse_modifiers [''max'', ''period'', ''2''] iwmod_power = Inr p \<and> pm_result p = 2 \<and> pm_out p = Some 0x1002 \<and>
     pm_out p = Some (all_flags (leading iwmod_power [''max'', ''period'', ''2''])))"
proof (intro conjI)
  have c: "parse_modifiers [''max'', ''period'', ''2''] iwmod_power = Inr \<lparr>pm_result = 2, pm_errarg = None, pm_out = Some 0x1002\<rparr>"
    by (simp add: parse_modifiers_def iwmod_power_def modifier_def same_word_def toupper_def char_of_eq_iff IW_POWER_MIN_def IW_POWER_MAX_def
      IW_POWER_PERIOD_def IW_POWER_TIMEOUT_def IW_POWER_SAVING_def)
  have a: "iwmod_power = iwmod_power \<or> iwmod_power = iwmod_retry" "[''max'', ''period'', ''2''] \<noteq> []" by simp_all
  obtain p where p: "parse_modifiers [''max'', ''period'', ''2''] iwmod_power = Inr p"
    and o: "0 \<le> pm_result p \<Longrightarrow> pm_out p = Some (all_flags (leading iwmod_power [''max'', ''period'', ''2'']))"
    using modifiers_exclusive [OF a] by blast
  have "p = \<lparr>pm_result = 2, pm_errarg = None, pm_out = Some 0x1002\<rparr>" using p unfolding c by (rule sum.inject(2) [THEN iffD1, symmetric])
  then have "pm_result p = 2" "pm_out p = Some 0x1002" by simp_all
  then show "\<exists>p. parse_modifiers [''max'', ''period'', ''2''] iwmod_power = Inr p \<and> pm_result p = 2 \<and> pm_out p = Some 0x1002 \<and>
     pm_out p = Some (all_flags (leading iwmod_power [''max'', ''period'', ''2'']))" using p o by (intro exI [of _ p]) simp
qed simp_all

end
