(* ===== verification/Spec2Isabelle.thy ===== *)
theory Spec2Isabelle
  imports Ipq_Main Sqlite_Encode Edify_Install Edify_Test Gsm_Jni Echo_Jni Iw_Ifconfig Iw_Command
begin

text \<open>
  Verification of the native code of CrowdShare, \<^verbatim>\<open>src/jni\<close>: the C programs and libraries that the
  Android application builds with \<^verbatim>\<open>src/jni/Android.mk\<close>.

  \<^bold>\<open>The program.\<close> CrowdShare shares network connections between phones. A packet filter process
  (\<^verbatim>\<open>ipqserver/server.c\<close>, over \<^verbatim>\<open>libipq/libipq.c\<close>) takes packets from the kernel's queue, asks the Java
  side whether a destination is authorised, and remembers the answers for ten minutes. A script
  interpreter (\<^verbatim>\<open>adhoc-edify\<close>) sets up the ad hoc network. Calls are coded with the GSM 06.10 codec of
  spandsp (\<^verbatim>\<open>spandsp/gsm0610_*.c\<close>) behind native methods (\<^verbatim>\<open>gsm_jni.cpp\<close>), and cleaned of echo by the Oslec
  canceller (\<^verbatim>\<open>oslec-jni/echo.c\<close>, with \<^verbatim>\<open>jni.c\<close>). A small encoder
  (\<^verbatim>\<open>sqlite3/encode.c\<close>) makes binary data fit for SQL text.

  \<^bold>\<open>Ground.\<close> \<open>CS_Prelude\<close> has the faults, the result type \<open>res\<close> and total correctness (\<open>returns\<close>);
  \<open>CS_CLib\<close> the functions of the C library that are called. Everything C leaves undefined that the
  code can run into (null and dangling pointers, bounds, uninitialised reads) and every failing
  assertion is a value \<open>Inl\<close> of the result type, so that a theorem that a function returns also says
  that none of them happens. Integers of the codec are \<open>int\<close> with the wrap-around to 16 and 32 bits
  (\<open>i16\<close>, \<open>i32\<close>) or the saturation written where the code has it; the other components use words.

  \<^bold>\<open>Packet filter.\<close> \<open>Ipq_History\<close> models the linked list of authorisations on an explicit heap, each
  operation of \<^verbatim>\<open>server.c\<close> a definition of the same name; loops over the list are
  \<open>partial_function (option)\<close>, so that a cyclic list would be \<open>None\<close>. \<open>Ipq_Monitor\<close> has the operations as
  steps of reader, cleaner and clock: in every reachable state the search decides exactly who was
  authorised in time, and the races and lifetime errors are located. \<open>Libipq\<close> has the requests,
  verdicts and checked reads of the library; sizes of kernel structures are parameters. \<open>Ipq_Server\<close> has the
  sender and reader threads and the Java end of the line protocol: the protocol's round trip and
  that an answer authorises. \<open>Ipq_Main\<close> has set-up, the connection's process and \<open>main\<close>, with the events
  they cause: descriptors are closed on every way out.

  \<^bold>\<open>Encoder for SQL text.\<close> \<open>Sqlite_Encode\<close>: round trip, size and contents of the output, minimality of the
  offset, decoding in place.

  \<^bold>\<open>Scripts.\<close> \<open>Edify_Expr\<close> has the interpreter and its built-in functions, and the locale
  \<open>edify_function\<close>, the contract of a function that is called from a script, interpreted for every
  function; \<open>Edify_Install\<close> the functions that change the system, over a record of it, and \<open>main\<close>. The
  depth of evaluation is bounded by the expression. Floating-point formatting is a parameter.
  The text of a script becomes an expression by the generated code in \<^verbatim>\<open>edify/lex.yy.c\<close> and \<^verbatim>\<open>edify/y.tab.c\<close>, which the
  build compiles and which is modelled as it stands, tables included. \<open>Edify_Parser\<close> has bison's automaton: decisions, reductions with their
  actions, error recovery and reports; its loop is a \<open>partial_function (option)\<close>. \<open>Edify_Grammar\<close> states the language of \<^verbatim>\<open>parser.y\<close> with its
  precedences without an automaton; \<open>Edify_Reduce\<close> and \<open>Edify_Parse\<close> show by an invariant of the stack and a decreasing
  measure that the parser returns on every input and accepts nothing else, and \<open>Edify_Complete\<close> that it accepts all of it, up to the 4995
  tokens for which the stack of \<open>YYMAXDEPTH\<close> suffices whatever their order. \<open>Edify_Lexer\<close> has flex's scanner with its actions (the chain of default states is at most
  four long, which is the fuel of \<open>yy_next_n\<close>), \<open>Edify_Scan\<close> shows that its compressed tables find longest matches, and \<open>Edify_Tokens\<close> that its tokens are what the
  parser expects, in order and inside the script. \<open>Edify_Script\<close> puts scanner and parser together; \<open>Edify_Test\<close> is the
  test driver.

  \<^bold>\<open>Codec.\<close> \<open>Gsm_Arith\<close> has the fixed-point arithmetic (\<^verbatim>\<open>saturated.h\<close>, \<^verbatim>\<open>gsm0610_local.h\<close>,
  \<^verbatim>\<open>bit_operations.h\<close>), \<open>Gsm_Array\<close> arrays of samples and their loops. \<open>Gsm_Pack\<close> and \<open>Gsm_Wav49\<close> have the
  three packings, with the locales \<open>frame_packing\<close> and \<open>masked_packing\<close> as their contract towards the
  codec. \<open>Gsm_State\<close> has the state and its invariant \<open>codec_ok\<close>. \<open>Gsm_Signal\<close> (pre- and postprocessing),
  \<open>Gsm_Lpc\<close>, \<open>Gsm_Short_Term\<close>, \<open>Gsm_Long_Term\<close> and \<open>Gsm_Rpe\<close> are one theory per source file, each with a
  lemma that its entry points return on every input of the right size and range and keep the
  invariant, and with its own theorems: exact sums, the optimal lag, the largest grid, conversions that
  belong together. \<open>Gsm_Codec\<close> composes them as \<open>encode_a_frame\<close> and \<open>decode_a_frame\<close> do and shows
  that the decoder reconstructs the encoder's own residual (\<open>follows\<close>). \<open>Gsm_Stream\<close> lifts this to buffers: the
  locales \<open>block_stream\<close> and \<open>block_decoder\<close> treat the loops once, and are interpreted for each packing.
  \<open>Gsm_Jni\<close> has the native methods, with the virtual machine's array regions as a parameter. The loops over
  buffers are \<open>function\<close>s that end because the rest of the buffer gets shorter; none needs fuel. Where the
  source has a branch for x86 with MMX and a portable one, the portable one, which the ARM
  build compiles, is modelled.

  \<^bold>\<open>Echo canceller.\<close> \<open>Echo_Fir\<close> has the FIR filter with its circular history and the adaption of coefficients, and shows
  that the one is a convolution over a delay line and the other adapts each coefficient by the sample the filter
  multiplied it by. \<open>Echo_Can\<close> has the state, its creation and flush, and one definition per section of
  \<open>echo_can_update\<close>; the invariant \<open>ec_ok\<close> says that the two filters and the canceller stay in step, and an update is
  related to the delay line by \<open>update_spec\<close>. The bound of \<open>2 ^ 28\<close> taps keeps all shifts in range whatever the
  power estimate is. \<open>Echo_Jni\<close> has the native methods on byte arrays.

  \<^bold>\<open>Interfaces.\<close> \<open>Iw_Text\<close> has the message buffer of \<^verbatim>\<open>iwstatus.c\<close>, which refines a string cut after 8190 characters,
  and the splitting of a command line. \<open>Iw_Ifconfig\<close> has \<open>main_ifconfig\<close> and the native method \<open>ifstatus\<close> over
  a record of the kernel, in which the answers to requests may depend on all earlier requests. \<open>Iw_Lib\<close> has the hardware addresses and
  encryption keys of \<^verbatim>\<open>wireless-tools/iwlib.c\<close> as text in both directions, and \<open>Iw_Command\<close> the command table of \<open>iwconfig\<close> with the search for a command
  and the parsing of modifiers.

  \<^bold>\<open>Not modelled.\<close> The handlers of the single \<open>iwconfig\<close> commands and the display of wireless settings, which are system calls with
  floating-point values, and the other wireless tools; \<^verbatim>\<open>ifconfig.c\<close>, an earlier copy of \<open>main_ifconfig\<close>;
  third-party codecs that are not built; \<^verbatim>\<open>OSNetworkSystem.cpp\<close>; the kernel, the virtual machine
  and the Java application beyond its end of the packet filter protocol. Messages printed for
  debugging are left out.
\<close>

end
